(* ===== verification/Prelude.thy ===== *)
theory Prelude
  imports Main "HOL-Library.Word" "HOL-Library.Monad_Syntax"
begin

text \<open>
  Shared vocabulary of the development: names for the C integer types, the collection
  \<open>board\<close> of the board's constants, and the generic facts on words, lists and bits that the
  components use. Nothing here models a part of the kernel except \<open>round_up\<close> and
  \<open>PAGE_SIZE\<close> (\<open>include/kernel/pmm.h\<close>), which every memory component needs.
\<close>

unbundle bit_operations_syntax

type_synonym u8 = "8 word"
type_synonym u16 = "16 word"
type_synonym u32 = "32 word"
type_synonym u64 = "64 word"

named_theorems board "defining equations of the constants of board.h and friends"
named_theorems frame "what an operation of a component leaves unchanged"

section \<open>Page arithmetic\<close>

definition PAGE_SIZE :: u64 where [board]: "PAGE_SIZE = 4096"

definition round_up :: "u64 \<Rightarrow> u64 \<Rightarrow> u64" where
  "round_up val align = (val + align - 1) AND NOT (align - 1)"

abbreviation page_aligned :: "u64 \<Rightarrow> bool" where
  "page_aligned a \<equiv> 4096 dvd unat a"

section \<open>Words and bits\<close>

lemma mask_word_simps:
  "(0xFFF :: u64) = mask 12" "(0x1FF :: u64) = mask 9" "(3 :: u64) = mask 2"
  by (simp_all add: mask_eq_exp_minus_1)

lemma unat_drop_bit: "unat (drop_bit n (x :: 'a::len word)) = unat x div 2 ^ n"
  unfolding unat_drop_bit_eq by (simp add: drop_bit_eq_div)

lemma unat_and_mask: "unat (x AND mask n :: 'a::len word) = unat x mod 2 ^ n"
  by (simp add: unsigned_and_eq flip: take_bit_eq_mod take_bit_eq_mask)
     (simp add: unsigned_take_bit_eq flip: take_bit_eq_mask)

lemma and_not_mask_eq: "x AND NOT (mask n) = push_bit n (drop_bit n (x :: 'a::len word))"
  by (rule bit_word_eqI) (auto simp: bit_simps)

lemma unat_and_not_mask: "unat (x AND NOT (mask n) :: 'a::len word) = unat x div 2 ^ n * 2 ^ n"
proof -
  have "unat x div 2 ^ n * 2 ^ n < 2 ^ LENGTH('a)"
    by (rule order_le_less_trans [OF div_times_less_eq_dividend]) (rule unsigned_less)
  then show ?thesis
    unfolding and_not_mask_eq unsigned_push_bit_eq unat_drop_bit
    by (simp add: push_bit_eq_mult take_bit_eq_mod)
qed

lemma field_index: "unat ((drop_bit k va) AND 0x1FF :: u64) = unat va div 2 ^ k mod 512"
  by (simp add: mask_word_simps unat_and_mask unat_drop_bit)

lemma round_up_page:
  assumes "unat a + 4095 < 2 ^ 64"
  shows "unat (round_up a PAGE_SIZE) = (unat a + 4095) div 4096 * 4096"
proof -
  have "unat (a + 4095 :: u64) = unat a + 4095"
    using assms by (simp add: unat_word_ariths)
  moreover have "round_up a PAGE_SIZE = (a + 4095) AND NOT (mask 12)"
    by (simp add: round_up_def PAGE_SIZE_def add.commute flip: mask_word_simps)
  ultimately show ?thesis
    by (simp add: unat_and_not_mask)
qed

lemma unat_plus: "unat x + unat y < 2 ^ 64 \<Longrightarrow> unat (x + y :: u64) = unat x + unat y"
  by (simp add: unat_word_ariths)

lemma bit_push_1: "bit (push_bit n (1 :: 'a::len word)) m \<longleftrightarrow> m = n \<and> n < LENGTH('a)"
  by (auto simp: bit_simps)

lemma unat_of_nat_small: "n < 2 ^ LENGTH('a::len) \<Longrightarrow> unat (of_nat n :: 'a word) = n"
  by (simp add: unsigned_of_nat take_bit_nat_eq_self)

lemma unat_ucast_wider:
  assumes "LENGTH('a) \<le> LENGTH('b)"
  shows "unat (ucast (w :: 'a::len word) :: 'b::len word) = unat w"
proof -
  have "unat w < 2 ^ LENGTH('a)" by (rule unsigned_less)
  also have "\<dots> \<le> 2 ^ LENGTH('b)" using assms by simp
  finally show ?thesis by (simp add: unsigned_ucast_eq take_bit_nat_eq_self)
qed

lemma unat_lt32: "unat (w :: u32) < 2 ^ 32"
proof -
  have "unat w < 2 ^ LENGTH(32)" by (rule unsigned_less)
  then show ?thesis by simp
qed

section \<open>Searching lists of consecutive numbers\<close>

lemma find_append: "find P (xs @ ys) = (case find P xs of None \<Rightarrow> find P ys | Some x \<Rightarrow> Some x)"
  by (induction xs) auto

lemma find_upt_takeWhile:
  "find P [0..<n] = (let m = length (takeWhile (\<lambda>i. \<not> P i) [0..<n]) in if m < n then Some m else None)"
proof (induction n)
  case (Suc n)
  show ?case
  proof (cases "\<forall>x \<in> set [0..<n]. \<not> P x")
    case True
    then have "takeWhile (\<lambda>i. \<not> P i) [0..<n] = [0..<n]"
      by (simp add: takeWhile_eq_all_conv)
    with Suc.IH True show ?thesis
      by (simp add: Let_def find_append takeWhile_append)
  next
    case False
    then have "takeWhile (\<lambda>i. \<not> P i) [0..<n] \<noteq> [0..<n]"
      by (simp add: takeWhile_eq_all_conv)
    then have "length (takeWhile (\<lambda>i. \<not> P i) [0..<n]) < n"
      by (metis diff_zero length_takeWhile_le length_upt nat_less_le takeWhile_eq_take take_all order_refl)
    with Suc.IH False show ?thesis
      by (auto simp: Let_def find_append takeWhile_append)
  qed
qed simp

lemma find_shift: "find P [a..<a + n] = map_option (\<lambda>i. a + i) (find (\<lambda>i. P (a + i)) [0..<n])"
proof -
  have "[a..<a + n] = map (\<lambda>i. a + i) [0..<n]"
    using map_add_upt [of a n] by (simp add: add.commute)
  moreover have "find P (map f xs) = map_option f (find (P \<circ> f) xs)" for f :: "nat \<Rightarrow> nat" and xs
    by (induction xs) auto
  ultimately show ?thesis by (simp add: comp_def)
qed

lemma find_upt_Some_iff:
  "find P [a..<b] = Some m \<longleftrightarrow> a \<le> m \<and> m < b \<and> P m \<and> (\<forall>j. a \<le> j \<and> j < m \<longrightarrow> \<not> P j)"
proof (induction b)
  case (Suc b)
  show ?case
  proof (cases "find P [a..<b]")
    case None
    then have "\<forall>j. a \<le> j \<and> j < b \<longrightarrow> \<not> P j"
      by (auto simp: find_None_iff)
    with None show ?thesis
      by (auto simp: find_append less_Suc_eq)
  next
    case (Some x)
    then have "x \<in> set [a..<b]" "P x"
      by (auto simp: find_Some_iff)
    with Some Suc.IH show ?thesis
      by (auto simp: find_append less_Suc_eq)
  qed
qed simp

end
