(* ===== verification/Board.thy ===== *)
theory Board
  imports Prelude
begin

text \<open>
  The memory map of the board (\<open>include/kernel/board.h\<close>): one definition per \<open>constexpr\<close>, in the
  order and with the expression of the header, all in the collection \<open>board\<close>.
\<close>

definition PERIPHERAL_BASE :: u64 where [board]: "PERIPHERAL_BASE = 0x1C00000000"
definition LOCAL_PERIPHERAL_BASE :: u64 where [board]: "LOCAL_PERIPHERAL_BASE = 0x107FFF8000"
definition PHYS_MEM_END :: u64 where [board]: "PHYS_MEM_END = 0x3F800000"
definition GICD_BASE :: u64 where [board]: "GICD_BASE = LOCAL_PERIPHERAL_BASE + 0x1000"
definition GICC_BASE :: u64 where [board]: "GICC_BASE = LOCAL_PERIPHERAL_BASE + 0x2000"
definition GICH_BASE :: u64 where [board]: "GICH_BASE = LOCAL_PERIPHERAL_BASE + 0x4000"
definition GICV_BASE :: u64 where [board]: "GICV_BASE = LOCAL_PERIPHERAL_BASE + 0x6000"
definition IO_BANK0_BASE :: u64 where [board]: "IO_BANK0_BASE = PERIPHERAL_BASE + (0x400d0000 - 0x40000000)"
definition PADS_BANK_BASE :: u64 where [board]: "PADS_BANK_BASE = PERIPHERAL_BASE + (0x400f0000 - 0x40000000)"
definition GPIO14_CTRL :: u64 where [board]: "GPIO14_CTRL = IO_BANK0_BASE + 0x074"
definition GPIO15_CTRL :: u64 where [board]: "GPIO15_CTRL = IO_BANK0_BASE + 0x07C"
definition GPIO14_PAD :: u64 where [board]: "GPIO14_PAD = PADS_BANK_BASE + 0x3C"
definition GPIO15_PAD :: u64 where [board]: "GPIO15_PAD = PADS_BANK_BASE + 0x40"
definition UART0_BASE :: u64 where [board]: "UART0_BASE = PERIPHERAL_BASE + 0x30000"
definition UART0_DR :: u64 where [board]: "UART0_DR = UART0_BASE + 0x00"
definition UART0_RSRECR :: u64 where [board]: "UART0_RSRECR = UART0_BASE + 0x04"
definition UART0_FR :: u64 where [board]: "UART0_FR = UART0_BASE + 0x18"
definition UART0_ILPR :: u64 where [board]: "UART0_ILPR = UART0_BASE + 0x20"
definition UART0_IBRD :: u64 where [board]: "UART0_IBRD = UART0_BASE + 0x24"
definition UART0_FBRD :: u64 where [board]: "UART0_FBRD = UART0_BASE + 0x28"
definition UART0_LCRH :: u64 where [board]: "UART0_LCRH = UART0_BASE + 0x2C"
definition UART0_CR :: u64 where [board]: "UART0_CR = UART0_BASE + 0x30"
definition UART0_IFLS :: u64 where [board]: "UART0_IFLS = UART0_BASE + 0x34"
definition UART0_IMSC :: u64 where [board]: "UART0_IMSC = UART0_BASE + 0x38"
definition UART0_RIS :: u64 where [board]: "UART0_RIS = UART0_BASE + 0x3C"
definition UART0_MIS :: u64 where [board]: "UART0_MIS = UART0_BASE + 0x40"
definition UART0_ICR :: u64 where [board]: "UART0_ICR = UART0_BASE + 0x44"
definition UART0_DMACR :: u64 where [board]: "UART0_DMACR = UART0_BASE + 0x48"
definition UART0_ITCR :: u64 where [board]: "UART0_ITCR = UART0_BASE + 0x80"
definition UART0_ITIP :: u64 where [board]: "UART0_ITIP = UART0_BASE + 0x84"
definition UART0_ITOP :: u64 where [board]: "UART0_ITOP = UART0_BASE + 0x88"
definition UART0_TDR :: u64 where [board]: "UART0_TDR = UART0_BASE + 0x8C"
definition CLK_UART_CTRL :: u64 where [board]: "CLK_UART_CTRL = PERIPHERAL_BASE + (0x40018000 - 0x40000000) + 0x00054"
definition CLK_UART_DIV_INT :: u64 where [board]: "CLK_UART_DIV_INT = PERIPHERAL_BASE + (0x40018000 - 0x40000000) + 0x00058"
definition CLK_UART_SEL :: u64 where [board]: "CLK_UART_SEL = PERIPHERAL_BASE + (0x40018000 - 0x40000000) + 0x00060"
definition SYS_RIO_BASE :: u64 where [board]: "SYS_RIO_BASE = PERIPHERAL_BASE + (0x400e0000 - 0x40000000)"
definition RIO_OUT :: u64 where [board]: "RIO_OUT = SYS_RIO_BASE + 0x00"
definition RIO_OE :: u64 where [board]: "RIO_OE = SYS_RIO_BASE + 0x04"
definition RIO_NOSYNC_IN :: u64 where [board]: "RIO_NOSYNC_IN = SYS_RIO_BASE + 0x08"
definition RIO_SYNC_IN :: u64 where [board]: "RIO_SYNC_IN = SYS_RIO_BASE + 0x0C"
definition NORMAL_RW :: u64 where [board]: "NORMAL_RW = 0x0000"
definition ATOMIC_XOR :: u64 where [board]: "ATOMIC_XOR = 0x1000"
definition ATOMIC_SET :: u64 where [board]: "ATOMIC_SET = 0x2000"
definition ATOMIC_CLEAR :: u64 where [board]: "ATOMIC_CLEAR = 0x4000"
definition SDIO0_BASE :: u64 where [board]: "SDIO0_BASE = 0x1000fff000"
definition SDIO1_BASE :: u64 where [board]: "SDIO1_BASE = PERIPHERAL_BASE + (0x40184000 - 0x40000000)"
definition SDHCI_CFG_BASE :: u64 where [board]: "SDHCI_CFG_BASE = SDIO0_BASE + 0x400"
definition SDIO_CFG_SD_PIN_SEL :: u64 where [board]: "SDIO_CFG_SD_PIN_SEL = SDHCI_CFG_BASE + 0x44"
definition SDIO_CFG_SD_PIN_SEL_MMC :: u32 where [board]: "SDIO_CFG_SD_PIN_SEL_MMC = push_bit 0 1"
definition SDIO_CFG_SD_PIN_SEL_SD :: u32 where [board]: "SDIO_CFG_SD_PIN_SEL_SD = push_bit 1 1"
definition SDIO_CFG_SD_PIN_SEL_MASK :: u32 where [board]: "SDIO_CFG_SD_PIN_SEL_MASK = 0x3"
definition PINCTRL_BASE :: u64 where [board]: "PINCTRL_BASE = 0x107d504100"
definition PINCTRL_EMMC_PULL_REG :: u64 where [board]: "PINCTRL_EMMC_PULL_REG = PINCTRL_BASE + 0x2C"
definition PINCTRL_EMMC_CMD_DAT_MASK :: u32 where [board]: "PINCTRL_EMMC_CMD_DAT_MASK = 0xFF0C"
definition PINCTRL_EMMC_CMD_DAT_PULLUP :: u32 where [board]: "PINCTRL_EMMC_CMD_DAT_PULLUP = 0xAA08"
definition BLOCK_COUNT_LOW :: u64 where [board]: "BLOCK_COUNT_LOW = 0x000"
definition BLOCK_COUNT_HIGH :: u64 where [board]: "BLOCK_COUNT_HIGH = 0x002"
definition BLOCK_COUNT_LOW_SDIO0 :: u64 where [board]: "BLOCK_COUNT_LOW_SDIO0 = SDIO0_BASE + BLOCK_COUNT_LOW"
definition BLOCK_COUNT_LOW_SDIO1 :: u64 where [board]: "BLOCK_COUNT_LOW_SDIO1 = SDIO1_BASE + BLOCK_COUNT_LOW"
definition BLOCK_COUNT_HIGH_SDIO0 :: u64 where [board]: "BLOCK_COUNT_HIGH_SDIO0 = SDIO0_BASE + BLOCK_COUNT_HIGH"
definition BLOCK_COUNT_HIGH_SDIO1 :: u64 where [board]: "BLOCK_COUNT_HIGH_SDIO1 = SDIO1_BASE + BLOCK_COUNT_HIGH"
definition BLOCK_SIZE :: u64 where [board]: "BLOCK_SIZE = 0x004"
definition BLOCK_SIZE_SDIO0 :: u64 where [board]: "BLOCK_SIZE_SDIO0 = SDIO0_BASE + BLOCK_SIZE"
definition BLOCK_SIZE_SDIO1 :: u64 where [board]: "BLOCK_SIZE_SDIO1 = SDIO1_BASE + BLOCK_SIZE"
definition BLOCK_COUNT :: u64 where [board]: "BLOCK_COUNT = 0x006"
definition BLOCK_COUNT_SDIO0 :: u64 where [board]: "BLOCK_COUNT_SDIO0 = SDIO0_BASE + BLOCK_COUNT"
definition BLOCK_COUNT_SDIO1 :: u64 where [board]: "BLOCK_COUNT_SDIO1 = SDIO1_BASE + BLOCK_COUNT"
definition ARGUMENT_LOW :: u64 where [board]: "ARGUMENT_LOW = 0x008"
definition ARGUMENT_HIGH :: u64 where [board]: "ARGUMENT_HIGH = 0x00A"
definition ARGUMENT_LOW_SDIO0 :: u64 where [board]: "ARGUMENT_LOW_SDIO0 = SDIO0_BASE + ARGUMENT_LOW"
definition ARGUMENT_LOW_SDIO1 :: u64 where [board]: "ARGUMENT_LOW_SDIO1 = SDIO1_BASE + ARGUMENT_LOW"
definition ARGUMENT_HIGH_SDIO0 :: u64 where [board]: "ARGUMENT_HIGH_SDIO0 = SDIO0_BASE + ARGUMENT_HIGH"
definition ARGUMENT_HIGH_SDIO1 :: u64 where [board]: "ARGUMENT_HIGH_SDIO1 = SDIO1_BASE + ARGUMENT_HIGH"
definition TRANSFER_MODE :: u64 where [board]: "TRANSFER_MODE = 0x00C"
definition TRANSFER_MODE_SDIO0 :: u64 where [board]: "TRANSFER_MODE_SDIO0 = SDIO0_BASE + TRANSFER_MODE"
definition TRANSFER_MODE_SDIO1 :: u64 where [board]: "TRANSFER_MODE_SDIO1 = SDIO1_BASE + TRANSFER_MODE"
definition COMMAND :: u64 where [board]: "COMMAND = 0x00E"
definition COMMAND_SDIO0 :: u64 where [board]: "COMMAND_SDIO0 = SDIO0_BASE + COMMAND"
definition COMMAND_SDIO1 :: u64 where [board]: "COMMAND_SDIO1 = SDIO1_BASE + COMMAND"
definition RESPONSE0 :: u64 where [board]: "RESPONSE0 = 0x010"
definition RESPONSE1 :: u64 where [board]: "RESPONSE1 = 0x012"
definition RESPONSE2 :: u64 where [board]: "RESPONSE2 = 0x014"
definition RESPONSE3 :: u64 where [board]: "RESPONSE3 = 0x016"
definition RESPONSE4 :: u64 where [board]: "RESPONSE4 = 0x018"
definition RESPONSE5 :: u64 where [board]: "RESPONSE5 = 0x01A"
definition RESPONSE6 :: u64 where [board]: "RESPONSE6 = 0x01C"
definition RESPONSE7 :: u64 where [board]: "RESPONSE7 = 0x01E"
definition RESPONSE0_SDIO0 :: u64 where [board]: "RESPONSE0_SDIO0 = SDIO0_BASE + RESPONSE0"
definition RESPONSE0_SDIO1 :: u64 where [board]: "RESPONSE0_SDIO1 = SDIO1_BASE + RESPONSE0"
definition RESPONSE1_SDIO0 :: u64 where [board]: "RESPONSE1_SDIO0 = SDIO0_BASE + RESPONSE1"
definition RESPONSE1_SDIO1 :: u64 where [board]: "RESPONSE1_SDIO1 = SDIO1_BASE + RESPONSE1"
definition RESPONSE2_SDIO0 :: u64 where [board]: "RESPONSE2_SDIO0 = SDIO0_BASE + RESPONSE2"
definition RESPONSE2_SDIO1 :: u64 where [board]: "RESPONSE2_SDIO1 = SDIO1_BASE + RESPONSE2"
definition RESPONSE3_SDIO0 :: u64 where [board]: "RESPONSE3_SDIO0 = SDIO0_BASE + RESPONSE3"
definition RESPONSE3_SDIO1 :: u64 where [board]: "RESPONSE3_SDIO1 = SDIO1_BASE + RESPONSE3"
definition RESPONSE4_SDIO0 :: u64 where [board]: "RESPONSE4_SDIO0 = SDIO0_BASE + RESPONSE4"
definition RESPONSE4_SDIO1 :: u64 where [board]: "RESPONSE4_SDIO1 = SDIO1_BASE + RESPONSE4"
definition RESPONSE5_SDIO0 :: u64 where [board]: "RESPONSE5_SDIO0 = SDIO0_BASE + RESPONSE5"
definition RESPONSE5_SDIO1 :: u64 where [board]: "RESPONSE5_SDIO1 = SDIO1_BASE + RESPONSE5"
definition RESPONSE6_SDIO0 :: u64 where [board]: "RESPONSE6_SDIO0 = SDIO0_BASE + RESPONSE6"
definition RESPONSE6_SDIO1 :: u64 where [board]: "RESPONSE6_SDIO1 = SDIO1_BASE + RESPONSE6"
definition RESPONSE7_SDIO0 :: u64 where [board]: "RESPONSE7_SDIO0 = SDIO0_BASE + RESPONSE7"
definition RESPONSE7_SDIO1 :: u64 where [board]: "RESPONSE7_SDIO1 = SDIO1_BASE + RESPONSE7"
definition BUFFER_DATA_0 :: u64 where [board]: "BUFFER_DATA_0 = 0x020"
definition BUFFER_DATA_1 :: u64 where [board]: "BUFFER_DATA_1 = 0x022"
definition BUFFER_DATA_0_SDIO0 :: u64 where [board]: "BUFFER_DATA_0_SDIO0 = SDIO0_BASE + BUFFER_DATA_0"
definition BUFFER_DATA_0_SDIO1 :: u64 where [board]: "BUFFER_DATA_0_SDIO1 = SDIO1_BASE + BUFFER_DATA_0"
definition BUFFER_DATA_1_SDIO0 :: u64 where [board]: "BUFFER_DATA_1_SDIO0 = SDIO0_BASE + BUFFER_DATA_1"
definition BUFFER_DATA_1_SDIO1 :: u64 where [board]: "BUFFER_DATA_1_SDIO1 = SDIO1_BASE + BUFFER_DATA_1"
definition PRESENT_STATE :: u64 where [board]: "PRESENT_STATE = 0x024"
definition PRESENT_STATE_SDIO0 :: u64 where [board]: "PRESENT_STATE_SDIO0 = SDIO0_BASE + PRESENT_STATE"
definition PRESENT_STATE_SDIO1 :: u64 where [board]: "PRESENT_STATE_SDIO1 = SDIO1_BASE + PRESENT_STATE"
definition HOST_CONTROL_1 :: u64 where [board]: "HOST_CONTROL_1 = 0x028"
definition HOST_CONTROL_1_SDIO0 :: u64 where [board]: "HOST_CONTROL_1_SDIO0 = SDIO0_BASE + HOST_CONTROL_1"
definition HOST_CONTROL_1_SDIO1 :: u64 where [board]: "HOST_CONTROL_1_SDIO1 = SDIO1_BASE + HOST_CONTROL_1"
definition POWER_CONTROL :: u64 where [board]: "POWER_CONTROL = 0x029"
definition POWER_CONTROL_SDIO0 :: u64 where [board]: "POWER_CONTROL_SDIO0 = SDIO0_BASE + POWER_CONTROL"
definition POWER_CONTROL_SDIO1 :: u64 where [board]: "POWER_CONTROL_SDIO1 = SDIO1_BASE + POWER_CONTROL"
definition BLOCK_GAP_CONTROL :: u64 where [board]: "BLOCK_GAP_CONTROL = 0x02A"
definition BLOCK_GAP_CONTROL_SDIO0 :: u64 where [board]: "BLOCK_GAP_CONTROL_SDIO0 = SDIO0_BASE + BLOCK_GAP_CONTROL"
definition BLOCK_GAP_CONTROL_SDIO1 :: u64 where [board]: "BLOCK_GAP_CONTROL_SDIO1 = SDIO1_BASE + BLOCK_GAP_CONTROL"
definition WAKEUP_CONTROL :: u64 where [board]: "WAKEUP_CONTROL = 0x02B"
definition WAKEUP_CONTROL_SDIO0 :: u64 where [board]: "WAKEUP_CONTROL_SDIO0 = SDIO0_BASE + WAKEUP_CONTROL"
definition WAKEUP_CONTROL_SDIO1 :: u64 where [board]: "WAKEUP_CONTROL_SDIO1 = SDIO1_BASE + WAKEUP_CONTROL"
definition CLOCK_CONTROL :: u64 where [board]: "CLOCK_CONTROL = 0x02C"
definition CLOCK_CONTROL_SDIO0 :: u64 where [board]: "CLOCK_CONTROL_SDIO0 = SDIO0_BASE + CLOCK_CONTROL"
definition CLOCK_CONTROL_SDIO1 :: u64 where [board]: "CLOCK_CONTROL_SDIO1 = SDIO1_BASE + CLOCK_CONTROL"
definition TIMEOUT_CONTROL :: u64 where [board]: "TIMEOUT_CONTROL = 0x02E"
definition TIMEOUT_CONTROL_SDIO0 :: u64 where [board]: "TIMEOUT_CONTROL_SDIO0 = SDIO0_BASE + TIMEOUT_CONTROL"
definition TIMEOUT_CONTROL_SDIO1 :: u64 where [board]: "TIMEOUT_CONTROL_SDIO1 = SDIO1_BASE + TIMEOUT_CONTROL"
definition SOFTWARE_RESET :: u64 where [board]: "SOFTWARE_RESET = 0x02F"
definition SOFTWARE_RESET_SDIO0 :: u64 where [board]: "SOFTWARE_RESET_SDIO0 = SDIO0_BASE + SOFTWARE_RESET"
definition SOFTWARE_RESET_SDIO1 :: u64 where [board]: "SOFTWARE_RESET_SDIO1 = SDIO1_BASE + SOFTWARE_RESET"
definition NORMAL_INTERRUPT_STATUS :: u64 where [board]: "NORMAL_INTERRUPT_STATUS = 0x030"
definition NORMAL_INTERRUPT_STATUS_SDIO0 :: u64 where [board]: "NORMAL_INTERRUPT_STATUS_SDIO0 = SDIO0_BASE + NORMAL_INTERRUPT_STATUS"
definition NORMAL_INTERRUPT_STATUS_SDIO1 :: u64 where [board]: "NORMAL_INTERRUPT_STATUS_SDIO1 = SDIO1_BASE + NORMAL_INTERRUPT_STATUS"
definition ERROR_INTERRUPT_STATUS :: u64 where [board]: "ERROR_INTERRUPT_STATUS = 0x032"
definition ERROR_INTERRUPT_STATUS_SDIO0 :: u64 where [board]: "ERROR_INTERRUPT_STATUS_SDIO0 = SDIO0_BASE + ERROR_INTERRUPT_STATUS"
definition ERROR_INTERRUPT_STATUS_SDIO1 :: u64 where [board]: "ERROR_INTERRUPT_STATUS_SDIO1 = SDIO1_BASE + ERROR_INTERRUPT_STATUS"
definition NORMAL_INTERRUPT_STATUS_ENABLE :: u64 where [board]: "NORMAL_INTERRUPT_STATUS_ENABLE = 0x034"
definition NORMAL_INTERRUPT_STATUS_ENABLE_SDIO0 :: u64 where [board]: "NORMAL_INTERRUPT_STATUS_ENABLE_SDIO0 = SDIO0_BASE + NORMAL_INTERRUPT_STATUS_ENABLE"
definition NORMAL_INTERRUPT_STATUS_ENABLE_SDIO1 :: u64 where [board]: "NORMAL_INTERRUPT_STATUS_ENABLE_SDIO1 = SDIO1_BASE + NORMAL_INTERRUPT_STATUS_ENABLE"
definition ERROR_INTERRUPT_STATUS_ENABLE :: u64 where [board]: "ERROR_INTERRUPT_STATUS_ENABLE = 0x036"
definition ERROR_INTERRUPT_STATUS_ENABLE_SDIO0 :: u64 where [board]: "ERROR_INTERRUPT_STATUS_ENABLE_SDIO0 = SDIO0_BASE + ERROR_INTERRUPT_STATUS_ENABLE"
definition ERROR_INTERRUPT_STATUS_ENABLE_SDIO1 :: u64 where [board]: "ERROR_INTERRUPT_STATUS_ENABLE_SDIO1 = SDIO1_BASE + ERROR_INTERRUPT_STATUS_ENABLE"
definition NORMAL_INTERRUPT_SIGNAL_ENABLE :: u64 where [board]: "NORMAL_INTERRUPT_SIGNAL_ENABLE = 0x038"
definition NORMAL_INTERRUPT_SIGNAL_ENABLE_SDIO0 :: u64 where [board]: "NORMAL_INTERRUPT_SIGNAL_ENABLE_SDIO0 = SDIO0_BASE + NORMAL_INTERRUPT_SIGNAL_ENABLE"
definition NORMAL_INTERRUPT_SIGNAL_ENABLE_SDIO1 :: u64 where [board]: "NORMAL_INTERRUPT_SIGNAL_ENABLE_SDIO1 = SDIO1_BASE + NORMAL_INTERRUPT_SIGNAL_ENABLE"
definition ERROR_INTERRUPT_SIGNAL_ENABLE :: u64 where [board]: "ERROR_INTERRUPT_SIGNAL_ENABLE = 0x03A"
definition ERROR_INTERRUPT_SIGNAL_ENABLE_SDIO0 :: u64 where [board]: "ERROR_INTERRUPT_SIGNAL_ENABLE_SDIO0 = SDIO0_BASE + ERROR_INTERRUPT_SIGNAL_ENABLE"
definition ERROR_INTERRUPT_SIGNAL_ENABLE_SDIO1 :: u64 where [board]: "ERROR_INTERRUPT_SIGNAL_ENABLE_SDIO1 = SDIO1_BASE + ERROR_INTERRUPT_SIGNAL_ENABLE"
definition AUTO_CMD_ERROR_STATUS :: u64 where [board]: "AUTO_CMD_ERROR_STATUS = 0x03C"
definition AUTO_CMD_ERROR_STATUS_SDIO0 :: u64 where [board]: "AUTO_CMD_ERROR_STATUS_SDIO0 = SDIO0_BASE + AUTO_CMD_ERROR_STATUS"
definition AUTO_CMD_ERROR_STATUS_SDIO1 :: u64 where [board]: "AUTO_CMD_ERROR_STATUS_SDIO1 = SDIO1_BASE + AUTO_CMD_ERROR_STATUS"
definition HOST_CONTROL_2 :: u64 where [board]: "HOST_CONTROL_2 = 0x03E"
definition HOST_CONTROL_2_SDIO0 :: u64 where [board]: "HOST_CONTROL_2_SDIO0 = SDIO0_BASE + HOST_CONTROL_2"
definition HOST_CONTROL_2_SDIO1 :: u64 where [board]: "HOST_CONTROL_2_SDIO1 = SDIO1_BASE + HOST_CONTROL_2"
definition CAPABILITIES1 :: u64 where [board]: "CAPABILITIES1 = 0x040"
definition CAPABILITIES2 :: u64 where [board]: "CAPABILITIES2 = 0x042"
definition CAPABILITIES3 :: u64 where [board]: "CAPABILITIES3 = 0x044"
definition CAPABILITIES4 :: u64 where [board]: "CAPABILITIES4 = 0x046"
definition CAPABILITIES1_SDIO0 :: u64 where [board]: "CAPABILITIES1_SDIO0 = SDIO0_BASE + CAPABILITIES1"
definition CAPABILITIES1_SDIO1 :: u64 where [board]: "CAPABILITIES1_SDIO1 = SDIO1_BASE + CAPABILITIES1"
definition CAPABILITIES2_SDIO0 :: u64 where [board]: "CAPABILITIES2_SDIO0 = SDIO0_BASE + CAPABILITIES2"
definition CAPABILITIES2_SDIO1 :: u64 where [board]: "CAPABILITIES2_SDIO1 = SDIO1_BASE + CAPABILITIES2"
definition CAPABILITIES3_SDIO0 :: u64 where [board]: "CAPABILITIES3_SDIO0 = SDIO0_BASE + CAPABILITIES3"
definition CAPABILITIES3_SDIO1 :: u64 where [board]: "CAPABILITIES3_SDIO1 = SDIO1_BASE + CAPABILITIES3"
definition CAPABILITIES4_SDIO0 :: u64 where [board]: "CAPABILITIES4_SDIO0 = SDIO0_BASE + CAPABILITIES4"
definition CAPABILITIES4_SDIO1 :: u64 where [board]: "CAPABILITIES4_SDIO1 = SDIO1_BASE + CAPABILITIES4"
definition MAX_CAPABILITIES1 :: u64 where [board]: "MAX_CAPABILITIES1 = 0x048"
definition MAX_CAPABILITIES2 :: u64 where [board]: "MAX_CAPABILITIES2 = 0x04A"
definition MAX_CAPABILITIES1_SDIO0 :: u64 where [board]: "MAX_CAPABILITIES1_SDIO0 = SDIO0_BASE + MAX_CAPABILITIES1"
definition MAX_CAPABILITIES1_SDIO1 :: u64 where [board]: "MAX_CAPABILITIES1_SDIO1 = SDIO1_BASE + MAX_CAPABILITIES1"
definition MAX_CAPABILITIES2_SDIO0 :: u64 where [board]: "MAX_CAPABILITIES2_SDIO0 = SDIO0_BASE + MAX_CAPABILITIES2"
definition MAX_CAPABILITIES2_SDIO1 :: u64 where [board]: "MAX_CAPABILITIES2_SDIO1 = SDIO1_BASE + MAX_CAPABILITIES2"
definition RES_MAX_CAPABILITIES1 :: u64 where [board]: "RES_MAX_CAPABILITIES1 = 0x04C"
definition RES_MAX_CAPABILITIES2 :: u64 where [board]: "RES_MAX_CAPABILITIES2 = 0x04E"
definition RES_MAX_CAPABILITIES1_SDIO0 :: u64 where [board]: "RES_MAX_CAPABILITIES1_SDIO0 = SDIO0_BASE + RES_MAX_CAPABILITIES1"
definition RES_MAX_CAPABILITIES1_SDIO1 :: u64 where [board]: "RES_MAX_CAPABILITIES1_SDIO1 = SDIO1_BASE + RES_MAX_CAPABILITIES1"
definition RES_MAX_CAPABILITIES2_SDIO0 :: u64 where [board]: "RES_MAX_CAPABILITIES2_SDIO0 = SDIO0_BASE + RES_MAX_CAPABILITIES2"
definition RES_MAX_CAPABILITIES2_SDIO1 :: u64 where [board]: "RES_MAX_CAPABILITIES2_SDIO1 = SDIO1_BASE + RES_MAX_CAPABILITIES2"
definition FORCE_AUTO_CMD_EVENT :: u64 where [board]: "FORCE_AUTO_CMD_EVENT = 0x050"
definition FORCE_AUTO_CMD_EVENT_SDIO0 :: u64 where [board]: "FORCE_AUTO_CMD_EVENT_SDIO0 = SDIO0_BASE + FORCE_AUTO_CMD_EVENT"
definition FORCE_AUTO_CMD_EVENT_SDIO1 :: u64 where [board]: "FORCE_AUTO_CMD_EVENT_SDIO1 = SDIO1_BASE + FORCE_AUTO_CMD_EVENT"
definition FORCE_ERROR_INTERRUPT_EVENT :: u64 where [board]: "FORCE_ERROR_INTERRUPT_EVENT = 0x052"
definition FORCE_ERROR_INTERRUPT_EVENT_SDIO0 :: u64 where [board]: "FORCE_ERROR_INTERRUPT_EVENT_SDIO0 = SDIO0_BASE + FORCE_ERROR_INTERRUPT_EVENT"
definition FORCE_ERROR_INTERRUPT_EVENT_SDIO1 :: u64 where [board]: "FORCE_ERROR_INTERRUPT_EVENT_SDIO1 = SDIO1_BASE + FORCE_ERROR_INTERRUPT_EVENT"
definition ADMA_ERROR_STATUS :: u64 where [board]: "ADMA_ERROR_STATUS = 0x054"
definition ADMA_ERROR_STATUS_SDIO0 :: u64 where [board]: "ADMA_ERROR_STATUS_SDIO0 = SDIO0_BASE + ADMA_ERROR_STATUS"
definition ADMA_ERROR_STATUS_SDIO1 :: u64 where [board]: "ADMA_ERROR_STATUS_SDIO1 = SDIO1_BASE + ADMA_ERROR_STATUS"
definition ADMA_SYSTEM_ADDRESS_LOW :: u64 where [board]: "ADMA_SYSTEM_ADDRESS_LOW = 0x058"
definition ADMA_SYSTEM_ADDRESS_HIGH :: u64 where [board]: "ADMA_SYSTEM_ADDRESS_HIGH = 0x05C"
definition ADMA_SYSTEM_ADDRESS_LOW_SDIO0 :: u64 where [board]: "ADMA_SYSTEM_ADDRESS_LOW_SDIO0 = SDIO0_BASE + ADMA_SYSTEM_ADDRESS_LOW"
definition ADMA_SYSTEM_ADDRESS_LOW_SDIO1 :: u64 where [board]: "ADMA_SYSTEM_ADDRESS_LOW_SDIO1 = SDIO1_BASE + ADMA_SYSTEM_ADDRESS_LOW"
definition ADMA_SYSTEM_ADDRESS_HIGH_SDIO0 :: u64 where [board]: "ADMA_SYSTEM_ADDRESS_HIGH_SDIO0 = SDIO0_BASE + ADMA_SYSTEM_ADDRESS_HIGH"
definition ADMA_SYSTEM_ADDRESS_HIGH_SDIO1 :: u64 where [board]: "ADMA_SYSTEM_ADDRESS_HIGH_SDIO1 = SDIO1_BASE + ADMA_SYSTEM_ADDRESS_HIGH"
definition PRESET_VALUE_1 :: u64 where [board]: "PRESET_VALUE_1 = 0x060"
definition PRESET_VALUE_2 :: u64 where [board]: "PRESET_VALUE_2 = 0x062"
definition PRESET_VALUE_3 :: u64 where [board]: "PRESET_VALUE_3 = 0x064"
definition PRESET_VALUE_4 :: u64 where [board]: "PRESET_VALUE_4 = 0x066"
definition PRESET_VALUE_5 :: u64 where [board]: "PRESET_VALUE_5 = 0x068"
definition PRESET_VALUE_6 :: u64 where [board]: "PRESET_VALUE_6 = 0x06A"
definition PRESET_VALUE_7 :: u64 where [board]: "PRESET_VALUE_7 = 0x06C"
definition PRESET_VALUE_8 :: u64 where [board]: "PRESET_VALUE_8 = 0x06E"
definition PRESET_VALUE_1_SDIO0 :: u64 where [board]: "PRESET_VALUE_1_SDIO0 = SDIO0_BASE + PRESET_VALUE_1"
definition PRESET_VALUE_1_SDIO1 :: u64 where [board]: "PRESET_VALUE_1_SDIO1 = SDIO1_BASE + PRESET_VALUE_1"
definition PRESET_VALUE_2_SDIO0 :: u64 where [board]: "PRESET_VALUE_2_SDIO0 = SDIO0_BASE + PRESET_VALUE_2"
definition PRESET_VALUE_2_SDIO1 :: u64 where [board]: "PRESET_VALUE_2_SDIO1 = SDIO1_BASE + PRESET_VALUE_2"
definition PRESET_VALUE_3_SDIO0 :: u64 where [board]: "PRESET_VALUE_3_SDIO0 = SDIO0_BASE + PRESET_VALUE_3"
definition PRESET_VALUE_3_SDIO1 :: u64 where [board]: "PRESET_VALUE_3_SDIO1 = SDIO1_BASE + PRESET_VALUE_3"
definition PRESET_VALUE_4_SDIO0 :: u64 where [board]: "PRESET_VALUE_4_SDIO0 = SDIO0_BASE + PRESET_VALUE_4"
definition PRESET_VALUE_4_SDIO1 :: u64 where [board]: "PRESET_VALUE_4_SDIO1 = SDIO1_BASE + PRESET_VALUE_4"
definition PRESET_VALUE_5_SDIO0 :: u64 where [board]: "PRESET_VALUE_5_SDIO0 = SDIO0_BASE + PRESET_VALUE_5"
definition PRESET_VALUE_5_SDIO1 :: u64 where [board]: "PRESET_VALUE_5_SDIO1 = SDIO1_BASE + PRESET_VALUE_5"
definition PRESET_VALUE_6_SDIO0 :: u64 where [board]: "PRESET_VALUE_6_SDIO0 = SDIO0_BASE + PRESET_VALUE_6"
definition PRESET_VALUE_6_SDIO1 :: u64 where [board]: "PRESET_VALUE_6_SDIO1 = SDIO1_BASE + PRESET_VALUE_6"
definition PRESET_VALUE_7_SDIO0 :: u64 where [board]: "PRESET_VALUE_7_SDIO0 = SDIO0_BASE + PRESET_VALUE_7"
definition PRESET_VALUE_7_SDIO1 :: u64 where [board]: "PRESET_VALUE_7_SDIO1 = SDIO1_BASE + PRESET_VALUE_7"
definition PRESET_VALUE_8_SDIO0 :: u64 where [board]: "PRESET_VALUE_8_SDIO0 = SDIO0_BASE + PRESET_VALUE_8"
definition PRESET_VALUE_8_SDIO1 :: u64 where [board]: "PRESET_VALUE_8_SDIO1 = SDIO1_BASE + PRESET_VALUE_8"
definition ADMA3_ID_ADDRESS_LOW :: u64 where [board]: "ADMA3_ID_ADDRESS_LOW = 0x078"
definition ADMA3_ID_ADDRESS_HIGH :: u64 where [board]: "ADMA3_ID_ADDRESS_HIGH = 0x07C"
definition ADMA3_ID_ADDRESS_LOW_SDIO0 :: u64 where [board]: "ADMA3_ID_ADDRESS_LOW_SDIO0 = SDIO0_BASE + ADMA3_ID_ADDRESS_LOW"
definition ADMA3_ID_ADDRESS_LOW_SDIO1 :: u64 where [board]: "ADMA3_ID_ADDRESS_LOW_SDIO1 = SDIO1_BASE + ADMA3_ID_ADDRESS_LOW"
definition ADMA3_ID_ADDRESS_HIGH_SDIO0 :: u64 where [board]: "ADMA3_ID_ADDRESS_HIGH_SDIO0 = SDIO0_BASE + ADMA3_ID_ADDRESS_HIGH"
definition ADMA3_ID_ADDRESS_HIGH_SDIO1 :: u64 where [board]: "ADMA3_ID_ADDRESS_HIGH_SDIO1 = SDIO1_BASE + ADMA3_ID_ADDRESS_HIGH"
definition HOST_CONTROLLER_VERSION_REGISTER :: u64 where [board]: "HOST_CONTROLLER_VERSION_REGISTER = 0xFE"
definition HOST_CONTROLLER_VERSION_SDIO0 :: u64 where [board]: "HOST_CONTROLLER_VERSION_SDIO0 = SDIO0_BASE + HOST_CONTROLLER_VERSION_REGISTER"
definition HOST_CONTROLLER_VERSION_SDIO1 :: u64 where [board]: "HOST_CONTROLLER_VERSION_SDIO1 = SDIO1_BASE + HOST_CONTROLLER_VERSION_REGISTER"
definition RP1_SDIO0_CLKGEN_BASE :: u64 where [board]: "RP1_SDIO0_CLKGEN_BASE = PERIPHERAL_BASE + (0x400b0004 - 0x40000000)"
definition RP1_SDIO1_CLKGEN_BASE :: u64 where [board]: "RP1_SDIO1_CLKGEN_BASE = PERIPHERAL_BASE + (0x400b4004 - 0x40000000)"
definition MAILBOX_BASE :: u64 where [board]: "MAILBOX_BASE = 0x107c013880"
definition MAILBOX_SIZE :: u64 where [board]: "MAILBOX_SIZE = 0x40"
definition MAIL0_RD :: u64 where [board]: "MAIL0_RD = MAILBOX_BASE + 0x00"
definition MAIL0_STA :: u64 where [board]: "MAIL0_STA = MAILBOX_BASE + 0x18"
definition MAIL1_WRT :: u64 where [board]: "MAIL1_WRT = MAILBOX_BASE + 0x20"
definition MAIL1_STA :: u64 where [board]: "MAIL1_STA = MAILBOX_BASE + 0x38"
definition ARM_MS_FULL :: u32 where [board]: "ARM_MS_FULL = push_bit 31 1"
definition ARM_MS_EMPTY :: u32 where [board]: "ARM_MS_EMPTY = push_bit 30 1"
definition MBOX_CHANNEL_PROPERTY :: u32 where [board]: "MBOX_CHANNEL_PROPERTY = 8"
definition MBOX_CHANNEL_MASK :: u32 where [board]: "MBOX_CHANNEL_MASK = 0xF"
definition MBOX_REQUEST_CODE :: u32 where [board]: "MBOX_REQUEST_CODE = 0x00000000"
definition MBOX_RESPONSE_SUCCESS :: u32 where [board]: "MBOX_RESPONSE_SUCCESS = 0x80000000"
definition MBOX_RESPONSE_ERROR :: u32 where [board]: "MBOX_RESPONSE_ERROR = 0x80000001"
definition MBOX_TAG_LAST :: u32 where [board]: "MBOX_TAG_LAST = 0x00000000"
definition MBOX_TAG_GET_FIRMWARE_REVISION :: u32 where [board]: "MBOX_TAG_GET_FIRMWARE_REVISION = 0x00000001"
definition XHCI0_BASE :: u64 where [board]: "XHCI0_BASE = PERIPHERAL_BASE + (0x40200000 - 0x40000000)"
definition XHCI1_BASE :: u64 where [board]: "XHCI1_BASE = PERIPHERAL_BASE + (0x40300000 - 0x40000000)"

end
