(* ===== verification/Machine.thy ===== *)
theory Machine
  imports Prelude
begin

text \<open>
  The machine under the kernel, as every driver sees it. Devices and system registers are not
  code of the repository: what a read of one returns is the environment's choice, so a run is a
  function of the list \<open>inp\<close> of the values that such reads return, in order. A run that asks for
  more values than the list holds has not returned yet, which is the result \<open>None\<close>; a polling
  loop that never sees its bit is thus \<open>None\<close> for every list. What the kernel does to the
  outside is the list \<open>trace\<close> of events, reads included, in order.

  Sources: \<open>include/kernel/io.h\<close> (the \<open>mmio_*\<close> accessors), \<open>include/kernel/barrier.h\<close>,
  \<open>src/kernel/spinlock/spinlock.cpp\<close> as its callers see it (theory \<open>Spinlock\<close> holds the
  instruction-level model of the same two functions).
\<close>

section \<open>State and events\<close>

datatype lock = Pmm_lock | Mmu_lock | Heap_lock | Dma_lock | Newlib_lock | Uart_lock | Timer_lock

datatype sysreg = CNTFRQ_EL0 | CNTPCT_EL0 | CNTP_TVAL_EL0 | CNTP_CTL_EL0 | CTR_EL0
  | MAIR_EL1 | TCR_EL1 | TTBR0_EL1 | SCTLR_EL1 | ESR_EL1 | FAR_EL1 | ELR_EL1 | TPIDR_EL1

datatype event =
    Rd8 u64 u8 | Rd16 u64 u16 | Rd32 u64 u32
  | Wr8 u64 u8 | Wr16 u64 u16 | Wr32 u64 u32 | St64 u64 u64
  | Mrs sysreg u64 | Msr sysreg u64
  | Dsb_sy | Dsb_ish | Dsb_ishst | Isb | Tlbi_vaae1is u64 | Tlbi_vmalle1
  | Dc_cvac u64 | Dc_ivac u64
  | Smc u64 u64 u64 u64 | Acquire lock | Release lock

record io =
  inp :: "u64 list"
  trace :: "event list"
  daif :: u64
  MMU_ACTIVE :: bool

definition emit :: "event list \<Rightarrow> 'a io_scheme \<Rightarrow> 'a io_scheme" where
  "emit es s = s\<lparr>trace := trace s @ es\<rparr>"

lemma emit_simps [simp]:
  "inp (emit es s) = inp s" "trace (emit es s) = trace s @ es" "daif (emit es s) = daif s"
  "MMU_ACTIVE (emit es s) = MMU_ACTIVE s" "emit [] s = s" "io.more (emit es s) = io.more s"
  "emit es' (emit es s) = emit (es @ es') s"
  by (simp_all add: emit_def)

section \<open>Memory-mapped registers and system registers\<close>

definition env_read :: "'a io_scheme \<Rightarrow> (u64 \<times> 'a io_scheme) option" where
  "env_read s = (case inp s of [] \<Rightarrow> None | v # vs \<Rightarrow> Some (v, s\<lparr>inp := vs\<rparr>))"

definition mmio_write :: "u64 \<Rightarrow> u32 \<Rightarrow> 'a io_scheme \<Rightarrow> 'a io_scheme" where
  "mmio_write reg val s = emit [Wr32 reg val] s"

definition mmio_read :: "u64 \<Rightarrow> 'a io_scheme \<Rightarrow> (u32 \<times> 'a io_scheme) option" where
  "mmio_read reg s = do { (v, s) \<leftarrow> env_read s; Some (ucast v, emit [Rd32 reg (ucast v)] s) }"

definition mmio_write16 :: "u64 \<Rightarrow> u16 \<Rightarrow> 'a io_scheme \<Rightarrow> 'a io_scheme" where
  "mmio_write16 reg val s = emit [Wr16 reg val] s"

definition mmio_read16 :: "u64 \<Rightarrow> 'a io_scheme \<Rightarrow> (u16 \<times> 'a io_scheme) option" where
  "mmio_read16 reg s = do { (v, s) \<leftarrow> env_read s; Some (ucast v, emit [Rd16 reg (ucast v)] s) }"

definition mmio_write8 :: "u64 \<Rightarrow> u8 \<Rightarrow> 'a io_scheme \<Rightarrow> 'a io_scheme" where
  "mmio_write8 reg val s = emit [Wr8 reg val] s"

definition mmio_read8 :: "u64 \<Rightarrow> 'a io_scheme \<Rightarrow> (u8 \<times> 'a io_scheme) option" where
  "mmio_read8 reg s = do { (v, s) \<leftarrow> env_read s; Some (ucast v, emit [Rd8 reg (ucast v)] s) }"

definition mrs :: "sysreg \<Rightarrow> 'a io_scheme \<Rightarrow> (u64 \<times> 'a io_scheme) option" where
  "mrs r s = do { (v, s) \<leftarrow> env_read s; Some (v, emit [Mrs r v] s) }"

definition msr :: "sysreg \<Rightarrow> u64 \<Rightarrow> 'a io_scheme \<Rightarrow> 'a io_scheme" where
  "msr r v s = emit [Msr r v] s"

definition dsb_sy :: "'a io_scheme \<Rightarrow> 'a io_scheme" where "dsb_sy s = emit [Dsb_sy] s"
definition dsb_ish :: "'a io_scheme \<Rightarrow> 'a io_scheme" where "dsb_ish s = emit [Dsb_ish] s"
definition dsb_ishst :: "'a io_scheme \<Rightarrow> 'a io_scheme" where "dsb_ishst s = emit [Dsb_ishst] s"
definition isb :: "'a io_scheme \<Rightarrow> 'a io_scheme" where "isb s = emit [Isb] s"

lemmas io_defs = mmio_write_def mmio_write16_def mmio_write8_def mmio_read_def mmio_read16_def
  mmio_read8_def mrs_def msr_def dsb_sy_def dsb_ish_def dsb_ishst_def isb_def env_read_def

section \<open>Locks as their callers see them\<close>

text \<open>
  \<open>spin_lock\<close> saves DAIF in the caller's \<open>flags\<close>, masks all exceptions and, once the MMU is on,
  acquires the lock word; \<open>spin_unlock\<close> releases it and restores DAIF. The components are
  modelled one call at a time, so a lock is here the pair of events; that no call acquires a
  lock it already holds (which would spin for ever) is a property of the traces below.
\<close>

definition spin_lock :: "lock \<Rightarrow> 'a io_scheme \<Rightarrow> u64 \<times> 'a io_scheme" where
  "spin_lock lk s =
     (let flags = daif s; s = s\<lparr>daif := daif s OR 0x3C0\<rparr>
      in (flags, if MMU_ACTIVE s then emit [Acquire lk] s else s))"

definition spin_unlock :: "lock \<Rightarrow> u64 \<Rightarrow> 'a io_scheme \<Rightarrow> 'a io_scheme" where
  "spin_unlock lk flags s =
     (let s = (if MMU_ACTIVE s then emit [Release lk] s else s) in s\<lparr>daif := flags\<rparr>)"

text \<open>
  The lock discipline of a trace: locks are acquired only when free and released only by
  their holder, in stack order. \<open>held_after\<close> runs a trace from a stack of held locks.
\<close>

fun held_after :: "lock list \<Rightarrow> event list \<Rightarrow> lock list option" where
  "held_after hs [] = Some hs"
| "held_after hs (Acquire l # es) = (if l \<in> set hs then None else held_after (l # hs) es)"
| "held_after hs (Release l # es) =
     (case hs of [] \<Rightarrow> None | h # hs' \<Rightarrow> if h = l then held_after hs' es else None)"
| "held_after hs (_ # es) = held_after hs es"

lemma held_after_append:
  "held_after hs (es @ es') = Option.bind (held_after hs es) (\<lambda>hs'. held_after hs' es')"
  by (induction hs es rule: held_after.induct) (auto split: list.splits)

text \<open>The events that neither acquire nor release a lock.\<close>

definition lock_free :: "event \<Rightarrow> bool" where
  "lock_free e = (case e of Acquire _ \<Rightarrow> False | Release _ \<Rightarrow> False | _ \<Rightarrow> True)"

lemma held_after_lock_free: "list_all lock_free es \<Longrightarrow> held_after hs es = Some hs"
  by (induction hs es rule: held_after.induct) (auto simp: lock_free_def)

text \<open>
  A balanced trace runs from any stack of locks disjoint from \<open>ls\<close> back to the same stack:
  called without the locks \<open>ls\<close>, the code neither blocks on itself nor keeps a lock.
\<close>

definition balanced :: "lock set \<Rightarrow> event list \<Rightarrow> bool" where
  "balanced ls es \<longleftrightarrow> (\<forall>hs. set hs \<inter> ls = {} \<longrightarrow> held_after hs es = Some hs)"

lemma balanced_Nil [simp, intro]: "balanced ls []"
  by (simp add: balanced_def)

lemma balanced_lock_free: "list_all lock_free es \<Longrightarrow> balanced ls es"
  by (simp add: balanced_def held_after_lock_free)

lemma balanced_append: "balanced ls es \<Longrightarrow> balanced ls es' \<Longrightarrow> balanced ls (es @ es')"
  by (simp add: balanced_def held_after_append)

lemma balanced_mono: "balanced ls es \<Longrightarrow> ls \<subseteq> ls' \<Longrightarrow> balanced ls' es"
  by (fastforce simp: balanced_def)

lemma balanced_lock:
  assumes "balanced ls es" and "l \<notin> ls"
  shows "balanced (insert l ls) (Acquire l # es @ [Release l])"
  using assms by (auto simp: balanced_def held_after_append)

section \<open>Polling loops\<close>

text \<open>
  \<open>do { x = body; } while (\<not> stop x)\<close>: the shape of every loop of the drivers that waits on
  hardware. \<open>None\<close> is a loop that has not ended.
\<close>

partial_function (option) poll_until ::
  "('s \<Rightarrow> ('x \<times> 's) option) \<Rightarrow> ('x \<Rightarrow> bool) \<Rightarrow> 's \<Rightarrow> ('x \<times> 's) option" where
  "poll_until body stop s =
     do { (x, s') \<leftarrow> body s; if stop x then Some (x, s') else poll_until body stop s' }"

declare poll_until.simps [code]

text \<open>A polling loop over a 32-bit register: some reads, the last one with the awaited value.\<close>

lemma poll_until_inv:
  assumes "poll_until body stop s = Some (x, s')" and "P s"
    and "\<And>s x s'. body s = Some (x, s') \<Longrightarrow> P s \<Longrightarrow> \<not> stop x \<Longrightarrow> P s'"
  shows "\<exists>s0. P s0 \<and> body s0 = Some (x, s') \<and> stop x"
proof -
  let ?Q = "\<lambda>body stop s (x, s'). P s \<longrightarrow>
    (\<forall>s x s'. body s = Some (x, s') \<longrightarrow> P s \<longrightarrow> \<not> stop x \<longrightarrow> P s') \<longrightarrow>
    (\<exists>s0. P s0 \<and> body s0 = Some (x, s') \<and> stop x)"
  have "?Q body stop s (x, s')"
  proof (rule poll_until.raw_induct [where P = ?Q, OF _ assms(1)])
    fix poll body stop s r
    assume ih: "\<And>body stop s y. poll body stop s = Some y \<Longrightarrow> ?Q body stop s y"
      and eq: "Option.bind (body s) (\<lambda>(x, s'). if stop x then Some (x, s') else poll body stop s') = Some r"
    obtain v t where v: "body s = Some (v, t)" "(if stop v then Some (v, t) else poll body stop t) = Some r"
      using eq by (auto simp: Option.bind_eq_Some_conv)
    show "?Q body stop s r"
    proof (cases "stop v")
      case True
      with v show ?thesis by auto
    next
      case False
      with v ih [of body stop t r] show ?thesis by (cases r) auto
    qed
  qed
  with assms(2,3) show ?thesis by blast
qed

lemma poll_mmio_read:
  assumes "poll_until (mmio_read r) stop s = Some (x, s')"
  shows "stop x \<and> daif s' = daif s \<and> MMU_ACTIVE s' = MMU_ACTIVE s \<and> io.more s' = io.more s
    \<and> (\<exists>vs. trace s' = trace s @ map (Rd32 r) vs @ [Rd32 r x])"
proof -
  let ?P = "\<lambda>t. daif t = daif s \<and> MMU_ACTIVE t = MMU_ACTIVE s \<and> io.more t = io.more s
    \<and> (\<exists>vs. trace t = trace s @ map (Rd32 r) vs)"
  have body: "trace t' = trace t @ [Rd32 r v] \<and> daif t' = daif t \<and> MMU_ACTIVE t' = MMU_ACTIVE t
      \<and> io.more t' = io.more t"
    if "mmio_read r t = Some (v, t')" for t v t'
    using that by (auto simp: io_defs Option.bind_eq_Some_conv split: list.splits)
  have "\<exists>s0. ?P s0 \<and> mmio_read r s0 = Some (x, s') \<and> stop x"
  proof (rule poll_until_inv [OF assms])
    show "?P s" by (simp add: exI [of _ "[]"])
    fix t v t' assume t: "mmio_read r t = Some (v, t')" and P: "?P t"
    then obtain vs where "trace t = trace s @ map (Rd32 r) vs" by blast
    then have "trace t' = trace s @ map (Rd32 r) (vs @ [v])" using body [OF t] by simp
    then have "\<exists>vs. trace t' = trace s @ map (Rd32 r) vs" ..
    with P body [OF t] show "?P t'" by simp
  qed
  then obtain s0 vs where s0: "?P s0" "trace s0 = trace s @ map (Rd32 r) vs"
    "mmio_read r s0 = Some (x, s')" "stop x" by blast
  with body [OF s0(3)] show ?thesis by (auto intro: exI [of _ vs])
qed

end
