(* ===== verification/Pmm.thy ===== *)
theory Pmm
  imports Machine Board
begin

text \<open>
  The physical memory manager (\<open>include/kernel/pmm.h\<close>, \<open>src/kernel/pmm/pmm.cpp\<close>): a flat bitmap
  of 4 KiB frames. Kernel memory is one store of 64-bit words indexed by byte address, shared
  by the bitmap and by the page tables of theory \<open>Mmu\<close>, so that what one writes over the other
  is visible. The C word \<open>bitmap[i]\<close> is the cell at \<open>bitmap + 8 * i\<close>.
\<close>

section \<open>State\<close>

record pmm = io +
  mem :: "u64 \<Rightarrow> u64"
  bitmap :: u64
  phys_mem_start :: u64
  total_frames :: u64

definition word_at :: "u64 \<Rightarrow> nat \<Rightarrow> u64" where
  "word_at base i = base + 8 * of_nat i"

definition load :: "u64 \<Rightarrow> nat \<Rightarrow> 'a pmm_scheme \<Rightarrow> u64" where
  "load base i s = mem s (word_at base i)"

definition store :: "u64 \<Rightarrow> nat \<Rightarrow> u64 \<Rightarrow> 'a pmm_scheme \<Rightarrow> 'a pmm_scheme" where
  "store base i v s = s\<lparr>mem := (mem s)(word_at base i := v)\<rparr>"

text \<open>\<open>__builtin_ctzll\<close>, the number of trailing zero bits of a word that is not 0.\<close>

definition ctzll :: "u64 \<Rightarrow> nat" where
  "ctzll w = length (takeWhile (\<lambda>n. \<not> bit w n) [0..<64])"

section \<open>Operations\<close>

definition pmm_init :: "u64 \<Rightarrow> 'a pmm_scheme \<Rightarrow> 'a pmm_scheme" where
  "pmm_init kernel_end s =
     (let bitmap_addr = round_up kernel_end PAGE_SIZE;
          managed_bytes = PHYS_MEM_END - bitmap_addr;
          max_frames = managed_bytes div PAGE_SIZE;
          bitmap_bytes = (max_frames + 63) div 64 * 8;
          s = s\<lparr>bitmap := bitmap_addr\<rparr>;
          s = s\<lparr>phys_mem_start := round_up (bitmap_addr + bitmap_bytes) PAGE_SIZE\<rparr>;
          s = s\<lparr>total_frames := (PHYS_MEM_END - phys_mem_start s) div PAGE_SIZE\<rparr>;
          s = fold (\<lambda>i s. store (bitmap s) i 0 s) [0..<unat (bitmap_bytes div 8)] s;
          last_word = unat (total_frames s div 64);
          valid_bits = unat (total_frames s mod 64)
      in if valid_bits \<noteq> 0
         then store (bitmap s) last_word
                (load (bitmap s) last_word s OR NOT (push_bit valid_bits 1 - 1)) s
         else s)"

text \<open>
  \<open>alloc_frame\<close>'s loop at word \<open>i\<close> with \<open>k\<close> words left to look at.
\<close>

fun alloc_frame_loop :: "nat \<Rightarrow> nat \<Rightarrow> 'a pmm_scheme \<Rightarrow> u64 \<times> 'a pmm_scheme" where
  "alloc_frame_loop 0 i s = (0, s)"
| "alloc_frame_loop (Suc k) i s =
     (let w = load (bitmap s) i s
      in if w \<noteq> NOT 0
         then let bit_index = ctzll (NOT w); idx = i * 64 + bit_index;
                  s = store (bitmap s) i (w OR push_bit bit_index 1) s
              in (phys_mem_start s + of_nat idx * PAGE_SIZE, s)
         else alloc_frame_loop k (Suc i) s)"

definition bitmap_words :: "'a pmm_scheme \<Rightarrow> nat" where
  "bitmap_words s = unat ((total_frames s + 63) div 64)"

definition alloc_frame :: "'a pmm_scheme \<Rightarrow> u64 \<times> 'a pmm_scheme" where
  "alloc_frame s =
     (let (flags, s) = spin_lock Pmm_lock s;
          (address, s) = alloc_frame_loop (bitmap_words s) 0 s
      in (address, spin_unlock Pmm_lock flags s))"

text \<open>The bit test and the bit set that \<open>alloc_frames\<close> and \<open>free_frame\<close> use.\<close>

definition frame_used :: "nat \<Rightarrow> 'a pmm_scheme \<Rightarrow> bool" where
  "frame_used idx s \<longleftrightarrow> load (bitmap s) (idx div 64) s AND push_bit (idx mod 64) 1 \<noteq> 0"

definition mark_used :: "nat \<Rightarrow> 'a pmm_scheme \<Rightarrow> 'a pmm_scheme" where
  "mark_used idx s =
     store (bitmap s) (idx div 64) (load (bitmap s) (idx div 64) s OR push_bit (idx mod 64) 1) s"

definition mark_free :: "nat \<Rightarrow> 'a pmm_scheme \<Rightarrow> 'a pmm_scheme" where
  "mark_free idx s =
     store (bitmap s) (idx div 64)
       (load (bitmap s) (idx div 64) s AND NOT (push_bit (idx mod 64) 1)) s"

text \<open>
  \<open>alloc_frames\<close>'s scan at frame \<open>idx\<close> with \<open>k\<close> frames left and the current run of free frames.
\<close>

fun alloc_frames_loop ::
  "nat \<Rightarrow> nat \<Rightarrow> nat \<Rightarrow> nat \<Rightarrow> nat \<Rightarrow> 'a pmm_scheme \<Rightarrow> u64 \<times> 'a pmm_scheme" where
  "alloc_frames_loop count 0 idx run_start run_len s = (0, s)"
| "alloc_frames_loop count (Suc k) idx run_start run_len s =
     (if frame_used idx s then alloc_frames_loop count k (Suc idx) run_start 0 s
      else let run_start = (if run_len = 0 then idx else run_start); run_len = Suc run_len
           in if run_len = count
              then let s = fold mark_used [run_start..<run_start + count] s
                   in (phys_mem_start s + of_nat run_start * PAGE_SIZE, s)
              else alloc_frames_loop count k (Suc idx) run_start run_len s)"

definition alloc_frames :: "u64 \<Rightarrow> 'a pmm_scheme \<Rightarrow> u64 \<times> 'a pmm_scheme" where
  "alloc_frames count s =
     (if count = 0 then (0, s)
      else let (flags, s) = spin_lock Pmm_lock s;
               (address, s) = alloc_frames_loop (unat count) (unat (total_frames s)) 0 0 0 s
           in (address, spin_unlock Pmm_lock flags s))"

definition free_frame :: "u64 \<Rightarrow> 'a pmm_scheme \<Rightarrow> 'a pmm_scheme" where
  "free_frame addr s =
     (if addr < phys_mem_start s \<or> addr \<ge> PHYS_MEM_END then s
      else if addr mod PAGE_SIZE \<noteq> 0 then s
      else let frame_index = (addr - phys_mem_start s) div PAGE_SIZE
           in if frame_index \<ge> total_frames s then s
              else let (flags, s) = spin_lock Pmm_lock s;
                       s = (if frame_used (unat frame_index) s
                            then mark_free (unat frame_index) s else s)
                   in spin_unlock Pmm_lock flags s)"

section \<open>The bitmap as a set of frames\<close>

text \<open>
  \<open>nwords\<close> is the number of bitmap words that cover \<open>total_frames\<close> frames; \<open>pmm_geom\<close> fixes
  where the bitmap and the frames lie, and \<open>pmm_inv\<close> adds that the padding bits of the last
  word are set, which is what keeps \<open>alloc_frame\<close> inside \<open>total_frames\<close>.
\<close>

definition nwords :: "'a pmm_scheme \<Rightarrow> nat" where
  "nwords s = (unat (total_frames s) + 63) div 64"

definition pmm_geom :: "'a pmm_scheme \<Rightarrow> bool" where
  "pmm_geom s \<longleftrightarrow> page_aligned (bitmap s) \<and> page_aligned (phys_mem_start s)
     \<and> 0 < unat (phys_mem_start s)
     \<and> unat (bitmap s) + 8 * nwords s \<le> unat (phys_mem_start s)
     \<and> unat (phys_mem_start s) + 4096 * unat (total_frames s) = unat PHYS_MEM_END"

definition pmm_inv :: "'a pmm_scheme \<Rightarrow> bool" where
  "pmm_inv s \<longleftrightarrow> pmm_geom s
     \<and> (\<forall>i. unat (total_frames s) \<le> i \<and> i < 64 * nwords s \<longrightarrow> frame_used i s)"

definition frame_addr :: "'a pmm_scheme \<Rightarrow> nat \<Rightarrow> u64" where
  "frame_addr s i = phys_mem_start s + of_nat i * PAGE_SIZE"

definition free_set :: "'a pmm_scheme \<Rightarrow> nat set" where
  "free_set s = {i. i < unat (total_frames s) \<and> \<not> frame_used i s}"

lemma unat_PHYS_MEM_END: "unat PHYS_MEM_END = 0x3F800000"
  by (simp add: PHYS_MEM_END_def)

lemma pmm_geom_bounds:
  assumes "pmm_geom s"
  shows "unat (total_frames s) \<le> 260096" and "nwords s \<le> 4064"
    and "unat (bitmap s) + 8 * nwords s \<le> 0x3F800000"
  using assms by (auto simp: pmm_geom_def nwords_def unat_PHYS_MEM_END)

lemma bitmap_words_eq: "pmm_geom s \<Longrightarrow> bitmap_words s = nwords s"
  using pmm_geom_bounds(1) [of s]
  by (simp add: bitmap_words_def nwords_def unat_div unat_word_ariths)

subsection \<open>Addresses\<close>

lemma unat_word_at:
  assumes "unat base + 8 * i < 2 ^ 64"
  shows "unat (word_at base i) = unat base + 8 * i"
proof -
  have "word_at base i = of_nat (unat base + 8 * i)"
    by (simp add: word_at_def)
  then show ?thesis
    by (simp only:) (rule unat_of_nat_small, use assms in simp)
qed

lemma word_at_eq_iff:
  assumes "unat base + 8 * i < 2 ^ 64" and "unat base + 8 * j < 2 ^ 64"
  shows "word_at base i = word_at base j \<longleftrightarrow> i = j"
proof
  assume "word_at base i = word_at base j"
  then have "unat base + 8 * i = unat base + 8 * j"
    unfolding unat_word_at [OF assms(1), symmetric] unat_word_at [OF assms(2), symmetric]
    by (rule arg_cong)
  then show "i = j" by simp
qed simp

lemma unat_frame_addr:
  assumes "pmm_geom s" and "i \<le> unat (total_frames s)"
  shows "unat (frame_addr s i) = unat (phys_mem_start s) + 4096 * i"
proof -
  have "frame_addr s i = of_nat (unat (phys_mem_start s) + 4096 * i)"
    by (simp add: frame_addr_def PAGE_SIZE_def mult.commute)
  moreover have "unat (phys_mem_start s) + 4096 * i \<le> 0x3F800000"
    using assms by (auto simp: pmm_geom_def unat_PHYS_MEM_END)
  then have "unat (phys_mem_start s) + 4096 * i < 2 ^ LENGTH(64)"
    by simp
  ultimately show ?thesis
    by (simp only: unat_of_nat_small)
qed

lemma frame_addr_inj:
  assumes "pmm_geom s" "i \<le> unat (total_frames s)" "j \<le> unat (total_frames s)"
  shows "frame_addr s i = frame_addr s j \<longleftrightarrow> i = j"
proof
  assume "frame_addr s i = frame_addr s j"
  then have "unat (phys_mem_start s) + 4096 * i = unat (phys_mem_start s) + 4096 * j"
    unfolding unat_frame_addr [OF assms(1,2), symmetric] unat_frame_addr [OF assms(1,3), symmetric]
    by (rule arg_cong)
  then show "i = j" by simp
qed simp

lemma frame_addr_facts:
  assumes "pmm_geom s" and "i < unat (total_frames s)"
  shows "frame_addr s i \<noteq> 0" and "page_aligned (frame_addr s i)"
    and "unat (phys_mem_start s) \<le> unat (frame_addr s i)"
    and "unat (frame_addr s i) + 4096 \<le> unat PHYS_MEM_END"
  using assms unat_frame_addr [of s i]
  by (auto simp: pmm_geom_def simp flip: unat_eq_zero)

subsection \<open>Bits\<close>

lemma load_store_same [simp]: "load base i (store base i v s) = v"
  by (simp add: load_def store_def)

lemma load_store_other: "word_at base' j \<noteq> word_at base i \<Longrightarrow>
  load base' j (store base i v s) = load base' j s"
  by (simp add: load_def store_def)

lemma store_fields [simp]:
  "bitmap (store base i v s) = bitmap s" "phys_mem_start (store base i v s) = phys_mem_start s"
  "total_frames (store base i v s) = total_frames s" "inp (store base i v s) = inp s"
  "trace (store base i v s) = trace s" "daif (store base i v s) = daif s"
  "MMU_ACTIVE (store base i v s) = MMU_ACTIVE s"
  by (simp_all add: store_def)

lemma store_dependent [simp]:
  "nwords (store base i v s) = nwords s" "pmm_geom (store base i v s) = pmm_geom s"
  "frame_addr (store base i v s) = frame_addr s" "bitmap_words (store base i v s) = bitmap_words s"
  by (simp_all add: nwords_def pmm_geom_def frame_addr_def bitmap_words_def fun_eq_iff)

lemma frame_used_bit: "frame_used idx s \<longleftrightarrow> bit (load (bitmap s) (idx div 64) s) (idx mod 64)"
  by (simp add: frame_used_def bit_iff_and_push_bit_not_eq_0)

lemma bitmap_word_at_eq_iff:
  assumes "pmm_geom s" "i < nwords s" "j < nwords s"
  shows "word_at (bitmap s) i = word_at (bitmap s) j \<longleftrightarrow> i = j"
  using assms pmm_geom_bounds(3) [OF assms(1)] by (intro word_at_eq_iff) auto

lemma div_mod_64_eq: "i div 64 = j div 64 \<Longrightarrow> i mod 64 = j mod (64::nat) \<Longrightarrow> i = j"
  by (metis div_mult_mod_eq)

lemma frame_used_store:
  assumes "pmm_geom s" "j < 64 * nwords s" "i < nwords s"
  shows "frame_used j (store (bitmap s) i v s) \<longleftrightarrow> (if j div 64 = i then bit v (j mod 64) else frame_used j s)"
  using assms bitmap_word_at_eq_iff [of s "j div 64" i]
  by (auto simp: frame_used_bit load_store_other)

lemma frame_used_mark_used:
  assumes "pmm_geom s" "i < 64 * nwords s" "j < 64 * nwords s"
  shows "frame_used j (mark_used i s) \<longleftrightarrow> j = i \<or> frame_used j s"
  unfolding mark_used_def using assms
  by (subst frame_used_store) (auto simp: bit_simps frame_used_bit dest: div_mod_64_eq)

lemma frame_used_mark_free:
  assumes "pmm_geom s" "i < 64 * nwords s" "j < 64 * nwords s"
  shows "frame_used j (mark_free i s) \<longleftrightarrow> j \<noteq> i \<and> frame_used j s"
  unfolding mark_free_def using assms
  by (subst frame_used_store) (auto simp: bit_simps frame_used_bit dest: div_mod_64_eq)

lemma mark_fields [simp]:
  "bitmap (mark_used i s) = bitmap s" "phys_mem_start (mark_used i s) = phys_mem_start s"
  "total_frames (mark_used i s) = total_frames s" "inp (mark_used i s) = inp s"
  "trace (mark_used i s) = trace s" "daif (mark_used i s) = daif s"
  "MMU_ACTIVE (mark_used i s) = MMU_ACTIVE s" "nwords (mark_used i s) = nwords s"
  "pmm_geom (mark_used i s) = pmm_geom s" "frame_addr (mark_used i s) = frame_addr s"
  "bitmap (mark_free i s) = bitmap s" "phys_mem_start (mark_free i s) = phys_mem_start s"
  "total_frames (mark_free i s) = total_frames s" "inp (mark_free i s) = inp s"
  "trace (mark_free i s) = trace s" "daif (mark_free i s) = daif s"
  "MMU_ACTIVE (mark_free i s) = MMU_ACTIVE s" "nwords (mark_free i s) = nwords s"
  "pmm_geom (mark_free i s) = pmm_geom s" "frame_addr (mark_free i s) = frame_addr s"
  by (simp_all add: mark_used_def mark_free_def)

section \<open>The allocator finds the lowest free frame\<close>

lemma find_word_bits:
  "find (\<lambda>i. \<not> bit w i) [0..<64] = (if w = NOT 0 then None else Some (ctzll (NOT (w :: u64))))"
proof -
  have len: "takeWhile (\<lambda>i. \<not> bit (NOT w) i) [0..<64] = takeWhile (\<lambda>i. bit w i) [0..<64]"
    by (rule takeWhile_cong) (auto simp: bit_simps)
  have "w = NOT 0 \<longleftrightarrow> (\<forall>i < 64. bit w i)"
    by (auto simp: bit_simps intro: bit_word_eqI)
  then have "w = NOT 0 \<longleftrightarrow> find (\<lambda>i. \<not> bit w i) [0..<64] = None"
    by (auto simp: find_None_iff)
  then show ?thesis
    by (auto simp: find_upt_takeWhile [of "\<lambda>i. \<not> bit w i"] ctzll_def len Let_def split: if_splits)
qed

lemma find_in_word:
  "find (\<lambda>j. \<not> frame_used j s) [64 * i..<64 * i + 64] =
     (let w = load (bitmap s) i s
      in if w = NOT 0 then None else Some (64 * i + ctzll (NOT w)))"
proof -
  have "(64 * i + j) div 64 = i" "(64 * i + j) mod 64 = j" if "j < 64" for j :: nat
    using that by auto
  then have "find (\<lambda>j. \<not> frame_used (64 * i + j) s) [0..<64] =
             find (\<lambda>j. \<not> bit (load (bitmap s) i s) j) [0..<64]"
    by (intro find_cong) (auto simp: frame_used_bit)
  then show ?thesis
    by (simp add: find_shift [of _ "64 * i"] find_word_bits Let_def del: upt_rec_numeral)
qed

lemma ctzll_less: "w \<noteq> 0 \<Longrightarrow> ctzll w < 64"
proof -
  assume "w \<noteq> 0"
  then obtain n where "n < 64" "bit w n"
    by (auto simp: bit_eq_iff bit_simps)
  then show "ctzll w < 64"
    unfolding ctzll_def
    by (metis (no_types, lifting) atLeastLessThan_iff diff_zero length_takeWhile_le length_upt
        nat_less_le set_upt takeWhile_eq_all_conv takeWhile_eq_take take_all zero_le order_refl)
qed

text \<open>
  The word-at-a-time scan of the code against the bit-by-bit scan it stands for.
\<close>

lemma alloc_frame_loop_find:
  "alloc_frame_loop k i s =
     (case find (\<lambda>j. \<not> frame_used j s) [64 * i..<64 * (i + k)] of
        None \<Rightarrow> (0, s) | Some j \<Rightarrow> (frame_addr s j, mark_used j s))"
proof (induction k arbitrary: i)
  case 0
  show ?case by simp
next
  case (Suc k)
  let ?w = "load (bitmap s) i s"
  have split: "[64 * i..<64 * (i + Suc k)] = [64 * i..<64 * i + 64] @ [64 * Suc i..<64 * (Suc i + k)]"
    using upt_add_eq_append [of "64 * i" "64 * i + 64" "64 * k"] by (simp add: algebra_simps)
  show ?case
  proof (cases "?w = NOT 0")
    case True
    with Suc.IH [of "Suc i"] show ?thesis
      unfolding split find_append find_in_word by (simp add: Let_def)
  next
    case False
    then have "NOT ?w \<noteq> 0" by (metis bit.double_compl)
    then have b: "ctzll (NOT ?w) < 64" by (rule ctzll_less)
    from False show ?thesis
      unfolding split find_append find_in_word
      by (simp add: Let_def frame_addr_def mark_used_def b mult.commute [of i])
  qed
qed

section \<open>What each operation does to the set of free frames\<close>

lemma io_pmm_fields [simp]:
  "mem (emit es s) = mem s" "bitmap (emit es s) = bitmap s"
  "phys_mem_start (emit es s) = phys_mem_start s" "total_frames (emit es s) = total_frames s"
  "frame_used i (emit es s) = frame_used i s" "frame_used i (s\<lparr>daif := d\<rparr>) = frame_used i s"
  "load b i (emit es s) = load b i s" "load b i (s\<lparr>daif := d\<rparr>) = load b i s"
  by (simp_all add: emit_def frame_used_def load_def)

lemma emit_dependent [simp]:
  "nwords (emit es s) = nwords s" "pmm_geom (emit es s) = pmm_geom s"
  "frame_addr (emit es s) = frame_addr s" "free_set (emit es s) = free_set s"
  "pmm_inv (emit es s) = pmm_inv s" "bitmap_words (emit es s) = bitmap_words s"
  "nwords (s\<lparr>daif := d\<rparr>) = nwords s" "pmm_geom (s\<lparr>daif := d\<rparr>) = pmm_geom s"
  "frame_addr (s\<lparr>daif := d\<rparr>) = frame_addr s" "free_set (s\<lparr>daif := d\<rparr>) = free_set s"
  "pmm_inv (s\<lparr>daif := d\<rparr>) = pmm_inv s" "bitmap_words (s\<lparr>daif := d\<rparr>) = bitmap_words s"
  by (simp_all add: nwords_def pmm_geom_def frame_addr_def free_set_def pmm_inv_def
      bitmap_words_def fun_eq_iff)

definition bitmap_region :: "'a pmm_scheme \<Rightarrow> u64 set" where
  "bitmap_region s = word_at (bitmap s) ` {..<nwords s}"

lemma mem_mark:
  assumes "i < 64 * nwords s" "a \<notin> bitmap_region s"
  shows "mem (mark_used i s) a = mem s a" "mem (mark_free i s) a = mem s a"
  using assms by (auto simp: mark_used_def mark_free_def store_def bitmap_region_def)

lemma frame_used_store_outside:
  assumes "word_at base k \<notin> bitmap_region s" "i < 64 * nwords s"
  shows "frame_used i (store base k v s) = frame_used i s"
proof -
  have "word_at base k \<noteq> word_at (bitmap s) (i div 64)"
    using assms by (auto simp: bitmap_region_def)
  then show ?thesis
    by (simp add: frame_used_def load_store_other)
qed

lemma total_le_64_nwords: "unat (total_frames s) \<le> 64 * nwords s"
  unfolding nwords_def by presburger

lemma free_set_finite [simp]: "finite (free_set s)"
  by (rule finite_subset [of _ "{..<unat (total_frames s)}"]) (auto simp: free_set_def)

lemma free_set_mark_used:
  "pmm_geom s \<Longrightarrow> i < 64 * nwords s \<Longrightarrow> free_set (mark_used i s) = free_set s - {i}"
  using total_le_64_nwords [of s] by (auto simp: free_set_def frame_used_mark_used)

lemma pmm_inv_mark_used:
  "pmm_inv s \<Longrightarrow> i < 64 * nwords s \<Longrightarrow> pmm_inv (mark_used i s)"
  by (auto simp: pmm_inv_def frame_used_mark_used)

lemma free_set_mark_free:
  "pmm_geom s \<Longrightarrow> i < unat (total_frames s) \<Longrightarrow> free_set (mark_free i s) = insert i (free_set s)"
  using total_le_64_nwords [of s] by (auto simp: free_set_def frame_used_mark_free)

lemma pmm_inv_mark_free:
  "pmm_inv s \<Longrightarrow> i < unat (total_frames s) \<Longrightarrow> pmm_inv (mark_free i s)"
  using total_le_64_nwords [of s] by (auto simp: pmm_inv_def frame_used_mark_free)

lemma find_free:
  assumes "pmm_inv s"
  shows "find (\<lambda>j. \<not> frame_used j s) [0..<64 * nwords s] =
    (if free_set s = {} then None else Some (Min (free_set s)))"
proof (cases "free_set s = {}")
  case True
  with assms have "frame_used j s" if "j < 64 * nwords s" for j
    using that by (cases "j < unat (total_frames s)") (auto simp: pmm_inv_def free_set_def)
  with True show ?thesis
    by (auto simp: find_None_iff)
next
  case False
  define m where "m = Min (free_set s)"
  have m: "m < unat (total_frames s)" "\<not> frame_used m s"
    using False Min_in [of "free_set s"] by (auto simp: m_def free_set_def)
  have "frame_used j s" if "j < m" for j
  proof (rule ccontr)
    assume "\<not> frame_used j s"
    with that m have "j \<in> free_set s" by (simp add: free_set_def)
    then have "m \<le> j" by (simp add: m_def)
    with that show False by simp
  qed
  with m False show ?thesis
    using total_le_64_nwords [of s] by (simp add: find_upt_Some_iff flip: m_def)
qed

lemma daif_out [simp]:
  "emit es (s\<lparr>daif := d\<rparr>) = (emit es s)\<lparr>daif := d\<rparr>"
  "store b i v (emit es s) = emit es (store b i v s)"
  "store b i v (s\<lparr>daif := d\<rparr>) = (store b i v s)\<lparr>daif := d\<rparr>"
  "mark_used i (emit es s) = emit es (mark_used i s)"
  "mark_used i (s\<lparr>daif := d\<rparr>) = (mark_used i s)\<lparr>daif := d\<rparr>"
  "mark_free i (emit es s) = emit es (mark_free i s)"
  "mark_free i (s\<lparr>daif := d\<rparr>) = (mark_free i s)\<lparr>daif := d\<rparr>"
  by (simp_all add: emit_def mark_used_def mark_free_def store_def load_def)

text \<open>
  The events of a critical section of \<open>l\<close> around the events \<open>es\<close>, and the equation that
  every locked operation reduces to.
\<close>

definition with_lock :: "lock \<Rightarrow> 'a io_scheme \<Rightarrow> event list" where
  "with_lock l s = (if MMU_ACTIVE s then [Acquire l, Release l] else [])"

lemma daif_restore [simp]:
  "(s\<lparr>daif := d\<rparr>)\<lparr>daif := d'\<rparr> = s\<lparr>daif := d'\<rparr>" "s\<lparr>daif := daif s\<rparr> = s"
  "daif s = d \<Longrightarrow> s\<lparr>daif := d\<rparr> = s"
  by auto

text \<open>\<open>alloc_frame\<close> in one equation over the abstract view.\<close>

lemma alloc_frame_eq:
  assumes "pmm_inv s"
  shows "alloc_frame s =
    (if free_set s = {} then (0, emit (with_lock Pmm_lock s) s)
     else (frame_addr s (Min (free_set s)),
           emit (with_lock Pmm_lock s) (mark_used (Min (free_set s)) s)))"
proof -
  have "bitmap_words s = nwords s"
    using assms by (simp add: pmm_inv_def bitmap_words_eq)
  then show ?thesis
    using assms find_free [of s]
    by (simp add: alloc_frame_def spin_lock_def spin_unlock_def Let_def alloc_frame_loop_find
        with_lock_def)
qed

lemma fold_mark_used_fields [simp]:
  "fold mark_used js (emit es s) = emit es (fold mark_used js s)"
  "fold mark_used js (s\<lparr>daif := d\<rparr>) = (fold mark_used js s)\<lparr>daif := d\<rparr>"
  "daif (fold mark_used js s) = daif s" "MMU_ACTIVE (fold mark_used js s) = MMU_ACTIVE s"
  "inp (fold mark_used js s) = inp s" "trace (fold mark_used js s) = trace s"
  "bitmap (fold mark_used js s) = bitmap s" "phys_mem_start (fold mark_used js s) = phys_mem_start s"
  "total_frames (fold mark_used js s) = total_frames s" "nwords (fold mark_used js s) = nwords s"
  "frame_addr (fold mark_used js s) = frame_addr s" "pmm_geom (fold mark_used js s) = pmm_geom s"
  by (induction js arbitrary: s) auto

subsection \<open>Contiguous runs\<close>

text \<open>
  What \<open>alloc_frames\<close> looks for: the first index at which \<open>count\<close> consecutive frames are free.
\<close>

definition run_free :: "nat \<Rightarrow> 'a pmm_scheme \<Rightarrow> nat \<Rightarrow> bool" where
  "run_free count s st \<longleftrightarrow> (\<forall>i \<in> {st..<st + count}. \<not> frame_used i s)"

lemma run_free_code [code]: "run_free count s st = list_all (\<lambda>i. \<not> frame_used i s) [st..<st + count]"
  by (auto simp: run_free_def list_all_iff)

lemma find_skip:
  assumes "\<And>j. a \<le> j \<Longrightarrow> j < b \<Longrightarrow> \<not> P j" "a \<le> b"
  shows "find P [a..<c] = find P [b..<c]"
proof (cases "b \<le> c")
  case True
  with assms have "[a..<c] = [a..<b] @ [b..<c]"
    using upt_add_eq_append [of a b "c - b"] by simp
  moreover have "find P [a..<b] = None"
    using assms by (auto simp: find_None_iff)
  ultimately show ?thesis by (simp add: find_append)
next
  case False
  then have "find P [a..<c] = None"
    using assms by (auto simp: find_None_iff)
  with False show ?thesis by simp
qed

text \<open>
  The scan with its running counters against the search for the first free run: between the
  start of the current run and \<open>idx\<close> all frames are free.
\<close>

lemma alloc_frames_loop_find:
  assumes "run_len < count" "run_len \<le> idx" "run_len \<noteq> 0 \<Longrightarrow> run_start = idx - run_len"
    and "\<forall>i. idx - run_len \<le> i \<and> i < idx \<longrightarrow> \<not> frame_used i s"
  shows "alloc_frames_loop count k idx run_start run_len s =
     (case find (run_free count s) [idx - run_len..<idx + k + 1 - count] of
        None \<Rightarrow> (0, s)
      | Some st \<Rightarrow> (frame_addr s st, fold mark_used [st..<st + count] s))"
  using assms
proof (induction k arbitrary: idx run_start run_len)
  case 0
  then show ?case by simp
next
  case (Suc k)
  show ?case
  proof (cases "frame_used idx s")
    case True
    then have "\<not> run_free count s st" if "idx - run_len \<le> st" "st < Suc idx" for st
      using that Suc.prems(1) by (auto simp: run_free_def intro!: bexI [of _ idx])
    then have "find (run_free count s) [idx - run_len..<idx + Suc k + 1 - count] =
               find (run_free count s) [Suc idx..<idx + Suc k + 1 - count]"
      by (rule find_skip) auto
    moreover have "\<forall>i. Suc idx - 0 \<le> i \<and> i < Suc idx \<longrightarrow> \<not> frame_used i s"
      by auto
    ultimately show ?thesis
      using True Suc.IH [of 0 "Suc idx" run_start] Suc.prems(1) by simp
  next
    case False
    define rs where "rs = (if run_len = 0 then idx else run_start)"
    have rs: "rs = Suc idx - Suc run_len"
      using Suc.prems(2,3) by (auto simp: rs_def)
    have free: "\<forall>i. Suc idx - Suc run_len \<le> i \<and> i < Suc idx \<longrightarrow> \<not> frame_used i s"
      using False Suc.prems(4) by (auto simp: less_Suc_eq)
    show ?thesis
    proof (cases "Suc run_len = count")
      case True
      have "run_free count s rs"
        using free True Suc.prems(2) by (auto simp: run_free_def rs)
      then have "find (run_free count s) [idx - run_len..<idx + Suc k + 1 - count] = Some rs"
        using True Suc.prems(2) by (auto simp: find_upt_Some_iff rs)
      with False True show ?thesis
        by (simp add: Let_def frame_addr_def flip: rs_def)
    next
      case neq: False
      with Suc.prems(1) have "Suc run_len < count" by simp
      with False neq Suc.IH [of "Suc run_len" "Suc idx" rs] rs free Suc.prems(2) show ?thesis
        by (simp add: Let_def flip: rs_def)
    qed
  qed
qed

lemma fold_mark_used:
  assumes "pmm_geom s" "\<forall>i \<in> set js. i < 64 * nwords s"
  shows "free_set (fold mark_used js s) = free_set s - set js"
    and "pmm_inv s \<Longrightarrow> pmm_inv (fold mark_used js s)"
    and "a \<notin> bitmap_region s \<Longrightarrow> mem (fold mark_used js s) a = mem s a"
  using assms
  by (induction js arbitrary: s)
     (auto simp: free_set_mark_used pmm_inv_mark_used mem_mark bitmap_region_def)

definition first_run :: "nat \<Rightarrow> 'a pmm_scheme \<Rightarrow> nat option" where
  "first_run count s = find (run_free count s) [0..<unat (total_frames s) + 1 - count]"

lemma first_run_SomeD:
  assumes "first_run count s = Some st"
  shows "{st..<st + count} \<subseteq> free_set s" and "st + count \<le> unat (total_frames s)"
  using assms
  by (auto simp: first_run_def find_upt_Some_iff run_free_def free_set_def)

lemma first_run_NoneD:
  assumes "first_run count s = None" "0 < count" "st + count \<le> unat (total_frames s)"
  shows "\<not> {st..<st + count} \<subseteq> free_set s"
proof -
  have "\<not> run_free count s st"
    using assms by (auto simp: first_run_def find_None_iff)
  then show ?thesis
    by (auto simp: run_free_def free_set_def)
qed

lemma run_free_io [simp]:
  "run_free n (emit es s) = run_free n s" "run_free n (s\<lparr>daif := d\<rparr>) = run_free n s"
  by (simp_all add: run_free_def fun_eq_iff)

lemma alloc_frames_eq:
  assumes "pmm_inv s" "count \<noteq> 0"
  shows "alloc_frames count s =
    (case first_run (unat count) s of
       None \<Rightarrow> (0, emit (with_lock Pmm_lock s) s)
     | Some st \<Rightarrow> (frame_addr s st,
         emit (with_lock Pmm_lock s) (fold mark_used [st..<st + unat count] s)))"
proof -
  have geom: "pmm_geom s" using assms by (simp add: pmm_inv_def)
  have "0 < unat count" using assms(2) by (simp add: unat_gt_0)
  then have loop: "alloc_frames_loop (unat count) (unat (total_frames t)) 0 0 0 t =
     (case first_run (unat count) t of None \<Rightarrow> (0, t)
      | Some st \<Rightarrow> (frame_addr t st, fold mark_used [st..<st + unat count] t))" for t :: "'a pmm_scheme"
    by (subst alloc_frames_loop_find) (auto simp: first_run_def)
  have fr: "first_run n (emit es t) = first_run n t" "first_run n (t\<lparr>daif := d\<rparr>) = first_run n t"
    for n es d and t :: "'a pmm_scheme"
    by (simp_all add: first_run_def)
  show ?thesis
  proof (cases "first_run (unat count) s")
    case None
    with assms(2) show ?thesis
      by (simp add: alloc_frames_def spin_lock_def spin_unlock_def Let_def with_lock_def loop fr)
  next
    case (Some st)
    with assms(2) show ?thesis
      by (simp add: alloc_frames_def spin_lock_def spin_unlock_def Let_def with_lock_def loop fr)
  qed
qed

subsection \<open>Freeing\<close>

lemma frame_index_of_addr:
  assumes "pmm_geom s" "i < unat (total_frames s)"
  shows "(frame_addr s i - phys_mem_start s) div PAGE_SIZE = of_nat i"
    and "unat (of_nat i :: u64) = i"
proof -
  have i: "i * 4096 < 2 ^ LENGTH(64)" "i < 2 ^ LENGTH(64)"
    using assms pmm_geom_bounds(1) [OF assms(1)] by auto
  show "unat (of_nat i :: u64) = i" using i(2) by (rule unat_of_nat_small)
  have "frame_addr s i - phys_mem_start s = of_nat (i * 4096)"
    by (simp add: frame_addr_def PAGE_SIZE_def)
  then have "unat ((frame_addr s i - phys_mem_start s) div PAGE_SIZE) = i"
    by (simp only: unat_div unat_of_nat_small [OF i(1)]) (simp add: PAGE_SIZE_def)
  with i(2) show "(frame_addr s i - phys_mem_start s) div PAGE_SIZE = of_nat i"
    by (simp add: word_unat_eq_iff unat_of_nat_small)
qed

lemma free_frame_eq:
  assumes "pmm_inv s" "i < unat (total_frames s)"
  shows "free_frame (frame_addr s i) s =
    emit (with_lock Pmm_lock s) (if frame_used i s then mark_free i s else s)"
proof -
  have g: "pmm_geom s" using assms by (simp add: pmm_inv_def)
  note f = frame_addr_facts [OF g assms(2)] frame_index_of_addr [OF g assms(2)]
  have "phys_mem_start s \<le> frame_addr s i" "frame_addr s i < PHYS_MEM_END"
    using f(3,4) by (simp_all add: word_le_nat_alt word_less_nat_alt)
  moreover have "frame_addr s i mod PAGE_SIZE = 0"
    using f(2) by (simp add: PAGE_SIZE_def unat_mod dvd_eq_mod_eq_0 flip: unat_eq_zero)
  moreover have "of_nat i < total_frames s"
    using f(6) assms(2) by (simp add: word_less_nat_alt)
  ultimately show ?thesis
    using f(5,6) by (simp add: free_frame_def spin_lock_def spin_unlock_def Let_def with_lock_def
        not_le not_less)
qed

text \<open>An address that is not the base of a managed frame is ignored.\<close>

lemma free_frame_ignores:
  assumes "pmm_geom s" "\<And>i. i < unat (total_frames s) \<Longrightarrow> addr \<noteq> frame_addr s i"
  shows "free_frame addr s = s"
proof (rule ccontr)
  assume changed: "free_frame addr s \<noteq> s"
  define i where "i = unat ((addr - phys_mem_start s) div PAGE_SIZE)"
  have ge: "phys_mem_start s \<le> addr" and al: "addr mod PAGE_SIZE = 0"
    and "(addr - phys_mem_start s) div PAGE_SIZE < total_frames s"
    using changed by (auto simp: free_frame_def Let_def not_less not_le split: if_splits)
  then have lt: "i < unat (total_frames s)"
    by (simp add: i_def word_less_nat_alt)
  have "4096 dvd unat addr"
    using al by (simp add: PAGE_SIZE_def unat_mod dvd_eq_mod_eq_0 flip: unat_eq_zero)
  moreover have "4096 dvd unat (phys_mem_start s)"
    using assms(1) by (simp add: pmm_geom_def)
  ultimately have "unat (phys_mem_start s) + 4096 * i = unat addr"
    using ge by (simp add: i_def unat_div PAGE_SIZE_def unat_sub word_le_nat_alt dvd_diff_nat)
  with unat_frame_addr [OF assms(1), of i] lt have "frame_addr s i = addr"
    by (simp add: word_unat_eq_iff)
  with assms(2) [OF lt] show False by simp
qed

section \<open>Initialisation\<close>

lemma zero_words:
  assumes "unat b + 8 * n < 2 ^ 64"
  shows "\<forall>i < n. load b i (fold (\<lambda>i s. store b i 0 s) [0..<n] s) = 0"
    and "bitmap (fold (\<lambda>i s. store b i 0 s) [0..<n] s) = bitmap s"
    and "phys_mem_start (fold (\<lambda>i s. store b i 0 s) [0..<n] s) = phys_mem_start s"
    and "total_frames (fold (\<lambda>i s. store b i 0 s) [0..<n] s) = total_frames s"
    and "(\<forall>i < n. a \<noteq> word_at b i) \<Longrightarrow> mem (fold (\<lambda>i s. store b i 0 s) [0..<n] s) a = mem s a"
proof -
  have "(\<forall>i < n. load b i (fold (\<lambda>i s. store b i 0 s) [0..<n] s) = 0) \<and>
    bitmap (fold (\<lambda>i s. store b i 0 s) [0..<n] s) = bitmap s \<and>
    phys_mem_start (fold (\<lambda>i s. store b i 0 s) [0..<n] s) = phys_mem_start s \<and>
    total_frames (fold (\<lambda>i s. store b i 0 s) [0..<n] s) = total_frames s \<and>
    ((\<forall>i < n. a \<noteq> word_at b i) \<longrightarrow> mem (fold (\<lambda>i s. store b i 0 s) [0..<n] s) a = mem s a)"
    using assms
  proof (induction n)
    case (Suc n)
    let ?s = "fold (\<lambda>i s. store b i 0 s) [0..<n] s"
    have "load b i (store b n 0 ?s) = 0" if "i < Suc n" for i
      using that Suc word_at_eq_iff [of b i n]
      by (cases "i = n") (auto simp: load_store_other)
    with Suc show ?case
      by (auto simp: store_def)
  qed simp
  then show "\<forall>i < n. load b i (fold (\<lambda>i s. store b i 0 s) [0..<n] s) = 0"
    "bitmap (fold (\<lambda>i s. store b i 0 s) [0..<n] s) = bitmap s"
    "phys_mem_start (fold (\<lambda>i s. store b i 0 s) [0..<n] s) = phys_mem_start s"
    "total_frames (fold (\<lambda>i s. store b i 0 s) [0..<n] s) = total_frames s"
    "(\<forall>i < n. a \<noteq> word_at b i) \<Longrightarrow> mem (fold (\<lambda>i s. store b i 0 s) [0..<n] s) a = mem s a"
    by blast+
qed

text \<open>
  The geometry \<open>pmm_init\<close> computes, in numbers: the bitmap at the page after the kernel
  image, the frames at the page after the bitmap.
\<close>

lemma bitmap_pages:
  fixes m B :: nat
  assumes "0 < m" "m \<le> 260096" "B = (m + 63) div 64 * 8"
  shows "1 \<le> (B + 4095) div 4096" "(B + 4095) div 4096 \<le> m" "B \<le> 4096 * ((B + 4095) div 4096)"
    "B \<le> 32512"
proof -
  have "1 \<le> (m + 63) div 64" using div_le_mono [of 64 "m + 63" 64] assms(1) by simp
  then have B1: "8 \<le> B" using assms(3) by simp
  then show "1 \<le> (B + 4095) div 4096" using div_le_mono [of 4096 "B + 4095" 4096] by simp
  have "(m + 63) div 64 \<le> 4064" using div_le_mono [of "m + 63" "260096 + 63" 64] assms(2) by simp
  then show B2: "B \<le> 32512" using assms(3) by simp
  show "(B + 4095) div 4096 \<le> m"
  proof (cases "m \<le> 64")
    case True
    then have "(m + 63) div 64 \<le> 1" using div_le_mono [of "m + 63" 127 64] by simp
    then have "(B + 4095) div 4096 \<le> 1" using assms(3) div_le_mono [of "B + 4095" "8191" 4096] by simp
    with assms(1) show ?thesis by simp
  next
    case False
    have "(B + 4095) div 4096 \<le> 8" using B2 div_le_mono [of "B + 4095" "36607" 4096] by simp
    with False show ?thesis by simp
  qed
  have "(B + 4095) div 4096 * 4096 + (B + 4095) mod 4096 = B + 4095" by (rule div_mult_mod_eq)
  moreover have "(B + 4095) mod 4096 < 4096" by simp
  ultimately show "B \<le> 4096 * ((B + 4095) div 4096)" by linarith
qed

lemma pmm_init_numbers:
  fixes kend :: u64
  defines "b \<equiv> round_up kend PAGE_SIZE"
  defines "bytes \<equiv> ((PHYS_MEM_END - b) div PAGE_SIZE + 63) div 64 * 8"
  defines "start \<equiv> round_up (b + bytes) PAGE_SIZE"
  defines "nf \<equiv> (PHYS_MEM_END - start) div PAGE_SIZE"
  assumes kend: "unat kend \<le> 0x3F7FF000"
  shows "unat b = (unat kend + 4095) div 4096 * 4096"
    and "unat bytes = ((0x3F800000 - unat b) div 4096 + 63) div 64 * 8"
    and "unat start = (unat b + unat bytes + 4095) div 4096 * 4096"
    and "unat start + 4096 * unat nf = 0x3F800000"
    and "unat b + unat bytes \<le> unat start" and "0 < unat start"
    and "(unat nf + 63) div 64 \<le> unat bytes div 8"
proof -
  show b: "unat b = (unat kend + 4095) div 4096 * 4096"
    using kend unfolding b_def by (intro round_up_page) simp
  have "(unat kend + 4095) div 4096 \<le> 260095"
    using kend div_le_mono [of "unat kend + 4095" "0x3F7FF000 + 4095" 4096] by simp
  then have b_le: "unat b \<le> 0x3F7FF000"
    unfolding b by simp
  then have le: "b \<le> PHYS_MEM_END"
    by (simp add: word_le_nat_alt unat_PHYS_MEM_END)
  have q: "unat ((PHYS_MEM_END - b) div PAGE_SIZE) = (0x3F800000 - unat b) div 4096"
    by (simp add: unat_div unat_sub [OF le] unat_PHYS_MEM_END PAGE_SIZE_def)
  define q where "q = (unat kend + 4095) div 4096"
  define m where "m = 260096 - q"
  have qb: "unat b = 4096 * q" using b by (simp add: q_def)
  have q_less: "q < 260096" using b_le qb by simp
  then have m: "0 < m" "m \<le> 260096" "q + m = 260096" by (simp_all add: m_def)
  have "(0x3F800000 - unat b) = 4096 * m" using qb m by simp
  then have dm: "(0x3F800000 - unat b) div 4096 = m" by simp
  define B where "B = (m + 63) div 64 * 8"
  define c where "c = (B + 4095) div 4096"
  note Bc = bitmap_pages [OF m(1,2) B_def, folded c_def]
  have "unat ((PHYS_MEM_END - b) div PAGE_SIZE + 63) = m + 63"
    using m(2) by (subst unat_plus) (simp_all add: q dm)
  then have "unat (((PHYS_MEM_END - b) div PAGE_SIZE + 63) div 64) = (m + 63) div 64"
    by (simp add: unat_div)
  then have bytes: "unat bytes = B"
    using Bc(4) unfolding bytes_def by (simp add: unat_word_ariths B_def)
  then show "unat bytes = ((0x3F800000 - unat b) div 4096 + 63) div 64 * 8"
    by (simp only: dm B_def)
  have sum: "unat (b + bytes) = 4096 * q + B"
    using Bc(4) q_less by (subst unat_plus) (simp_all add: qb bytes)
  then have "unat start = (4096 * q + B + 4095) div 4096 * 4096"
    using Bc(4) q_less unfolding start_def by (subst round_up_page) simp_all
  then show "unat start = (unat b + unat bytes + 4095) div 4096 * 4096"
    by (simp only: qb bytes)
  have "(4096 * q + B + 4095) div 4096 = q + c"
    using div_mult_self2 [of 4096 "B + 4095" q] by (simp add: c_def algebra_simps)
  then have start: "unat start = 4096 * (q + c)"
    using \<open>unat start = (4096 * q + B + 4095) div 4096 * 4096\<close> by simp
  have le': "start \<le> PHYS_MEM_END"
    using Bc(2) m(3) by (simp add: word_le_nat_alt unat_PHYS_MEM_END start)
  have "0x3F800000 - unat start = 4096 * (m - c)"
    using Bc(2) m(3) start by simp
  then have nf: "unat nf = m - c"
    unfolding nf_def by (simp add: unat_div unat_sub [OF le'] unat_PHYS_MEM_END PAGE_SIZE_def)
  show "unat start + 4096 * unat nf = 0x3F800000"
    using Bc(2) m(3) by (simp add: nf start)
  show "unat b + unat bytes \<le> unat start"
    using Bc(3) by (simp add: start qb bytes)
  show "0 < unat start"
    using Bc(1) by (simp add: start)
  show "(unat nf + 63) div 64 \<le> unat bytes div 8"
    by (simp add: nf bytes B_def div_le_mono)
qed

lemma fold_store_bitmap:
  "bitmap s = b \<Longrightarrow> fold (\<lambda>i s. store (bitmap s) i 0 s) js s = fold (\<lambda>i s. store b i 0 s) js s"
  by (induction js arbitrary: s) auto

lemma bit_high_mask: "v < 64 \<Longrightarrow> bit (NOT (push_bit v 1 - 1) :: u64) n \<longleftrightarrow> v \<le> n \<and> n < 64"
  by (simp add: mask_eq_exp_minus_1 [symmetric] bit_simps) auto

lemma pmm_init_state:
  fixes s :: "'a pmm_scheme"
  assumes kend: "unat kend \<le> 0x3F7FF000"
  defines "t \<equiv> pmm_init kend s"
  shows "bitmap t = round_up kend PAGE_SIZE" and "pmm_geom t"
    and "\<forall>i < 64 * nwords t. frame_used i t \<longleftrightarrow> unat (total_frames t) \<le> i"
    and "\<forall>a. unat a < unat (bitmap t) \<or> unat (phys_mem_start t) \<le> unat a \<longrightarrow> mem t a = mem s a"
proof -
  define b where "b = round_up kend PAGE_SIZE"
  define bytes where "bytes = ((PHYS_MEM_END - b) div PAGE_SIZE + 63) div 64 * 8"
  define start where "start = round_up (b + bytes) PAGE_SIZE"
  define nf where "nf = (PHYS_MEM_END - start) div PAGE_SIZE"
  note n = pmm_init_numbers [OF kend, folded b_def, folded bytes_def, folded start_def, folded nf_def]
  define n0 where "n0 = unat (bytes div 8)"
  define s0 where "s0 = s\<lparr>bitmap := b, phys_mem_start := start, total_frames := nf\<rparr>"
  define s1 where "s1 = fold (\<lambda>i s. store b i 0 s) [0..<n0] s0"
  define last where "last = unat nf div 64"
  define valid where "valid = unat nf mod 64"
  have n0: "n0 = unat bytes div 8" by (simp add: n0_def unat_div)
  have b64: "unat b + 8 * n0 < 2 ^ 64" "unat b + 8 * n0 \<le> unat start"
    using n(4,5) by (simp_all add: n0)
  note z = zero_words [OF b64(1), where s = s0, folded s1_def]
  have s1: "bitmap s1 = b" "phys_mem_start s1 = start" "total_frames s1 = nf"
    by (simp_all add: z) (simp_all add: s0_def)
  have t: "t = (if valid \<noteq> 0 then store b last (load b last s1 OR NOT (push_bit valid 1 - 1)) s1 else s1)"
    using s1
    unfolding t_def pmm_init_def Let_def s1_def s0_def last_def valid_def n0_def nf_def start_def
      bytes_def b_def
    by (simp add: unat_div unat_mod fold_store_bitmap)
  have tf: "bitmap t = b" "phys_mem_start t = start" "total_frames t = nf"
    by (simp_all add: t s1)
  have nw: "nwords t = (unat nf + 63) div 64" by (simp add: nwords_def tf)
  then have nw_le: "nwords t \<le> n0" using n(7) by (simp add: n0)
  show "bitmap t = round_up kend PAGE_SIZE" by (simp add: tf b_def)
  show "pmm_geom t"
    using n(1,3,4,6) b64(2) nw_le by (auto simp: pmm_geom_def tf unat_PHYS_MEM_END)
  then have g: "pmm_geom t" .
  have nf: "unat nf = 64 * last + valid" "valid < 64" by (simp_all add: last_def valid_def)
  show "\<forall>i < 64 * nwords t. frame_used i t \<longleftrightarrow> unat (total_frames t) \<le> i"
  proof (intro allI impI)
    fix i assume i: "i < 64 * nwords t"
    then have i0: "i div 64 < n0" using nw_le by (simp add: div_less_iff_less_mult mult.commute)
    then have z0: "load b (i div 64) s1 = 0" using z(1) by simp
    show "frame_used i t \<longleftrightarrow> unat (total_frames t) \<le> i"
    proof (cases "valid = 0")
      case True
      then have "t = s1" "nwords t = last" using nf nw by (simp_all add: t)
      with z0 i nf True show ?thesis by (simp add: frame_used_bit s1)
    next
      case False
      then have "nwords t = Suc last" using nf nw by simp
      then have le: "i div 64 < Suc last" "last < n0" using i nw_le by (auto simp: less_mult_imp_div_less)
      have "word_at b (i div 64) = word_at b last \<longleftrightarrow> i div 64 = last"
        using i0 le(2) b64(1) by (intro word_at_eq_iff) auto
      then have "frame_used i t \<longleftrightarrow> i div 64 = last \<and> valid \<le> i mod 64"
        using False z0 le(2) z(1) nf(2)
        by (auto simp: frame_used_bit t s1 load_store_other bit_or_iff bit_high_mask simp del: push_bit_of_1)
      moreover have "unat nf \<le> i \<longleftrightarrow> i div 64 = last \<and> valid \<le> i mod 64"
      proof -
        define w r where "w = i div 64" and "r = i mod 64"
        have "i = 64 * w + r" "r < 64" "w \<le> last"
          using le(1) by (simp_all add: w_def r_def)
        with nf show ?thesis
          unfolding w_def [symmetric] r_def [symmetric] by (cases "w = last") auto
      qed
      ultimately show ?thesis by (simp add: tf)
    qed
  qed
  show "\<forall>a. unat a < unat (bitmap t) \<or> unat (phys_mem_start t) \<le> unat a \<longrightarrow> mem t a = mem s a"
  proof (intro allI impI)
    fix a :: u64 assume a: "unat a < unat (bitmap t) \<or> unat (phys_mem_start t) \<le> unat a"
    have "a \<noteq> word_at b i" if "i < n0" for i
      using that a b64 unat_word_at [of b i] by (auto simp: tf)
    moreover have "valid \<noteq> 0 \<Longrightarrow> last < n0"
      using nf nw nw_le by simp
    ultimately show "mem t a = mem s a"
      using z(5) [where a = a] by (auto simp: t store_def s0_def)
  qed
qed

lemma pmm_init_inv:
  assumes "unat kend \<le> 0x3F7FF000"
  shows "pmm_inv (pmm_init kend s)"
    and "free_set (pmm_init kend s) = {..<unat (total_frames (pmm_init kend s))}"
  using pmm_init_state [OF assms, of s] total_le_64_nwords [of "pmm_init kend s"]
  by (auto simp: pmm_inv_def free_set_def)

section \<open>The allocator's contract\<close>

text \<open>
  What a client of a frame allocator relies on, over an abstract set \<open>free s\<close> of frame
  addresses: an allocation takes one of them or reports that there is none, a release of a
  managed frame puts it back, and neither breaks the invariant.
\<close>

fun alloc_many :: "('s \<Rightarrow> u64 \<times> 's) \<Rightarrow> nat \<Rightarrow> 's \<Rightarrow> u64 list \<times> 's" where
  "alloc_many alloc 0 s = ([], s)"
| "alloc_many alloc (Suc n) s =
     (let (a, s) = alloc s; (as, s) = alloc_many alloc n s in (a # as, s))"

locale frame_allocator =
  fixes inv :: "'s \<Rightarrow> bool" and managed :: "'s \<Rightarrow> u64 set" and free :: "'s \<Rightarrow> u64 set"
    and alloc :: "'s \<Rightarrow> u64 \<times> 's" and release :: "u64 \<Rightarrow> 's \<Rightarrow> 's"
  assumes free_managed: "inv s \<Longrightarrow> free s \<subseteq> managed s"
    and managed_finite: "inv s \<Longrightarrow> finite (managed s)"
    and null_unmanaged: "inv s \<Longrightarrow> 0 \<notin> managed s"
    and alloc_inv: "inv s \<Longrightarrow> inv (snd (alloc s))"
    and alloc_managed: "inv s \<Longrightarrow> managed (snd (alloc s)) = managed s"
    and alloc_null: "inv s \<Longrightarrow> fst (alloc s) = 0 \<longleftrightarrow> free s = {}"
    and alloc_free: "inv s \<Longrightarrow> fst (alloc s) \<noteq> 0 \<Longrightarrow> fst (alloc s) \<in> free s"
    and alloc_takes: "inv s \<Longrightarrow> free (snd (alloc s)) = free s - {fst (alloc s)}"
    and release_inv: "inv s \<Longrightarrow> inv (release a s)"
    and release_managed: "inv s \<Longrightarrow> managed (release a s) = managed s"
    and release_frees: "inv s \<Longrightarrow> a \<in> managed s \<Longrightarrow> free (release a s) = insert a (free s)"
    and release_ignores: "inv s \<Longrightarrow> a \<notin> managed s \<Longrightarrow> release a s = s"
begin

lemma free_finite: "inv s \<Longrightarrow> finite (free s)"
  by (rule finite_subset [OF free_managed managed_finite])

lemma release_alloc:
  assumes "inv s" "free s \<noteq> {}"
  shows "free (release (fst (alloc s)) (snd (alloc s))) = free s"
proof -
  have a: "fst (alloc s) \<in> free s"
    using assms by (simp add: alloc_free alloc_null)
  with assms have "fst (alloc s) \<in> managed (snd (alloc s))"
    using free_managed by (auto simp: alloc_managed)
  with assms a show ?thesis
    by (auto simp: release_frees alloc_inv alloc_takes)
qed

text \<open>Successive allocations never hand out a frame twice, and all that is free can be had.\<close>

lemma alloc_many_distinct:
  assumes "inv s" "alloc_many alloc n s = (as, s')" "n \<le> card (free s)"
  shows "distinct as \<and> set as \<subseteq> free s \<and> 0 \<notin> set as \<and> length as = n \<and>
         inv s' \<and> managed s' = managed s \<and> free s' = free s - set as"
  using assms
proof (induction n arbitrary: s as)
  case 0
  then show ?case by simp
next
  case (Suc n)
  obtain a t where a: "alloc s = (a, t)" by (cases "alloc s")
  obtain bs where bs: "alloc_many alloc n t = (bs, s')" "as = a # bs"
    using Suc.prems(2) a by (auto split: prod.splits)
  have fin: "finite (free s)" by (rule free_finite) fact
  have ne: "free s \<noteq> {}" using Suc.prems(3) by auto
  with a Suc.prems(1) have nz: "a \<noteq> 0" using alloc_null [of s] by auto
  have t: "inv t" "managed t = managed s" "a \<in> free s" "free t = free s - {a}"
    using a Suc.prems(1) alloc_inv [of s] alloc_managed [of s] alloc_free [of s] alloc_takes [of s] nz
    by auto
  then have "n \<le> card (free t)"
    using fin Suc.prems(3) by simp
  from Suc.IH [OF t(1) bs(1) this] t nz show ?case
    by (auto simp: bs(2))
qed

lemma alloc_many_exhausts:
  assumes "inv s" "alloc_many alloc (card (free s)) s = (as, s')"
  shows "free s' = {}" "fst (alloc s') = 0"
proof -
  note d = alloc_many_distinct [OF assms order_refl]
  then have "card (set as) = card (free s)" by (simp add: distinct_card)
  with d have "set as = free s"
    by (intro card_subset_eq) (auto simp: free_finite assms(1))
  with d show "free s' = {}" "fst (alloc s') = 0"
    by (auto simp: alloc_null)
qed

end

text \<open>The bitmap allocator meets the contract: its frames are addresses, its free frames bits.\<close>

definition managed_frames :: "'a pmm_scheme \<Rightarrow> u64 set" where
  "managed_frames s = frame_addr s ` {..<unat (total_frames s)}"

definition free_frames :: "'a pmm_scheme \<Rightarrow> u64 set" where
  "free_frames s = frame_addr s ` free_set s"

lemma free_set_less: "i \<in> free_set s \<Longrightarrow> i < unat (total_frames s)"
  by (simp add: free_set_def)

lemma frame_addr_image_diff:
  assumes "pmm_geom s" "A \<subseteq> {..<unat (total_frames s)}" "B \<subseteq> {..<unat (total_frames s)}"
  shows "frame_addr s ` (A - B) = frame_addr s ` A - frame_addr s ` B"
  using assms by (intro inj_on_image_set_diff [of _ "{..<unat (total_frames s)}"])
    (auto simp: inj_on_def frame_addr_inj)

lemma alloc_frame_abs:
  assumes "pmm_inv s" "alloc_frame s = (a, s')"
  shows "pmm_inv s'" and "total_frames s' = total_frames s" and "frame_addr s' = frame_addr s"
    and "bitmap s' = bitmap s" and "phys_mem_start s' = phys_mem_start s"
    and "inp s' = inp s" and "daif s' = daif s" and "MMU_ACTIVE s' = MMU_ACTIVE s"
    and "trace s' = trace s @ with_lock Pmm_lock s"
    and "free_set s = {} \<Longrightarrow> a = 0 \<and> free_set s' = {} \<and> mem s' = mem s"
    and "free_set s \<noteq> {} \<Longrightarrow> a = frame_addr s (Min (free_set s))
           \<and> free_set s' = free_set s - {Min (free_set s)}"
    and "x \<notin> bitmap_region s \<Longrightarrow> mem s' x = mem s x"
proof -
  have geom: "pmm_geom s" using assms(1) by (simp add: pmm_inv_def)
  have m: "Min (free_set s) < 64 * nwords s" if "free_set s \<noteq> {}"
    using that Min_in [of "free_set s"] free_set_less [of "Min (free_set s)" s]
      total_le_64_nwords [of s] by auto
  show "pmm_inv s'" "total_frames s' = total_frames s" "frame_addr s' = frame_addr s"
    "bitmap s' = bitmap s" "phys_mem_start s' = phys_mem_start s"
    "inp s' = inp s" "daif s' = daif s" "MMU_ACTIVE s' = MMU_ACTIVE s"
    "trace s' = trace s @ with_lock Pmm_lock s"
    "free_set s = {} \<Longrightarrow> a = 0 \<and> free_set s' = {} \<and> mem s' = mem s"
    "free_set s \<noteq> {} \<Longrightarrow> a = frame_addr s (Min (free_set s))
           \<and> free_set s' = free_set s - {Min (free_set s)}"
    "x \<notin> bitmap_region s \<Longrightarrow> mem s' x = mem s x"
    using assms alloc_frame_eq [OF assms(1)] m geom
    by (auto simp: pmm_inv_mark_used free_set_mark_used mem_mark split: if_splits)
qed

lemma free_frame_abs:
  assumes "pmm_inv s"
  shows "pmm_inv (free_frame a s)" and "total_frames (free_frame a s) = total_frames s"
    and "frame_addr (free_frame a s) = frame_addr s" and "bitmap (free_frame a s) = bitmap s"
    and "phys_mem_start (free_frame a s) = phys_mem_start s"
    and "inp (free_frame a s) = inp s" and "daif (free_frame a s) = daif s"
    and "MMU_ACTIVE (free_frame a s) = MMU_ACTIVE s"
    and "i < unat (total_frames s) \<Longrightarrow>
           free_set (free_frame (frame_addr s i) s) = insert i (free_set s)
           \<and> trace (free_frame (frame_addr s i) s) = trace s @ with_lock Pmm_lock s"
    and "x \<notin> bitmap_region s \<Longrightarrow> mem (free_frame a s) x = mem s x"
proof -
  have geom: "pmm_geom s" using assms(1) by (simp add: pmm_inv_def)
  have *: "insert i (free_set s) = free_set s" if "i < unat (total_frames s)" "\<not> frame_used i s" for i
    using that by (auto simp: free_set_def)
  show "i < unat (total_frames s) \<Longrightarrow>
           free_set (free_frame (frame_addr s i) s) = insert i (free_set s)
           \<and> trace (free_frame (frame_addr s i) s) = trace s @ with_lock Pmm_lock s"
    using free_frame_eq [OF assms, of i] geom * by (simp add: free_set_mark_free)
  have "free_frame a s = s \<or> (\<exists>i < unat (total_frames s). free_frame a s =
    emit (with_lock Pmm_lock s) (if frame_used i s then mark_free i s else s))"
    using free_frame_ignores [OF geom, of a] free_frame_eq [OF assms] by metis
  then show "pmm_inv (free_frame a s)" "total_frames (free_frame a s) = total_frames s"
    "frame_addr (free_frame a s) = frame_addr s" "bitmap (free_frame a s) = bitmap s"
    "phys_mem_start (free_frame a s) = phys_mem_start s"
    "inp (free_frame a s) = inp s" "daif (free_frame a s) = daif s"
    "MMU_ACTIVE (free_frame a s) = MMU_ACTIVE s"
    "x \<notin> bitmap_region s \<Longrightarrow> mem (free_frame a s) x = mem s x"
    using assms total_le_64_nwords [of s] by (auto simp: pmm_inv_mark_free mem_mark split: if_splits)
qed

interpretation pmm_alloc: frame_allocator pmm_inv managed_frames free_frames alloc_frame free_frame
proof
  fix s :: "'a pmm_scheme" and a :: u64
  assume inv: "pmm_inv s"
  then have geom: "pmm_geom s" by (simp add: pmm_inv_def)
  have sub: "free_set s \<subseteq> {..<unat (total_frames s)}" by (auto dest: free_set_less)
  show "free_frames s \<subseteq> managed_frames s"
    using sub by (auto simp: free_frames_def managed_frames_def)
  show "finite (managed_frames s)" by (simp add: managed_frames_def)
  show "0 \<notin> managed_frames s"
    using frame_addr_facts(1) [OF geom] by (force simp: managed_frames_def)
  obtain f t where ft: "alloc_frame s = (f, t)" by (cases "alloc_frame s")
  note al = alloc_frame_abs [OF inv ft]
  show "pmm_inv (snd (alloc_frame s))" "managed_frames (snd (alloc_frame s)) = managed_frames s"
    using al by (simp_all add: ft managed_frames_def)
  have min: "Min (free_set s) \<in> free_set s" if "free_set s \<noteq> {}"
    using that by (rule Min_in [OF free_set_finite])
  have nz: "frame_addr s (Min (free_set s)) \<noteq> 0" if "free_set s \<noteq> {}"
    by (rule frame_addr_facts(1) [OF geom free_set_less [OF min [OF that]]])
  show "fst (alloc_frame s) = 0 \<longleftrightarrow> free_frames s = {}"
  proof (cases "free_set s = {}")
    case True
    with al(10) show ?thesis by (simp add: ft free_frames_def)
  next
    case False
    with al(11) nz show ?thesis by (simp add: ft free_frames_def)
  qed
  show "free_frames (snd (alloc_frame s)) = free_frames s - {fst (alloc_frame s)}"
  proof (cases "free_set s = {}")
    case False
    have "frame_addr s ` (free_set s - {Min (free_set s)}) =
      frame_addr s ` free_set s - frame_addr s ` {Min (free_set s)}"
      using free_set_less [OF min [OF False]] by (intro frame_addr_image_diff [OF geom sub]) simp
    with False show ?thesis using al(3,11) by (simp add: ft free_frames_def)
  qed (use al(10) in \<open>simp add: ft free_frames_def\<close>)
  show "fst (alloc_frame s) \<noteq> 0 \<Longrightarrow> fst (alloc_frame s) \<in> free_frames s"
    using al(10,11) min by (cases "free_set s = {}") (simp_all add: ft free_frames_def)
  show "pmm_inv (free_frame a s)" "managed_frames (free_frame a s) = managed_frames s"
    using free_frame_abs(1,2,3) [OF inv, where a = a] by (simp_all add: managed_frames_def)
  show "a \<in> managed_frames s \<Longrightarrow> free_frames (free_frame a s) = insert a (free_frames s)"
    using free_frame_abs(3,9) [OF inv] by (auto simp: managed_frames_def free_frames_def)
  show "a \<notin> managed_frames s \<Longrightarrow> free_frame a s = s"
    by (rule free_frame_ignores [OF geom]) (auto simp: managed_frames_def)
qed

lemma alloc_frames_abs:
  assumes "pmm_inv s" "alloc_frames count s = (a, s')"
  shows "pmm_inv s'" and "total_frames s' = total_frames s" and "frame_addr s' = frame_addr s"
    and "bitmap s' = bitmap s" and "phys_mem_start s' = phys_mem_start s"
    and "inp s' = inp s" and "daif s' = daif s" and "MMU_ACTIVE s' = MMU_ACTIVE s"
    and "trace s' = trace s @ (if count = 0 then [] else with_lock Pmm_lock s)"
    and "x \<notin> bitmap_region s \<Longrightarrow> mem s' x = mem s x"
    and "a = 0 \<Longrightarrow> free_set s' = free_set s \<and> mem s' = mem s"
    and "a \<noteq> 0 \<Longrightarrow> count \<noteq> 0 \<and> (\<exists>st. a = frame_addr s st \<and> first_run (unat count) s = Some st
           \<and> free_set s' = free_set s - {st..<st + unat count})"
    and "a = 0 \<Longrightarrow> count \<noteq> 0 \<Longrightarrow> first_run (unat count) s = None"
proof -
  have geom: "pmm_geom s" using assms(1) by (simp add: pmm_inv_def)
  have zero: "s' = s \<and> a = 0" if "count = 0"
    using that assms(2) by (simp add: alloc_frames_def)
  have none: "a = 0 \<and> s' = emit (with_lock Pmm_lock s) s" if "count \<noteq> 0" "first_run (unat count) s = None"
    using that assms alloc_frames_eq [OF assms(1)] by simp
  have some: "a = frame_addr s st \<and> s' = emit (with_lock Pmm_lock s) (fold mark_used [st..<st + unat count] s)
      \<and> a \<noteq> 0 \<and> (\<forall>i \<in> set [st..<st + unat count]. i < 64 * nwords s)"
    if "count \<noteq> 0" "first_run (unat count) s = Some st" for st
  proof -
    have "st + unat count \<le> unat (total_frames s)" using first_run_SomeD(2) [OF that(2)] .
    moreover have "0 < unat count" using that(1) by (simp add: unat_gt_0)
    ultimately have "st < unat (total_frames s)" "\<forall>i \<in> set [st..<st + unat count]. i < 64 * nwords s"
      using total_le_64_nwords [of s] by auto
    then show ?thesis
      using that assms alloc_frames_eq [OF assms(1)] frame_addr_facts(1) [OF geom, of st] by simp
  qed
  consider "count = 0" | "count \<noteq> 0" "first_run (unat count) s = None"
    | st where "count \<noteq> 0" "first_run (unat count) s = Some st" by fastforce
  note cs = this
  show "pmm_inv s'" "total_frames s' = total_frames s" "frame_addr s' = frame_addr s"
    "bitmap s' = bitmap s" "phys_mem_start s' = phys_mem_start s"
    "inp s' = inp s" "daif s' = daif s" "MMU_ACTIVE s' = MMU_ACTIVE s"
    "trace s' = trace s @ (if count = 0 then [] else with_lock Pmm_lock s)"
    "x \<notin> bitmap_region s \<Longrightarrow> mem s' x = mem s x"
    "a = 0 \<Longrightarrow> free_set s' = free_set s \<and> mem s' = mem s"
    "a \<noteq> 0 \<Longrightarrow> count \<noteq> 0 \<and> (\<exists>st. a = frame_addr s st \<and> first_run (unat count) s = Some st
           \<and> free_set s' = free_set s - {st..<st + unat count})"
    "a = 0 \<Longrightarrow> count \<noteq> 0 \<Longrightarrow> first_run (unat count) s = None"
    by (rule cs; use zero none some assms(1) fold_mark_used [OF geom] in \<open>force simp: free_set_def\<close>)+
qed

section \<open>Properties of the frame allocator\<close>

definition ram0 :: pmm where
  "ram0 = \<lparr>inp = [], trace = [], daif = 0, MMU_ACTIVE = False, mem = (\<lambda>_. 0), bitmap = 0,
     phys_mem_start = 0, total_frames = 0\<rparr>"

text \<open>C12: \<open>pmm_init\<close> establishes the allocator's invariant with every frame free, for every end of
  the kernel image that leaves at least one page: the kernel, the bitmap and the frames do not
  overlap, and the frames end at \<open>PHYS_MEM_END\<close>.\<close>

theorem pmm_init_correct:
  assumes "unat kernel_end \<le> 0x3F7FF000"
  shows "let t = pmm_init kernel_end s in
    pmm_inv t \<and> free_set t = {..<unat (total_frames t)}
    \<and> unat kernel_end \<le> unat (bitmap t)
    \<and> unat (bitmap t) + 8 * nwords t \<le> unat (phys_mem_start t)
    \<and> unat (phys_mem_start t) + 4096 * unat (total_frames t) = 0x3F800000"
proof -
  have "unat kernel_end \<le> (unat kernel_end + 4095) div 4096 * 4096"
    using div_mult_mod_eq [of "unat kernel_end + 4095" 4096] mod_less_divisor [of 4096 "unat kernel_end + 4095"]
    by linarith
  then show ?thesis
    using pmm_init_inv [OF assms, of s] pmm_init_state(1,2) [OF assms, of s] pmm_init_numbers(1) [OF assms]
    by (auto simp: Let_def pmm_geom_def unat_PHYS_MEM_END)
qed

theorem pmm_init_correct_witness:
  "unat (0x200000 :: u64) \<le> 0x3F7FF000 \<and> pmm_inv (pmm_init 0x200000 ram0)"
  using pmm_init_correct [of "0x200000" ram0] by (simp add: Let_def)

text \<open>The allocator as it stands after initialisation at \<open>0x3F7F0000\<close>: fifteen frames.\<close>

definition pmm_small :: pmm where "pmm_small = pmm_init 0x3F7F0000 ram0"

lemma fold_store_geometry:
  "phys_mem_start (fold (\<lambda>i s. store (bitmap s) i 0 s) js s) = phys_mem_start s"
  "total_frames (fold (\<lambda>i s. store (bitmap s) i 0 s) js s) = total_frames s"
  by (induction js arbitrary: s) auto

lemma pmm_init_geometry:
  fixes kend :: u64
  defines "b \<equiv> round_up kend PAGE_SIZE"
  defines "start \<equiv> round_up (b + ((PHYS_MEM_END - b) div PAGE_SIZE + 63) div 64 * 8) PAGE_SIZE"
  shows "phys_mem_start (pmm_init kend s) = start"
    and "total_frames (pmm_init kend s) = (PHYS_MEM_END - start) div PAGE_SIZE"
  unfolding pmm_init_def Let_def b_def start_def by (simp_all add: fold_store_geometry)

lemma pmm_init_small:
  fixes s :: "'a pmm_scheme"
  defines "t \<equiv> pmm_init 0x3F7F0000 s"
  shows "pmm_inv t" "phys_mem_start t = 0x3F7F1000" "total_frames t = 15" "free_set t = {..<15}"
proof -
  have k: "unat (0x3F7F0000 :: u64) \<le> 0x3F7FF000" by simp
  note init = pmm_init_inv [OF k, of s, folded t_def]
  show "pmm_inv t" by (rule init)
  show "phys_mem_start t = 0x3F7F1000" and b: "total_frames t = 15"
    unfolding t_def pmm_init_geometry by (simp_all add: board round_up_def)
  then show "free_set t = {..<15}" using init(2) by simp
qed

lemmas pmm_small = pmm_init_small [of ram0, folded pmm_small_def]

text \<open>C1: \<open>alloc_frame\<close> returns the lowest free frame and takes exactly it; when no frame is free
  it returns 0 and changes nothing. The lock is taken and released once, no device is touched, the
  interrupt mask is restored, and memory outside the bitmap keeps its contents.\<close>

theorem alloc_frame_correct:
  assumes "pmm_inv s" and "alloc_frame s = (a, s')"
  shows "pmm_inv s' \<and> daif s' = daif s \<and> trace s' = trace s @ with_lock Pmm_lock s
    \<and> (\<forall>x. x \<notin> bitmap_region s \<longrightarrow> mem s' x = mem s x)
    \<and> (if free_set s = {} then a = 0 \<and> free_set s' = {}
       else a = frame_addr s (Min (free_set s)) \<and> a \<noteq> 0 \<and> page_aligned a
         \<and> free_set s' = free_set s - {Min (free_set s)})"
proof (cases "free_set s = {}")
  case True
  with alloc_frame_abs [OF assms] show ?thesis by auto
next
  case False
  have "Min (free_set s) < unat (total_frames s)"
    by (rule free_set_less) (rule Min_in [OF free_set_finite False])
  with alloc_frame_abs [OF assms] False frame_addr_facts [of s "Min (free_set s)"] assms(1)
  show ?thesis by (auto simp: pmm_inv_def)
qed

lemma Min_15: "Min {..<15 :: nat} = 0"
  by (rule Min_eqI) auto

theorem alloc_frame_correct_witness:
  "fst (alloc_frame pmm_small) = 0x3F7F1000 \<and> 0 \<notin> free_set (snd (alloc_frame pmm_small))"
  using alloc_frame_correct [OF pmm_small(1) surjective_pairing]
  by (simp add: pmm_small(2,4) frame_addr_def Min_15 lessThan_empty_iff)

text \<open>C13: \<open>alloc_frames\<close> is a first-fit search: it returns the base of the lowest run of \<open>count\<close>
  free frames and takes exactly that run, and it returns 0, with the bitmap unchanged, only for
  \<open>count = 0\<close> or when no such run exists.\<close>

theorem alloc_frames_first_fit:
  assumes "pmm_inv s" and "alloc_frames count s = (a, s')"
  shows "pmm_inv s' \<and> daif s' = daif s
    \<and> (\<forall>x. x \<notin> bitmap_region s \<longrightarrow> mem s' x = mem s x)
    \<and> (if a = 0 then free_set s' = free_set s
         \<and> (count = 0 \<or> (\<forall>st. \<not> {st..<st + unat count} \<subseteq> free_set s))
       else \<exists>st. a = frame_addr s st \<and> {st..<st + unat count} \<subseteq> free_set s
         \<and> (\<forall>j < st. \<not> {j..<j + unat count} \<subseteq> free_set s)
         \<and> free_set s' = free_set s - {st..<st + unat count})"
proof -
  note al = alloc_frames_abs [OF assms]
  have none: "\<not> {st..<st + unat count} \<subseteq> free_set s" if "a = 0" "count \<noteq> 0" for st
  proof
    assume sub: "{st..<st + unat count} \<subseteq> free_set s"
    have pos: "0 < unat count" using that(2) by (simp add: unat_gt_0)
    then have "st + unat count - 1 \<in> free_set s" using sub by auto
    then have "st + unat count \<le> unat (total_frames s)" using free_set_less [of "st + unat count - 1" s] pos by auto
    with first_run_NoneD [OF al(13) pos] that sub show False by blast
  qed
  have some: "\<exists>st. a = frame_addr s st \<and> {st..<st + unat count} \<subseteq> free_set s
         \<and> (\<forall>j < st. \<not> {j..<j + unat count} \<subseteq> free_set s)
         \<and> free_set s' = free_set s - {st..<st + unat count}" if nz: "a \<noteq> 0"
  proof -
    obtain st where st: "a = frame_addr s st" "first_run (unat count) s = Some st"
      "free_set s' = free_set s - {st..<st + unat count}"
      using al(12) [OF nz] by blast
    have "\<not> {j..<j + unat count} \<subseteq> free_set s" if "j < st" for j
    proof -
      have "\<not> run_free (unat count) s j"
        using st(2) that by (auto simp: first_run_def find_upt_Some_iff)
      then show ?thesis by (auto simp: run_free_def free_set_def)
    qed
    with st first_run_SomeD [OF st(2)] show ?thesis by blast
  qed
  show ?thesis
    using al(1,7,10,11) none some by auto
qed

theorem alloc_frames_first_fit_witness:
  "fst (alloc_frames 4 pmm_small) = 0x3F7F1000 \<and> free_set (snd (alloc_frames 4 pmm_small)) = {4..<15}"
proof -
  have four: "{0..<0 + unat (4 :: u64)} \<subseteq> {..<15}" by auto
  note ff = alloc_frames_first_fit [OF pmm_small(1) surjective_pairing, of 4, unfolded pmm_small(4)]
  have nz: "fst (alloc_frames 4 pmm_small) \<noteq> 0"
  proof
    assume "fst (alloc_frames 4 pmm_small) = 0"
    with ff have "\<forall>st. \<not> {st..<st + unat (4 :: u64)} \<subseteq> {..<15}" by (simp only: simp_thms if_True) simp
    then show False using four by blast
  qed
  with ff obtain st where st: "fst (alloc_frames 4 pmm_small) = frame_addr pmm_small st"
    "\<forall>j < st. \<not> {j..<j + unat (4 :: u64)} \<subseteq> {..<15}"
    "free_set (snd (alloc_frames 4 pmm_small)) = {..<15} - {st..<st + unat (4 :: u64)}"
    unfolding if_not_P [OF nz] by blast
  have "\<not> 0 < st" using st(2) four by blast
  then have "st = 0" by simp
  have "{..<15} - {0..<0 + unat (4 :: u64)} = {4..<15}" by auto
  with st(1,3) show ?thesis unfolding \<open>st = 0\<close> by (simp only: frame_addr_def pmm_small(2)) simp
qed



text \<open>any number of successive allocations, as long as frames are left, returns pairwise
  different non-null frames, each free before; having allocated as many as were free, the next
  allocation reports exhaustion.\<close>

theorem alloc_frame_sequence:
  assumes "pmm_inv s" and "n \<le> card (free_frames s)"
    and "alloc_many alloc_frame n s = (as, s')"
  shows "distinct as \<and> set as \<subseteq> free_frames s \<and> 0 \<notin> set as \<and> length as = n
    \<and> free_frames s' = free_frames s - set as
    \<and> (n = card (free_frames s) \<longrightarrow> fst (alloc_frame s') = 0)"
  using pmm_alloc.alloc_many_distinct [OF assms(1,3,2)] pmm_alloc.alloc_many_exhausts [OF assms(1)] assms(3)
  by blast

theorem alloc_frame_sequence_witness:
  "distinct (fst (alloc_many alloc_frame 15 pmm_small))"
proof -
  have "inj_on (frame_addr pmm_small) {..<15}"
    using pmm_small(1,3) by (intro inj_onI) (simp add: pmm_inv_def frame_addr_inj)
  then have "card (free_frames pmm_small) = 15"
    by (simp add: free_frames_def pmm_small(4) card_image)
  then show ?thesis
    using alloc_frame_sequence [OF pmm_small(1) _ surjective_pairing, of 15] by simp
qed

end
