(* ===== verification/Mmu.thy ===== *)
theory Mmu
  imports Pmm
begin

text \<open>
  The MMU driver (\<open>include/kernel/mmu.h\<close>, \<open>src/kernel/mmu/mmu.cpp\<close>): a three-level page table of
  512-entry tables in the memory of theory \<open>Pmm\<close>. Table frames come from \<open>alloc_frame\<close> and go
  back with \<open>free_frame\<close>. Descriptor writes are recorded in the trace (\<open>St64\<close>) beside the
  barriers and TLB operations, so that their order can be stated.

  The loop counters of the code are \<open>int\<close>; they are numbers here, so the model is the code's for
  sizes below \<open>2^31\<close> pages (the translation regime has \<open>2^27\<close> of them).
\<close>

section \<open>State and operations\<close>

record mmu = pmm +
  l1_table :: u64

definition PTE_NORMAL_RW :: u64 where [board]: "PTE_NORMAL_RW = 0x703"
definition PTE_DEVICE_RW :: u64 where [board]: "PTE_DEVICE_RW = 0x707"
definition PTE_NORMAL_NC_RW :: u64 where [board]: "PTE_NORMAL_NC_RW = 0x60B"

definition ADDR_MASK :: u64 where "ADDR_MASK = 0x0000FFFFFFFFF000"

definition L1_INDEX :: "u64 \<Rightarrow> nat" where "L1_INDEX va = unat (drop_bit 30 va AND 0x1FF)"
definition L2_INDEX :: "u64 \<Rightarrow> nat" where "L2_INDEX va = unat (drop_bit 21 va AND 0x1FF)"
definition L3_INDEX :: "u64 \<Rightarrow> nat" where "L3_INDEX va = unat (drop_bit 12 va AND 0x1FF)"

definition write_desc :: "u64 \<Rightarrow> nat \<Rightarrow> u64 \<Rightarrow> 'a mmu_scheme \<Rightarrow> 'a mmu_scheme" where
  "write_desc table index d s = emit [St64 (word_at table index) d] (store table index d s)"

definition zero_table :: "u64 \<Rightarrow> 'a mmu_scheme \<Rightarrow> 'a mmu_scheme" where
  "zero_table table s = fold (\<lambda>i. store table i 0) [0..<512] s"

definition get_or_alloc_table :: "u64 \<Rightarrow> nat \<Rightarrow> 'a mmu_scheme \<Rightarrow> u64 \<times> 'a mmu_scheme" where
  "get_or_alloc_table table index s =
     (let entry = load table index s
      in if entry AND 1 \<noteq> 0 then (entry AND 0x0000FFFFFFFFF000, s)
         else let (child, s) = alloc_frame s
              in if child = 0 then (0, s)
                 else (child, write_desc table index (child OR 3) (zero_table child s)))"

definition table_is_empty :: "u64 \<Rightarrow> 'a mmu_scheme \<Rightarrow> bool" where
  "table_is_empty table s \<longleftrightarrow> list_all (\<lambda>i. load table i s = 0) [0..<512]"

definition tlbi_pages :: "u64 \<Rightarrow> nat \<Rightarrow> 'a mmu_scheme \<Rightarrow> 'a mmu_scheme" where
  "tlbi_pages va n s =
     emit (map (\<lambda>i. Tlbi_vaae1is (drop_bit 12 (va + of_nat i * PAGE_SIZE))) [0..<n]) s"

text \<open>
  The first loop of \<open>_unmap_locked\<close> at page \<open>i\<close> with \<open>k\<close> pages left. The Boolean is false when
  the loop returned from the function because a table is missing.
\<close>

fun unmap_loop :: "u64 \<Rightarrow> nat \<Rightarrow> nat \<Rightarrow> 'a mmu_scheme \<Rightarrow> bool \<times> 'a mmu_scheme" where
  "unmap_loop va 0 i s = (True, s)"
| "unmap_loop va (Suc k) i s =
     (let current_va = va + of_nat i * PAGE_SIZE;
          l1_desc = load (l1_table s) (L1_INDEX current_va) s
      in if l1_desc AND 3 \<noteq> 3 then (False, s)
      else let l2_table = l1_desc AND ADDR_MASK;
               l2_desc = load l2_table (L2_INDEX current_va) s
      in if l2_desc AND 3 \<noteq> 3 then (False, s)
      else let l3_table = l2_desc AND ADDR_MASK;
               s = write_desc l3_table (L3_INDEX current_va) 0 s;
               s = (if table_is_empty l3_table s
                    then free_frame l3_table (write_desc l2_table (L2_INDEX current_va) 0 s) else s);
               s = (if table_is_empty l2_table s
                    then free_frame l2_table (write_desc (l1_table s) (L1_INDEX current_va) 0 s) else s)
      in unmap_loop va k (Suc i) s)"

definition unmap_locked :: "u64 \<Rightarrow> u64 \<Rightarrow> 'a mmu_scheme \<Rightarrow> 'a mmu_scheme" where
  "unmap_locked va sz s =
     (let num_pages = unat (sz div PAGE_SIZE);
          (done, s) = unmap_loop va num_pages 0 (dsb_ishst s)
      in if done then isb (dsb_ish (tlbi_pages va num_pages s)) else s)"

definition unmap :: "u64 \<Rightarrow> u64 \<Rightarrow> 'a mmu_scheme \<Rightarrow> 'a mmu_scheme" where
  "unmap va sz s =
     (let (irq_flags, s) = spin_lock Mmu_lock s
      in spin_unlock Mmu_lock irq_flags (unmap_locked va sz s))"

text \<open>\<open>map\<close>'s first loop; on a missing frame the pages mapped so far are unmapped again.\<close>

fun map_loop ::
  "u64 \<Rightarrow> u64 \<Rightarrow> u64 \<Rightarrow> nat \<Rightarrow> nat \<Rightarrow> 'a mmu_scheme \<Rightarrow> bool \<times> 'a mmu_scheme" where
  "map_loop va phys flags 0 i s = (True, s)"
| "map_loop va phys flags (Suc k) i s =
     (let current_va = va + of_nat i * PAGE_SIZE;
          current_phys = phys + of_nat i * PAGE_SIZE;
          (l2_table, s) = get_or_alloc_table (l1_table s) (L1_INDEX current_va) s
      in if l2_table = 0 then (False, unmap_locked va (of_nat i * PAGE_SIZE) s)
      else let (l3_table, s) = get_or_alloc_table l2_table (L2_INDEX current_va) s
      in if l3_table = 0 then (False, unmap_locked va (of_nat i * PAGE_SIZE) s)
      else map_loop va phys flags k (Suc i)
             (write_desc l3_table (L3_INDEX current_va) (current_phys OR flags OR 3) s))"

definition map_pages :: "u64 \<Rightarrow> u64 \<Rightarrow> u64 \<Rightarrow> u64 \<Rightarrow> 'a mmu_scheme \<Rightarrow> bool \<times> 'a mmu_scheme" where
  "map_pages va phys sz flags s =
     (let num_pages = unat (sz div PAGE_SIZE);
          (irq_flags, s) = spin_lock Mmu_lock s;
          (ok, s) = map_loop va phys flags num_pages 0 (dsb_ishst s)
      in if ok then (True, spin_unlock Mmu_lock irq_flags (isb (dsb_ish (tlbi_pages va num_pages s))))
         else (False, spin_unlock Mmu_lock irq_flags s))"

definition translate :: "u64 \<Rightarrow> 'a mmu_scheme \<Rightarrow> u64 \<times> 'a mmu_scheme" where
  "translate virt s =
     (let (irq_flags, s) = spin_lock Mmu_lock s;
          l1_desc = load (l1_table s) (L1_INDEX virt) s
      in if l1_desc AND 3 \<noteq> 3 then (NOT 0, spin_unlock Mmu_lock irq_flags s)
      else let l2_table = l1_desc AND ADDR_MASK; l2_desc = load l2_table (L2_INDEX virt) s
      in if l2_desc AND 3 \<noteq> 3 then (NOT 0, spin_unlock Mmu_lock irq_flags s)
      else let l3_table = l2_desc AND ADDR_MASK; l3_desc = load l3_table (L3_INDEX virt) s
      in if l3_desc AND 3 \<noteq> 3 then (NOT 0, spin_unlock Mmu_lock irq_flags s)
      else ((l3_desc AND ADDR_MASK) OR (virt AND 0xFFF), spin_unlock Mmu_lock irq_flags s))"

section \<open>The page table as a tree\<close>

text \<open>
  The entries of the tables as a function \<open>e\<close> of table address and index. \<open>T2\<close> and \<open>T3\<close> follow
  the descriptors to the tables of the second and third level, \<open>PTE\<close> reads the page descriptor.
\<close>

type_synonym entries = "u64 \<Rightarrow> nat \<Rightarrow> u64"

definition child :: "u64 \<Rightarrow> u64 option" where
  "child d = (if d AND 3 = 3 then Some (d AND ADDR_MASK) else None)"

definition T2 :: "u64 \<Rightarrow> entries \<Rightarrow> nat \<Rightarrow> u64 option" where
  "T2 l e i = child (e l i)"

definition T3 :: "u64 \<Rightarrow> entries \<Rightarrow> nat \<Rightarrow> nat \<Rightarrow> u64 option" where
  "T3 l e i j = (case T2 l e i of None \<Rightarrow> None | Some a \<Rightarrow> child (e a j))"

definition PTE :: "u64 \<Rightarrow> entries \<Rightarrow> nat \<Rightarrow> nat \<Rightarrow> nat \<Rightarrow> u64" where
  "PTE l e i j k = (case T3 l e i j of None \<Rightarrow> 0 | Some b \<Rightarrow> e b k)"

definition desc_ok :: "u64 \<Rightarrow> bool" where "desc_ok d \<longleftrightarrow> d = 0 \<or> d AND 3 = 3"

definition tree :: "u64 \<Rightarrow> entries \<Rightarrow> u64 set" where
  "tree l e = {l} \<union> {a. \<exists>i. T2 l e i = Some a} \<union> {b. \<exists>i j. T3 l e i j = Some b}"

text \<open>
  Well-formed page tables over a set \<open>F\<close> of frames: every table is a frame of \<open>F\<close>, no frame is
  used for two tables, and every entry is 0 or valid.
\<close>

definition wf_pt :: "u64 \<Rightarrow> entries \<Rightarrow> u64 set \<Rightarrow> bool" where
  "wf_pt l e F \<longleftrightarrow> l \<in> F \<and> 0 \<notin> F \<and> (\<forall>i. desc_ok (e l i))
     \<and> (\<forall>i a. T2 l e i = Some a \<longrightarrow> a \<in> F \<and> a \<noteq> l \<and> (\<forall>j. desc_ok (e a j)))
     \<and> (\<forall>i j b. T3 l e i j = Some b \<longrightarrow>
          b \<in> F \<and> b \<noteq> l \<and> (\<forall>i'. T2 l e i' \<noteq> Some b) \<and> (\<forall>k. desc_ok (e b k)))
     \<and> (\<forall>i i' a. T2 l e i = Some a \<longrightarrow> T2 l e i' = Some a \<longrightarrow> i = i')
     \<and> (\<forall>i j i' j' b. T3 l e i j = Some b \<longrightarrow> T3 l e i' j' = Some b \<longrightarrow> i = i' \<and> j = j')"

definition upd :: "entries \<Rightarrow> u64 \<Rightarrow> nat \<Rightarrow> u64 \<Rightarrow> entries" where
  "upd e a i d = e(a := (e a)(i := d))"

lemma upd_apply: "upd e a i d b j = (if b = a \<and> j = i then d else e b j)"
  by (simp add: upd_def)

lemma child_0 [simp]: "child 0 = None" by (simp add: child_def)

lemma desc_ok_0 [simp]: "desc_ok 0" by (simp add: desc_ok_def)

lemma desc_ok_None: "desc_ok d \<Longrightarrow> child d = None \<longleftrightarrow> d = 0"
  by (auto simp: desc_ok_def child_def)

lemma wf_ptD:
  assumes "wf_pt l e F"
  shows "l \<in> F" "0 \<notin> F" "desc_ok (e l i)"
    and "T2 l e i = Some a \<Longrightarrow> a \<in> F" "T2 l e i = Some a \<Longrightarrow> a \<noteq> l"
    and "T2 l e i = Some a \<Longrightarrow> desc_ok (e a j)"
    and "T3 l e i j = Some b \<Longrightarrow> b \<in> F" "T3 l e i j = Some b \<Longrightarrow> b \<noteq> l"
    and "T3 l e i j = Some b \<Longrightarrow> T2 l e i' \<noteq> Some b" "T3 l e i j = Some b \<Longrightarrow> desc_ok (e b k)"
    and "T2 l e i = Some a \<Longrightarrow> T2 l e i' = Some a \<Longrightarrow> i = i'"
    and "T3 l e i j = Some b \<Longrightarrow> T3 l e i' j' = Some b \<Longrightarrow> i = i' \<and> j = j'"
  using assms unfolding wf_pt_def by blast+

text \<open>Changing a frame that is not a table changes nothing.\<close>

lemma outside_tree:
  assumes "f \<notin> tree l e"
  shows "T2 l (e(f := g)) = T2 l e" and "T3 l (e(f := g)) = T3 l e" and "PTE l (e(f := g)) = PTE l e"
    and "tree l (e(f := g)) = tree l e"
proof -
  show T2: "T2 l (e(f := g)) = T2 l e"
    using assms by (auto simp: T2_def tree_def fun_eq_iff)
  show T3: "T3 l (e(f := g)) = T3 l e"
    using assms by (auto simp: T3_def T2 tree_def fun_eq_iff split: option.splits)
  show "PTE l (e(f := g)) = PTE l e"
    using assms by (auto simp: PTE_def T3 tree_def fun_eq_iff split: option.splits)
  show "tree l (e(f := g)) = tree l e"
    by (simp add: tree_def T2 T3)
qed

lemma tree_subset: "wf_pt l e F \<Longrightarrow> tree l e \<subseteq> F"
  by (auto simp: tree_def dest: wf_ptD)

lemma wf_pt_outside:
  assumes "wf_pt l e F" "f \<notin> tree l e"
  shows "wf_pt l (e(f := g)) F"
proof -
  have "f \<noteq> l" "\<And>i. T2 l e i \<noteq> Some f" "\<And>i j. T3 l e i j \<noteq> Some f"
    using assms(2) by (auto simp: tree_def)
  with assms(1) show ?thesis
    unfolding wf_pt_def outside_tree [OF assms(2)] by (elim conjE, intro conjI) auto
qed

lemma wf_pt_mono: "wf_pt l e F \<Longrightarrow> tree l e \<subseteq> F' \<Longrightarrow> 0 \<notin> F' \<Longrightarrow> wf_pt l e F'"
  unfolding wf_pt_def tree_def by blast

text \<open>
  The descriptor writes of the code, and what each does to the tree: to a page entry, and to
  an entry of the second and of the first level.
\<close>

lemma wf_ptI:
  assumes "l \<in> F" "0 \<notin> F" "\<And>i. desc_ok (e l i)"
    and "\<And>i a. T2 l e i = Some a \<Longrightarrow> a \<in> F \<and> a \<noteq> l"
    and "\<And>i a j. T2 l e i = Some a \<Longrightarrow> desc_ok (e a j)"
    and "\<And>i j b. T3 l e i j = Some b \<Longrightarrow> b \<in> F \<and> b \<noteq> l"
    and "\<And>i j b i'. T3 l e i j = Some b \<Longrightarrow> T2 l e i' \<noteq> Some b"
    and "\<And>i j b k. T3 l e i j = Some b \<Longrightarrow> desc_ok (e b k)"
    and "\<And>i i' a. T2 l e i = Some a \<Longrightarrow> T2 l e i' = Some a \<Longrightarrow> i = i'"
    and "\<And>i j i' j' b. T3 l e i j = Some b \<Longrightarrow> T3 l e i' j' = Some b \<Longrightarrow> i = i' \<and> j = j'"
  shows "wf_pt l e F"
  unfolding wf_pt_def by (intro conjI allI impI) 
    (rule assms(1) assms(2) assms(3) | erule assms(4) [THEN conjunct1] assms(4) [THEN conjunct2]
      assms(5) assms(6) [THEN conjunct1] assms(6) [THEN conjunct2] assms(7) assms(8)
     | erule (1) assms(9) assms(10) [THEN conjunct1] assms(10) [THEN conjunct2])+

lemma T2_upd_table: "a \<noteq> l \<Longrightarrow> T2 l (upd e a j d) = T2 l e"
  by (simp add: T2_def upd_apply fun_eq_iff)

lemma T2_upd_root: "T2 l (upd e l i d) = (T2 l e)(i := child d)"
  by (simp add: T2_def upd_apply fun_eq_iff)

lemma write_page:
  fixes k :: nat
  assumes wf: "wf_pt l e F" and T3: "T3 l e i j = Some b" and d: "desc_ok d"
  shows "T2 l (upd e b k d) = T2 l e" and "T3 l (upd e b k d) = T3 l e" and "wf_pt l (upd e b k d) F"
    and "PTE l (upd e b k d) = (\<lambda>i' j' k'. if i' = i \<and> j' = j \<and> k' = k then d else PTE l e i' j' k')"
proof -
  note D = wf_ptD [OF wf]
  have bl: "b \<noteq> l" and bT2: "T2 l e i' \<noteq> Some b" for i'
    using D(8,9) [OF T3] by auto
  show T2': "T2 l (upd e b k d) = T2 l e"
    using bl by (rule T2_upd_table)
  have "T3 l (upd e b k d) i' j' = T3 l e i' j'" for i' j'
    using bT2 [of i'] by (cases "T2 l e i'") (simp_all add: T3_def T2' upd_apply)
  then show T3': "T3 l (upd e b k d) = T3 l e"
    by (simp add: fun_eq_iff)
  show "wf_pt l (upd e b k d) F"
    by (rule wf_ptI) (use D d in \<open>simp_all add: T2' T3' upd_apply\<close>)
  have "PTE l (upd e b k d) i' j' k' = (if i' = i \<and> j' = j \<and> k' = k then d else PTE l e i' j' k')" for i' j' k'
    using T3 D(12) [OF T3, of i' j']
    by (cases "T3 l e i' j'") (auto simp: PTE_def T3' upd_apply)
  then show "PTE l (upd e b k d) = (\<lambda>i' j' k'. if i' = i \<and> j' = j \<and> k' = k then d else PTE l e i' j' k')"
    by (simp add: fun_eq_iff)
qed

lemma write_T2_table:
  assumes wf: "wf_pt l e F" and T2: "T2 l e i = Some a" and d: "desc_ok d"
  shows "T2 l (upd e a j d) = T2 l e"
    and "T3 l (upd e a j d) = (\<lambda>i' j'. if i' = i \<and> j' = j then child d else T3 l e i' j')"
proof -
  note D = wf_ptD [OF wf]
  show T2': "T2 l (upd e a j d) = T2 l e"
    using D(5) [OF T2] by (rule T2_upd_table)
  have "T3 l (upd e a j d) i' j' = (if i' = i \<and> j' = j then child d else T3 l e i' j')" for i' j'
    using T2 D(11) [OF T2, of i'] by (cases "T2 l e i'") (auto simp: T3_def T2' upd_apply)
  then show "T3 l (upd e a j d) = (\<lambda>i' j'. if i' = i \<and> j' = j then child d else T3 l e i' j')"
    by (simp add: fun_eq_iff)
qed

text \<open>Hooking a zeroed fresh frame into the second level, and into the first.\<close>

lemma not_in_treeD:
  assumes "f \<notin> tree l e"
  shows "f \<noteq> l" "T2 l e i \<noteq> Some f" "T3 l e i j \<noteq> Some f"
  using assms by (auto simp: tree_def)

lemma hook_T3:
  assumes wf: "wf_pt l e F" and T2: "T2 l e i = Some a" and T3: "T3 l e i j = None"
    and f: "f \<notin> tree l e" "f \<noteq> 0" "e f = (\<lambda>_. 0)" and d: "child d = Some f" "desc_ok d"
  shows "T2 l (upd e a j d) = T2 l e"
    and "T3 l (upd e a j d) = (\<lambda>i' j'. if i' = i \<and> j' = j then Some f else T3 l e i' j')"
    and "PTE l (upd e a j d) = PTE l e" and "wf_pt l (upd e a j d) (insert f F)"
proof -
  note D = wf_ptD [OF wf] and nf = not_in_treeD [OF f(1)]
  show T2': "T2 l (upd e a j d) = T2 l e"
    and T3': "T3 l (upd e a j d) = (\<lambda>i' j'. if i' = i \<and> j' = j then Some f else T3 l e i' j')"
    using write_T2_table [OF wf T2 d(2), of j] d(1) by (simp_all cong: if_cong)
  have na: "a \<noteq> l" and nT3: "T3 l e i' j' \<noteq> Some a" for i' j'
    using D(5) [OF T2] D(9) T2 by auto
  have af: "a \<noteq> f" using nf(2) [of i] T2 by auto
  have "PTE l (upd e a j d) i' j' k' = PTE l e i' j' k'" for i' j' k'
    using nT3 [of i' j'] af f(3) T3 by (cases "T3 l e i' j'") (auto simp: PTE_def T3' upd_apply)
  then show "PTE l (upd e a j d) = PTE l e" by (simp add: fun_eq_iff)
  show "wf_pt l (upd e a j d) (insert f F)"
  proof (rule wf_ptI; (unfold T2' T3')?)
    show "desc_ok (upd e a j d b k)" if "(if i' = i \<and> j' = j then Some f else T3 l e i' j') = Some b" for i' j' b k
      using that nT3 [of i' j'] af f(3) D(10) [of i' j' b k] by (auto simp: upd_apply split: if_splits)
    show "i' = i'' \<and> j' = j''"
      if "(if i' = i \<and> j' = j then Some f else T3 l e i' j') = Some b"
        "(if i'' = i \<and> j'' = j then Some f else T3 l e i'' j'') = Some b" for i' j' i'' j'' b
      using that nf(3) D(12) [of i' j' b i'' j''] by (auto split: if_splits)
  qed (use D d(2) na nf f(2) in \<open>auto simp: upd_apply split: if_splits\<close>)
qed

lemma hook_T2:
  assumes wf: "wf_pt l e F" and T2: "T2 l e i = None"
    and f: "f \<notin> tree l e" "f \<noteq> 0" "e f = (\<lambda>_. 0)" and d: "child d = Some f" "desc_ok d"
  shows "T2 l (upd e l i d) = (T2 l e)(i := Some f)"
    and "T3 l (upd e l i d) = T3 l e"
    and "PTE l (upd e l i d) = PTE l e" and "wf_pt l (upd e l i d) (insert f F)"
proof -
  note D = wf_ptD [OF wf] and nf = not_in_treeD [OF f(1)]
  show T2': "T2 l (upd e l i d) = (T2 l e)(i := Some f)"
    using d by (simp add: T2_upd_root)
  have "T3 l (upd e l i d) i' j' = T3 l e i' j'" for i' j'
    using T2 f(3) nf(1) D(5) [of i'] by (cases "T2 l e i'") (auto simp: T3_def T2' upd_apply)
  then show T3': "T3 l (upd e l i d) = T3 l e"
    by (simp add: fun_eq_iff)
  have "PTE l (upd e l i d) i' j' k' = PTE l e i' j' k'" for i' j' k'
    using D(8) [of i' j'] by (cases "T3 l e i' j'") (auto simp: PTE_def T3' upd_apply)
  then show "PTE l (upd e l i d) = PTE l e" by (simp add: fun_eq_iff)
  show "wf_pt l (upd e l i d) (insert f F)"
  proof (rule wf_ptI; (unfold T2' T3')?)
    show "desc_ok (upd e l i d a j)" if "((T2 l e)(i := Some f)) i' = Some a" for i' a j
      using that nf(1) f(3) D(5,6) [of i' a] by (auto simp: upd_apply split: if_splits)
    show "i' = i''" if "((T2 l e)(i := Some f)) i' = Some a" "((T2 l e)(i := Some f)) i'' = Some a"
      for i' i'' a
      using that nf(2) D(11) [of i' a i''] by (auto split: if_splits)
    show "((T2 l e)(i := Some f)) i'' \<noteq> Some b" if "T3 l e i' j' = Some b" for i' j' b i''
      using that nf(3) [of i' j'] D(9) by auto
  qed (use D d(2) nf f(2) in \<open>auto simp: upd_apply split: if_splits\<close>)
qed

lemma tree_hook:
  assumes "T2 l e' = (T2 l e)(i := Some f)" "T2 l e i = None" "T3 l e' = T3 l e"
  shows "tree l e' = insert f (tree l e)"
proof -
  have "ran (T2 l e') = insert f (ran (T2 l e))"
    unfolding assms(1) using assms(2) by (rule ran_map_upd)
  then show ?thesis by (auto simp: tree_def assms(3) ran_def)
qed

lemma tree_hook_T3:
  assumes "T3 l e' = (\<lambda>i' j'. if i' = i \<and> j' = j then Some f else T3 l e i' j')"
    and "T3 l e i j = None" "T2 l e' = T2 l e"
  shows "tree l e' = insert f (tree l e)"
proof -
  have "(\<exists>i' j'. T3 l e' i' j' = Some b) \<longleftrightarrow> b = f \<or> (\<exists>i' j'. T3 l e i' j' = Some b)" for b
    unfolding assms(1) using assms(2) by (metis option.distinct(1) option.inject)
  then show ?thesis by (auto simp: tree_def assms(3))
qed

text \<open>Unhooking an empty table.\<close>

lemma unhook_T3:
  assumes wf: "wf_pt l e F" and T2: "T2 l e i = Some a" and T3: "T3 l e i j = Some b"
    and b: "e b = (\<lambda>_. 0)"
  shows "T2 l (upd e a j 0) = T2 l e"
    and "T3 l (upd e a j 0) = (\<lambda>i' j'. if i' = i \<and> j' = j then None else T3 l e i' j')"
    and "PTE l (upd e a j 0) = PTE l e" and "wf_pt l (upd e a j 0) (F - {b})"
proof -
  note D = wf_ptD [OF wf]
  show T2': "T2 l (upd e a j 0) = T2 l e"
    and T3': "T3 l (upd e a j 0) = (\<lambda>i' j'. if i' = i \<and> j' = j then None else T3 l e i' j')"
    using write_T2_table [OF wf T2, of 0 j] by (simp_all cong: if_cong)
  have nT3: "T3 l e i' j' \<noteq> Some a" for i' j' using D(9) T2 by auto
  have "PTE l (upd e a j 0) i' j' k' = PTE l e i' j' k'" for i' j' k'
    using nT3 [of i' j'] b T3 by (cases "T3 l e i' j'") (auto simp: PTE_def T3' upd_apply)
  then show "PTE l (upd e a j 0) = PTE l e" by (simp add: fun_eq_iff)
  have nb: "b \<noteq> l" "T2 l e i' \<noteq> Some b" for i' using D(8,9) [OF T3] by auto
  have b3: "i' = i \<and> j' = j" if "T3 l e i' j' = Some b" for i' j'
    using D(12) [OF T3 that] by simp
  show "wf_pt l (upd e a j 0) (F - {b})"
  proof (rule wf_ptI; (unfold T2' T3')?)
    show "i' = i'' \<and> j' = j''"
      if "(if i' = i \<and> j' = j then None else T3 l e i' j') = Some c"
        "(if i'' = i \<and> j'' = j then None else T3 l e i'' j'') = Some c" for i' j' i'' j'' c
      using that D(12) [of i' j' c i'' j''] by (auto split: if_splits)
  qed (use D nb b3 D(5) [OF T2] in \<open>auto simp: upd_apply split: if_splits\<close>)
qed

lemma unhook_T2:
  assumes wf: "wf_pt l e F" and T2: "T2 l e i = Some a" and a: "e a = (\<lambda>_. 0)"
  shows "T2 l (upd e l i 0) = (T2 l e)(i := None)" and "T3 l (upd e l i 0) = T3 l e"
    and "PTE l (upd e l i 0) = PTE l e" and "wf_pt l (upd e l i 0) (F - {a})"
proof -
  note D = wf_ptD [OF wf]
  show T2': "T2 l (upd e l i 0) = (T2 l e)(i := None)"
    by (simp add: T2_upd_root)
  have "T3 l (upd e l i 0) i' j' = T3 l e i' j'" for i' j'
    using T2 a D(5) [of i'] by (cases "T2 l e i'") (auto simp: T3_def T2' upd_apply)
  then show T3': "T3 l (upd e l i 0) = T3 l e"
    by (simp add: fun_eq_iff)
  have "PTE l (upd e l i 0) i' j' k' = PTE l e i' j' k'" for i' j' k'
    using D(8) [of i' j'] by (cases "T3 l e i' j'") (auto simp: PTE_def T3' upd_apply)
  then show "PTE l (upd e l i 0) = PTE l e" by (simp add: fun_eq_iff)
  have na: "a \<noteq> l" "T3 l e i' j' \<noteq> Some a" for i' j' using D(5) [OF T2] D(9) T2 by auto
  have a2: "i' = i" if "T2 l e i' = Some a" for i'
    using D(11) [OF T2 that] by simp
  show "wf_pt l (upd e l i 0) (F - {a})"
  proof (rule wf_ptI; (unfold T2' T3')?)
    show "i' = i''" if "((T2 l e)(i := None)) i' = Some b" "((T2 l e)(i := None)) i'' = Some b" for i' i'' b
      using that D(11) [of i' b i''] by (auto split: if_splits)
  qed (use D na a2 in \<open>auto simp: upd_apply split: if_splits\<close>)
qed

section \<open>Page tables in memory\<close>

text \<open>
  \<open>ent s\<close> reads the entries of a managed frame; \<open>live\<close> are the frames in use; \<open>owned\<close> are the
  frames the MMU driver may write, its own tables and the free frames.
\<close>

definition ent :: "'a mmu_scheme \<Rightarrow> entries" where
  "ent s a i = (if a \<in> managed_frames s \<and> i < 512 then load a i s else 0)"

definition live :: "'a mmu_scheme \<Rightarrow> u64 set" where
  "live s = managed_frames s - free_frames s"

definition pt_inv :: "'a mmu_scheme \<Rightarrow> bool" where
  "pt_inv s \<longleftrightarrow> pmm_inv s \<and> wf_pt (l1_table s) (ent s) (live s)"

definition tables :: "'a mmu_scheme \<Rightarrow> u64 set" where
  "tables s = tree (l1_table s) (ent s)"

definition owned :: "'a mmu_scheme \<Rightarrow> u64 set" where
  "owned s = tables s \<union> free_frames s"

definition pte :: "'a mmu_scheme \<Rightarrow> nat \<Rightarrow> nat \<Rightarrow> nat \<Rightarrow> u64" where
  "pte s = PTE (l1_table s) (ent s)"

definition words_of :: "u64 set \<Rightarrow> u64 set" where
  "words_of X = {word_at a i | a i. a \<in> X \<and> i < 512}"

lemma managed_frameE:
  assumes "a \<in> managed_frames s"
  obtains p where "a = frame_addr s p" "p < unat (total_frames s)"
  using assms by (auto simp: managed_frames_def)

lemma unat_managed_word:
  assumes "pmm_geom s" "p < unat (total_frames s)" "i < 512"
  shows "unat (word_at (frame_addr s p) i) = unat (phys_mem_start s) + 4096 * p + 8 * i"
proof -
  have u: "unat (frame_addr s p) = unat (phys_mem_start s) + 4096 * p"
    using assms by (intro unat_frame_addr) simp_all
  have "unat (frame_addr s p) + 8 * i < 2 ^ 64"
    using frame_addr_facts(4) [OF assms(1,2)] assms(3) by (simp add: unat_PHYS_MEM_END)
  from unat_word_at [OF this] show ?thesis by (simp add: u)
qed

lemma managed_word_eq_iff:
  assumes "pmm_geom s" "a \<in> managed_frames s" "b \<in> managed_frames s" "i < 512" "j < 512"
  shows "word_at a i = word_at b j \<longleftrightarrow> a = b \<and> i = j"
proof
  assume eq: "word_at a i = word_at b j"
  obtain p q where p: "a = frame_addr s p" "p < unat (total_frames s)"
    and q: "b = frame_addr s q" "q < unat (total_frames s)"
    using assms(2,3) by (auto simp: managed_frames_def)
  have "unat (phys_mem_start s) + 4096 * p + 8 * i = unat (phys_mem_start s) + 4096 * q + 8 * j"
    unfolding unat_managed_word [OF assms(1) p(2) assms(4), symmetric]
      unat_managed_word [OF assms(1) q(2) assms(5), symmetric]
    using eq p q by simp
  then have "512 * p + i = 512 * q + j" by simp
  with assms(4,5) have "p = q" by linarith
  with \<open>512 * p + i = 512 * q + j\<close> p q show "a = b \<and> i = j" by simp
qed simp

lemma managed_word_not_bitmap:
  assumes "pmm_geom s" "a \<in> managed_frames s" "i < 512"
  shows "word_at a i \<notin> bitmap_region s"
proof
  obtain p where p: "a = frame_addr s p" "p < unat (total_frames s)"
    using assms(2) by (rule managed_frameE)
  assume "word_at a i \<in> bitmap_region s"
  then obtain k where k: "k < nwords s" "word_at a i = word_at (bitmap s) k"
    by (auto simp: bitmap_region_def)
  have "unat (bitmap s) + 8 * k < 2 ^ 64"
    using k(1) pmm_geom_bounds(3) [OF assms(1)] by simp
  then have "unat (word_at a i) = unat (bitmap s) + 8 * k"
    unfolding k(2) by (rule unat_word_at)
  with unat_managed_word [OF assms(1) p(2) assms(3)] k(1) assms(1) p show False
    by (simp add: pmm_geom_def)
qed

lemma pmm_store_managed:
  assumes "pmm_geom s" "a \<in> managed_frames s" "i < 512"
  shows "free_set (store a i d s) = free_set s" "pmm_inv (store a i d s) = pmm_inv s"
proof -
  have u: "frame_used k (store a i d s) = frame_used k s" if "k < 64 * nwords s" for k
    using managed_word_not_bitmap [OF assms] that by (rule frame_used_store_outside)
  show "free_set (store a i d s) = free_set s"
    using total_le_64_nwords [of s] by (auto simp: free_set_def u)
  show "pmm_inv (store a i d s) = pmm_inv s"
    by (auto simp: pmm_inv_def u)
qed

lemma managed_store [simp]:
  "managed_frames (store a i d s) = managed_frames s" "l1_table (store a i d s) = l1_table s"
  "managed_frames (emit es s) = managed_frames s" "l1_table (emit es s) = l1_table s"
  "mmu.more (store a i d s) = mmu.more s" "mmu.more (emit es s) = mmu.more s"
  "free_frames (emit es s) = free_frames s" "ent (emit es s) = ent s" "live (emit es s) = live s"
  "managed_frames (s\<lparr>daif := d\<rparr>) = managed_frames s" "l1_table (s\<lparr>daif := d'\<rparr>) = l1_table s"
  "free_frames (s\<lparr>daif := d'\<rparr>) = free_frames s" "ent (s\<lparr>daif := d'\<rparr>) = ent s"
  "live (s\<lparr>daif := d'\<rparr>) = live s"
  by (simp_all add: managed_frames_def free_frames_def store_def emit_def ent_def fun_eq_iff
      live_def load_def cong: if_cong) (simp_all add: frame_addr_def free_set_def frame_used_def load_def)

lemma store_managed:
  assumes "pmm_geom s" "a \<in> managed_frames s" "i < 512"
  shows "ent (store a i d s) = upd (ent s) a i d"
    and "free_frames (store a i d s) = free_frames s" and "live (store a i d s) = live s"
proof -
  have "ent (store a i d s) b j = upd (ent s) a i d b j" for b j
    using managed_word_eq_iff [OF assms(1), of b a j i] assms
    by (auto simp: ent_def upd_apply load_store_other)
  then show "ent (store a i d s) = upd (ent s) a i d" by (simp add: fun_eq_iff)
  show "free_frames (store a i d s) = free_frames s"
    using pmm_store_managed(1) [OF assms] by (simp add: free_frames_def)
  then show "live (store a i d s) = live s" by (simp add: live_def)
qed

lemma zero_managed:
  assumes "pmm_geom s" "a \<in> managed_frames s" "n \<le> 512"
  defines "t \<equiv> fold (\<lambda>i. store a i 0) [0..<n] s"
  shows "ent t = (ent s)(a := (\<lambda>j. if j < n then 0 else ent s a j))"
    and "free_frames t = free_frames s" "managed_frames t = managed_frames s"
    and "pmm_inv t = pmm_inv s" "pmm_geom t" "l1_table t = l1_table s" "trace t = trace s"
    and "inp t = inp s" "daif t = daif s" "MMU_ACTIVE t = MMU_ACTIVE s" "bitmap t = bitmap s"
    and "phys_mem_start t = phys_mem_start s" "total_frames t = total_frames s"
    and "x \<notin> words_of {a} \<Longrightarrow> mem t x = mem s x" and "mmu.more t = mmu.more s"
proof -
  have "ent t = (ent s)(a := (\<lambda>j. if j < n then 0 else ent s a j)) \<and> free_frames t = free_frames s
    \<and> managed_frames t = managed_frames s \<and> pmm_inv t = pmm_inv s \<and> pmm_geom t
    \<and> l1_table t = l1_table s \<and> trace t = trace s \<and> inp t = inp s \<and> daif t = daif s
    \<and> MMU_ACTIVE t = MMU_ACTIVE s \<and> bitmap t = bitmap s \<and> phys_mem_start t = phys_mem_start s
    \<and> total_frames t = total_frames s \<and> (x \<notin> words_of {a} \<longrightarrow> mem t x = mem s x)
    \<and> mmu.more t = mmu.more s"
    unfolding t_def using assms(3)
  proof (induction n)
    case 0
    with assms(1) show ?case by simp
  next
    case (Suc n)
    let ?t = "fold (\<lambda>i. store a i 0) [0..<n] s"
    have m: "pmm_geom ?t" "a \<in> managed_frames ?t" "n < 512"
      using Suc assms(2) by auto
    have "word_at a n \<in> words_of {a}" using m(3) by (auto simp: words_of_def)
    then have "x \<notin> words_of {a} \<Longrightarrow> mem (store a n 0 ?t) x = mem ?t x"
      by (auto simp: store_def)
    with Suc store_managed [OF m, of 0] pmm_store_managed [OF m, of 0] show ?case
      by (auto simp: upd_def fun_eq_iff)
  qed
  then show "ent t = (ent s)(a := (\<lambda>j. if j < n then 0 else ent s a j))"
    "free_frames t = free_frames s" "managed_frames t = managed_frames s"
    "pmm_inv t = pmm_inv s" "pmm_geom t" "l1_table t = l1_table s" "trace t = trace s"
    "inp t = inp s" "daif t = daif s" "MMU_ACTIVE t = MMU_ACTIVE s" "bitmap t = bitmap s"
    "phys_mem_start t = phys_mem_start s" "total_frames t = total_frames s"
    "x \<notin> words_of {a} \<Longrightarrow> mem t x = mem s x" "mmu.more t = mmu.more s"
    by blast+
qed

section \<open>What the table operations do\<close>

abbreviation l2_of :: "'a mmu_scheme \<Rightarrow> nat \<Rightarrow> u64 option" where
  "l2_of s \<equiv> T2 (l1_table s) (ent s)"

abbreviation l3_of :: "'a mmu_scheme \<Rightarrow> nat \<Rightarrow> nat \<Rightarrow> u64 option" where
  "l3_of s \<equiv> T3 (l1_table s) (ent s)"

text \<open>
  What every operation of the driver leaves alone: the geometry, the environment, the interrupt
  mask, the set of frames the driver may write and all memory outside that set and the bitmap.
  Locks are taken in a balanced way.
\<close>

definition mmu_frame :: "lock set \<Rightarrow> 'a mmu_scheme \<Rightarrow> 'a mmu_scheme \<Rightarrow> bool" where
  "mmu_frame L s s' \<longleftrightarrow> pt_inv s' \<and> l1_table s' = l1_table s \<and> bitmap s' = bitmap s
     \<and> phys_mem_start s' = phys_mem_start s \<and> total_frames s' = total_frames s
     \<and> inp s' = inp s \<and> daif s' = daif s \<and> MMU_ACTIVE s' = MMU_ACTIVE s
     \<and> owned s' = owned s
     \<and> (\<forall>x. x \<notin> bitmap_region s \<and> x \<notin> words_of (owned s) \<longrightarrow> mem s' x = mem s x)
     \<and> (\<exists>es. trace s' = trace s @ es \<and> balanced L es) \<and> mmu.more s' = mmu.more s"

abbreviation mmu_step :: "'a mmu_scheme \<Rightarrow> 'a mmu_scheme \<Rightarrow> bool" where
  "mmu_step \<equiv> mmu_frame {Pmm_lock}"

lemma mmu_stepD:
  assumes "mmu_frame L s s'"
  shows "pt_inv s'" "l1_table s' = l1_table s" "bitmap s' = bitmap s"
    "phys_mem_start s' = phys_mem_start s" "total_frames s' = total_frames s"
    "inp s' = inp s" "daif s' = daif s" "MMU_ACTIVE s' = MMU_ACTIVE s" "owned s' = owned s"
    "x \<notin> bitmap_region s \<Longrightarrow> x \<notin> words_of (owned s) \<Longrightarrow> mem s' x = mem s x"
    "\<exists>es. trace s' = trace s @ es \<and> balanced L es"
    "managed_frames s' = managed_frames s" "bitmap_region s' = bitmap_region s"
    "mmu.more s' = mmu.more s"
  using assms
  by (simp_all add: mmu_frame_def managed_frames_def frame_addr_def bitmap_region_def nwords_def)

lemma mmu_step_refl: "pt_inv s \<Longrightarrow> mmu_frame L s s"
  by (auto simp: mmu_frame_def intro: exI [of _ "[]"])

lemma mmu_step_trans:
  assumes "mmu_frame L s t" "mmu_frame L t u"
  shows "mmu_frame L s u"
proof -
  note a = mmu_stepD [OF assms(1)] and b = mmu_stepD [OF assms(2)]
  obtain es es' where "trace t = trace s @ es" "balanced L es"
    "trace u = trace t @ es'" "balanced L es'"
    using a(11) b(11) by blast
  then have "trace u = trace s @ (es @ es') \<and> balanced L (es @ es')"
    by (simp add: balanced_append)
  then have "\<exists>es. trace u = trace s @ es \<and> balanced L es" ..
  with a b show ?thesis by (simp add: mmu_frame_def)
qed

lemma mmu_step_emit:
  assumes "pt_inv s" "list_all lock_free es"
  shows "mmu_frame L s (emit es s)"
proof -
  have "pt_inv (emit es s)" "owned (emit es s) = owned s"
    using assms(1) by (simp_all add: pt_inv_def owned_def tables_def)
  with balanced_lock_free [OF assms(2)] show ?thesis
    by (auto simp: mmu_frame_def)
qed

text \<open>Running such a step under the driver's own lock.\<close>

lemma mmu_locked:
  assumes inv: "pt_inv s" and lk: "spin_lock Mmu_lock s = (flags, s1)" and st: "mmu_step s1 s2"
  defines "s3 \<equiv> spin_unlock Mmu_lock flags s2"
  shows "mmu_frame {Mmu_lock, Pmm_lock} s s3"
proof -
  have s1: "s1 = emit (if MMU_ACTIVE s then [Acquire Mmu_lock] else []) (s\<lparr>daif := daif s OR 0x3C0\<rparr>)"
    "flags = daif s"
    using lk by (auto simp: spin_lock_def Let_def)
  note d = mmu_stepD [OF st]
  have own: "owned s1 = owned s" "bitmap_region s1 = bitmap_region s"
    by (simp_all add: s1 owned_def tables_def bitmap_region_def)
  have s3: "s3 = (emit (if MMU_ACTIVE s then [Release Mmu_lock] else []) s2)\<lparr>daif := daif s\<rparr>"
    using d(8) by (simp add: s3_def spin_unlock_def Let_def s1)
  obtain es where es: "trace s2 = trace s1 @ es" "balanced {Pmm_lock} es" using d(11) by blast
  have "pt_inv s3" using d(1) by (simp add: s3 pt_inv_def)
  moreover have "owned s3 = owned s" using d(9) by (simp add: s3 owned_def tables_def own [unfolded owned_def tables_def])
  moreover have "mem s3 x = mem s x" if "x \<notin> bitmap_region s" "x \<notin> words_of (owned s)" for x
    using d(10) [of x] that by (simp add: s3 own) (simp add: s1)
  moreover have "\<exists>es. trace s3 = trace s @ es \<and> balanced {Mmu_lock, Pmm_lock} es"
  proof (cases "MMU_ACTIVE s")
    case True
    then have "trace s3 = trace s @ (Acquire Mmu_lock # es @ [Release Mmu_lock])"
      using es(1) by (simp add: s3 s1)
    moreover have "balanced {Mmu_lock, Pmm_lock} (Acquire Mmu_lock # es @ [Release Mmu_lock])"
      using es(2) by (rule balanced_lock) simp
    ultimately show ?thesis by blast
  next
    case False
    then have "trace s3 = trace s @ es" using es(1) by (simp add: s3 s1)
    with balanced_mono [OF es(2), of "{Mmu_lock, Pmm_lock}"] show ?thesis by auto
  qed
  ultimately show ?thesis
    using d by (simp add: mmu_frame_def s3) (simp add: s1)
qed

lemma pt_inv_lock:
  assumes "pt_inv s" "spin_lock Mmu_lock s = (flags, s1)"
  shows "pt_inv s1"
  using assms by (auto simp: spin_lock_def Let_def pt_inv_def split: if_splits)

lemma valid_bit: "d AND 3 = 3 \<Longrightarrow> d AND 1 = (1 :: u64)"
proof -
  assume "d AND 3 = 3"
  then have "(d AND 3) AND 1 = 3 AND 1" by simp
  then show ?thesis by (simp add: and.assoc)
qed

lemma desc_ok_bit: "desc_ok d \<Longrightarrow> d AND 1 \<noteq> 0 \<longleftrightarrow> d AND 3 = 3"
  by (auto simp: desc_ok_def valid_bit)

lemma or_3_valid: "(d OR 3) AND 3 = (3 :: u64)"
  by (rule bit_word_eqI) (auto simp: bit_simps)

lemma or_3_neq_0: "d OR 3 \<noteq> (0 :: u64)"
proof
  assume "d OR 3 = 0"
  with or_3_valid [of d] have "0 AND 3 = (3 :: u64)" by simp
  then show False by simp
qed

lemma bit_aligned: "f AND NOT (mask k) = (f :: u64) \<Longrightarrow> n < k \<Longrightarrow> \<not> bit f n"
  by (metis bit_and_iff bit_mask_iff bit_not_iff_eq bit_imp_possible_bit)

lemma bit_bounded: "f AND mask k = (f :: u64) \<Longrightarrow> k \<le> n \<Longrightarrow> \<not> bit f n"
  by (metis bit_and_iff bit_mask_iff not_le)

lemma bit_ADDR_MASK: "bit ADDR_MASK n \<longleftrightarrow> 12 \<le> n \<and> n < 48"
proof -
  have "ADDR_MASK = push_bit 12 (mask 36)" by (simp add: ADDR_MASK_def mask_eq_exp_minus_1)
  moreover have "bit (push_bit 12 (mask 36) :: u64) n \<longleftrightarrow> 12 \<le> n \<and> n < 48"
    unfolding bit_push_bit_iff bit_mask_iff by auto
  ultimately show ?thesis by (simp only:)
qed

lemma bit_3: "bit (3 :: u64) n \<longleftrightarrow> n < 2"
  unfolding mask_word_simps(3) bit_mask_iff by auto

lemma aligned_bits:
  assumes "page_aligned f" "n < 12"
  shows "\<not> bit f n"
proof -
  have "unat (f AND NOT (mask 12)) = unat f"
    unfolding unat_and_not_mask using assms(1) by simp
  then have "f AND NOT (mask 12) = f" by (simp only: word_unat_eq_iff)
  then show ?thesis using assms(2) by (rule bit_aligned)
qed

lemma bounded_bits:
  assumes "unat (f :: u64) < 2 ^ k" "k \<le> n"
  shows "\<not> bit f n"
proof -
  have "unat (f AND mask k) = unat f"
    unfolding unat_and_mask using assms(1) by (rule mod_less)
  then have "f AND mask k = f" by (simp only: word_unat_eq_iff)
  then show ?thesis using assms(2) by (rule bit_bounded)
qed

lemma child_frame:
  assumes "page_aligned f" "unat f < 2 ^ 48"
  shows "child (f OR 3) = Some f"
proof -
  have "(f OR 3) AND ADDR_MASK = f"
  proof (rule bit_word_eqI)
    fix n
    show "bit ((f OR 3) AND ADDR_MASK) n = bit f n"
      using aligned_bits [OF assms(1), of n] bounded_bits [OF assms(2), of n]
      unfolding bit_and_iff bit_or_iff bit_ADDR_MASK bit_3 by linarith
  qed
  then show ?thesis by (simp add: child_def or_3_valid)
qed

lemma managed_child:
  assumes "pmm_geom s" "f \<in> managed_frames s"
  shows "child (f OR 3) = Some f" "f \<noteq> 0"
proof -
  obtain p where p: "f = frame_addr s p" "p < unat (total_frames s)"
    using assms(2) by (rule managed_frameE)
  note fa = frame_addr_facts [OF assms(1) p(2), folded p(1)]
  have "unat f < 2 ^ 48" using fa(4) by (simp add: unat_PHYS_MEM_END)
  with fa(2) show "child (f OR 3) = Some f" by (rule child_frame)
  show "f \<noteq> 0" by (rule fa(1))
qed

lemma mark_l1_table [simp]:
  "l1_table (mark_used i s) = l1_table s" "l1_table (mark_free i s) = l1_table s"
  "mmu.more (mark_used i s) = mmu.more s" "mmu.more (mark_free i s) = mmu.more s"
  by (simp_all add: mark_used_def mark_free_def)

lemma ent_cong:
  assumes "pmm_geom s" "managed_frames t = managed_frames s"
    and "\<And>x. x \<notin> bitmap_region s \<Longrightarrow> mem t x = mem s x"
  shows "ent t = ent s"
  using assms managed_word_not_bitmap [OF assms(1)] by (auto simp: ent_def load_def fun_eq_iff)

text \<open>Allocating and freeing a frame, seen from the page tables.\<close>

lemma pmm_invD: "pmm_inv s \<Longrightarrow> pmm_geom s" by (simp add: pmm_inv_def)

lemma alloc_frame_pt:
  assumes "pmm_inv s" "alloc_frame s = (f, t)"
  shows "ent t = ent s" "l1_table t = l1_table s" "managed_frames t = managed_frames s"
    and "f = 0 \<Longrightarrow> free_frames s = {} \<and> free_frames t = {}"
    and "f \<noteq> 0 \<Longrightarrow> f \<in> free_frames s \<and> free_frames t = free_frames s - {f} \<and> live t = insert f (live s)"
    and "mmu.more t = mmu.more s"
proof -
  note al = alloc_frame_abs [OF assms]
  show m: "managed_frames t = managed_frames s" using al by (simp add: managed_frames_def)
  show "ent t = ent s" by (rule ent_cong [OF pmm_invD [OF assms(1)] m]) (rule al(12))
  show "l1_table t = l1_table s" "mmu.more t = mmu.more s"
    using assms(2) alloc_frame_eq [OF assms(1)] by (auto split: if_splits)
  have ft: "fst (alloc_frame s) = f" "snd (alloc_frame s) = t" using assms(2) by simp_all
  show "f = 0 \<Longrightarrow> free_frames s = {} \<and> free_frames t = {}"
    using pmm_alloc.alloc_null [OF assms(1)] pmm_alloc.alloc_takes [OF assms(1)] ft by auto
  assume "f \<noteq> 0"
  then have f: "f \<in> free_frames s" "free_frames t = free_frames s - {f}"
    using pmm_alloc.alloc_free [OF assms(1)] pmm_alloc.alloc_takes [OF assms(1)] ft by auto
  with m pmm_alloc.free_managed [OF assms(1)]
  show "f \<in> free_frames s \<and> free_frames t = free_frames s - {f} \<and> live t = insert f (live s)"
    by (auto simp: live_def)
qed

lemma free_frame_pt:
  assumes "pmm_inv s" "f \<in> managed_frames s"
  shows "ent (free_frame f s) = ent s" "l1_table (free_frame f s) = l1_table s"
    and "managed_frames (free_frame f s) = managed_frames s"
    and "free_frames (free_frame f s) = insert f (free_frames s)"
    and "live (free_frame f s) = live s - {f}" and "mmu.more (free_frame f s) = mmu.more s"
proof -
  note fr = free_frame_abs [OF assms(1)]
  show m: "managed_frames (free_frame f s) = managed_frames s" using fr by (simp add: managed_frames_def)
  show "ent (free_frame f s) = ent s" by (rule ent_cong [OF pmm_invD [OF assms(1)] m]) (rule fr(10))
  obtain p where "f = frame_addr s p" "p < unat (total_frames s)" using assms(2) by (rule managed_frameE)
  then show "l1_table (free_frame f s) = l1_table s" "mmu.more (free_frame f s) = mmu.more s"
    by (simp_all add: free_frame_eq [OF assms(1)])
  show "free_frames (free_frame f s) = insert f (free_frames s)"
    by (rule pmm_alloc.release_frees [OF assms])
  with m show "live (free_frame f s) = live s - {f}" by (auto simp: live_def)
qed

lemma balanced_with_lock: "balanced {l} (with_lock l s)"
  by (auto simp: with_lock_def balanced_def)

lemma words_of_mono: "X \<subseteq> Y \<Longrightarrow> words_of X \<subseteq> words_of Y"
  by (auto simp: words_of_def)

lemma words_ofI: "a \<in> X \<Longrightarrow> i < 512 \<Longrightarrow> word_at a i \<in> words_of X"
  by (auto simp: words_of_def)

lemma pt_invD:
  assumes "pt_inv s"
  shows "pmm_inv s" "pmm_geom s" "wf_pt (l1_table s) (ent s) (live s)"
    and "tables s \<subseteq> live s" "tables s \<subseteq> managed_frames s" "free_frames s \<inter> tables s = {}"
    and "free_frames s \<subseteq> managed_frames s"
proof -
  show p: "pmm_inv s" "pmm_geom s" and w: "wf_pt (l1_table s) (ent s) (live s)"
    using assms by (simp_all add: pt_inv_def pmm_inv_def)
  show t: "tables s \<subseteq> live s" unfolding tables_def by (rule tree_subset [OF w])
  then show "tables s \<subseteq> managed_frames s" "free_frames s \<inter> tables s = {}" by (auto simp: live_def)
  show "free_frames s \<subseteq> managed_frames s" by (rule pmm_alloc.free_managed [OF p(1)])
qed

lemma wf_live: "wf_pt l e F \<Longrightarrow> 0 \<notin> F" by (simp add: wf_pt_def)

lemma ent_load: "a \<in> managed_frames s \<Longrightarrow> i < 512 \<Longrightarrow> ent s a i = load a i s"
  by (simp add: ent_def)

lemma get_or_alloc_cases:
  assumes inv: "pt_inv s" and tab: "table \<in> tables s" "i < 512" and ok: "desc_ok (ent s table i)"
    and eq: "get_or_alloc_table table i s = (r, s')"
  obtains (present) "child (ent s table i) = Some r" "s' = s"
  | (full) "child (ent s table i) = None" "r = 0" "free_frames s = {}" "mmu_step s s'"
      "ent s' = ent s" "free_frames s' = {}"
  | (fresh) "child (ent s table i) = None" "r \<noteq> 0" "r \<in> free_frames s"
      "ent s' = upd ((ent s)(r := (\<lambda>_. 0))) table i (r OR 3)"
      "free_frames s' = free_frames s - {r}" "live s' = insert r (live s)" "pmm_inv s'"
      "l1_table s' = l1_table s" "bitmap s' = bitmap s" "phys_mem_start s' = phys_mem_start s"
      "total_frames s' = total_frames s" "inp s' = inp s" "daif s' = daif s" "MMU_ACTIVE s' = MMU_ACTIVE s"
      "\<forall>x. x \<notin> bitmap_region s \<and> x \<notin> words_of (owned s) \<longrightarrow> mem s' x = mem s x"
      "\<exists>es. trace s' = trace s @ es \<and> balanced {Pmm_lock} es" "mmu.more s' = mmu.more s"
proof -
  note D = pt_invD [OF inv]
  have man: "table \<in> managed_frames s" using tab(1) D(5) by auto
  have l: "load table i s = ent s table i" by (simp add: ent_load [OF man tab(2)])
  obtain f t where ft: "alloc_frame s = (f, t)" by (cases "alloc_frame s")
  note pt = alloc_frame_pt [OF D(1) ft] and al = alloc_frame_abs [OF D(1) ft]
  have bal: "\<exists>es. trace t = trace s @ es \<and> balanced {Pmm_lock} es"
    using al(9) balanced_with_lock by blast
  consider (a) "ent s table i AND 1 \<noteq> 0" | (b) "ent s table i AND 1 = 0" "f = 0"
    | (c) "ent s table i AND 1 = 0" "f \<noteq> 0" by blast
  then show thesis
  proof cases
    case a
    with ok have "child (ent s table i) = Some (ent s table i AND 0xFFFFFFFFF000)"
      by (simp add: desc_ok_bit child_def ADDR_MASK_def)
    moreover have "r = ent s table i AND 0xFFFFFFFFF000" "s' = s"
      using eq a by (auto simp: get_or_alloc_table_def l)
    ultimately show thesis using present by simp
  next
    case b
    have none: "child (ent s table i) = None"
      using b(1) ok by (auto simp: desc_ok_def child_def valid_bit)
    have rs: "r = 0" "s' = t"
      using eq b ft by (simp_all add: get_or_alloc_table_def l)
    have live: "live t = live s" using pt(3,4) b(2) by (simp add: live_def)
    have "pt_inv t" "owned t = owned s"
      using D(3) al(1) pt b(2) live by (simp_all add: pt_inv_def owned_def tables_def)
    then have "mmu_step s t"
      using al pt(2,6) bal by (simp add: mmu_frame_def)
    with none rs pt b(2) show thesis using full by simp
  next
    case c
    have none: "child (ent s table i) = None"
      using c(1) ok by (auto simp: desc_ok_def child_def valid_bit)
    have f: "f \<in> free_frames s" "free_frames t = free_frames s - {f}" "live t = insert f (live s)"
      using pt(5) c(2) by auto
    have fm: "f \<in> managed_frames t" using f(1) D(7) by (auto simp: pt(3))
    have g: "pmm_geom t" using al(1) by (rule pmm_invD)
    define u where "u = zero_table f t"
    note z = zero_managed [OF g fm order_refl, folded zero_table_def u_def]
    have rs: "r = f" "s' = write_desc table i (f OR 3) u"
      using eq c ft by (auto simp: get_or_alloc_table_def l u_def)
    have mu: "table \<in> managed_frames u" using man z(3) pt(3) by simp
    note w = store_managed [OF z(5) mu tab(2), of "f OR 3"] pmm_store_managed [OF z(5) mu tab(2), of "f OR 3"]
    have zero: "(\<lambda>j. if j < 512 then 0 else ent t f j) = (\<lambda>_. 0)"
      by (auto simp: fun_eq_iff ent_def)
    have e: "ent s' = upd ((ent s)(f := (\<lambda>_. 0))) table i (f OR 3)"
      by (simp add: rs(2) write_desc_def w z(1) zero pt(1))
    have "f \<in> owned s" "table \<in> owned s" using f(1) tab(1) by (auto simp: owned_def)
    then have sub: "words_of {f} \<subseteq> words_of (owned s)" "word_at table i \<in> words_of (owned s)"
      using tab(2) by (auto intro: words_ofI simp: words_of_def)
    have mem: "mem s' x = mem s x" if "x \<notin> bitmap_region s" "x \<notin> words_of (owned s)" for x
    proof -
      have "mem s' x = mem u x" using that(2) sub(2) by (auto simp: rs(2) write_desc_def store_def emit_def)
      also have "\<dots> = mem t x" using that(2) sub(1) by (intro z(14)) auto
      also have "\<dots> = mem s x" using that(1) by (rule al(12))
      finally show ?thesis .
    qed
    have "\<exists>es. trace s' = trace s @ es \<and> balanced {Pmm_lock} es"
    proof -
      have "trace s' = trace s @ (with_lock Pmm_lock s @ [St64 (word_at table i) (f OR 3)])"
        using al(9) z(7) by (simp add: rs(2) write_desc_def)
      moreover have "balanced {Pmm_lock} (with_lock Pmm_lock s @ [St64 (word_at table i) (f OR 3)])"
        by (intro balanced_append balanced_with_lock balanced_lock_free) (simp add: lock_free_def)
      ultimately show ?thesis by blast
    qed
    moreover have "free_frames s' = free_frames s - {f}" "live s' = insert f (live s)"
      using w(2,3) z(2,3) f(2,3) by (simp_all add: rs(2) write_desc_def live_def)
    moreover have "pmm_inv s'" using w(5) z(4) al(1) by (simp add: rs(2) write_desc_def)
    ultimately show thesis
      using fresh none c(2) f(1) e al z mem pt(2,6) unfolding rs(1)
      by (simp add: rs(2) write_desc_def)
  qed
qed

lemma desc_ok_3 [simp]: "desc_ok (d OR 3)"
  by (simp add: desc_ok_def or_3_valid)

lemma tables_root: "l1_table s \<in> tables s"
  by (simp add: tables_def tree_def)

lemma l2_tables: "l2_of s i = Some a \<Longrightarrow> a \<in> tables s"
  by (auto simp: tables_def tree_def)

lemma l3_tables: "l3_of s i j = Some b \<Longrightarrow> b \<in> tables s"
  by (auto simp: tables_def tree_def)

text \<open>
  Getting or making a second-level table, and a third-level one: the table is then there, no
  page descriptor has changed, and one frame is gone if the table is new. It fails only when
  it has to make a table and there is no frame.
\<close>

lemma get_or_alloc_root:
  assumes inv: "pt_inv s" and i: "i < 512"
    and eq: "get_or_alloc_table (l1_table s) i s = (r, s')"
  shows "mmu_step s s'" and "pte s' = pte s" and "l3_of s' = l3_of s"
    and "r = 0 \<Longrightarrow> l2_of s i = None \<and> free_frames s = {} \<and> l2_of s' = l2_of s"
    and "r \<noteq> 0 \<Longrightarrow> l2_of s' = (l2_of s)(i := Some r)
          \<and> free_frames s' = free_frames s - (if l2_of s i = None then {r} else {})
          \<and> (l2_of s i = None \<longrightarrow> r \<in> free_frames s)"
proof -
  note D = pt_invD [OF inv] and wD = wf_ptD [OF pt_invD(3) [OF inv]]
  have T2: "l2_of s i = child (ent s (l1_table s) i)" by (simp add: T2_def)
  have "mmu_step s s' \<and> pte s' = pte s \<and> l3_of s' = l3_of s
    \<and> (r = 0 \<longrightarrow> l2_of s i = None \<and> free_frames s = {} \<and> l2_of s' = l2_of s)
    \<and> (r \<noteq> 0 \<longrightarrow> l2_of s' = (l2_of s)(i := Some r)
          \<and> free_frames s' = free_frames s - (if l2_of s i = None then {r} else {})
          \<and> (l2_of s i = None \<longrightarrow> r \<in> free_frames s))"
    using inv tables_root i wD(3) eq
  proof (cases rule: get_or_alloc_cases)
    case present
    then have "l2_of s i = Some r" by (simp add: T2)
    moreover have "r \<noteq> 0" using wD(2) wD(4) [OF calculation] by auto
    ultimately show ?thesis using present(2) mmu_step_refl [OF inv] by (simp add: fun_upd_idem)
  next
    case full
    then show ?thesis using mmu_stepD(2) [OF full(4)] by (simp add: T2 pte_def)
  next
    case fresh
    let ?e = "(ent s)(r := (\<lambda>_. 0))"
    have r: "r \<notin> tree (l1_table s) (ent s)" "r \<in> managed_frames s"
      using fresh(3) D(6,7) by (auto simp: tables_def)
    note o = outside_tree [OF r(1), of "\<lambda>_. 0"]
    have w: "wf_pt (l1_table s) ?e (live s)" using D(3) r(1) by (rule wf_pt_outside)
    have none: "T2 (l1_table s) ?e i = None" using fresh(1) by (simp add: o T2)
    note h = hook_T2 [OF w none, of r "r OR 3", unfolded o, OF r(1) fresh(2) _
        managed_child(1) [OF D(2) r(2)] desc_ok_3, simplified]
    note h' = h [folded fresh(4) fresh(6)]
    have "pt_inv s'" using h'(4) fresh(7,8) by (simp add: pt_inv_def)
    moreover have "tables s' = insert r (tables s)"
      unfolding tables_def fresh(8) using h'(1,2) fresh(1) by (intro tree_hook [where i = i]) (simp_all add: T2)
    then have "owned s' = owned s" using fresh(3,5) by (auto simp: owned_def)
    ultimately have "mmu_step s s'" using fresh by (simp add: mmu_frame_def)
    with h' fresh(1,2,3,5) show ?thesis by (simp add: T2 pte_def fresh(8))
  qed
  then show "mmu_step s s'" "pte s' = pte s" "l3_of s' = l3_of s"
    "r = 0 \<Longrightarrow> l2_of s i = None \<and> free_frames s = {} \<and> l2_of s' = l2_of s"
    "r \<noteq> 0 \<Longrightarrow> l2_of s' = (l2_of s)(i := Some r)
          \<and> free_frames s' = free_frames s - (if l2_of s i = None then {r} else {})
          \<and> (l2_of s i = None \<longrightarrow> r \<in> free_frames s)"
    by blast+
qed

lemma get_or_alloc_L2:
  assumes inv: "pt_inv s" and a: "l2_of s i = Some a" and j: "j < 512"
    and eq: "get_or_alloc_table a j s = (r, s')"
  shows "mmu_step s s'" and "pte s' = pte s" and "l2_of s' = l2_of s"
    and "r = 0 \<Longrightarrow> l3_of s i j = None \<and> free_frames s = {} \<and> l3_of s' = l3_of s"
    and "r \<noteq> 0 \<Longrightarrow> l3_of s' = (\<lambda>i' j'. if i' = i \<and> j' = j then Some r else l3_of s i' j')
          \<and> free_frames s' = free_frames s - (if l3_of s i j = None then {r} else {})
          \<and> (l3_of s i j = None \<longrightarrow> r \<in> free_frames s)"
proof -
  note D = pt_invD [OF inv] and wD = wf_ptD [OF pt_invD(3) [OF inv]]
  have T3: "l3_of s i j = child (ent s a j)" by (simp add: T3_def a)
  have "mmu_step s s' \<and> pte s' = pte s \<and> l2_of s' = l2_of s
    \<and> (r = 0 \<longrightarrow> l3_of s i j = None \<and> free_frames s = {} \<and> l3_of s' = l3_of s)
    \<and> (r \<noteq> 0 \<longrightarrow> l3_of s' = (\<lambda>i' j'. if i' = i \<and> j' = j then Some r else l3_of s i' j')
          \<and> free_frames s' = free_frames s - (if l3_of s i j = None then {r} else {})
          \<and> (l3_of s i j = None \<longrightarrow> r \<in> free_frames s))"
    using inv l2_tables [OF a] j wD(6) [OF a] eq
  proof (cases rule: get_or_alloc_cases)
    case present
    then have "l3_of s i j = Some r" by (simp add: T3)
    moreover have "r \<noteq> 0" using wD(2) wD(7) [OF calculation] by auto
    ultimately show ?thesis using present(2) mmu_step_refl [OF inv] by (auto simp: fun_eq_iff)
  next
    case full
    then show ?thesis using mmu_stepD(2) [OF full(4)] by (simp add: T3 pte_def)
  next
    case fresh
    let ?e = "(ent s)(r := (\<lambda>_. 0))"
    have r: "r \<notin> tree (l1_table s) (ent s)" "r \<in> managed_frames s"
      using fresh(3) D(6,7) by (auto simp: tables_def)
    note o = outside_tree [OF r(1), of "\<lambda>_. 0"]
    have w: "wf_pt (l1_table s) ?e (live s)" using D(3) r(1) by (rule wf_pt_outside)
    have none: "T2 (l1_table s) ?e i = Some a" "T3 (l1_table s) ?e i j = None"
      using fresh(1) a by (simp_all add: o T3)
    note h = hook_T3 [OF w none, of r "r OR 3", unfolded o, OF r(1) fresh(2) _
        managed_child(1) [OF D(2) r(2)] desc_ok_3, simplified]
    note h' = h [folded fresh(4) fresh(6)]
    have "pt_inv s'" using h'(4) fresh(7,8) by (simp add: pt_inv_def)
    moreover have "tables s' = insert r (tables s)"
      unfolding tables_def fresh(8) using h'(1,2) fresh(1) by (intro tree_hook_T3 [where i = i and j = j]) (simp_all add: T3)
    then have "owned s' = owned s" using fresh(3,5) by (auto simp: owned_def)
    ultimately have "mmu_step s s'" using fresh by (simp add: mmu_frame_def)
    with h' fresh(1,2,3,5) show ?thesis by (simp add: T3 pte_def fresh(8))
  qed
  then show "mmu_step s s'" "pte s' = pte s" "l2_of s' = l2_of s"
    "r = 0 \<Longrightarrow> l3_of s i j = None \<and> free_frames s = {} \<and> l3_of s' = l3_of s"
    "r \<noteq> 0 \<Longrightarrow> l3_of s' = (\<lambda>i' j'. if i' = i \<and> j' = j then Some r else l3_of s i' j')
          \<and> free_frames s' = free_frames s - (if l3_of s i j = None then {r} else {})
          \<and> (l3_of s i j = None \<longrightarrow> r \<in> free_frames s)"
    by blast+
qed

lemma write_page_step:
  fixes k :: nat
  assumes inv: "pt_inv s" and b: "l3_of s i j = Some b" and k: "k < 512" and d: "desc_ok d"
  defines "s' \<equiv> write_desc b k d s"
  shows "mmu_step s s'" and "l2_of s' = l2_of s" and "l3_of s' = l3_of s"
    and "free_frames s' = free_frames s"
    and "pte s' = (\<lambda>i' j' k'. if i' = i \<and> j' = j \<and> k' = k then d else pte s i' j' k')"
proof -
  note D = pt_invD [OF inv]
  have man: "b \<in> managed_frames s" using l3_tables [OF b] D(5) by auto
  note st = store_managed [OF D(2) man k, of d] pmm_store_managed [OF D(2) man k, of d]
  note w = write_page [OF D(3) b d, of k]
  have e: "ent s' = upd (ent s) b k d" "l1_table s' = l1_table s"
    by (simp_all add: s'_def write_desc_def st)
  show T: "l2_of s' = l2_of s" "l3_of s' = l3_of s" by (simp_all add: e w)
  show f: "free_frames s' = free_frames s" by (simp add: s'_def write_desc_def st)
  show "pte s' = (\<lambda>i' j' k'. if i' = i \<and> j' = j \<and> k' = k then d else pte s i' j' k')"
    by (simp only: pte_def e w)
  have "live s' = live s" "pmm_inv s'"
    using D(1) by (simp_all add: s'_def write_desc_def st)
  then have "pt_inv s'" using w(3) by (simp add: pt_inv_def e)
  moreover have own: "owned s' = owned s" using T f by (simp add: owned_def tables_def tree_def e(2))
  moreover have "word_at b k \<in> words_of (owned s)"
    using l3_tables [OF b] k by (intro words_ofI) (auto simp: owned_def)
  moreover have "balanced {Pmm_lock} [St64 (word_at b k) d]"
    by (rule balanced_lock_free) (simp add: lock_free_def)
  ultimately show "mmu_step s s'"
    by (auto simp: mmu_frame_def s'_def write_desc_def store_def emit_def)
qed

lemma table_is_empty_ent:
  assumes "a \<in> managed_frames s"
  shows "table_is_empty a s \<longleftrightarrow> ent s a = (\<lambda>_. 0)"
  using assms by (auto simp: table_is_empty_def list_all_iff ent_def fun_eq_iff)

text \<open>Freeing a table after its parent's descriptor has been cleared.\<close>

lemma free_table_step:
  assumes inv: "pt_inv s" and tab: "a \<in> tables s" "j < 512" and f: "f \<in> tables s"
    and w: "wf_pt (l1_table s) (upd (ent s) a j 0) (live s - {f})"
    and t: "insert f (tree (l1_table s) (upd (ent s) a j 0)) = tables s"
  defines "s' \<equiv> free_frame f (write_desc a j 0 s)"
  shows "mmu_step s s'" and "ent s' = upd (ent s) a j 0"
proof -
  note D = pt_invD [OF inv]
  have man: "a \<in> managed_frames s" "f \<in> managed_frames s" using tab(1) f D(5) by auto
  let ?u = "write_desc a j 0 s"
  note st = store_managed [OF D(2) man(1) tab(2), of 0] pmm_store_managed [OF D(2) man(1) tab(2), of 0]
  have u: "pmm_inv ?u" "f \<in> managed_frames ?u" "ent ?u = upd (ent s) a j 0" "live ?u = live s"
    "free_frames ?u = free_frames s"
    using D(1) man(2) by (simp_all add: write_desc_def st)
  note fr = free_frame_pt [OF u(1,2)] and fa = free_frame_abs [OF u(1)]
  show e: "ent s' = upd (ent s) a j 0" by (simp add: s'_def fr u)
  have "l1_table s' = l1_table ?u" by (simp only: s'_def fr(2))
  then have l: "l1_table s' = l1_table s" by (simp add: write_desc_def)
  have "mmu.more s' = mmu.more ?u" by (simp only: s'_def fr(6))
  then have m: "mmu.more s' = mmu.more s" by (simp add: write_desc_def)
  have "pt_inv s'" using w fa(1) fr(5) by (simp add: pt_inv_def e l) (simp add: s'_def u)
  moreover have own: "owned s' = owned s"
  proof -
    have "free_frames s' = insert f (free_frames s)" by (simp only: s'_def fr(4) u(5))
    moreover have "tables s' = tree (l1_table s) (upd (ent s) a j 0)" by (simp only: tables_def e l)
    ultimately have "owned s' = insert f (tree (l1_table s) (upd (ent s) a j 0)) \<union> free_frames s"
      by (simp add: owned_def)
    then show ?thesis by (simp only: t owned_def)
  qed
  moreover have "word_at a j \<in> words_of (owned s)"
    using tab by (intro words_ofI) (auto simp: owned_def)
  then have "mem s' x = mem s x" if "x \<notin> bitmap_region s" "x \<notin> words_of (owned s)" for x
  proof -
    have "bitmap_region ?u = bitmap_region s"
      by (simp add: bitmap_region_def nwords_def write_desc_def)
    then have "mem s' x = mem ?u x" using fa(10) that(1) by (simp only: s'_def)
    moreover have "x \<noteq> word_at a j" using that(2) \<open>word_at a j \<in> words_of (owned s)\<close> by auto
    ultimately show ?thesis by (simp add: write_desc_def store_def emit_def)
  qed
  moreover have "\<exists>es. trace s' = trace s @ es \<and> balanced {Pmm_lock} es"
  proof -
    obtain p where p: "f = frame_addr ?u p" "p < unat (total_frames ?u)"
      using u(2) by (rule managed_frameE)
    have "trace s' = trace ?u @ with_lock Pmm_lock ?u"
      using fa(9) [OF p(2)] by (simp add: s'_def p(1) [symmetric])
    then have "trace s' = trace s @ ([St64 (word_at a j) 0] @ with_lock Pmm_lock ?u)"
      by (simp add: write_desc_def)
    moreover have "balanced {Pmm_lock} ([St64 (word_at a j) 0] @ with_lock Pmm_lock ?u)"
      by (intro balanced_append balanced_with_lock balanced_lock_free) (simp add: lock_free_def)
    ultimately show ?thesis by blast
  qed
  ultimately show "mmu_step s s'"
    using fa(2,4,5,6,7,8) l m by (simp add: mmu_frame_def) (simp add: s'_def write_desc_def)
qed

lemma prune_L3:
  assumes inv: "pt_inv s" and a: "l2_of s i = Some a" and b: "l3_of s i j = Some b" and j: "j < 512"
  defines "s' \<equiv> (if table_is_empty b s then free_frame b (write_desc a j 0 s) else s)"
  shows "mmu_step s s'" and "pte s' = pte s" and "l2_of s' = l2_of s"
proof -
  note D = pt_invD [OF inv]
  have man: "b \<in> managed_frames s" using l3_tables [OF b] D(5) by auto
  have "mmu_step s s' \<and> pte s' = pte s \<and> l2_of s' = l2_of s"
  proof (cases "table_is_empty b s")
    case True
    then have "ent s b = (\<lambda>_. 0)" using man by (simp add: table_is_empty_ent)
    note u = unhook_T3 [OF D(3) a b this]
    have "insert b (tree (l1_table s) (upd (ent s) a j 0)) = tables s"
    proof -
      have "(\<exists>i' j'. T3 (l1_table s) (upd (ent s) a j 0) i' j' = Some c) \<longleftrightarrow>
        c \<noteq> b \<and> (\<exists>i' j'. l3_of s i' j' = Some c)" for c
        unfolding u(2) using b wf_ptD(12) [OF D(3) b]
        by (metis option.distinct(1) option.inject)
      then show ?thesis using b by (auto simp: tables_def tree_def u(1))
    qed
    note fs = free_table_step [OF inv l2_tables [OF a] j l3_tables [OF b] u(4) this]
    have s': "s' = free_frame b (write_desc a j 0 s)" using True by (simp add: s'_def)
    show ?thesis
      unfolding s' pte_def fs(2) mmu_stepD(2) [OF fs(1)] u(1,3) using fs(1) by simp
  qed (use mmu_step_refl [OF inv] in \<open>simp add: s'_def\<close>)
  then show "mmu_step s s'" "pte s' = pte s" "l2_of s' = l2_of s" by auto
qed

lemma prune_L2:
  assumes inv: "pt_inv s" and a: "l2_of s i = Some a" and i: "i < 512"
  defines "s' \<equiv> (if table_is_empty a s then free_frame a (write_desc (l1_table s) i 0 s) else s)"
  shows "mmu_step s s'" and "pte s' = pte s"
proof -
  note D = pt_invD [OF inv]
  have man: "a \<in> managed_frames s" using l2_tables [OF a] D(5) by auto
  have "mmu_step s s' \<and> pte s' = pte s"
  proof (cases "table_is_empty a s")
    case True
    then have "ent s a = (\<lambda>_. 0)" using man by (simp add: table_is_empty_ent)
    note u = unhook_T2 [OF D(3) a this]
    have "insert a (tree (l1_table s) (upd (ent s) (l1_table s) i 0)) = tables s"
    proof -
      have "(\<exists>i'. T2 (l1_table s) (upd (ent s) (l1_table s) i 0) i' = Some c) \<longleftrightarrow>
        c \<noteq> a \<and> (\<exists>i'. l2_of s i' = Some c)" for c
        unfolding u(1) using a wf_ptD(11) [OF D(3) a]
        by (metis fun_upd_apply option.distinct(1) option.inject)
      then show ?thesis using a by (auto simp: tables_def tree_def u(2))
    qed
    note fs = free_table_step [OF inv tables_root i l2_tables [OF a] u(4) this]
    have s': "s' = free_frame a (write_desc (l1_table s) i 0 s)" using True by (simp add: s'_def)
    show ?thesis
      unfolding s' pte_def fs(2) mmu_stepD(2) [OF fs(1)] u(3) using fs(1) by simp
  qed (use mmu_step_refl [OF inv] in \<open>simp add: s'_def\<close>)
  then show "mmu_step s s'" "pte s' = pte s" by auto
qed

section \<open>Addresses and page numbers\<close>

text \<open>
  The three indices of an address are the digits of its page number modulo \<open>2^27\<close>, so two
  addresses have the same descriptor exactly if they have the same page number.
\<close>

definition coord :: "u64 \<Rightarrow> nat \<times> nat \<times> nat" where
  "coord a = (L1_INDEX a, L2_INDEX a, L3_INDEX a)"

definition vpn :: "u64 \<Rightarrow> nat" where
  "vpn a = unat a div 4096 mod 2 ^ 27"

definition page :: "u64 \<Rightarrow> nat \<Rightarrow> u64" where
  "page va i = va + of_nat i * PAGE_SIZE"

lemma index_less [simp]: "L1_INDEX a < 512" "L2_INDEX a < 512" "L3_INDEX a < 512"
  by (simp_all add: L1_INDEX_def L2_INDEX_def L3_INDEX_def field_index)

lemma coord_vpn: "coord a = (vpn a div 2 ^ 18, vpn a div 2 ^ 9 mod 2 ^ 9, vpn a mod 2 ^ 9)"
proof -
  define q where "q = unat a div 4096"
  have "unat a div 2 ^ 30 = q div 2 ^ 18" "unat a div 2 ^ 21 = q div 2 ^ 9"
    by (simp_all add: q_def flip: div_mult2_eq)
  then have i: "L1_INDEX a = q div 2 ^ 18 mod 2 ^ 9" "L2_INDEX a = q div 2 ^ 9 mod 2 ^ 9"
    "L3_INDEX a = q mod 2 ^ 9"
    by (simp_all add: L1_INDEX_def L2_INDEX_def L3_INDEX_def field_index q_def)
  have v: "vpn a = q mod 2 ^ 27" by (simp add: vpn_def q_def)
  have a: "q mod 2 ^ 27 = 2 ^ 18 * (q div 2 ^ 18 mod 2 ^ 9) + q mod 2 ^ 18"
    using mod_mult2_eq [of q "2 ^ 18" "2 ^ 9"] by simp
  have "q mod 2 ^ 27 div 2 ^ 18 = q div 2 ^ 18 mod 2 ^ 9"
    unfolding a by simp
  moreover have "q mod 2 ^ 27 mod 2 ^ 9 = q mod 2 ^ 9"
    by (rule mod_mod_cancel) (simp add: le_imp_power_dvd)
  moreover have "q mod 2 ^ 27 div 2 ^ 9 mod 2 ^ 9 = q div 2 ^ 9 mod 2 ^ 9"
  proof -
    have "q mod 2 ^ 27 = 2 ^ 9 * (q div 2 ^ 9 mod 2 ^ 18) + q mod 2 ^ 9"
      using mod_mult2_eq [of q "2 ^ 9" "2 ^ 18"] by simp
    then have "q mod 2 ^ 27 div 2 ^ 9 = q div 2 ^ 9 mod 2 ^ 18" by simp
    moreover have "m mod 2 ^ 18 mod 2 ^ 9 = m mod 2 ^ 9" for m :: nat
      by (rule mod_mod_cancel) (simp add: le_imp_power_dvd)
    ultimately show ?thesis by (simp only:)
  qed
  ultimately show ?thesis by (simp only: coord_def i v)
qed

lemma coord_eq_iff: "coord a = coord b \<longleftrightarrow> vpn a = vpn b"
proof
  have split: "v = 2 ^ 18 * (v div 2 ^ 18) + (2 ^ 9 * (v div 2 ^ 9 mod 2 ^ 9) + v mod 2 ^ 9)" for v :: nat
  proof -
    have "v mod 2 ^ 18 = 2 ^ 9 * (v div 2 ^ 9 mod 2 ^ 9) + v mod 2 ^ 9"
      using mod_mult2_eq [of v "2 ^ 9" "2 ^ 9"] by simp
    then show ?thesis using mult_div_mod_eq [of "2 ^ 18" v] by linarith
  qed
  assume "coord a = coord b"
  then have e: "vpn a div 2 ^ 18 = vpn b div 2 ^ 18" "vpn a div 2 ^ 9 mod 2 ^ 9 = vpn b div 2 ^ 9 mod 2 ^ 9"
    "vpn a mod 2 ^ 9 = vpn b mod 2 ^ 9" unfolding coord_vpn prod.inject by simp_all
  show "vpn a = vpn b" by (subst (1 2) split) (simp only: e)
qed (simp add: coord_vpn)

lemma vpn_page: "vpn (page va i) = (vpn va + i) mod 2 ^ 27"
proof -
  define n where "n = unat va + i * 4096"
  have "page va i = of_nat n" by (simp add: page_def PAGE_SIZE_def n_def)
  then have "unat (page va i) = n mod 2 ^ 64" by (simp add: unsigned_of_nat take_bit_eq_mod)
  moreover have "n mod 2 ^ 64 div 4096 = n div 4096 mod 2 ^ 52"
  proof -
    have "n mod 2 ^ 64 = 4096 * (n div 4096 mod 2 ^ 52) + n mod 4096"
      using mod_mult2_eq [of n 4096 "2 ^ 52"] by simp
    then show ?thesis by simp
  qed
  moreover have "m mod 2 ^ 52 mod 2 ^ 27 = m mod 2 ^ 27" for m :: nat
    by (rule mod_mod_cancel) (simp add: le_imp_power_dvd)
  ultimately have "vpn (page va i) = n div 4096 mod 2 ^ 27" by (simp only: vpn_def)
  also have "n div 4096 = unat va div 4096 + i" by (simp add: n_def)
  finally show ?thesis unfolding vpn_def by (simp only: mod_add_left_eq)
qed

lemma page_0 [simp]: "page va 0 = va" by (simp add: page_def)

lemma add_mod_inj:
  fixes v i j M :: nat
  assumes "(v + i) mod M = (v + j) mod M" "i < M" "j < M"
  shows "i = j"
  using assms
proof (induction i j rule: linorder_wlog)
  case (le i j)
  then have "M dvd (v + j) - (v + i)"
    by (subst mod_eq_dvd_iff_nat [symmetric]) simp_all
  with le show ?case by (auto dest: dvd_imp_le)
qed simp

lemma coord_page_inj:
  assumes "n \<le> 2 ^ 27"
  shows "inj_on (\<lambda>i. coord (page va i)) {..<n}"
proof (rule inj_onI)
  fix i j assume ij: "i \<in> {..<n}" "j \<in> {..<n}" and "coord (page va i) = coord (page va j)"
  then have eq: "(vpn va + i) mod 2 ^ 27 = (vpn va + j) mod 2 ^ 27"
    by (simp add: coord_eq_iff vpn_page)
  then show "i = j" using ij assms by (intro add_mod_inj [OF eq]) simp_all
qed

section \<open>Unmapping\<close>

text \<open>\<open>desc_at\<close> is the abstract view of the tables: the page descriptor at a coordinate, 0 if none.\<close>

definition desc_at :: "'a mmu_scheme \<Rightarrow> nat \<times> nat \<times> nat \<Rightarrow> u64" where
  "desc_at s = (\<lambda>(i, j, k). pte s i j k)"

lemma walk_l1:
  assumes "pt_inv s" "i < 512"
  shows "load (l1_table s) i s AND 3 \<noteq> 3 \<longleftrightarrow> l2_of s i = None"
    and "l2_of s i = Some a \<Longrightarrow> load (l1_table s) i s AND ADDR_MASK = a"
proof -
  have "l1_table s \<in> managed_frames s" using pt_invD(5) [OF assms(1)] tables_root by auto
  then show "load (l1_table s) i s AND 3 \<noteq> 3 \<longleftrightarrow> l2_of s i = None"
    "l2_of s i = Some a \<Longrightarrow> load (l1_table s) i s AND ADDR_MASK = a"
    using assms(2) by (auto simp: T2_def ent_load child_def split: if_splits)
qed

lemma walk_l2:
  assumes "pt_inv s" "l2_of s i = Some a" "j < 512"
  shows "load a j s AND 3 \<noteq> 3 \<longleftrightarrow> l3_of s i j = None"
    and "l3_of s i j = Some b \<Longrightarrow> load a j s AND ADDR_MASK = b"
proof -
  have "a \<in> managed_frames s" using pt_invD(5) [OF assms(1)] l2_tables [OF assms(2)] by auto
  then show "load a j s AND 3 \<noteq> 3 \<longleftrightarrow> l3_of s i j = None"
    "l3_of s i j = Some b \<Longrightarrow> load a j s AND ADDR_MASK = b"
    using assms(2,3) by (auto simp: T3_def ent_load child_def split: if_splits)
qed

lemma walk_l3:
  assumes "pt_inv s" "l3_of s i j = Some b" "k < 512"
  shows "load b k s = pte s i j k" "desc_ok (pte s i j k)"
proof -
  have "b \<in> managed_frames s" using pt_invD(5) [OF assms(1)] l3_tables [OF assms(2)] by auto
  then show "load b k s = pte s i j k"
    using assms(2,3) by (simp add: pte_def PTE_def ent_load)
  show "desc_ok (pte s i j k)"
    using wf_ptD(10) [OF pt_invD(3) [OF assms(1)] assms(2)] assms(2) by (simp add: pte_def PTE_def)
qed

lemma desc_at_tables:
  assumes "desc_at s (i, j, k) \<noteq> 0"
  obtains a b where "l2_of s i = Some a" "l3_of s i j = Some b"
  using assms by (auto simp: desc_at_def pte_def PTE_def T3_def split: option.splits)

definition unmap_page :: "u64 \<Rightarrow> u64 \<Rightarrow> u64 \<Rightarrow> 'a mmu_scheme \<Rightarrow> 'a mmu_scheme" where
  "unmap_page a l2_table l3_table s =
     (let s = write_desc l3_table (L3_INDEX a) 0 s;
          s = (if table_is_empty l3_table s
               then free_frame l3_table (write_desc l2_table (L2_INDEX a) 0 s) else s)
      in if table_is_empty l2_table s
         then free_frame l2_table (write_desc (l1_table s) (L1_INDEX a) 0 s) else s)"

lemma unmap_page_step:
  assumes inv: "pt_inv s" and t2: "l2_of s (L1_INDEX a) = Some l2" and t3: "l3_of s (L1_INDEX a) (L2_INDEX a) = Some l3"
  shows "mmu_step s (unmap_page a l2 l3 s)" and "desc_at (unmap_page a l2 l3 s) = (desc_at s)(coord a := 0)"
proof -
  define s1 where "s1 = write_desc l3 (L3_INDEX a) 0 s"
  define s2 where "s2 = (if table_is_empty l3 s1 then free_frame l3 (write_desc l2 (L2_INDEX a) 0 s1) else s1)"
  define s3 where "s3 = (if table_is_empty l2 s2 then free_frame l2 (write_desc (l1_table s2) (L1_INDEX a) 0 s2) else s2)"
  have eq: "unmap_page a l2 l3 s = s3"
    by (simp only: unmap_page_def Let_def s1_def s2_def s3_def)
  note w = write_page_step [OF inv t3 index_less(3) desc_ok_0, of a, folded s1_def]
  note inv1 = mmu_stepD(1) [OF w(1)]
  have t: "l2_of s1 (L1_INDEX a) = Some l2" "l3_of s1 (L1_INDEX a) (L2_INDEX a) = Some l3"
    using t2 t3 by (simp_all add: w)
  note p3 = prune_L3 [OF inv1 t index_less(2), folded s2_def]
  note inv2 = mmu_stepD(1) [OF p3(1)]
  have t': "l2_of s2 (L1_INDEX a) = Some l2" using t(1) p3(3) by simp
  note p2 = prune_L2 [OF inv2 t' index_less(1), folded s3_def]
  show "mmu_step s (unmap_page a l2 l3 s)"
    unfolding eq by (rule mmu_step_trans [OF w(1) mmu_step_trans [OF p3(1) p2(1)]])
  show "desc_at (unmap_page a l2 l3 s) = (desc_at s)(coord a := 0)"
    by (auto simp: eq desc_at_def p2(2) p3(2) w(5) coord_def fun_eq_iff)
qed

lemma unmap_loop_Suc:
  assumes "pt_inv s"
  shows "unmap_loop va (Suc k) i s =
    (case l2_of s (L1_INDEX (page va i)) of None \<Rightarrow> (False, s)
     | Some l2 \<Rightarrow> (case l3_of s (L1_INDEX (page va i)) (L2_INDEX (page va i)) of None \<Rightarrow> (False, s)
     | Some l3 \<Rightarrow> unmap_loop va k (Suc i) (unmap_page (page va i) l2 l3 s)))"
proof (cases "l2_of s (L1_INDEX (page va i))")
  case None
  with walk_l1(1) [OF assms index_less(1)] show ?thesis by (simp add: page_def)
next
  case (Some l2)
  note w1 = walk_l1 [OF assms index_less(1)] and w2 = walk_l2 [OF assms Some index_less(2)]
  show ?thesis
  proof (cases "l3_of s (L1_INDEX (page va i)) (L2_INDEX (page va i))")
    case None
    with Some w1(1) w1(2) [OF Some] w2(1) show ?thesis by (simp add: page_def)
  next
    case t3: (Some l3)
    have v: "load (l1_table s) (L1_INDEX (page va i)) s AND 3 = 3"
      "load l2 (L2_INDEX (page va i)) s AND 3 = 3"
      using w1(1) [of "page va i"] w2(1) [of "page va i"] Some t3 by auto
    show ?thesis
      unfolding unmap_loop.simps Let_def page_def [symmetric] w1(2) [OF Some] w2(2) [OF t3]
      by (simp add: v Some t3 unmap_page_def Let_def)
  qed
qed

text \<open>The abstract effect: the descriptors of the pages \<open>N\<close> of a range are cleared.\<close>

definition clear_pages ::
  "u64 \<Rightarrow> nat set \<Rightarrow> (nat \<times> nat \<times> nat \<Rightarrow> u64) \<Rightarrow> nat \<times> nat \<times> nat \<Rightarrow> u64" where
  "clear_pages va N f c = (if c \<in> (\<lambda>n. coord (page va n)) ` N then 0 else f c)"

lemma clear_pages_empty [simp]: "clear_pages va {} f = f"
  by (simp add: clear_pages_def fun_eq_iff)

lemma clear_pages_insert:
  "clear_pages va (insert i N) f = clear_pages va N (f(coord (page va i) := 0))"
  by (rule ext) (simp add: clear_pages_def)

lemma unmap_loop_step:
  assumes "pt_inv s" "unmap_loop va k i s = (ok, s')"
  shows "mmu_step s s' \<and> (\<exists>m. i \<le> m \<and> m \<le> i + k \<and> (ok \<longleftrightarrow> m = i + k)
    \<and> desc_at s' = clear_pages va {i..<m} (desc_at s)
    \<and> (\<not> ok \<longrightarrow> desc_at s' (coord (page va m)) = 0))"
  using assms
proof (induction k arbitrary: i s)
  case 0
  then have "s' = s" "ok" by auto
  then show ?case using mmu_step_refl [OF 0(1)] by (auto intro!: exI [of _ i])
next
  case (Suc k)
  let ?a = "page va i"
  have stop: "mmu_step s s' \<and> (\<exists>m. i \<le> m \<and> m \<le> i + Suc k \<and> (ok \<longleftrightarrow> m = i + Suc k)
    \<and> desc_at s' = clear_pages va {i..<m} (desc_at s)
    \<and> (\<not> ok \<longrightarrow> desc_at s' (coord (page va m)) = 0))" if "s' = s" "\<not> ok" "desc_at s (coord ?a) = 0"
    using that mmu_step_refl [OF Suc.prems(1)] by (auto intro!: exI [of _ i])
  show ?case
  proof (cases "l2_of s (L1_INDEX ?a)")
    case None
    then have "desc_at s (coord ?a) = 0" by (simp add: desc_at_def coord_def pte_def PTE_def T3_def)
    with Suc.prems None show ?thesis
      by (intro stop) (simp_all add: unmap_loop_Suc del: unmap_loop.simps)
  next
    case t2: (Some l2)
    show ?thesis
    proof (cases "l3_of s (L1_INDEX ?a) (L2_INDEX ?a)")
      case None
      then have "desc_at s (coord ?a) = 0" by (simp add: desc_at_def coord_def pte_def PTE_def)
      with Suc.prems None t2 show ?thesis
        by (intro stop) (simp_all add: unmap_loop_Suc del: unmap_loop.simps)
    next
      case t3: (Some l3)
      note u = unmap_page_step [OF Suc.prems(1) t2 t3]
      have "unmap_loop va k (Suc i) (unmap_page ?a l2 l3 s) = (ok, s')"
        using Suc.prems t2 t3 by (simp add: unmap_loop_Suc del: unmap_loop.simps)
      from Suc.IH [OF mmu_stepD(1) [OF u(1)] this] obtain m where
        st: "mmu_step (unmap_page ?a l2 l3 s) s'" and
        m: "Suc i \<le> m" "m \<le> Suc i + k" "ok \<longleftrightarrow> m = Suc i + k"
        "desc_at s' = clear_pages va {Suc i..<m} (desc_at (unmap_page ?a l2 l3 s))"
        "\<not> ok \<longrightarrow> desc_at s' (coord (page va m)) = 0" by blast
      have "{i..<m} = insert i {Suc i..<m}" using m(1) by auto
      then have "desc_at s' = clear_pages va {i..<m} (desc_at s)"
        by (simp only: m(4) u(2) clear_pages_insert)
      with m(1-3,5) mmu_step_trans [OF u(1) st] show ?thesis
        by (intro conjI exI [of _ m]) simp_all
    qed
  qed
qed

text \<open>When every page of the range is mapped the loop runs to its end.\<close>

lemma unmap_loop_mapped:
  assumes "pt_inv s" "unmap_loop va k 0 s = (ok, s')" "k \<le> 2 ^ 27"
    and "\<forall>n < k. desc_at s (coord (page va n)) \<noteq> 0"
  shows "ok"
proof (rule ccontr)
  assume "\<not> ok"
  with unmap_loop_step [OF assms(1,2)] obtain m where m: "m < k"
    "desc_at s' = clear_pages va {0..<m} (desc_at s)" "desc_at s' (coord (page va m)) = 0"
    by (metis add_0 le_neq_implies_less)
  have "coord (page va m) \<notin> (\<lambda>n. coord (page va n)) ` {0..<m}"
  proof
    assume "coord (page va m) \<in> (\<lambda>n. coord (page va n)) ` {0..<m}"
    then obtain n where n: "n < m" "coord (page va m) = coord (page va n)" by auto
    have "m = n" using inj_onD [OF coord_page_inj [OF assms(3)] n(2)] m(1) n(1) by simp
    with n show False by simp
  qed
  with m assms(4) show False by (simp add: clear_pages_def)
qed

lemma lock_free_tlbi: "list_all lock_free (map (\<lambda>i. Tlbi_vaae1is (f i)) ns)"
  by (simp add: list_all_iff lock_free_def)

lemma dsb_step:
  "pt_inv s \<Longrightarrow> mmu_step s (dsb_ishst s)" "pt_inv s \<Longrightarrow> mmu_step s (dsb_ish s)"
  "pt_inv s \<Longrightarrow> mmu_step s (isb s)" "pt_inv s \<Longrightarrow> mmu_step s (tlbi_pages va n s)"
  by (simp_all add: dsb_ishst_def dsb_ish_def isb_def tlbi_pages_def mmu_step_emit lock_free_def
      lock_free_tlbi)

lemma desc_at_emit [simp]:
  "desc_at (emit es s) = desc_at s" "desc_at (s\<lparr>daif := d\<rparr>) = desc_at s"
  by (simp_all add: desc_at_def pte_def)

lemma desc_at_barriers [simp]:
  "desc_at (dsb_ishst s) = desc_at s" "desc_at (dsb_ish s) = desc_at s" "desc_at (isb s) = desc_at s"
  "desc_at (tlbi_pages va n s) = desc_at s"
  by (simp_all add: dsb_ishst_def dsb_ish_def isb_def tlbi_pages_def)

lemma unmap_locked_step:
  fixes sz :: u64
  assumes "pt_inv s"
  defines "n \<equiv> unat (sz div PAGE_SIZE)"
  shows "mmu_step s (unmap_locked va sz s)"
    and "\<exists>m \<le> n. desc_at (unmap_locked va sz s) = clear_pages va {..<m} (desc_at s)
         \<and> (m < n \<longrightarrow> desc_at (unmap_locked va sz s) (coord (page va m)) = 0)
         \<and> (n \<le> 2 ^ 27 \<longrightarrow> (\<forall>i < n. desc_at s (coord (page va i)) \<noteq> 0) \<longrightarrow> m = n)"
proof -
  obtain ok t where l: "unmap_loop va n 0 (dsb_ishst s) = (ok, t)"
    by (cases "unmap_loop va n 0 (dsb_ishst s)")
  note d = dsb_step(1) [OF assms(1)]
  note inv = mmu_stepD(1) [OF d]
  note u = unmap_loop_step [OF inv l] and um = unmap_loop_mapped [OF inv l]
  have eq: "unmap_locked va sz s = (if ok then isb (dsb_ish (tlbi_pages va n t)) else t)"
    using l by (simp add: unmap_locked_def n_def)
  have t: "mmu_step s t" using u mmu_step_trans [OF d] by blast
  note i1 = dsb_step(4) [OF mmu_stepD(1) [OF t], of va n]
  note i2 = dsb_step(2) [OF mmu_stepD(1) [OF i1]]
  note i3 = dsb_step(3) [OF mmu_stepD(1) [OF i2]]
  show "mmu_step s (unmap_locked va sz s)"
    unfolding eq using t mmu_step_trans [OF t mmu_step_trans [OF i1 mmu_step_trans [OF i2 i3]]] by simp
  obtain m where m: "m \<le> n" "ok \<longleftrightarrow> m = n" "desc_at t = clear_pages va {..<m} (desc_at s)"
    "\<not> ok \<longrightarrow> desc_at t (coord (page va m)) = 0"
    using u by (auto simp: atLeast0LessThan)
  have e: "desc_at (unmap_locked va sz s) = desc_at t"
    by (simp add: eq)
  have "m = n" if "n \<le> 2 ^ 27" "\<forall>i < n. desc_at s (coord (page va i)) \<noteq> 0"
    using um [OF that(1)] that(2) m(2) by simp
  then show "\<exists>m \<le> n. desc_at (unmap_locked va sz s) = clear_pages va {..<m} (desc_at s)
         \<and> (m < n \<longrightarrow> desc_at (unmap_locked va sz s) (coord (page va m)) = 0)
         \<and> (n \<le> 2 ^ 27 \<longrightarrow> (\<forall>i < n. desc_at s (coord (page va i)) \<noteq> 0) \<longrightarrow> m = n)"
    unfolding e using m by (intro exI [of _ m]) simp
qed

section \<open>Mapping\<close>

text \<open>The descriptor that \<open>map\<close> writes for page \<open>i\<close>.\<close>

definition page_desc :: "u64 \<Rightarrow> u64 \<Rightarrow> nat \<Rightarrow> u64" where
  "page_desc phys flags i = page phys i OR flags OR 3"

text \<open>
  The tables a set \<open>P\<close> of pages lacks: that many frames, and no more, does \<open>map\<close> allocate.
\<close>

definition miss2 :: "'a mmu_scheme \<Rightarrow> (nat \<times> nat \<times> nat) set \<Rightarrow> nat set" where
  "miss2 s P = {i \<in> fst ` P. l2_of s i = None}"

definition miss3 :: "'a mmu_scheme \<Rightarrow> (nat \<times> nat \<times> nat) set \<Rightarrow> (nat \<times> nat) set" where
  "miss3 s P = {ij \<in> (\<lambda>(i, j, k). (i, j)) ` P. l3_of s (fst ij) (snd ij) = None}"

definition missing :: "'a mmu_scheme \<Rightarrow> (nat \<times> nat \<times> nat) set \<Rightarrow> nat" where
  "missing s P = card (miss2 s P) + card (miss3 s P)"

lemma page_desc_ok [simp]: "desc_ok (page_desc phys flags i)" "page_desc phys flags i \<noteq> 0"
  unfolding page_desc_def or.assoc [symmetric] by (simp_all add: or_3_neq_0)

lemma finite_miss: "finite P \<Longrightarrow> finite (miss2 s P)" "finite P \<Longrightarrow> finite (miss3 s P)"
  by (simp_all add: miss2_def miss3_def)

lemma free_frames_finite: "finite (free_frames s)"
  by (simp add: free_frames_def)

lemma missing_root:
  assumes inv: "pt_inv s" and fin: "finite P" and P: "(i, j, k) \<in> P" and i: "i < 512"
    and eq: "get_or_alloc_table (l1_table s) i s = (r, s')"
    and enough: "missing s P + extra \<le> card (free_frames s)"
  shows "r \<noteq> 0" and "missing s' P + extra \<le> card (free_frames s')"
proof -
  note g = get_or_alloc_root [OF inv i eq]
  have i2: "l2_of s i = None \<longleftrightarrow> i \<in> miss2 s P" using P by (force simp: miss2_def)
  have pos: "0 < card (miss2 s P)" if "l2_of s i = None"
    using that i2 finite_miss(1) [OF fin, of s] by (auto simp: card_gt_0_iff)
  show r: "r \<noteq> 0" using g(4) pos enough by (auto simp: missing_def)
  have m3: "miss3 s' P = miss3 s P" by (simp add: miss3_def g(3))
  show "missing s' P + extra \<le> card (free_frames s')"
  proof (cases "l2_of s i")
    case None
    then have m2: "miss2 s' P = miss2 s P - {i}" using g(5) r by (auto simp: miss2_def)
    have "card (miss2 s' P) = card (miss2 s P) - 1"
      unfolding m2 using i2 None finite_miss(1) [OF fin, of s] by simp
    moreover have "card (free_frames s') = card (free_frames s) - 1"
      using g(5) r None free_frames_finite [of s] by simp
    ultimately show ?thesis using enough pos [OF None] by (simp add: missing_def m3)
  next
    case (Some a)
    then have "miss2 s' P = miss2 s P" using g(5) r by (auto simp: miss2_def)
    with Some g(5) r enough show ?thesis by (simp add: missing_def m3)
  qed
qed

lemma missing_L2:
  assumes inv: "pt_inv s" and a: "l2_of s i = Some a" and fin: "finite P" and P: "(i, j, k) \<in> P"
    and j: "j < 512" and eq: "get_or_alloc_table a j s = (r, s')"
    and enough: "missing s P + extra \<le> card (free_frames s)"
  shows "r \<noteq> 0" and "missing s' P + extra \<le> card (free_frames s')"
proof -
  note g = get_or_alloc_L2 [OF inv a j eq]
  define A where "A = (\<lambda>(i, j, k :: nat). (i :: nat, j :: nat)) ` P"
  have "(i, j) \<in> (\<lambda>(i, j, k). (i, j)) ` P" using P by (rule rev_image_eqI) simp
  then have i3: "l3_of s i j = None \<longleftrightarrow> (i, j) \<in> miss3 s P" by (simp add: miss3_def)
  have pos: "0 < card (miss3 s P)" if "l3_of s i j = None"
    using that i3 finite_miss(2) [OF fin, of s] by (auto simp: card_gt_0_iff)
  show r: "r \<noteq> 0" using g(4) pos enough by (auto simp: missing_def)
  have m2: "miss2 s' P = miss2 s P" by (simp add: miss2_def g(3))
  have l3: "l3_of s' (fst x) (snd x) = (if x = (i, j) then Some r else l3_of s (fst x) (snd x))" for x
    using g(5) [OF r] by (cases x) simp
  show "missing s' P + extra \<le> card (free_frames s')"
  proof (cases "l3_of s i j")
    case None
    have m3: "miss3 s' P = miss3 s P - {(i, j)}" by (auto simp: miss3_def l3 simp flip: A_def)
    have "card (miss3 s' P) = card (miss3 s P) - 1"
      unfolding m3 using i3 None finite_miss(2) [OF fin, of s] by simp
    moreover have "card (free_frames s') = card (free_frames s) - 1"
      using g(5) r None free_frames_finite [of s] by simp
    ultimately show ?thesis using enough pos [OF None] by (simp add: missing_def m2)
  next
    case (Some b)
    have "miss3 s' P = miss3 s P - {(i, j)}" by (auto simp: miss3_def l3 simp flip: A_def)
    moreover have "(i, j) \<notin> miss3 s P" using Some i3 by simp
    ultimately have "miss3 s' P = miss3 s P" by simp
    with Some g(5) r enough show ?thesis by (simp add: missing_def m2)
  qed
qed

text \<open>One page of \<open>map\<close>'s loop.\<close>

lemma map_page_tables:
  assumes inv: "pt_inv s"
    and g2: "get_or_alloc_table (l1_table s) (L1_INDEX a) s = (l2, s1)" and nz: "l2 \<noteq> 0"
    and g3: "get_or_alloc_table l2 (L2_INDEX a) s1 = (l3, s2)"
  shows "mmu_step s s1" and "mmu_step s s2" and "desc_at s2 = desc_at s"
    and "l3 \<noteq> 0 \<Longrightarrow> l3_of s2 (L1_INDEX a) (L2_INDEX a) = Some l3"
proof -
  note r = get_or_alloc_root [OF inv index_less(1) g2]
  have "l2_of s1 (L1_INDEX a) = Some l2" using r(5) [OF nz] by simp
  note q = get_or_alloc_L2 [OF mmu_stepD(1) [OF r(1)] this index_less(2) g3]
  show "mmu_step s s1" by (rule r(1))
  show "mmu_step s s2" by (rule mmu_step_trans [OF r(1) q(1)])
  show "desc_at s2 = desc_at s" by (simp only: desc_at_def q(2) r(2))
  show "l3 \<noteq> 0 \<Longrightarrow> l3_of s2 (L1_INDEX a) (L2_INDEX a) = Some l3" using q(5) by simp
qed

lemma map_page_write:
  assumes inv: "pt_inv s"
    and g2: "get_or_alloc_table (l1_table s) (L1_INDEX a) s = (l2, s1)" and "l2 \<noteq> 0"
    and g3: "get_or_alloc_table l2 (L2_INDEX a) s1 = (l3, s2)" and nz: "l3 \<noteq> 0" and d: "desc_ok d"
  defines "s3 \<equiv> write_desc l3 (L3_INDEX a) d s2"
  shows "mmu_step s s3" and "desc_at s3 = (desc_at s)(coord a := d)"
    and "missing s3 P = missing s2 P" and "free_frames s3 = free_frames s2"
proof -
  note t = map_page_tables [OF assms(1-4)]
  note w = write_page_step [OF mmu_stepD(1) [OF t(2)] t(4) [OF nz] index_less(3) d, of a, folded s3_def]
  show "mmu_step s s3" by (rule mmu_step_trans [OF t(2) w(1)])
  have "desc_at s3 = (desc_at s2)(coord a := d)"
    by (auto simp: desc_at_def w(5) coord_def fun_eq_iff)
  then show "desc_at s3 = (desc_at s)(coord a := d)" by (simp only: t(3))
  show "missing s3 P = missing s2 P" by (simp only: missing_def miss2_def miss3_def w(2,3))
  show "free_frames s3 = free_frames s2" by (rule w(4))
qed

lemma map_page_enough:
  assumes inv: "pt_inv s" and P: "finite P" "coord a \<in> P" "missing s P + extra \<le> card (free_frames s)"
    and g2: "get_or_alloc_table (l1_table s) (L1_INDEX a) s = (l2, s1)"
    and g3: "get_or_alloc_table l2 (L2_INDEX a) s1 = (l3, s2)"
  shows "l2 \<noteq> 0" and "l3 \<noteq> 0" and "missing s2 P + extra \<le> card (free_frames s2)"
proof -
  have c: "(L1_INDEX a, L2_INDEX a, L3_INDEX a) \<in> P" using P(2) by (simp add: coord_def)
  note r = get_or_alloc_root [OF inv index_less(1) g2]
  note m2 = missing_root [OF inv P(1) c index_less(1) g2 P(3)]
  have "l2_of s1 (L1_INDEX a) = Some l2" using r(5) [OF m2(1)] by simp
  note m3 = missing_L2 [OF mmu_stepD(1) [OF r(1)] this P(1) c index_less(2) g3 m2(2)]
  show "l2 \<noteq> 0" "l3 \<noteq> 0" "missing s2 P + extra \<le> card (free_frames s2)" by (rule m2(1) m3)+
qed

text \<open>The abstract effect of mapping the pages \<open>i\<close> to \<open>i + k\<close> of a range.\<close>

definition map_descs ::
  "u64 \<Rightarrow> u64 \<Rightarrow> u64 \<Rightarrow> nat list \<Rightarrow> (nat \<times> nat \<times> nat \<Rightarrow> u64) \<Rightarrow> nat \<times> nat \<times> nat \<Rightarrow> u64" where
  "map_descs va phys flags ns f = fold (\<lambda>n f. f(coord (page va n) := page_desc phys flags n)) ns f"

lemma map_descs_Cons: "map_descs va phys flags (n # ns) f =
    map_descs va phys flags ns (f(coord (page va n) := page_desc phys flags n))"
  by (simp add: map_descs_def)

lemma map_descs_at:
  assumes "distinct ns" "set ns \<subseteq> {..<N}" "N \<le> 2 ^ 27" "n < N"
  shows "map_descs va phys flags ns f (coord (page va n)) =
    (if n \<in> set ns then page_desc phys flags n else f (coord (page va n)))"
  using assms(1,2)
proof (induction ns arbitrary: f)
  case (Cons m ns)
  have "coord (page va n) = coord (page va m) \<longleftrightarrow> n = m"
    using inj_onD [OF coord_page_inj [OF assms(3)], of va n m] assms(4) Cons.prems(2) by auto
  with Cons show ?case by (auto simp: map_descs_Cons)
qed (simp add: map_descs_def)

lemma map_descs_other:
  "c \<notin> (\<lambda>n. coord (page va n)) ` set ns \<Longrightarrow> map_descs va phys flags ns f c = f c"
  by (induction ns arbitrary: f) (auto simp: map_descs_def)

lemma clear_map_descs:
  assumes "set ns \<subseteq> N"
  shows "clear_pages va N (map_descs va phys flags ns f) = clear_pages va N f"
proof
  fix c
  show "clear_pages va N (map_descs va phys flags ns f) c = clear_pages va N f c"
    using map_descs_other [of c va ns phys flags f] image_mono [OF assms, of "\<lambda>n. coord (page va n)"]
    by (auto simp: clear_pages_def)
qed

text \<open>
  The whole loop. It either maps every page, or it fails at some page \<open>m\<close> for lack of a frame,
  and then the pages before \<open>m\<close> are unmapped again; it does not fail when there are as many free
  frames as tables missing.
\<close>

lemma map_loop_Suc:
  "map_loop va phys flags (Suc k) i s =
    (let (l2, s1) = get_or_alloc_table (l1_table s) (L1_INDEX (page va i)) s
     in if l2 = 0 then (False, unmap_locked va (of_nat i * PAGE_SIZE) s1)
     else let (l3, s2) = get_or_alloc_table l2 (L2_INDEX (page va i)) s1
     in if l3 = 0 then (False, unmap_locked va (of_nat i * PAGE_SIZE) s2)
     else map_loop va phys flags k (Suc i)
            (write_desc l3 (L3_INDEX (page va i)) (page_desc phys flags i) s2))"
  unfolding map_loop.simps Let_def page_def page_desc_def ..

lemma pages_of_size: "i \<le> 2 ^ 27 \<Longrightarrow> unat ((of_nat i * PAGE_SIZE) div PAGE_SIZE :: u64) = i"
proof -
  assume i: "i \<le> 2 ^ 27"
  have "of_nat i * PAGE_SIZE = of_nat (i * 4096)" by (simp add: PAGE_SIZE_def)
  moreover have "unat (of_nat (i * 4096) :: u64) = i * 4096"
    using i by (intro unat_of_nat_small) simp
  ultimately show ?thesis by (simp only: unat_div) (simp add: PAGE_SIZE_def)
qed

lemma rollback:
  assumes "pt_inv s" "i \<le> 2 ^ 27" "\<forall>n < i. desc_at s (coord (page va n)) \<noteq> 0"
  shows "mmu_step s (unmap_locked va (of_nat i * PAGE_SIZE) s)"
    and "desc_at (unmap_locked va (of_nat i * PAGE_SIZE) s) = clear_pages va {..<i} (desc_at s)"
  using unmap_locked_step [OF assms(1), where sz = "of_nat i * PAGE_SIZE" and va = va] assms(2,3)
  by (auto simp: pages_of_size)

lemma map_loop_step:
  assumes "pt_inv s" "map_loop va phys flags k i s = (ok, s')" "i + k \<le> 2 ^ 27"
    and "\<forall>n < i. desc_at s (coord (page va n)) \<noteq> 0"
  shows "mmu_step s s'
    \<and> (ok \<longrightarrow> desc_at s' = map_descs va phys flags [i..<i + k] (desc_at s))
    \<and> (\<not> ok \<longrightarrow> (\<exists>m. i \<le> m \<and> m < i + k \<and> desc_at s' = clear_pages va {..<m} (desc_at s)))"
  using assms
proof (induction k arbitrary: i s)
  case 0
  then show ?case using mmu_step_refl [of s] by (simp add: map_descs_def)
next
  case (Suc k)
  let ?a = "page va i"
  obtain l2 s1 where g2: "get_or_alloc_table (l1_table s) (L1_INDEX ?a) s = (l2, s1)" by fastforce
  obtain l3 s2 where g3: "get_or_alloc_table l2 (L2_INDEX ?a) s1 = (l3, s2)" by fastforce
  note r = get_or_alloc_root [OF Suc.prems(1) index_less(1) g2]
  have fail: ?case
    if "mmu_step s t" "desc_at t = desc_at s" "(ok, s') = (False, unmap_locked va (of_nat i * PAGE_SIZE) t)" for t
  proof -
    note b = rollback [OF mmu_stepD(1) [OF that(1)], of i va, unfolded that(2)]
    have "i \<le> 2 ^ 27" using Suc.prems(3) by simp
    note b' = b [OF this Suc.prems(4)]
    have "\<not> ok" "s' = unmap_locked va (of_nat i * PAGE_SIZE) t" using that(3) by simp_all
    then show ?thesis using mmu_step_trans [OF that(1) b'(1)] b'(2) by (intro conjI impI exI [of _ i]) simp_all
  qed
  show ?case
  proof (cases "l2 = 0")
    case True
    have "desc_at s1 = desc_at s" by (simp only: desc_at_def r(2))
    then show ?thesis using True Suc.prems(2) g2 by (intro fail [OF r(1)]) (simp_all add: map_loop_Suc del: map_loop.simps)
  next
    case nz2: False
    note t = map_page_tables [OF Suc.prems(1) g2 nz2 g3]
    show ?thesis
    proof (cases "l3 = 0")
      case True
      then show ?thesis using nz2 Suc.prems(2) g2 g3
        by (intro fail [OF t(2,3)]) (simp_all add: map_loop_Suc del: map_loop.simps)
    next
      case nz3: False
      define s3 where "s3 = write_desc l3 (L3_INDEX ?a) (page_desc phys flags i) s2"
      note w = map_page_write [OF Suc.prems(1) g2 nz2 g3 nz3 page_desc_ok(1), of phys flags i, folded s3_def]
      have loop: "map_loop va phys flags k (Suc i) s3 = (ok, s')"
        using nz2 nz3 Suc.prems(2) g2 g3 by (simp add: map_loop_Suc s3_def del: map_loop.simps)
      have nz: "\<forall>n < Suc i. desc_at s3 (coord (page va n)) \<noteq> 0"
        using Suc.prems(4) by (auto simp: w(2) page_desc_ok(2) less_Suc_eq simp del: split_paired_All)
      have le: "Suc i + k \<le> 2 ^ 27" using Suc.prems(3) by simp
      note ih = Suc.IH [OF mmu_stepD(1) [OF w(1)] loop le nz]
      note ih1 = ih [THEN conjunct1] and ih2 = ih [THEN conjunct2, THEN conjunct1]
        and ih3 = ih [THEN conjunct2, THEN conjunct2]
      have st: "mmu_step s s'" by (rule mmu_step_trans [OF w(1) ih1])
      have "desc_at s' = map_descs va phys flags [i..<i + Suc k] (desc_at s)" if ok
      proof -
        have "[i..<i + Suc k] = i # [Suc i..<Suc i + k]" by (simp add: upt_rec)
        moreover have "desc_at s' = map_descs va phys flags [Suc i..<Suc i + k] (desc_at s3)"
          by (rule mp [OF ih2 that])
        ultimately show ?thesis by (simp only: map_descs_Cons w(2))
      qed
      moreover have "\<exists>m. i \<le> m \<and> m < i + Suc k \<and> desc_at s' = clear_pages va {..<m} (desc_at s)" if nok: "\<not> ok"
      proof -
        obtain m where m: "Suc i \<le> m" "m < Suc i + k" "desc_at s' = clear_pages va {..<m} (desc_at s3)"
          using mp [OF ih3 nok] by blast
        have "clear_pages va {..<m} (desc_at s3) = clear_pages va {..<m} (desc_at s)"
          using clear_map_descs [of "[i]" "{..<m}" va phys flags "desc_at s"] m(1)
          by (simp add: w(2) map_descs_def)
        with m show ?thesis by (intro exI [of _ m]) simp
      qed
      ultimately show ?thesis using st by blast
    qed
  qed
qed

lemma map_loop_enough:
  assumes "pt_inv s" "map_loop va phys flags k i s = (ok, s')"
    and "finite P" "(\<lambda>n. coord (page va n)) ` {i..<i + k} \<subseteq> P" "missing s P + extra \<le> card (free_frames s)"
  shows "ok \<and> missing s' P + extra \<le> card (free_frames s')"
  using assms
proof (induction k arbitrary: i s)
  case (Suc k)
  let ?a = "page va i"
  obtain l2 s1 where g2: "get_or_alloc_table (l1_table s) (L1_INDEX ?a) s = (l2, s1)" by fastforce
  obtain l3 s2 where g3: "get_or_alloc_table l2 (L2_INDEX ?a) s1 = (l3, s2)" by fastforce
  have c: "coord ?a \<in> P" using Suc.prems(4) by auto
  note e = map_page_enough [OF Suc.prems(1,3) c Suc.prems(5) g2 g3]
  note w = map_page_write [OF Suc.prems(1) g2 e(1) g3 e(2) page_desc_ok(1), of phys flags i]
  have "map_loop va phys flags k (Suc i) (write_desc l3 (L3_INDEX ?a) (page_desc phys flags i) s2) = (ok, s')"
    using e(1,2) Suc.prems(2) g2 g3 by (simp add: map_loop_Suc del: map_loop.simps)
  moreover have "(\<lambda>n. coord (page va n)) ` {Suc i..<Suc i + k} \<subseteq> P"
    using Suc.prems(4) by auto
  ultimately show ?case
    using e(3) unfolding w(3) [of P, symmetric] w(4) [symmetric]
    by (rule Suc.IH [OF mmu_stepD(1) [OF w(1)] _ Suc.prems(3)])
qed simp

section \<open>The calls of the interface\<close>

lemma desc_at_lock:
  "spin_lock lk s = (flags, s1) \<Longrightarrow> desc_at s1 = desc_at s"
  "desc_at (spin_unlock lk flags s) = desc_at s"
  by (auto simp: spin_lock_def spin_unlock_def Let_def split: if_splits)

lemma map_pages_step:
  assumes inv: "pt_inv s" and eq: "map_pages va phys sz flags s = (ok, s')"
    and n: "unat (sz div PAGE_SIZE) \<le> 2 ^ 27"
  shows "mmu_frame {Mmu_lock, Pmm_lock} s s'"
    and "ok \<Longrightarrow> desc_at s' = map_descs va phys flags [0..<unat (sz div PAGE_SIZE)] (desc_at s)"
    and "\<not> ok \<Longrightarrow> \<exists>m < unat (sz div PAGE_SIZE). desc_at s' = clear_pages va {..<m} (desc_at s)"
    and "finite P \<Longrightarrow> (\<lambda>i. coord (page va i)) ` {..<unat (sz div PAGE_SIZE)} \<subseteq> P \<Longrightarrow>
           missing s P + extra \<le> card (free_frames s) \<Longrightarrow> ok \<and> missing s' P + extra \<le> card (free_frames s')"
proof -
  define n where "n = unat (sz div PAGE_SIZE)"
  obtain fl s1 where lk: "spin_lock Mmu_lock s = (fl, s1)" by fastforce
  obtain ok' s2 where loop: "map_loop va phys flags n 0 (dsb_ishst s1) = (ok', s2)" by fastforce
  note i1 = pt_inv_lock [OF inv lk]
  note d1 = dsb_step(1) [OF i1]
  have n': "0 + n \<le> 2 ^ 27" using n by (simp add: n_def)
  have none: "\<forall>i < (0 :: nat). desc_at (dsb_ishst s1) (coord (page va i)) \<noteq> 0" by simp
  note ml = map_loop_step [OF mmu_stepD(1) [OF d1] loop n' none]
  note ml1 = ml [THEN conjunct1] and ml2 = ml [THEN conjunct2, THEN conjunct1]
    and ml3 = ml [THEN conjunct2, THEN conjunct2]
  note d2 = mmu_step_trans [OF d1 ml1]
  note e1 = dsb_step(4) [OF mmu_stepD(1) [OF d2], of va n]
  note e2 = dsb_step(2) [OF mmu_stepD(1) [OF e1]]
  note e3 = dsb_step(3) [OF mmu_stepD(1) [OF e2]]
  note d3 = mmu_step_trans [OF d2 mmu_step_trans [OF e1 mmu_step_trans [OF e2 e3]]]
  define s3 where "s3 = (if ok' then isb (dsb_ish (tlbi_pages va n s2)) else s2)"
  have res: "ok' = ok" "s' = spin_unlock Mmu_lock fl s3"
    using eq loop lk by (auto simp: map_pages_def n_def s3_def Let_def split: if_splits)
  have st: "mmu_step s1 s3" using d2 d3 by (simp add: s3_def)
  show "mmu_frame {Mmu_lock, Pmm_lock} s s'"
    unfolding res(2) by (rule mmu_locked [OF inv lk st])
  have da: "desc_at s' = desc_at s2" "desc_at (dsb_ishst s1) = desc_at s"
    by (simp_all add: res(2) desc_at_lock s3_def desc_at_lock(1) [OF lk])
  show "ok \<Longrightarrow> desc_at s' = map_descs va phys flags [0..<unat (sz div PAGE_SIZE)] (desc_at s)"
    using ml2 unfolding da res(1) by (simp flip: n_def)
  show "\<not> ok \<Longrightarrow> \<exists>m < unat (sz div PAGE_SIZE). desc_at s' = clear_pages va {..<m} (desc_at s)"
    using ml3 unfolding da res(1) by (simp flip: n_def)
  assume P: "finite P" "(\<lambda>i. coord (page va i)) ` {..<unat (sz div PAGE_SIZE)} \<subseteq> P"
    "missing s P + extra \<le> card (free_frames s)"
  have same: "l2_of t = l2_of s \<and> l3_of t = l3_of s \<and> free_frames t = free_frames s"
    if "t = emit es (s\<lparr>daif := d\<rparr>)" for t es d
    by (simp add: that)
  have s1: "dsb_ishst s1 = emit ((if MMU_ACTIVE s then [Acquire Mmu_lock] else []) @ [Dsb_ishst]) (s\<lparr>daif := daif s OR 0x3C0\<rparr>)"
    using lk by (auto simp: spin_lock_def Let_def dsb_ishst_def)
  note sm = same [OF s1]
  have m1: "missing (dsb_ishst s1) P + extra \<le> card (free_frames (dsb_ishst s1))"
    using P(3) sm by (simp add: missing_def miss2_def miss3_def)
  have sub: "(\<lambda>i. coord (page va i)) ` {0..<0 + n} \<subseteq> P" using P(2) by (simp add: n_def atLeast0LessThan)
  note en = map_loop_enough [OF mmu_stepD(1) [OF d1] loop P(1) sub m1]
  have "l2_of s' = l2_of s2 \<and> l3_of s' = l3_of s2 \<and> free_frames s' = free_frames s2"
    by (simp add: res(2) spin_unlock_def Let_def s3_def isb_def dsb_ish_def tlbi_pages_def)
  then show "ok \<and> missing s' P + extra \<le> card (free_frames s')"
    using en res(1) by (simp add: missing_def miss2_def miss3_def)
qed

lemma unmap_step:
  assumes inv: "pt_inv s"
  shows "mmu_frame {Mmu_lock, Pmm_lock} s (unmap va sz s)"
    and "\<exists>m \<le> unat (sz div PAGE_SIZE). desc_at (unmap va sz s) = clear_pages va {..<m} (desc_at s)
         \<and> (m < unat (sz div PAGE_SIZE) \<longrightarrow> desc_at (unmap va sz s) (coord (page va m)) = 0)
         \<and> (unat (sz div PAGE_SIZE) \<le> 2 ^ 27 \<longrightarrow>
            (\<forall>i < unat (sz div PAGE_SIZE). desc_at s (coord (page va i)) \<noteq> 0) \<longrightarrow>
            m = unat (sz div PAGE_SIZE))"
proof -
  obtain fl s1 where lk: "spin_lock Mmu_lock s = (fl, s1)" by fastforce
  note i1 = pt_inv_lock [OF inv lk]
  note u = unmap_locked_step [OF i1, where va = va and sz = sz, unfolded desc_at_lock(1) [OF lk]]
  have eq: "unmap va sz s = spin_unlock Mmu_lock fl (unmap_locked va sz s1)"
    by (simp add: unmap_def lk)
  show "mmu_frame {Mmu_lock, Pmm_lock} s (unmap va sz s)"
    unfolding eq by (rule mmu_locked [OF inv lk u(1)])
  show "\<exists>m \<le> unat (sz div PAGE_SIZE). desc_at (unmap va sz s) = clear_pages va {..<m} (desc_at s)
         \<and> (m < unat (sz div PAGE_SIZE) \<longrightarrow> desc_at (unmap va sz s) (coord (page va m)) = 0)
         \<and> (unat (sz div PAGE_SIZE) \<le> 2 ^ 27 \<longrightarrow>
            (\<forall>i < unat (sz div PAGE_SIZE). desc_at s (coord (page va i)) \<noteq> 0) \<longrightarrow>
            m = unat (sz div PAGE_SIZE))"
    unfolding eq desc_at_lock(2) by (rule u(2))
qed

subsection \<open>Translation\<close>

lemma translate_eq:
  assumes inv: "pt_inv s"
  shows "translate a s =
    (if desc_at s (coord a) = 0 then NOT 0 else (desc_at s (coord a) AND ADDR_MASK) OR (a AND 0xFFF),
     emit (with_lock Mmu_lock s) s)"
proof -
  obtain fl s1 where lk: "spin_lock Mmu_lock s = (fl, s1)" by fastforce
  note i1 = pt_inv_lock [OF inv lk]
  have unl: "spin_unlock Mmu_lock fl s1 = emit (with_lock Mmu_lock s) s"
    using lk by (auto simp: spin_lock_def spin_unlock_def Let_def with_lock_def)
  have d: "desc_at s (coord a) = pte s1 (L1_INDEX a) (L2_INDEX a) (L3_INDEX a)"
    unfolding desc_at_lock(1) [OF lk, symmetric] by (simp add: desc_at_def coord_def)
  note w1 = walk_l1 [OF i1 index_less(1)]
  show ?thesis
  proof (cases "l2_of s1 (L1_INDEX a)")
    case None
    then have "pte s1 (L1_INDEX a) (L2_INDEX a) (L3_INDEX a) = 0" by (simp add: pte_def PTE_def T3_def)
    with None w1(1) show ?thesis by (simp add: translate_def lk Let_def unl d)
  next
    case t2: (Some l2)
    note w2 = walk_l2 [OF i1 t2 index_less(2)]
    show ?thesis
    proof (cases "l3_of s1 (L1_INDEX a) (L2_INDEX a)")
      case None
      then have "pte s1 (L1_INDEX a) (L2_INDEX a) (L3_INDEX a) = 0" by (simp add: pte_def PTE_def)
      with None t2 w1(1) w1(2) [OF t2] w2(1) show ?thesis
        by (simp add: translate_def lk Let_def unl d)
    next
      case t3: (Some l3)
      note w3 = walk_l3 [OF i1 t3 index_less(3)]
      have v: "load (l1_table s1) (L1_INDEX a) s1 AND 3 = 3" "load l2 (L2_INDEX a) s1 AND 3 = 3"
        using w1(1) [of a] w2(1) [of a] t2 t3 by auto
      show ?thesis
        unfolding translate_def lk Let_def prod.case w1(2) [OF t2] w2(2) [OF t3] w3(1)
        using w3(2) [of a] v by (auto simp: unl d desc_ok_def)
    qed
  qed
qed

text \<open>The address bits of a page descriptor.\<close>

lemma page_desc_addr:
  assumes "page_aligned (page phys i)" "unat (page phys i) < 2 ^ 48" "flags AND ADDR_MASK = 0"
  shows "page_desc phys flags i AND ADDR_MASK = page phys i"
proof (rule bit_word_eqI)
  fix n
  have "bit (flags AND ADDR_MASK) n = bit (0 :: u64) n" by (simp only: assms(3))
  then have "\<not> (bit flags n \<and> 12 \<le> n \<and> n < 48)"
    unfolding bit_and_iff bit_ADDR_MASK by simp
  then show "bit (page_desc phys flags i AND ADDR_MASK) n = bit (page phys i) n"
    using aligned_bits [OF assms(1), of n] bounded_bits [OF assms(2), of n]
    unfolding page_desc_def bit_and_iff bit_or_iff bit_ADDR_MASK bit_3 by linarith
qed

lemma page_offset_split: "(a AND NOT (mask 12)) OR (a AND 0xFFF) = (a :: u64)"
  unfolding mask_word_simps by (rule bit_word_eqI) (auto simp: bit_simps)

lemma or_offset:
  assumes "page_aligned b"
  shows "b OR (a AND 0xFFF) = b + (a AND 0xFFF)"
proof -
  have "b AND (a AND 0xFFF) = 0"
    unfolding mask_word_simps
    by (rule bit_word_eqI) (use aligned_bits [OF assms] in \<open>auto simp: bit_simps\<close>)
  then show ?thesis using word_plus_and_or [of b "a AND 0xFFF"] by simp
qed

lemma page_of_addr:
  assumes "page_aligned va" "unat va \<le> unat a"
  defines "i \<equiv> (unat a - unat va) div 4096"
  shows "coord a = coord (page va i)" and "a = page va i + (a AND 0xFFF)"
proof -
  obtain q where q: "unat va = 4096 * q" using assms(1) by (elim dvdE)
  define p where "p = unat a div 4096"
  have "q \<le> p" using assms(2) div_le_mono [of "unat va" "unat a" 4096] by (simp add: p_def q)
  moreover have "i = p - q" by (simp add: i_def p_def q div_mult_self3 minus_mult_div_eq_mod)
  ultimately have p: "q + i = p" by simp
  have "vpn (page va i) = (q mod 2 ^ 27 + i) mod 2 ^ 27"
    unfolding vpn_page by (simp add: vpn_def q)
  also have "\<dots> = p mod 2 ^ 27" by (simp only: mod_add_left_eq p)
  finally have "vpn a = vpn (page va i)" by (simp add: vpn_def p_def)
  then show "coord a = coord (page va i)" by (simp add: coord_eq_iff)
  have low: "a AND 0xFFF = of_nat (unat a mod 4096)"
    unfolding mask_word_simps by (simp add: word_unat_eq_iff unat_and_mask unsigned_of_nat take_bit_eq_mod)
  have "4096 * p + unat a mod 4096 = unat a" by (simp add: p_def)
  moreover have "4096 * p = 4096 * q + i * 4096" by (simp add: algebra_simps flip: p)
  ultimately have n: "unat a = unat va + i * 4096 + unat a mod 4096" by (simp add: q)
  have "a = of_nat (unat a)" by simp
  then have "a = of_nat (unat va + i * 4096 + unat a mod 4096)" by (simp only: n [symmetric])
  then show "a = page va i + (a AND 0xFFF)" by (simp add: page_def PAGE_SIZE_def low)
qed

lemma unat_page:
  assumes "unat va + 4096 * i < 2 ^ 64"
  shows "unat (page va i) = unat va + 4096 * i"
proof -
  have "page va i = of_nat (unat va + 4096 * i)" by (simp add: page_def PAGE_SIZE_def mult.commute)
  then show ?thesis by (simp only:) (rule unat_of_nat_small, use assms in simp)
qed

section \<open>The root table\<close>

text \<open>A zeroed fresh frame as root is a well-formed, empty page table.\<close>

definition install_root :: "u64 \<Rightarrow> 'a mmu_scheme \<Rightarrow> 'a mmu_scheme" where
  "install_root a s = (zero_table a s)\<lparr>l1_table := a\<rparr>"

lemma l1_update_fields:
  "ent (s\<lparr>l1_table := a\<rparr>) = ent s" "live (s\<lparr>l1_table := a\<rparr>) = live s"
  "free_frames (s\<lparr>l1_table := a\<rparr>) = free_frames s" "pmm_inv (s\<lparr>l1_table := a\<rparr>) = pmm_inv s"
  "managed_frames (s\<lparr>l1_table := a\<rparr>) = managed_frames s"
proof -
  have u: "frame_used i (s\<lparr>l1_table := a\<rparr>) = frame_used i s" for i by (simp add: frame_used_def load_def)
  have m: "frame_addr (s\<lparr>l1_table := a\<rparr>) = frame_addr s" "nwords (s\<lparr>l1_table := a\<rparr>) = nwords s"
    by (simp_all add: frame_addr_def nwords_def fun_eq_iff)
  show "ent (s\<lparr>l1_table := a\<rparr>) = ent s" "live (s\<lparr>l1_table := a\<rparr>) = live s"
    "free_frames (s\<lparr>l1_table := a\<rparr>) = free_frames s" "pmm_inv (s\<lparr>l1_table := a\<rparr>) = pmm_inv s"
    "managed_frames (s\<lparr>l1_table := a\<rparr>) = managed_frames s"
    by (simp_all add: ent_def live_def free_frames_def managed_frames_def free_set_def pmm_inv_def
        pmm_geom_def u m load_def fun_eq_iff)
qed

lemma wf_pt_empty:
  assumes "l \<in> F" "0 \<notin> F" "e l = (\<lambda>_. 0)"
  shows "wf_pt l e F" "PTE l e = (\<lambda>_ _ _. 0)" "T2 l e = (\<lambda>_. None)" "T3 l e = (\<lambda>_ _. None)"
proof -
  show T2: "T2 l e = (\<lambda>_. None)" using assms(3) by (simp add: T2_def fun_eq_iff)
  show T3: "T3 l e = (\<lambda>_ _. None)" by (simp add: T3_def T2 fun_eq_iff)
  show "wf_pt l e F" using assms by (simp add: wf_pt_def T2 T3)
  show "PTE l e = (\<lambda>_ _ _. 0)" by (simp add: PTE_def T3 fun_eq_iff)
qed

lemma install_root:
  assumes inv: "pmm_inv s" and al: "alloc_frame s = (a, t)" and nz: "a \<noteq> 0"
  defines "u \<equiv> install_root a t"
  shows "pt_inv u" and "desc_at u = (\<lambda>_. 0)" and "free_frames u = free_frames s - {a}"
    and "l2_of u = (\<lambda>_. None)" "l3_of u = (\<lambda>_ _. None)" and "managed_frames u = managed_frames s"
    and "a \<in> free_frames s"
proof -
  note pt = alloc_frame_pt [OF inv al] and ab = alloc_frame_abs [OF inv al]
  have f: "a \<in> free_frames s" "free_frames t = free_frames s - {a}" "live t = insert a (live s)"
    using pt(5) [OF nz] by auto
  have g: "pmm_geom t" by (rule pmm_invD [OF ab(1)])
  have am: "a \<in> managed_frames t" using f(1) pmm_alloc.free_managed [OF inv] by (auto simp: pt(3))
  note z = zero_managed [OF g am order_refl, folded zero_table_def]
  have zero: "ent u a = (\<lambda>_. 0)" by (simp add: u_def install_root_def l1_update_fields z(1)) (auto simp: fun_eq_iff ent_def)
  have lv: "live u = live t" by (simp add: u_def install_root_def l1_update_fields live_def z)
  have "a \<in> live u" "0 \<notin> live u"
    using f(3) pmm_alloc.null_unmanaged [OF inv] f(1) pmm_alloc.free_managed [OF inv]
    by (auto simp: lv) (auto simp: live_def)
  note w = wf_pt_empty [where e = "ent u", OF this zero]
  have l1: "l1_table u = a" by (simp add: u_def install_root_def)
  have "pmm_inv u" using ab(1) by (simp add: u_def install_root_def l1_update_fields z(4))
  then show "pt_inv u" using w(1) by (simp add: pt_inv_def l1)
  show "desc_at u = (\<lambda>_. 0)" by (simp add: desc_at_def pte_def l1 w(2) fun_eq_iff)
  show "l2_of u = (\<lambda>_. None)" "l3_of u = (\<lambda>_ _. None)" by (simp_all add: l1 w(3,4))
  show "free_frames u = free_frames s - {a}"
    by (simp add: u_def install_root_def l1_update_fields z f(2))
  show "managed_frames u = managed_frames s"
    by (simp add: u_def install_root_def l1_update_fields z pt(3))
  show "a \<in> free_frames s" by (rule f(1))
qed

text \<open>A small machine, with fifteen frames and an empty page table, for concrete runs.\<close>

definition mmu_ram0 :: mmu where
  "mmu_ram0 = \<lparr>inp = [], trace = [], daif = 0, MMU_ACTIVE = False, mem = (\<lambda>_. 0), bitmap = 0,
     phys_mem_start = 0, total_frames = 0, l1_table = 0\<rparr>"

definition mmu_small :: mmu where
  "mmu_small = (let (a, s) = alloc_frame (pmm_init 0x3F7F0000 mmu_ram0) in install_root a s)"

lemma mmu_small:
  "pt_inv mmu_small" "desc_at mmu_small = (\<lambda>_. 0)" "card (free_frames mmu_small) = 14"
  "l2_of mmu_small = (\<lambda>_. None)" "l3_of mmu_small = (\<lambda>_ _. None)"
proof -
  note p = pmm_init_small [of mmu_ram0]
  obtain a t where at: "alloc_frame (pmm_init 0x3F7F0000 mmu_ram0) = (a, t)" by fastforce
  have "inj_on (frame_addr (pmm_init 0x3F7F0000 mmu_ram0)) {..<15}"
    using pmm_invD [OF p(1)] p(3) by (intro inj_onI) (simp add: frame_addr_inj)
  then have c: "card (free_frames (pmm_init 0x3F7F0000 mmu_ram0)) = 15"
    by (simp add: free_frames_def p(4) card_image)
  then have "free_frames (pmm_init 0x3F7F0000 mmu_ram0) \<noteq> {}" by auto
  then have nz: "a \<noteq> 0" using pmm_alloc.alloc_null [OF p(1)] at by auto
  note r = install_root [OF p(1) at nz]
  have eq: "mmu_small = install_root a t" by (simp add: mmu_small_def at)
  show "pt_inv mmu_small" "desc_at mmu_small = (\<lambda>_. 0)"
    "l2_of mmu_small = (\<lambda>_. None)" "l3_of mmu_small = (\<lambda>_ _. None)"
    unfolding eq by (rule r)+
  show "card (free_frames mmu_small) = 14"
    unfolding eq r(3) using c r(7) free_frames_finite by (simp add: card_Diff_singleton)
qed

lemma map_ok:
  assumes "pt_inv s" and "map_pages va phys sz flags s = (True, s')"
    and "unat (sz div PAGE_SIZE) \<le> 2 ^ 27"
  shows "i < unat (sz div PAGE_SIZE) \<Longrightarrow> desc_at s' (coord (page va i)) = page_desc phys flags i"
    and "c \<notin> (\<lambda>i. coord (page va i)) ` {..<unat (sz div PAGE_SIZE)} \<Longrightarrow> desc_at s' c = desc_at s c"
proof -
  define n where "n = unat (sz div PAGE_SIZE)"
  note d = map_pages_step(2) [OF assms, simplified, folded n_def]
  have "set [0..<n] \<subseteq> {..<n}" by auto
  with map_descs_at [of "[0..<n]" n i va phys flags "desc_at s"] assms(3)
  show "i < unat (sz div PAGE_SIZE) \<Longrightarrow> desc_at s' (coord (page va i)) = page_desc phys flags i"
    by (simp add: d flip: n_def)
  show "c \<notin> (\<lambda>i. coord (page va i)) ` {..<unat (sz div PAGE_SIZE)} \<Longrightarrow> desc_at s' c = desc_at s c"
    using map_descs_other [of c va "[0..<n]"] by (simp add: d atLeast0LessThan flip: n_def)
qed

section \<open>Properties of the MMU driver\<close>

text \<open>C2: a \<open>map\<close> of up to \<open>2^27\<close> pages keeps the page tables well-formed. If it returns true,
  page \<open>i\<close> of the range has the descriptor \<open>(phys + i * PAGE_SIZE) | flags | 3\<close> and every other
  descriptor is what it was. If it returns false, the pages before the failing page \<open>m\<close> are
  unmapped, also those that had a mapping before, and every other descriptor is what it was.\<close>

theorem map_correct:
  assumes "pt_inv s" and "map_pages va phys sz flags s = (ok, s')"
    and "unat (sz div PAGE_SIZE) \<le> 2 ^ 27"
  shows "pt_inv s' \<and>
    (if ok then (\<forall>i < unat (sz div PAGE_SIZE). desc_at s' (coord (page va i)) = page_desc phys flags i)
       \<and> (\<forall>c. c \<notin> (\<lambda>i. coord (page va i)) ` {..<unat (sz div PAGE_SIZE)} \<longrightarrow> desc_at s' c = desc_at s c)
     else \<exists>m < unat (sz div PAGE_SIZE). \<forall>c. desc_at s' c =
       (if c \<in> (\<lambda>i. coord (page va i)) ` {..<m} then 0 else desc_at s c))"
proof -
  note st = map_pages_step [OF assms]
  have inv: "pt_inv s'" by (rule mmu_stepD(1) [OF st(1)])
  show ?thesis
  proof (cases ok)
    case True
    with map_ok [OF assms(1) _ assms(3)] assms(2) inv show ?thesis by auto
  next
    case False
    from st(3) [OF False] inv False show ?thesis by (simp add: clear_pages_def fun_eq_iff)
  qed
qed

theorem map_correct_witness:
  "pt_inv (snd (map_pages 0x40000000 0x1000 0x3000 PTE_NORMAL_RW mmu_small))"
proof -
  have "unat ((0x3000 :: u64) div PAGE_SIZE) \<le> 2 ^ 27" by (simp add: board)
  from map_correct [OF mmu_small(1) surjective_pairing this] show ?thesis by blast
qed

text \<open>C3: after a successful \<open>map\<close> of a page-aligned range of virtual to physical addresses, with
  flags outside the address field, \<open>translate\<close> takes every address of the range, at any offset in
  its page, to the physical address at the same distance from \<open>phys\<close>.\<close>

theorem map_translate:
  assumes inv: "pt_inv s" and eq: "map_pages va phys sz flags s = (True, s')"
    and n: "unat (sz div PAGE_SIZE) \<le> 2 ^ 27"
    and al: "page_aligned va" "page_aligned phys" "flags AND ADDR_MASK = 0"
    and ph: "unat phys + 4096 * unat (sz div PAGE_SIZE) \<le> 2 ^ 48"
    and a: "unat va \<le> unat a" "unat a < unat va + 4096 * unat (sz div PAGE_SIZE)"
  shows "fst (translate a s') = phys + (a - va)"
proof -
  define i where "i = (unat a - unat va) div 4096"
  have i: "i < unat (sz div PAGE_SIZE)" using a by (simp add: i_def less_mult_imp_div_less)
  note p = page_of_addr [OF al(1) a(1), folded i_def]
  have d: "desc_at s' (coord a) = page_desc phys flags i"
    using map_ok(1) [OF inv eq n i] by (simp add: p(1))
  have u: "unat (page phys i) = unat phys + 4096 * i" using ph i by (intro unat_page) simp
  have pa: "page_aligned (page phys i)" using al(2) by (simp add: u)
  have "unat (page phys i) < 2 ^ 48" using ph i by (simp add: u)
  note pd = page_desc_addr [OF pa this al(3)]
  have inv': "pt_inv s'" by (rule mmu_stepD(1) [OF map_pages_step(1) [OF inv eq n]])
  have "fst (translate a s') = page phys i OR (a AND 0xFFF)"
    unfolding translate_eq [OF inv'] d by (simp add: pd)
  also have "\<dots> = page phys i + (a AND 0xFFF)" by (rule or_offset [OF pa])
  also have "\<dots> = phys + (a - va)"
  proof -
    have "a - va = of_nat i * PAGE_SIZE + (a AND 0xFFF)"
      by (subst p(2)) (simp add: page_def)
    then show ?thesis by (simp add: page_def)
  qed
  finally show ?thesis .
qed

text \<open>C15: \<open>map\<close> fails only for lack of memory: if there are at least as many free frames as
  second- and third-level tables that the range lacks, it returns true.\<close>

theorem map_succeeds:
  assumes "pt_inv s" and "map_pages va phys sz flags s = (ok, s')"
    and "unat (sz div PAGE_SIZE) \<le> 2 ^ 27"
    and "missing s ((\<lambda>i. coord (page va i)) ` {..<unat (sz div PAGE_SIZE)}) \<le> card (free_frames s)"
  shows "ok"
  using map_pages_step(4) [OF assms(1-3) _ order_refl, where extra = 0] assms(4) by simp

lemma missing_empty:
  assumes "finite P" "l2_of s = (\<lambda>_. None)" "l3_of s = (\<lambda>_ _. None)"
  shows "missing s P \<le> 2 * card P"
proof -
  have "card (miss2 s P) \<le> card P"
    using card_image_le [OF assms(1), of fst] by (simp add: miss2_def assms(2))
  moreover have "card (miss3 s P) \<le> card P"
    using card_image_le [OF assms(1), of "\<lambda>(i, j, k). (i, j)"] by (simp add: miss3_def assms(3))
  ultimately show ?thesis by (simp add: missing_def)
qed

lemma mmu_small_missing:
  "missing mmu_small ((\<lambda>i. coord (page va i)) ` {..<3}) \<le> card (free_frames mmu_small)"
proof -
  have "card ((\<lambda>i. coord (page va i)) ` {..<3 :: nat}) \<le> 3"
    using card_image_le [of "{..<3 :: nat}"] by simp
  then show ?thesis
    using missing_empty [OF _ mmu_small(4,5), of "(\<lambda>i. coord (page va i)) ` {..<3}"]
    by (simp add: mmu_small(3))
qed

lemma three_pages: "unat ((0x3000 :: u64) div PAGE_SIZE) = 3" by (simp add: board)

theorem map_succeeds_witness:
  "fst (map_pages 0x40000000 0x1000 0x3000 PTE_NORMAL_RW mmu_small)"
  by (rule map_succeeds [OF mmu_small(1) surjective_pairing])
    (simp_all add: three_pages mmu_small_missing)

theorem map_translate_witness:
  "fst (translate 0x40001234 (snd (map_pages 0x40000000 0x1000 0x3000 PTE_NORMAL_RW mmu_small))) = 0x2234"
proof -
  have "fst (map_pages 0x40000000 0x1000 0x3000 PTE_NORMAL_RW mmu_small)"
    using map_pages_step(4) [OF mmu_small(1) surjective_pairing _ _ order_refl, where va = "0x40000000"
        and sz = "0x3000" and phys = "0x1000" and flags = PTE_NORMAL_RW and extra = 0]
    by (simp add: three_pages mmu_small_missing)
  then have "map_pages 0x40000000 0x1000 0x3000 PTE_NORMAL_RW mmu_small =
      (True, snd (map_pages 0x40000000 0x1000 0x3000 PTE_NORMAL_RW mmu_small))"
    by (metis prod.collapse)
  from map_translate [OF mmu_small(1) this, unfolded three_pages, of "0x40001234"]
  show ?thesis by (simp add: PTE_NORMAL_RW_def ADDR_MASK_def)
qed



text \<open>C11: isolation and lock discipline. \<open>map\<close>, whether or not it succeeds, and \<open>unmap\<close> write only
  page tables, free frames and the frame bitmap: no other memory changes, so no allocated frame
  of another component does. They restore the interrupt mask, release every lock they take and
  never take one they hold, \<open>mmu_lock\<close> before \<open>pmm_lock\<close>.\<close>

theorem mmu_isolation:
  assumes "pt_inv s" and "unat (sz div PAGE_SIZE) \<le> 2 ^ 27"
    and "s' = snd (map_pages va phys sz flags s) \<or> s' = unmap va sz s"
  shows "(\<forall>x. x \<notin> bitmap_region s \<and> x \<notin> words_of (tables s \<union> free_frames s) \<longrightarrow> mem s' x = mem s x)
    \<and> tables s' \<union> free_frames s' = tables s \<union> free_frames s \<and> daif s' = daif s
    \<and> (\<exists>es. trace s' = trace s @ es \<and> balanced {Mmu_lock, Pmm_lock} es)"
proof -
  have "mmu_frame {Mmu_lock, Pmm_lock} s s'"
    using assms(3) map_pages_step(1) [OF assms(1) surjective_pairing assms(2)] unmap_step(1) [OF assms(1)]
    by auto
  then show ?thesis by (auto simp: mmu_frame_def owned_def)
qed

theorem mmu_isolation_witness:
  "daif (snd (map_pages 0x40000000 0x1000 0x3000 PTE_NORMAL_RW mmu_small)) = daif mmu_small"
  using mmu_isolation [OF mmu_small(1), where va = "0x40000000" and sz = "0x3000" and phys = "0x1000"
      and flags = PTE_NORMAL_RW]
  by (simp add: three_pages)

end
