(* ===== verification/Mmu_Trace.thy ===== *)
theory Mmu_Trace
  imports Mmu
begin

text \<open>
  The order of descriptor writes, barriers and TLB operations of \<open>map\<close>
  (\<open>src/kernel/mmu/mmu.cpp\<close>), read off the trace.
\<close>

text \<open>What the loop over the pages emits: descriptor writes and the lock of the frame allocator.\<close>

fun edit_event :: "event \<Rightarrow> bool" where
  "edit_event (St64 _ _) = True"
| "edit_event (Acquire l) = (l = Pmm_lock)"
| "edit_event (Release l) = (l = Pmm_lock)"
| "edit_event _ = False"

definition edits :: "'a io_scheme \<Rightarrow> 'a io_scheme \<Rightarrow> event list \<Rightarrow> bool" where
  "edits s s' es \<longleftrightarrow> trace s' = trace s @ es \<and> list_all edit_event es"

lemma edits_trans: "edits s t es \<Longrightarrow> edits t u es' \<Longrightarrow> edits s u (es @ es')"
  by (simp add: edits_def)

lemma edits_refl: "edits s s []"
  by (simp add: edits_def)

lemma zero_table_trace: "trace (zero_table a s) = trace s"
proof -
  have "trace (fold (\<lambda>i. store a i 0) is s) = trace s" for "is"
    by (induction "is" arbitrary: s) auto
  then show ?thesis by (simp add: zero_table_def)
qed

lemma get_or_alloc_edits:
  assumes "pmm_inv s" "get_or_alloc_table table i s = (r, s')"
  shows "\<exists>es. edits s s' es"
proof -
  obtain f t where ft: "alloc_frame s = (f, t)" by fastforce
  have t: "trace t = trace s @ with_lock Pmm_lock s" by (rule alloc_frame_abs(9) [OF assms(1) ft])
  have "edits s t (with_lock Pmm_lock s)" using t by (simp add: edits_def with_lock_def)
  moreover have "edits s (write_desc table i (f OR 3) (zero_table f t))
      (with_lock Pmm_lock s @ [St64 (word_at table i) (f OR 3)])"
    by (simp add: edits_def write_desc_def zero_table_trace t with_lock_def)
  ultimately show ?thesis
    using assms(2) edits_refl [of s]
    by (auto simp: get_or_alloc_table_def ft Let_def split: if_splits)
qed

lemma map_loop_edits:
  assumes "pt_inv s" "map_loop va phys flags k i s = (True, s')" "i + k \<le> 2 ^ 27"
  shows "\<exists>es. edits s s' es \<and>
    (\<forall>n. i \<le> n \<and> n < i + k \<longrightarrow> (\<exists>x. St64 x (page_desc phys flags n) \<in> set es))"
  using assms
proof (induction k arbitrary: i s)
  case 0
  then show ?case using edits_refl [of s] by auto
next
  case (Suc k)
  let ?a = "page va i"
  obtain l2 s1 where g2: "get_or_alloc_table (l1_table s) (L1_INDEX ?a) s = (l2, s1)" by fastforce
  obtain l3 s2 where g3: "get_or_alloc_table l2 (L2_INDEX ?a) s1 = (l3, s2)" by fastforce
  have nz: "l2 \<noteq> 0" "l3 \<noteq> 0"
    using Suc.prems(2) g2 g3 by (auto simp: map_loop_Suc split: if_splits simp del: map_loop.simps)
  define s3 where "s3 = write_desc l3 (L3_INDEX ?a) (page_desc phys flags i) s2"
  note t = map_page_tables [OF Suc.prems(1) g2 nz(1) g3]
  note w = map_page_write [OF Suc.prems(1) g2 nz(1) g3 nz(2) page_desc_ok(1), of phys flags i, folded s3_def]
  have loop: "map_loop va phys flags k (Suc i) s3 = (True, s')"
    using nz Suc.prems(2) g2 g3 by (simp add: map_loop_Suc s3_def del: map_loop.simps)
  obtain e1 where e1: "edits s s1 e1" using get_or_alloc_edits [OF pt_invD(1) [OF Suc.prems(1)] g2] by blast
  obtain e2 where e2: "edits s1 s2 e2"
    using get_or_alloc_edits [OF pt_invD(1) [OF mmu_stepD(1) [OF t(1)]] g3] by blast
  let ?e3 = "[St64 (word_at l3 (L3_INDEX ?a)) (page_desc phys flags i)]"
  have e3: "edits s2 s3 ?e3" by (simp add: edits_def s3_def write_desc_def)
  have "Suc i + k \<le> 2 ^ 27" using Suc.prems(3) by simp
  from Suc.IH [OF mmu_stepD(1) [OF w(1)] loop this] obtain e4 where e4: "edits s3 s' e4"
    "\<forall>n. Suc i \<le> n \<and> n < Suc i + k \<longrightarrow> (\<exists>x. St64 x (page_desc phys flags n) \<in> set e4)" by blast
  note e = edits_trans [OF e1 edits_trans [OF e2 edits_trans [OF e3 e4(1)]]]
  have "\<exists>x. St64 x (page_desc phys flags n) \<in> set (e1 @ e2 @ ?e3 @ e4)" if "i \<le> n" "n < i + Suc k" for n
  proof (cases "n = i")
    case False
    then have "Suc i \<le> n" "n < Suc i + k" using that by simp_all
    then obtain x where "St64 x (page_desc phys flags n) \<in> set e4" using e4(2) by blast
    then show ?thesis by auto
  qed auto
  with e show ?case by blast
qed



end
