(* ===== verification/Spinlock.thy ===== *)
theory Spinlock
  imports Prelude
begin

text \<open>
  \<open>spin_lock\<close> and \<open>spin_unlock\<close> (\<open>src/kernel/spinlock/spinlock.cpp\<close>) one instruction at a time,
  on any number of cores that share one lock word, with the MMU on. A core's exclusive monitor is
  set by its \<open>ldaxr\<close> and lost when another core writes the word; \<open>stlxr\<close> may also fail for no
  visible reason, and \<open>wfe\<close> may wake up for no visible reason. Between the two calls a core is in
  its critical section. Theory \<open>Machine\<close> has the same functions as their callers see them.
\<close>

section \<open>Cores and steps\<close>

text \<open>The program counter: the instruction of \<open>spin_lock\<close> or \<open>spin_unlock\<close> to run next.\<close>

datatype pc = Outside | Mask_daif | Ldaxr | Wfe | Stlxr | Critical | Sev | Restore_daif

record core =
  pc :: pc
  daif :: u64
  flags :: u64
  monitor :: bool

record cores =
  word :: u32
  core :: "nat \<Rightarrow> core"

definition set_core :: "nat \<Rightarrow> core \<Rightarrow> cores \<Rightarrow> cores" where
  "set_core c k s = s\<lparr>core := (core s)(c := k)\<rparr>"

text \<open>A write of the lock word by core \<open>c\<close> clears the monitors of the others.\<close>

definition write_word :: "nat \<Rightarrow> u32 \<Rightarrow> cores \<Rightarrow> cores" where
  "write_word c v s = s\<lparr>word := v, core := (\<lambda>d. if d = c then core s d else (core s d)\<lparr>monitor := False\<rparr>)\<rparr>"

inductive step :: "nat \<Rightarrow> cores \<Rightarrow> cores \<Rightarrow> bool" for c where
  save_daif: "core s c = k \<Longrightarrow> pc k = Outside \<Longrightarrow>
    step c s (set_core c (k\<lparr>flags := daif k, pc := Mask_daif\<rparr>) s)"
| mask_daif: "core s c = k \<Longrightarrow> pc k = Mask_daif \<Longrightarrow>
    step c s (set_core c (k\<lparr>daif := daif k OR 0x3C0, pc := Ldaxr\<rparr>) s)"
| ldaxr: "core s c = k \<Longrightarrow> pc k = Ldaxr \<Longrightarrow>
    step c s (set_core c (k\<lparr>monitor := True, pc := (if word s \<noteq> 0 then Wfe else Stlxr)\<rparr>) s)"
| wfe: "core s c = k \<Longrightarrow> pc k = Wfe \<Longrightarrow>
    step c s (set_core c (k\<lparr>pc := Ldaxr\<rparr>) s)"
| stlxr_ok: "core s c = k \<Longrightarrow> pc k = Stlxr \<Longrightarrow> monitor k \<Longrightarrow>
    step c s (set_core c (k\<lparr>monitor := False, pc := Critical\<rparr>) (write_word c 1 s))"
| stlxr_fail: "core s c = k \<Longrightarrow> pc k = Stlxr \<Longrightarrow>
    step c s (set_core c (k\<lparr>monitor := False, pc := Ldaxr\<rparr>) s)"
| stlr: "core s c = k \<Longrightarrow> pc k = Critical \<Longrightarrow>
    step c s (set_core c (k\<lparr>pc := Sev\<rparr>) (write_word c 0 s))"
| sev: "core s c = k \<Longrightarrow> pc k = Sev \<Longrightarrow>
    step c s (set_core c (k\<lparr>pc := Restore_daif\<rparr>) s)"
| restore_daif: "core s c = k \<Longrightarrow> pc k = Restore_daif \<Longrightarrow>
    step c s (set_core c (k\<lparr>daif := flags k, pc := Outside\<rparr>) s)"

inductive_cases step_cases [elim]: "step c s s'"

text \<open>Runs from a state in which the lock is free and every core is outside.\<close>

definition initial :: "cores \<Rightarrow> bool" where
  "initial s \<longleftrightarrow> word s = 0 \<and> (\<forall>c. pc (core s c) = Outside \<and> \<not> monitor (core s c))"

inductive reachable :: "cores \<Rightarrow> cores \<Rightarrow> bool" for s0 where
  start: "reachable s0 s0"
| step: "reachable s0 s \<Longrightarrow> step c s s' \<Longrightarrow> reachable s0 s'"

lemma reachable_trans: "reachable t u \<Longrightarrow> reachable s t \<Longrightarrow> reachable s u"
  by (induction rule: reachable.induct) (auto intro: reachable.step)

section \<open>The invariant\<close>

text \<open>
  The word is 1 exactly while some core is in its critical section, at most one core is, and a
  core about to store with its monitor intact still sees a free lock.
\<close>

definition masked :: "pc \<Rightarrow> bool" where
  "masked p \<longleftrightarrow> p \<notin> {Outside, Mask_daif}"

definition lock_inv :: "(nat \<Rightarrow> u64) \<Rightarrow> cores \<Rightarrow> bool" where
  "lock_inv d0 s \<longleftrightarrow>
     (\<forall>c. pc (core s c) = Critical \<longrightarrow> word s = 1)
   \<and> (word s \<noteq> 0 \<longrightarrow> (\<exists>c. pc (core s c) = Critical))
   \<and> (\<forall>c d. pc (core s c) = Critical \<longrightarrow> pc (core s d) = Critical \<longrightarrow> c = d)
   \<and> (\<forall>c. pc (core s c) = Stlxr \<longrightarrow> monitor (core s c) \<longrightarrow> word s = 0)
   \<and> (\<forall>c. pc (core s c) = Outside \<longrightarrow> daif (core s c) = d0 c)
   \<and> (\<forall>c. pc (core s c) \<noteq> Outside \<longrightarrow> flags (core s c) = d0 c)
   \<and> (\<forall>c. masked (pc (core s c)) \<longrightarrow> daif (core s c) = d0 c OR 0x3C0)
   \<and> (\<forall>c. pc (core s c) = Mask_daif \<longrightarrow> daif (core s c) = d0 c)"

lemma core_simps [simp]:
  "core (set_core c k s) = (core s)(c := k)" "word (set_core c k s) = word s"
  "word (write_word c v s) = v"
  "core (write_word c v s) d = (if d = c then core s d else (core s d)\<lparr>monitor := False\<rparr>)"
  by (simp_all add: set_core_def write_word_def)

lemma lock_inv_initial: "initial s \<Longrightarrow> lock_inv (\<lambda>c. daif (core s c)) s"
  by (simp add: lock_inv_def initial_def masked_def)

lemma lock_inv_step: "step c s s' \<Longrightarrow> lock_inv d0 s \<Longrightarrow> lock_inv d0 s'"
proof (induction rule: step.cases)
  case (save_daif s k) then show ?case by (auto simp: lock_inv_def masked_def; metis pc.distinct)
next
  case (mask_daif s k) then show ?case by (auto simp: lock_inv_def masked_def; metis pc.distinct)
next
  case (ldaxr s k) then show ?case by (auto simp: lock_inv_def masked_def; metis pc.distinct)
next
  case (wfe s k) then show ?case by (auto simp: lock_inv_def masked_def; metis pc.distinct)
next
  case (stlxr_ok s k)
  then have "word s = 0" "\<forall>d. pc (core s d) \<noteq> Critical" by (auto simp: lock_inv_def)
  with stlxr_ok show ?case by (auto simp: lock_inv_def masked_def)
next
  case (stlxr_fail s k) then show ?case by (auto simp: lock_inv_def masked_def; metis pc.distinct)
next
  case (stlr s k)
  then have "\<forall>d. pc (core s d) = Critical \<longrightarrow> d = c" by (auto simp: lock_inv_def)
  with stlr show ?case by (auto simp: lock_inv_def masked_def)
next
  case (sev s k) then show ?case by (auto simp: lock_inv_def masked_def; metis pc.distinct)
next
  case (restore_daif s k) then show ?case by (auto simp: lock_inv_def masked_def; metis pc.distinct)
qed

lemma lock_inv_reachable:
  "reachable s0 s \<Longrightarrow> initial s0 \<Longrightarrow> lock_inv (\<lambda>c. daif (core s0 c)) s"
  by (induction rule: reachable.induct) (auto intro: lock_inv_initial lock_inv_step)

section \<open>Properties\<close>

text \<open>C4: mutual exclusion. In every state that any interleaving of any number of cores reaches,
  at most one core is between \<open>spin_lock\<close> and \<open>spin_unlock\<close>; that core runs with all exceptions
  masked; and a core outside has the interrupt mask it came with.\<close>

theorem spinlock_mutual_exclusion:
  assumes "initial s0" and "reachable s0 s"
  shows "(\<forall>c d. pc (core s c) = Critical \<longrightarrow> pc (core s d) = Critical \<longrightarrow> c = d)
    \<and> (\<forall>c. pc (core s c) = Critical \<longrightarrow> daif (core s c) AND 0x3C0 = 0x3C0)
    \<and> (\<forall>c. pc (core s c) = Outside \<longrightarrow> daif (core s c) = daif (core s0 c))"
proof -
  have "lock_inv (\<lambda>c. daif (core s0 c)) s" using lock_inv_reachable [OF assms(2,1)] .
  moreover have "(d OR 0x3C0) AND 0x3C0 = (0x3C0 :: u64)" for d
    by (rule bit_word_eqI) (auto simp: bit_simps)
  ultimately show ?thesis by (auto simp: lock_inv_def masked_def)
qed

definition idle_cores :: cores where
  "idle_cores = \<lparr>word = 0, core = (\<lambda>c. \<lparr>pc = Outside, daif = 0, flags = 0, monitor = False\<rparr>)\<rparr>"

theorem spinlock_mutual_exclusion_witness:
  "initial idle_cores \<and> pc (core idle_cores 3) = Outside \<and> daif (core idle_cores 3) = 0"
  using spinlock_mutual_exclusion [OF _ reachable.start, of idle_cores]
  by (simp add: initial_def idle_cores_def)

lemma critical_leaves:
  assumes "pc (core s c) = Critical" "lock_inv d0 s"
  obtains s' where "reachable s s'" "word s' = 0" "\<forall>d. d \<noteq> c \<longrightarrow> pc (core s' d) = pc (core s d)"
proof -
  have "step c s (set_core c ((core s c)\<lparr>pc := Sev\<rparr>) (write_word c 0 s))" (is "step c s ?t")
    using assms(1) by (intro step.stlr) simp_all
  then have "reachable s ?t" by (rule reachable.step [OF reachable.start])
  moreover have "word ?t = 0" "\<forall>d. d \<noteq> c \<longrightarrow> pc (core ?t d) = pc (core s d)" by simp_all
  ultimately show thesis by (rule that)
qed

lemma ldaxr_wins:
  assumes "pc (core s c) = Ldaxr" "word s = 0"
  shows "\<exists>s'. reachable s s' \<and> pc (core s' c) = Critical"
proof -
  let ?t = "set_core c ((core s c)\<lparr>monitor := True, pc := (if word s \<noteq> 0 then Wfe else Stlxr)\<rparr>) s"
  let ?u = "set_core c ((core ?t c)\<lparr>monitor := False, pc := Critical\<rparr>) (write_word c 1 ?t)"
  have "step c s ?t" using assms by (intro step.ldaxr) simp_all
  moreover have "step c ?t ?u" using assms by (intro step.stlxr_ok) simp_all
  ultimately have "reachable s ?u" by (meson reachable.start reachable.step)
  moreover have "pc (core ?u c) = Critical" by simp
  ultimately show ?thesis by blast
qed

text \<open>C18: the lock does not deadlock. From every reachable state in which a core runs the
  acquisition loop, some continuation takes that core into its critical section.\<close>

theorem spinlock_no_deadlock:
  assumes "initial s0" and "reachable s0 s" and "pc (core s c) \<in> {Ldaxr, Wfe, Stlxr}"
  shows "\<exists>s'. reachable s s' \<and> pc (core s' c) = Critical"
proof -
  have inv: "lock_inv (\<lambda>c. daif (core s0 c)) s" using lock_inv_reachable [OF assms(2,1)] .
  obtain t where t: "reachable s t" "word t = 0" "pc (core t c) = pc (core s c)"
  proof (cases "word s = 0")
    case True
    then show thesis using that reachable.start by blast
  next
    case False
    with inv obtain d where d: "pc (core s d) = Critical" by (auto simp: lock_inv_def)
    with assms(3) have "d \<noteq> c" by auto
    with critical_leaves [OF d inv] that show thesis by metis
  qed
  obtain u where u: "reachable t u" "word u = 0" "pc (core u c) = Ldaxr"
  proof -
    consider "pc (core t c) = Ldaxr" | "pc (core t c) = Wfe" | "pc (core t c) = Stlxr"
      using assms(3) t(3) by auto
    then show thesis
    proof cases
      case 1
      then show thesis using that reachable.start t(2) by blast
    next
      case 2
      then have "step c t (set_core c ((core t c)\<lparr>pc := Ldaxr\<rparr>) t)" by (intro step.wfe) simp_all
      from reachable.step [OF reachable.start this] t(2) that show thesis by auto
    next
      case 3
      then have "step c t (set_core c ((core t c)\<lparr>monitor := False, pc := Ldaxr\<rparr>) t)"
        by (intro step.stlxr_fail) simp_all
      from reachable.step [OF reachable.start this] t(2) that show thesis by auto
    qed
  qed
  from ldaxr_wins [OF u(3,2)] u(1) t(1) show ?thesis by (meson reachable_trans)
qed

theorem spinlock_no_deadlock_witness:
  "\<exists>s'. reachable (set_core 0 \<lparr>pc = Ldaxr, daif = 0x3C0, flags = 0, monitor = False\<rparr> idle_cores) s'
     \<and> pc (core s' 0) = Critical"
proof -
  let ?k = "\<lparr>pc = Outside, daif = 0, flags = 0, monitor = False\<rparr>"
  let ?s1 = "set_core 0 (?k\<lparr>flags := daif ?k, pc := Mask_daif\<rparr>) idle_cores"
  let ?s2 = "set_core 0 \<lparr>pc = Ldaxr, daif = 0x3C0, flags = 0, monitor = False\<rparr> idle_cores"
  have "step 0 idle_cores ?s1" by (rule step.save_daif) (simp_all add: idle_cores_def)
  moreover have "step 0 ?s1 ?s2"
    using step.mask_daif [of ?s1 0 "?k\<lparr>pc := Mask_daif\<rparr>"] by (simp add: set_core_def)
  ultimately have "reachable idle_cores ?s2" by (meson reachable.start reachable.step)
  moreover have "initial idle_cores" by (simp add: initial_def idle_cores_def)
  ultimately show ?thesis using spinlock_no_deadlock [of idle_cores ?s2 0] by simp
qed

end
