(* ===== verification/Uart.thy ===== *)
theory Uart
  imports Machine Board
begin

text \<open>
  The serial console (\<open>src/kernel/io/io.cpp\<close>, the \<open>uart_*\<close> half; \<open>include/kernel/io.h\<close>). A C
  string is the list of its bytes before the terminating NUL. Transmission waits for room in the
  FIFO, so every function is a partial one: \<open>None\<close> is a UART that stays full.
\<close>

section \<open>Operations\<close>

definition uart_init :: "'a io_scheme \<Rightarrow> 'a io_scheme" where
  "uart_init s =
     (let s = mmio_write UART0_CR 0x00000000 s;
          s = mmio_write CLK_UART_DIV_INT 1 s;
          s = mmio_write CLK_UART_CTRL (push_bit 5 2 OR push_bit 11 1 OR push_bit 0 1) s;
          s = mmio_write GPIO14_CTRL 4 s;
          s = mmio_write GPIO15_CTRL 4 s;
          s = mmio_write GPIO14_PAD 0x12 s;
          s = mmio_write GPIO15_PAD 0xD2 s;
          s = mmio_write UART0_ICR 0x7FF s;
          s = mmio_write UART0_IBRD 27 s;
          s = mmio_write UART0_FBRD 8 s;
          s = mmio_write UART0_LCRH (push_bit 4 1 OR push_bit 5 1 OR push_bit 6 1) s;
          s = mmio_write UART0_IMSC (push_bit 1 1 OR push_bit 4 1 OR push_bit 5 1 OR push_bit 6 1 OR
                push_bit 7 1 OR push_bit 8 1 OR push_bit 9 1 OR push_bit 10 1) s
      in mmio_write UART0_CR (push_bit 0 1 OR push_bit 8 1 OR push_bit 9 1) s)"

definition uart_putc :: "u8 \<Rightarrow> 'a io_scheme \<Rightarrow> 'a io_scheme option" where
  "uart_putc c s =
     (let (flags, s) = spin_lock Uart_lock s
      in do { (_, s) \<leftarrow> poll_until (mmio_read UART0_FR) (\<lambda>fr. fr AND push_bit 5 1 = 0) s;
              let s = mmio_write UART0_DR (ucast c) s;
              Some (spin_unlock Uart_lock flags s) })"

definition uart_getc :: "'a io_scheme \<Rightarrow> (u8 \<times> 'a io_scheme) option" where
  "uart_getc s =
     (let (flags, s) = spin_lock Uart_lock s
      in do { (_, s) \<leftarrow> poll_until (mmio_read UART0_FR) (\<lambda>fr. fr AND push_bit 4 1 = 0) s;
              (c, s) \<leftarrow> mmio_read UART0_DR s;
              Some (ucast c, spin_unlock Uart_lock flags s) })"

text \<open>The four reads of the test are operands of \<open>|\<close>, so all four take place.\<close>

definition uart_handle_irq :: "'a io_scheme \<Rightarrow> 'a io_scheme option" where
  "uart_handle_irq s =
     do { (a, s) \<leftarrow> mmio_read UART0_DR s;
          (b, s) \<leftarrow> mmio_read UART0_DR s;
          (c, s) \<leftarrow> mmio_read UART0_DR s;
          (d, s) \<leftarrow> mmio_read UART0_DR s;
          if (a AND 8) OR (b AND 9) OR (c AND 10) OR (d AND 11) \<noteq> 0 then Some s
          else do { (e, s) \<leftarrow> mmio_read UART0_DR s;
                    s \<leftarrow> uart_putc (ucast (e AND 0xFF)) s;
                    Some (mmio_write UART0_ICR 0x7FF s) } }"

fun uart_puts :: "u8 list \<Rightarrow> 'a io_scheme \<Rightarrow> 'a io_scheme option" where
  "uart_puts [] s = Some s"
| "uart_puts (c # cs) s = do { s \<leftarrow> uart_putc c s; uart_puts cs s }"

definition ascii :: "string \<Rightarrow> u8 list" where
  "ascii = map of_char"

definition digit_char :: "u64 \<Rightarrow> u8" where
  "digit_char val = (if val < 10 then ucast (48 + val) else ucast (65 + val - 10))"

definition print_helper :: "u64 \<Rightarrow> 'a io_scheme \<Rightarrow> 'a io_scheme option" where
  "print_helper val s = uart_putc (digit_char val) s"

text \<open>
  The loop that fills \<open>value_buffer\<close>, least significant digit first; its result is the used part
  of the buffer, whose length is \<open>counter\<close>.
\<close>

function digits :: "u64 \<Rightarrow> u64 \<Rightarrow> u64 list" where
  "digits base val =
     (if val = 0 \<or> base < 2 then [] else (val mod base) # digits base (val div base))"
  by auto

termination
proof (relation "measure (\<lambda>(base, val). unat val)")
  fix base val :: u64
  assume a: "\<not> (val = 0 \<or> base < 2)"
  then have "2 \<le> unat base" "0 < unat val"
    by (simp_all add: word_less_nat_alt unat_gt_0)
  then have "unat val div unat base < unat val" by (intro div_less_dividend) simp_all
  then show "((base, val div base), base, val) \<in> measure (\<lambda>(base, val). unat val)"
    by (simp add: unat_div)
qed simp

declare digits.simps [simp del]

fun print_digits :: "u64 list \<Rightarrow> 'a io_scheme \<Rightarrow> 'a io_scheme option" where
  "print_digits [] s = Some s"
| "print_digits (d # ds) s = do { s \<leftarrow> print_helper d s; print_digits ds s }"

definition uart_put_hex :: "u64 \<Rightarrow> 'a io_scheme \<Rightarrow> 'a io_scheme option" where
  "uart_put_hex val s =
     (if val = 0 then uart_putc (of_char (CHR ''0'')) s
      else let value_buffer = digits 16 val
           in do { s \<leftarrow> uart_putc (of_char (CHR ''0'')) s;
                   s \<leftarrow> uart_putc (of_char (CHR ''x'')) s;
                   print_digits (rev value_buffer) s })"

definition uart_put_uint :: "u64 \<Rightarrow> 'a io_scheme \<Rightarrow> 'a io_scheme option" where
  "uart_put_uint val s =
     (if val = 0 then uart_putc (of_char (CHR ''0'')) s
      else let value_buffer = digits 10 val in print_digits (rev value_buffer) s)"

text \<open>ESC [2J ESC [H\<close>

definition uart_term_clear :: "'a io_scheme \<Rightarrow> 'a io_scheme option" where
  "uart_term_clear s = uart_puts (27 # ascii ''[2J'' @ 27 # ascii ''[H'') s"

section \<open>What reaches the wire\<close>

text \<open>The bytes written to the data register.\<close>

fun tx :: "event list \<Rightarrow> u32 list" where
  "tx [] = []"
| "tx (Wr32 r v # es) = (if r = UART0_DR then v # tx es else tx es)"
| "tx (_ # es) = tx es"

lemma tx_append [simp]: "tx (es @ es') = tx es @ tx es'"
  by (induction es rule: tx.induct) auto

text \<open>
  \<open>ready_from b\<close>: each write of the data register comes directly after a read of the flag
  register that showed room (bit 5, TXFF, clear); \<open>b\<close> says that the last event was such a read.
\<close>

fun ready_from :: "bool \<Rightarrow> event list \<Rightarrow> bool" where
  "ready_from ok [] = True"
| "ready_from ok (e # es) =
     (case e of Rd32 r v \<Rightarrow> ready_from (r = UART0_FR \<and> v AND push_bit 5 1 = 0) es
      | Wr32 r w \<Rightarrow> (r = UART0_DR \<longrightarrow> ok) \<and> ready_from False es
      | _ \<Rightarrow> ready_from False es)"

definition uart_step :: "u8 list \<Rightarrow> 'a io_scheme \<Rightarrow> 'a io_scheme \<Rightarrow> bool" where
  "uart_step bs s s' \<longleftrightarrow> daif s' = daif s \<and> MMU_ACTIVE s' = MMU_ACTIVE s \<and> io.more s' = io.more s
     \<and> (\<exists>es. trace s' = trace s @ es \<and> tx es = map ucast bs \<and> balanced {Uart_lock} es
         \<and> (\<forall>es'. ready_from False (es @ es') = ready_from False es'))"

lemma uart_step_refl: "uart_step [] s s"
  by (auto simp: uart_step_def intro: exI [of _ "[]"])

lemma uart_step_trans:
  assumes "uart_step as s t" "uart_step bs t u"
  shows "uart_step (as @ bs) s u"
proof -
  obtain es es' where "trace t = trace s @ es" "tx es = map ucast as" "balanced {Uart_lock} es"
    "\<And>x. ready_from False (es @ x) = ready_from False x"
    "trace u = trace t @ es'" "tx es' = map ucast bs" "balanced {Uart_lock} es'"
    "\<And>x. ready_from False (es' @ x) = ready_from False x"
    using assms unfolding uart_step_def by blast
  then have "trace u = trace s @ (es @ es') \<and> tx (es @ es') = map ucast (as @ bs)
    \<and> balanced {Uart_lock} (es @ es') \<and> (\<forall>x. ready_from False ((es @ es') @ x) = ready_from False x)"
    by (simp add: balanced_append)
  then show ?thesis using assms unfolding uart_step_def by auto
qed

lemma uart_putc_step:
  assumes "uart_putc c s = Some s'"
  shows "uart_step [c] s s'"
proof -
  obtain flags s1 where lk: "spin_lock Uart_lock s = (flags, s1)" by fastforce
  obtain x s2 where p: "poll_until (mmio_read UART0_FR) (\<lambda>fr. fr AND push_bit 5 1 = 0) s1 = Some (x, s2)"
    and s': "s' = spin_unlock Uart_lock flags (mmio_write UART0_DR (ucast c) s2)"
    using assms lk by (auto simp: uart_putc_def Let_def Option.bind_eq_Some_conv)
  note q = poll_mmio_read [OF p]
  then obtain vs where vs: "trace s2 = trace s1 @ map (Rd32 UART0_FR) vs @ [Rd32 UART0_FR x]" by blast
  define mid where "mid = (map (Rd32 UART0_FR) vs @ [Rd32 UART0_FR x]) @ [Wr32 UART0_DR (ucast c)]"
  define es where "es = (if MMU_ACTIVE s then Acquire Uart_lock # mid @ [Release Uart_lock] else mid)"
  have "trace s' = trace s @ es"
    using lk q vs
    by (auto simp: s' spin_lock_def spin_unlock_def Let_def mmio_write_def es_def mid_def split: if_splits)
  moreover have "tx (map (Rd32 UART0_FR) vs) = []" by (induction vs) simp_all
  then have "tx es = [ucast c]" by (simp add: es_def mid_def)
  moreover have "list_all lock_free mid" by (simp add: mid_def list_all_iff lock_free_def)
  then have "balanced {} mid" by (rule balanced_lock_free)
  then have "balanced {Uart_lock} es"
    using balanced_lock [of "{}" mid Uart_lock] balanced_mono [of "{}" mid "{Uart_lock}"]
    by (simp add: es_def)
  moreover have reads: "ready_from b (map (Rd32 UART0_FR) vs @ Rd32 UART0_FR x # Wr32 UART0_DR w # es') =
      ready_from False es'" for b w es'
    using q by (induction vs arbitrary: b) simp_all
  have "\<forall>es'. ready_from False (es @ es') = ready_from False es'"
    by (simp add: es_def mid_def reads)
  moreover have "daif s' = daif s \<and> MMU_ACTIVE s' = MMU_ACTIVE s \<and> io.more s' = io.more s"
    using lk q by (auto simp: s' spin_lock_def spin_unlock_def Let_def mmio_write_def split: if_splits)
  ultimately show ?thesis unfolding uart_step_def by auto
qed

lemma uart_puts_step: "uart_puts str s = Some s' \<Longrightarrow> uart_step str s s'"
proof (induction str arbitrary: s)
  case Nil
  then show ?case by (simp add: uart_step_refl)
next
  case (Cons c cs)
  then obtain t where "uart_putc c s = Some t" "uart_puts cs t = Some s'"
    by (auto simp: Option.bind_eq_Some_conv)
  with uart_step_trans [OF uart_putc_step Cons.IH] show ?case by simp
qed

lemma print_digits_step: "print_digits ds s = Some s' \<Longrightarrow> uart_step (map digit_char ds) s s'"
proof (induction ds arbitrary: s)
  case Nil
  then show ?case by (simp add: uart_step_refl)
next
  case (Cons d ds)
  then obtain t where "uart_putc (digit_char d) s = Some t" "print_digits ds t = Some s'"
    by (auto simp: Option.bind_eq_Some_conv print_helper_def)
  with uart_step_trans [OF uart_putc_step Cons.IH] show ?case by simp
qed

section \<open>Numbers\<close>

text \<open>The number that a digit string denotes, in the base it is written in.\<close>

definition digit_value :: "u8 \<Rightarrow> nat" where
  "digit_value c = (if c < 58 then unat c - 48 else unat c - 55)"

definition number_value :: "nat \<Rightarrow> u8 list \<Rightarrow> nat" where
  "number_value base cs = foldl (\<lambda>a c. base * a + digit_value c) 0 cs"

lemma digit_value_char: "d < 16 \<Longrightarrow> digit_value (digit_char d) = unat d"
proof -
  assume "d < 16"
  then have "unat d < 16" by (simp add: word_less_nat_alt)
  then have "unat d \<in> set [0..<16]" by simp
  moreover have "d = of_nat (unat d)" by simp
  ultimately have "d \<in> set (map of_nat [0..<16])" unfolding set_map by blast
  moreover have "map of_nat [0..<16] = [0 :: u64, 1, 2, 3, 4, 5, 6, 7, 8, 9, 10, 11, 12, 13, 14, 15]"
    by (simp add: upt_rec)
  ultimately have "d \<in> set [0, 1, 2, 3, 4, 5, 6, 7, 8, 9, 10, 11, 12, 13, 14, 15]" by metis
  then have "d \<in> {0, 1, 2, 3, 4, 5, 6, 7, 8, 9, 10, 11, 12, 13, 14, 15}" by simp
  then show ?thesis by (elim insertE emptyE) (simp_all add: digit_value_def digit_char_def)
qed

lemma digits_unfold: "val \<noteq> 0 \<Longrightarrow> 2 \<le> base \<Longrightarrow>
    digits base val = (val mod base) # digits base (val div base)"
  by (subst digits.simps) (simp add: not_less)

lemma digits_zero [simp]: "digits base 0 = []"
  by (subst digits.simps) simp

lemma digits_digit:
  assumes "2 \<le> base" "d \<in> set (digits base val)"
  shows "d < base"
  using assms
proof (induction base val rule: digits.induct)
  case (1 base val)
  then show ?case
  proof (cases "val = 0")
    case False
    then have "digits base val = (val mod base) # digits base (val div base)"
      using 1(2) by (rule digits_unfold)
    moreover have "0 < base" using 1(2) by (simp add: word_less_nat_alt word_le_nat_alt)
    then have "val mod base < base" by (rule word_mod_less_divisor)
    ultimately show ?thesis using 1 False by auto
  qed simp
qed

lemma digits_value:
  assumes "2 \<le> base" "base \<le> 16"
  shows "number_value (unat base) (map digit_char (rev (digits base val))) = unat val"
  using assms
proof (induction base val rule: digits.induct)
  case (1 base val)
  show ?case
  proof (cases "val = 0")
    case True
    then show ?thesis by (simp add: number_value_def)
  next
    case False
    have d: "digits base val = (val mod base) # digits base (val div base)"
      using False 1(2) by (rule digits_unfold)
    have "val mod base < base"
      using digits_digit [of base "val mod base" val] 1(2) d by simp
    then have "val mod base < 16" using 1(3) by simp
    then have "digit_value (digit_char (val mod base)) = unat val mod unat base"
      by (simp add: digit_value_char unat_mod)
    moreover have "number_value (unat base) (map digit_char (rev (digits base (val div base)))) =
        unat val div unat base"
      using 1 False by (simp add: unat_div)
    ultimately show ?thesis by (simp add: number_value_def d)
  qed
qed

lemma digits_length:
  assumes "2 \<le> base" "unat val < unat base ^ n"
  shows "length (digits base val) \<le> n"
  using assms
proof (induction base val arbitrary: n rule: digits.induct)
  case (1 base val)
  show ?case
  proof (cases "val = 0")
    case False
    have b: "0 < unat base" using 1(2) by (simp add: word_le_nat_alt)
    have "n \<noteq> 0" using 1(3) False by (cases n) (auto simp: unat_eq_0)
    then obtain m where m: "n = Suc m" by (cases n) auto
    have "unat val div unat base < unat base ^ m"
      using 1(3) b by (simp add: m less_mult_imp_div_less mult.commute)
    then have "length (digits base (val div base)) \<le> m"
      using 1(1,2) False by (simp add: unat_div not_less)
    then show ?thesis using digits_unfold [OF False 1(2)] by (simp add: m)
  qed simp
qed

lemma digits_last:
  assumes "2 \<le> base" "val \<noteq> 0"
  shows "digits base val \<noteq> [] \<and> last (digits base val) \<noteq> 0"
  using assms
proof (induction base val rule: digits.induct)
  case (1 base val)
  note d = digits_unfold [OF 1(3,2)]
  show ?case
  proof (cases "val div base = 0")
    case True
    have "unat val = unat base * (unat val div unat base) + unat val mod unat base" by simp
    moreover have "unat val div unat base = 0" using True by (metis unat_0 unat_div)
    ultimately have "unat (val mod base) = unat val" by (simp add: unat_mod)
    then have "val mod base \<noteq> 0" using 1(3) by (metis unat_eq_zero)
    with True d show ?thesis by simp
  next
    case False
    with 1 have "digits base (val div base) \<noteq> [] \<and> last (digits base (val div base)) \<noteq> 0"
      by (simp add: not_less)
    with d show ?thesis by simp
  qed
qed

section \<open>Properties\<close>

text \<open>C19: \<open>uart_puts\<close> sends exactly the bytes of the string, in order. Each byte is written
  directly after a read of the flag register that showed room; the lock is taken and released for
  every byte and the interrupt mask is restored.\<close>

theorem uart_puts_correct:
  assumes "uart_puts str s = Some s'"
  shows "daif s' = daif s
    \<and> (\<exists>es. trace s' = trace s @ es \<and> tx es = map ucast str \<and> ready_from False es
         \<and> balanced {Uart_lock} es)"
proof -
  from uart_puts_step [OF assms] obtain es where "daif s' = daif s" "trace s' = trace s @ es"
    "tx es = map ucast str" "balanced {Uart_lock} es" "ready_from False (es @ []) = ready_from False []"
    unfolding uart_step_def by blast
  then show ?thesis by auto
qed

definition io0 :: "u64 list \<Rightarrow> io" where
  "io0 vs = \<lparr>inp = vs, trace = [], daif = 0, MMU_ACTIVE = True\<rparr>"

lemma poll_ready:
  "inp s = v # vs \<Longrightarrow> stop (ucast v) \<Longrightarrow>
    poll_until (mmio_read r) stop s = Some (ucast v, emit [Rd32 r (ucast v)] (s\<lparr>inp := vs\<rparr>))"
  by (subst poll_until.simps) (simp add: mmio_read_def env_read_def)

lemma poll_busy:
  "inp s = v # vs \<Longrightarrow> \<not> stop (ucast v) \<Longrightarrow>
    poll_until (mmio_read r) stop s = poll_until (mmio_read r) stop (emit [Rd32 r (ucast v)] (s\<lparr>inp := vs\<rparr>))"
  by (subst poll_until.simps) (simp add: mmio_read_def env_read_def)

lemma uart_putc_ready:
  assumes "inp s = v # vs" "ucast v AND (push_bit 5 1 :: u32) = 0"
  shows "\<exists>s'. uart_putc c s = Some s' \<and> inp s' = vs"
proof -
  obtain flags s1 where lk: "spin_lock Uart_lock s = (flags, s1)" by fastforce
  then have "inp s1 = v # vs" using assms(1) by (auto simp: spin_lock_def Let_def split: if_splits)
  note p = poll_ready [where stop = "\<lambda>fr. fr AND push_bit 5 1 = 0", OF this assms(2), of UART0_FR]
  show ?thesis
    unfolding uart_putc_def lk Let_def prod.case p
    by (simp add: mmio_write_def spin_unlock_def Let_def)
qed

text \<open>\<open>uart_puts\<close> returns: a UART with room at each of the \<open>length str\<close> polls is enough, and
  then it uses exactly these answers.\<close>

theorem uart_puts_returns:
  assumes "inp s = vs @ rest" and "length vs = length str"
    and "\<forall>v \<in> set vs. ucast v AND (push_bit 5 1 :: u32) = 0"
  shows "\<exists>s'. uart_puts str s = Some s' \<and> inp s' = rest"
  using assms
proof (induction str arbitrary: vs s)
  case (Cons c cs)
  then obtain v ws where vs: "vs = v # ws" by (cases vs) auto
  with Cons.prems obtain t where "uart_putc c s = Some t" "inp t = ws @ rest"
    using uart_putc_ready [of s v "ws @ rest" c] by auto
  with Cons.IH [of t ws] Cons.prems vs show ?case by simp
qed simp

theorem uart_puts_returns_witness:
  "\<exists>s'. uart_puts (ascii ''ok'') (io0 [0x90, 0x10]) = Some s' \<and> inp s' = []"
  using uart_puts_returns [of "io0 [0x90, 0x10]" "[0x90, 0x10]" "[]" "ascii ''ok''"]
  by (simp add: io0_def ascii_def)

theorem uart_puts_correct_witness:
  "\<exists>s'. uart_puts (ascii ''ok'') (io0 [0x90, 0x10]) = Some s' \<and> tx (trace s') = [111, 107]"
proof -
  have "\<exists>s'. uart_puts (ascii ''ok'') (io0 [0x90, 0x10]) = Some s'"
    by (simp add: ascii_def io0_def uart_putc_def spin_lock_def Let_def poll_ready mmio_write_def
        spin_unlock_def)
  then obtain s' where run: "uart_puts (ascii ''ok'') (io0 [0x90, 0x10]) = Some s'" by blast
  with uart_puts_correct [OF run] show ?thesis by (auto simp: io0_def ascii_def)
qed

lemma number_step:
  assumes "val \<noteq> 0" "2 \<le> base" "base \<le> 16" "print_digits (rev (digits base val)) s = Some s'"
  shows "\<exists>bs. uart_step bs s s' \<and> number_value (unat base) bs = unat val
    \<and> bs = map digit_char (rev (digits base val)) \<and> hd bs \<noteq> 48"
proof -
  note l = digits_last [OF assms(2,1)]
  have "hd (rev (digits base val)) = last (digits base val)" using l by (simp add: hd_rev)
  moreover have "last (digits base val) < base" using l digits_digit [OF assms(2)] last_in_set by blast
  then have lt: "last (digits base val) < 16" using assms(3) by simp
  have "digit_value (digit_char (last (digits base val))) \<noteq> 0"
    using digit_value_char [OF lt] l by (simp add: unat_eq_0)
  then have "digit_char (last (digits base val)) \<noteq> 48" by (auto simp: digit_value_def)
  ultimately have "hd (map digit_char (rev (digits base val))) \<noteq> 48"
    using l by (simp add: hd_map)
  with print_digits_step [OF assms(4)] digits_value [OF assms(2,3)] show ?thesis by blast
qed

text \<open>\<open>uart_put_uint\<close> prints a decimal numeral that denotes its argument, without leading
  zeros, for every 64-bit value; it never needs more than the 20 cells of \<open>value_buffer\<close>.\<close>

theorem uart_put_uint_correct:
  assumes "uart_put_uint val s = Some s'"
  shows "length (digits 10 val) \<le> 20
    \<and> (\<exists>bs. uart_step bs s s' \<and> number_value 10 bs = unat val \<and> (hd bs = 48 \<longrightarrow> bs = [48]))"
proof -
  have "length (digits 10 val) \<le> 20"
  proof (rule digits_length)
    have "unat val < 2 ^ LENGTH(64)" by (rule unsigned_less)
    then show "unat val < unat (10 :: u64) ^ 20" by simp
  qed simp
  moreover have "\<exists>bs. uart_step bs s s' \<and> number_value 10 bs = unat val \<and> (hd bs = 48 \<longrightarrow> bs = [48])"
  proof (cases "val = 0")
    case True
    then have "uart_step [48] s s'" using assms uart_putc_step by (simp add: uart_put_uint_def)
    then show ?thesis using True
      by (intro exI [of _ "[48]"]) (simp add: number_value_def digit_value_def)
  next
    case False
    then have "print_digits (rev (digits 10 val)) s = Some s'"
      using assms by (simp add: uart_put_uint_def)
    from number_step [OF False _ _ this] show ?thesis by auto
  qed
  ultimately show ?thesis ..
qed

lemma digits_42: "digits 10 42 = [2, 4]"
  by (simp add: digits_unfold)

theorem uart_put_uint_correct_witness:
  "\<exists>s'. uart_put_uint 42 (io0 [0x90, 0x10]) = Some s' \<and> length (digits 10 (42 :: u64)) \<le> 20"
proof -
  have "\<exists>s'. uart_put_uint 42 (io0 [0x90, 0x10]) = Some s'"
    by (simp add: uart_put_uint_def digits_42 print_helper_def io0_def uart_putc_def spin_lock_def
        Let_def poll_ready mmio_write_def spin_unlock_def)
  then show ?thesis using uart_put_uint_correct by blast
qed

text \<open>the receive interrupt. The error test reads the data register four times, which takes four
  bytes out of the FIFO, and tests bits 0, 1 and 3 of these bytes, not error bits. If one is set
  the handler returns with nothing sent and the interrupt still pending; otherwise it echoes the
  fifth byte and clears the interrupt. So the first four bytes received are never echoed.\<close>

theorem uart_irq_reads_five:
  assumes "uart_handle_irq s = Some s'" and "inp s = a # b # c # d # vs"
  defines "pre \<equiv> map (\<lambda>v. Rd32 UART0_DR (ucast v)) [a, b, c, d]"
  shows "if ((ucast a :: u32) AND 8) OR (ucast b AND 9) OR (ucast c AND 10) OR (ucast d AND 11) \<noteq> 0
    then inp s' = vs \<and> trace s' = trace s @ pre
    else \<exists>e ws es. vs = e # ws \<and> tx es = [ucast (ucast (ucast e AND 0xFF :: u32) :: u8)]
      \<and> trace s' = trace s @ pre @ [Rd32 UART0_DR (ucast e)] @ es @ [Wr32 UART0_ICR 0x7FF]"
proof (cases "((ucast a :: u32) AND 8) OR (ucast b AND 9) OR (ucast c AND 10) OR (ucast d AND 11) \<noteq> 0")
  case True
  then have "s' = emit pre (s\<lparr>inp := vs\<rparr>)"
    using assms(1,2) by (simp add: uart_handle_irq_def mmio_read_def env_read_def pre_def emit_def)
  with True show ?thesis by simp
next
  case False
  let ?t = "emit pre (s\<lparr>inp := vs\<rparr>)"
  have step: "do { (e, t) \<leftarrow> mmio_read UART0_DR ?t; t \<leftarrow> uart_putc (ucast (e AND 0xFF)) t;
          Some (mmio_write UART0_ICR 0x7FF t) } = Some s'"
    using False assms(1,2)
    by (simp add: uart_handle_irq_def mmio_read_def env_read_def pre_def emit_def)
  then obtain e t1 t2 where e: "mmio_read UART0_DR ?t = Some (e, t1)"
    "uart_putc (ucast (e AND 0xFF)) t1 = Some t2" "s' = mmio_write UART0_ICR 0x7FF t2"
    by (auto simp: Option.bind_eq_Some_conv)
  then obtain v ws where v: "vs = v # ws" "e = ucast v" "t1 = emit [Rd32 UART0_DR (ucast v)] (?t\<lparr>inp := ws\<rparr>)"
    by (auto simp: mmio_read_def env_read_def split: list.splits)
  obtain es where es: "trace t2 = trace t1 @ es" "tx es = [ucast (ucast (e AND 0xFF) :: u8)]"
    using uart_putc_step [OF e(2)] unfolding uart_step_def by auto
  have "trace s' = trace s @ pre @ [Rd32 UART0_DR (ucast v)] @ es @ [Wr32 UART0_ICR 0x7FF]"
    using es(1) by (simp add: e(3) v(3) mmio_write_def)
  with False v es(2) show ?thesis by auto
qed

theorem uart_irq_reads_five_witness:
  "\<exists>s'. uart_handle_irq (io0 [0x40, 0x40, 0x40, 0x40, 0x41, 0x90]) = Some s' \<and> tx (trace s') = [0x41]"
proof -
  let ?s = "io0 [0x40, 0x40, 0x40, 0x40, 0x41, 0x90]"
  have "\<exists>s'. uart_handle_irq ?s = Some s'"
    by (simp add: io0_def uart_handle_irq_def mmio_read_def env_read_def uart_putc_def spin_lock_def
        Let_def poll_ready mmio_write_def spin_unlock_def)
  then obtain s' where run: "uart_handle_irq ?s = Some s'" by blast
  have "inp ?s = 0x40 # 0x40 # 0x40 # 0x40 # [0x41, 0x90]" by (simp add: io0_def)
  from uart_irq_reads_five [OF run this] obtain es where "tx es = [0x41]"
    "trace s' = map (\<lambda>v. Rd32 UART0_DR (ucast v)) [0x40, 0x40, 0x40, 0x40 :: u64]
       @ [Rd32 UART0_DR 0x41] @ es @ [Wr32 UART0_ICR 0x7FF]"
    by (auto simp: io0_def)
  with run show ?thesis by (auto simp: board)
qed

end
