(* ===== verification/Mmu_Init.thy ===== *)
theory Mmu_Init
  imports Mmu
begin

text \<open>
  \<open>mmu_init\<close> (\<open>src/kernel/mmu/mmu.cpp\<close>): the system registers, the frame allocator, the root
  table, the eight identity mappings and the switch. The linker symbol \<open>__kernel_end\<close> that
  \<open>pmm_init\<close> reads is the argument \<open>kernel_end\<close>. The lock words are set free here, which the
  component models have no state for.
\<close>

section \<open>The function\<close>

definition MAIR_VALUE :: u64 where
  "MAIR_VALUE = (0 OR push_bit (0 * 8) 0xFF OR push_bit (1 * 8) 0x00 OR push_bit (2 * 8) 0x44)"

definition TCR_VALUE :: u64 where
  "TCR_VALUE = (0 OR (push_bit 0 25 OR push_bit 8 1 OR push_bit 10 1 OR push_bit 12 3
     OR push_bit 14 0 OR push_bit 23 1 OR push_bit 32 2))"

definition MAILBOX_PAGE_BASE :: u64 where [board]: "MAILBOX_PAGE_BASE = MAILBOX_BASE AND NOT 0xFFF"
definition PINCTRL_PAGE_BASE :: u64 where
  [board]: "PINCTRL_PAGE_BASE = PINCTRL_BASE AND NOT (PAGE_SIZE - 1)"

definition map_regions :: "'a mmu_scheme \<Rightarrow> 'a mmu_scheme" where
  "map_regions s =
     (let s = snd (map_pages 0x00000000 0x00000000 0x00080000 PTE_NORMAL_RW s);
          s = snd (map_pages 0x00080000 0x00080000 (phys_mem_start s - 0x80000) PTE_NORMAL_RW s);
          s = snd (map_pages (phys_mem_start s) (phys_mem_start s)
                     (PHYS_MEM_END - phys_mem_start s) PTE_NORMAL_RW s);
          s = snd (map_pages PERIPHERAL_BASE PERIPHERAL_BASE 0x410000 PTE_DEVICE_RW s);
          s = snd (map_pages LOCAL_PERIPHERAL_BASE LOCAL_PERIPHERAL_BASE 0x8000 PTE_DEVICE_RW s);
          s = snd (map_pages MAILBOX_PAGE_BASE MAILBOX_PAGE_BASE PAGE_SIZE PTE_DEVICE_RW s);
          s = snd (map_pages SDIO0_BASE SDIO0_BASE PAGE_SIZE PTE_DEVICE_RW s)
      in snd (map_pages PINCTRL_PAGE_BASE PINCTRL_PAGE_BASE PAGE_SIZE PTE_DEVICE_RW s))"

text \<open>\<open>None\<close> is the endless loop after \<open>mmu_init: out of memory\<close> (or no value for SCTLR yet).\<close>

definition mmu_init :: "u64 \<Rightarrow> 'a mmu_scheme \<Rightarrow> 'a mmu_scheme option" where
  "mmu_init kernel_end s =
     (let s = msr MAIR_EL1 MAIR_VALUE s;
          s = msr TCR_EL1 TCR_VALUE s;
          s = pmm_init kernel_end s;
          (page_table_address, s) = alloc_frame s
      in if page_table_address = 0 then None
         else let s = install_root page_table_address s;
                  s = isb (dsb_ish (emit [Tlbi_vmalle1] (dsb_ish s)));
                  s = msr TTBR0_EL1 page_table_address s;
                  s = map_regions s
              in do { (sctlr, s) \<leftarrow> mrs SCTLR_EL1 s;
                      let sctlr = sctlr OR (push_bit 0 1 OR push_bit 2 1 OR push_bit 12 1);
                      Some ((isb (msr SCTLR_EL1 sctlr s))\<lparr>MMU_ACTIVE := True\<rparr>) })"

section \<open>One identity mapping\<close>

definition in_region :: "u64 \<Rightarrow> nat \<Rightarrow> u64 \<Rightarrow> bool" where
  "in_region b len a \<longleftrightarrow> unat b \<le> unat a \<and> unat a < unat b + len"

definition page_base :: "u64 \<Rightarrow> u64" where "page_base a = a AND NOT (mask 12)"

lemma page_base_split: "a = page_base a + (a AND 0xFFF)"
proof -
  have "page_base a AND (a AND 0xFFF) = 0"
    unfolding page_base_def mask_word_simps by (rule bit_word_eqI) (auto simp: bit_simps)
  then show ?thesis
    using word_plus_and_or [of "page_base a" "a AND 0xFFF"] page_offset_split [of a]
    by (simp add: page_base_def)
qed

lemma vpn_small: "unat a < 2 ^ 39 \<Longrightarrow> vpn a = unat a div 4096"
  by (simp add: vpn_def less_mult_imp_div_less)

lemma map_identity:
  assumes inv: "pt_inv s" and eq: "map_pages b b sz flags s = (True, s')"
    and n: "unat (sz div PAGE_SIZE) = n" "unat b + 4096 * n \<le> 2 ^ 39" and al: "page_aligned b"
    and a: "unat a < 2 ^ 39"
  shows "desc_at s' (coord a) =
    (if in_region b (4096 * n) a then page_base a OR flags OR 3 else desc_at s (coord a))"
proof -
  have n27: "unat (sz div PAGE_SIZE) \<le> 2 ^ 27" using n by simp
  note ok = map_ok [OF inv eq n27, unfolded n(1)]
  show ?thesis
  proof (cases "in_region b (4096 * n) a")
    case True
    define i where "i = (unat a - unat b) div 4096"
    have "unat a - unat b < n * 4096" using True by (auto simp: in_region_def)
    then have i: "i < n" unfolding i_def by (rule less_mult_imp_div_less)
    have le: "unat b \<le> unat a" using True by (simp add: in_region_def)
    note p = page_of_addr [OF al le, folded i_def]
    have "page b i + (a AND 0xFFF) = page_base a + (a AND 0xFFF)"
      using p(2) page_base_split [of a] by simp
    then have "page b i = page_base a" by simp
    with ok(1) [OF i] True show ?thesis by (simp add: p(1) page_desc_def)
  next
    case False
    have "coord a \<notin> (\<lambda>i. coord (page b i)) ` {..<n}"
    proof
      assume "coord a \<in> (\<lambda>i. coord (page b i)) ` {..<n}"
      then obtain i where i: "i < n" "vpn a = vpn (page b i)" by (auto simp: coord_eq_iff)
      have u: "unat (page b i) = unat b + 4096 * i" using n(2) i(1) by (intro unat_page) simp
      have "unat a div 4096 = (unat b + 4096 * i) div 4096"
        using i vpn_small [OF a] vpn_small [of "page b i"] n(2) by (simp add: u)
      then have "unat a div 4096 = unat b div 4096 + i" by simp
      moreover have "4096 * (unat b div 4096) = unat b" using al by simp
      ultimately have "4096 * (unat a div 4096) = unat b + 4096 * i" by simp
      moreover have "4096 * (unat a div 4096) + unat a mod 4096 = unat a" "unat a mod 4096 < 4096" by simp_all
      ultimately show False using False i(1) by (simp add: in_region_def)
    qed
    from ok(2) [OF this] False show ?thesis by simp
  qed
qed

text \<open>
  Tables are needed per block of 2 MiB; \<open>blocks\<close> are the coordinates of a set \<open>Q\<close> of blocks.
\<close>

definition blocks :: "nat set \<Rightarrow> (nat \<times> nat \<times> nat) set" where
  "blocks Q = {(q div 512, q mod 512, k) | q k. q \<in> Q \<and> k < 512}"

lemma coord_blocks: "vpn a div 512 \<in> Q \<Longrightarrow> coord a \<in> blocks Q"
  unfolding coord_vpn blocks_def
  by (rule CollectI) (rule exI [of _ "vpn a div 512"], rule exI [of _ "vpn a mod 512"],
    simp add: div_mult2_eq [symmetric])

lemma finite_blocks: "finite Q \<Longrightarrow> finite (blocks Q)"
proof -
  assume "finite Q"
  then have "finite ((\<lambda>(q, k). (q div 512, q mod 512, k)) ` (Q \<times> {..<512 :: nat}))" by simp
  then show ?thesis by (rule finite_subset [rotated]) (auto simp: blocks_def)
qed

lemma missing_blocks:
  assumes "finite Q"
  shows "missing s (blocks Q) \<le> card ((\<lambda>q. q div 512) ` Q) + card Q"
proof -
  have "miss2 s (blocks Q) \<subseteq> (\<lambda>q. q div 512) ` Q"
    by (auto simp: miss2_def blocks_def)
  then have "card (miss2 s (blocks Q)) \<le> card ((\<lambda>q. q div 512) ` Q)"
    using assms by (intro card_mono) simp_all
  moreover have "miss3 s (blocks Q) \<subseteq> (\<lambda>q. (q div 512, q mod 512)) ` Q"
    by (auto simp: miss3_def blocks_def)
  then have "card (miss3 s (blocks Q)) \<le> card ((\<lambda>q. (q div 512, q mod 512)) ` Q)"
    using assms by (intro card_mono) simp_all
  then have "card (miss3 s (blocks Q)) \<le> card Q"
    using card_image_le [OF assms, of "\<lambda>q. (q div 512, q mod 512)"] by linarith
  ultimately show ?thesis by (simp add: missing_def)
qed

text \<open>The state between two mappings: well-formed, and enough frames for what is still to map.\<close>

definition ready :: "(nat \<times> nat \<times> nat) set \<Rightarrow> 'a mmu_scheme \<Rightarrow> bool" where
  "ready P s \<longleftrightarrow> pt_inv s \<and> missing s P \<le> card (free_frames s)"

lemma map_identity_ready:
  fixes flags :: u64
  assumes "ready (blocks Q) s" "finite Q"
    and n: "unat (sz div PAGE_SIZE) = n" "unat b + 4096 * n \<le> 2 ^ 39" and al: "page_aligned b"
    and Q: "\<And>i. i < n \<Longrightarrow> (unat b div 4096 + i) div 512 \<in> Q"
  defines "s' \<equiv> snd (map_pages b b sz flags s)"
  shows "ready (blocks Q) s'" and "phys_mem_start s' = phys_mem_start s" and "inp s' = inp s"
    and "unat a < 2 ^ 39 \<Longrightarrow> desc_at s' (coord a) =
      (if in_region b (4096 * n) a then page_base a OR flags OR 3 else desc_at s (coord a))"
proof -
  obtain ok where eq: "map_pages b b sz flags s = (ok, s')"
    by (cases "map_pages b b sz flags s") (simp add: s'_def)
  have inv: "pt_inv s" and enough: "missing s (blocks Q) \<le> card (free_frames s)"
    using assms(1) by (simp_all add: ready_def)
  have n27: "unat (sz div PAGE_SIZE) \<le> 2 ^ 27" using n by simp
  note st = map_pages_step [OF inv eq n27, unfolded n(1)]
  have "coord (page b i) \<in> blocks Q" if "i < n" for i
  proof (rule coord_blocks)
    have u: "unat (page b i) = unat b + 4096 * i" using n(2) that by (intro unat_page) simp
    have "vpn (page b i) = (unat b + 4096 * i) div 4096"
      using vpn_small [of "page b i"] n(2) that by (simp add: u)
    then show "vpn (page b i) div 512 \<in> Q" using Q [OF that] by (simp add: add.commute)
  qed
  then have "(\<lambda>i. coord (page b i)) ` {..<n} \<subseteq> blocks Q" by auto
  then have en: "ok \<and> missing s' (blocks Q) \<le> card (free_frames s')"
    using st(4) [OF finite_blocks [OF assms(2)], where extra = 0] enough by simp
  note f = mmu_stepD [OF st(1)]
  show "ready (blocks Q) s'" using en f(1) by (simp add: ready_def)
  show "phys_mem_start s' = phys_mem_start s" "inp s' = inp s" by (rule f)+
  have ok: ok using en by simp
  show "unat a < 2 ^ 39 \<Longrightarrow> desc_at s' (coord a) =
      (if in_region b (4096 * n) a then page_base a OR flags OR 3 else desc_at s (coord a))"
    using map_identity [OF inv _ n al] eq ok by simp
qed

section \<open>The identity map after initialisation\<close>

definition init_blocks :: "nat set" where
  "init_blocks = {..<508} \<union> {57344, 57345, 57346, 33791, 33760, 32775, 33770}"

lemma card_init_blocks: "card ((\<lambda>q. q div 512) ` init_blocks) + card init_blocks \<le> 519"
proof -
  have "(\<lambda>q. q div 512) ` init_blocks \<subseteq> {0, 112, 65, 64}"
    by (auto simp: init_blocks_def)
  then have "card ((\<lambda>q. q div 512) ` init_blocks) \<le> card {0 :: nat, 112, 65, 64}"
    by (intro card_mono) simp_all
  moreover have "card init_blocks \<le> card {..<508 :: nat} + card {57344 :: nat, 57345, 57346, 33791, 33760, 32775, 33770}"
    unfolding init_blocks_def by (rule card_Un_le)
  ultimately show ?thesis by simp
qed

lemma finite_init_blocks [simp]: "finite init_blocks"
  by (simp add: init_blocks_def)

text \<open>What a page of RAM, and a page of a device, looks like; all else is unmapped.\<close>

definition device_page :: "u64 \<Rightarrow> bool" where
  "device_page a \<longleftrightarrow> in_region PERIPHERAL_BASE 0x410000 a \<or> in_region LOCAL_PERIPHERAL_BASE 0x8000 a
     \<or> in_region MAILBOX_PAGE_BASE 0x1000 a \<or> in_region SDIO0_BASE 0x1000 a
     \<or> in_region PINCTRL_PAGE_BASE 0x1000 a"

lemma device_bases:
  "unat PERIPHERAL_BASE = 0x1C00000000" "unat LOCAL_PERIPHERAL_BASE = 0x107FFF8000"
  "unat MAILBOX_PAGE_BASE = 0x107c013000" "unat SDIO0_BASE = 0x1000fff000"
  "unat PINCTRL_PAGE_BASE = 0x107d504000" "unat PHYS_MEM_END = 0x3F800000"
  "unat (PAGE_SIZE div PAGE_SIZE) = 1" "unat (0x410000 div PAGE_SIZE :: u64) = 0x410"
  "unat (0x8000 div PAGE_SIZE :: u64) = 8" "unat (0x80000 div PAGE_SIZE :: u64) = 0x80"
  by (simp_all add: board)

lemma block_index:
  assumes "512 * q \<le> p" "p < 512 * q + 512"
  shows "p div 512 = (q :: nat)"
  using assms by (intro div_nat_eqI) simp_all

lemma map_regions_step:
  assumes r: "ready (blocks init_blocks) s" and none: "desc_at s = (\<lambda>_. 0)"
    and start: "phys_mem_start s = st" "page_aligned st" "0x80000 \<le> unat st" "unat st \<le> 0x3F800000"
  defines "t \<equiv> map_regions s"
  shows "pt_inv t" and "inp t = inp s"
    and "unat a < 2 ^ 39 \<Longrightarrow> desc_at t (coord a) =
      (if unat a < 0x3F800000 then page_base a OR PTE_NORMAL_RW OR 3
       else if device_page a then page_base a OR PTE_DEVICE_RW OR 3 else 0)"
proof -
  obtain q where q: "unat st = 4096 * q" using start(2) by (elim dvdE)
  have q_le: "0x80 \<le> q" "q \<le> 0x3F800" using start(3,4) q by simp_all
  have e80: "unat (0x80000 :: u64) = 0x80000" by simp
  have "(0x80000 :: u64) \<le> st" using start(3) by (simp add: word_le_nat_alt)
  then have n2: "unat ((st - 0x80000) div PAGE_SIZE) = q - 0x80"
    by (simp add: unat_div unat_sub q PAGE_SIZE_def)
  have "st \<le> PHYS_MEM_END" using start(4) by (simp add: word_le_nat_alt device_bases)
  then have n3: "unat ((PHYS_MEM_END - st) div PAGE_SIZE) = 0x3F800 - q"
    by (simp add: unat_div unat_sub q PAGE_SIZE_def device_bases)
  have low: "(p :: nat) div 512 \<in> init_blocks" if "p < 0x3F800" for p
  proof -
    have "p div 512 < 508" using that by (intro less_mult_imp_div_less) simp
    then show ?thesis by (simp add: init_blocks_def)
  qed
  have blk: "p div 512 \<in> init_blocks" if "512 * b \<le> p" "p < 512 * b + 512" "b \<in> init_blocks" for p b :: nat
    using block_index [OF that(1,2)] that(3) by simp
  note step = map_identity_ready [OF _ finite_init_blocks]
  define s1 where "s1 = snd (map_pages 0 0 0x80000 PTE_NORMAL_RW s)"
  have c1: "unat (0 :: u64) + 4096 * 0x80 \<le> 2 ^ 39" "page_aligned (0 :: u64)" by simp_all
  have "(unat (0 :: u64) div 4096 + i) div 512 \<in> init_blocks" if "i < 0x80" for i
    using that by (intro low) simp
  note m1 = step [OF r device_bases(10) c1 this, where flags = PTE_NORMAL_RW, folded s1_def]
  define s2 where "s2 = snd (map_pages 0x80000 0x80000 (st - 0x80000) PTE_NORMAL_RW s1)"
  have c2: "unat (0x80000 :: u64) + 4096 * (q - 0x80) \<le> 2 ^ 39" "page_aligned (0x80000 :: u64)"
    using q_le by simp_all
  have "(unat (0x80000 :: u64) div 4096 + i) div 512 \<in> init_blocks" if "i < q - 0x80" for i
    using that q_le by (intro low) simp
  note m2 = step [OF m1(1) n2 c2 this, where flags = PTE_NORMAL_RW, folded s2_def]
  define s3 where "s3 = snd (map_pages st st (PHYS_MEM_END - st) PTE_NORMAL_RW s2)"
  have c3: "unat st + 4096 * (0x3F800 - q) \<le> 2 ^ 39" using q_le by (simp add: q)
  have "(unat st div 4096 + i) div 512 \<in> init_blocks" if "i < 0x3F800 - q" for i
    using that q_le by (intro low) (simp add: q)
  note m3 = step [OF m2(1) n3 c3 start(2) this, where flags = PTE_NORMAL_RW, folded s3_def]
  define s4 where "s4 = snd (map_pages PERIPHERAL_BASE PERIPHERAL_BASE 0x410000 PTE_DEVICE_RW s3)"
  have "(unat PERIPHERAL_BASE div 4096 + i) div 512 \<in> init_blocks" if "i < 0x410" for i
  proof -
    consider "i < 512" | "512 \<le> i" "i < 1024" | "1024 \<le> i" by linarith
    then show ?thesis
    proof cases
      case 1
      then show ?thesis by (intro blk [where b = 57344]) (simp_all add: device_bases init_blocks_def)
    next
      case 2
      then show ?thesis by (intro blk [where b = 57345]) (simp_all add: device_bases init_blocks_def)
    next
      case 3
      then show ?thesis
        using that by (intro blk [where b = 57346]) (simp_all add: device_bases init_blocks_def)
    qed
  qed
  note m4 = step [OF m3(1) device_bases(8) _ _ this, where flags = PTE_DEVICE_RW, folded s4_def,
      unfolded device_bases, simplified]
  define s5 where "s5 = snd (map_pages LOCAL_PERIPHERAL_BASE LOCAL_PERIPHERAL_BASE 0x8000 PTE_DEVICE_RW s4)"
  have "(unat LOCAL_PERIPHERAL_BASE div 4096 + i) div 512 \<in> init_blocks" if "i < 8" for i
    using that by (intro blk [where b = 33791]) (simp_all add: device_bases init_blocks_def)
  note m5 = step [OF m4(1) device_bases(9) _ _ this, where flags = PTE_DEVICE_RW, folded s5_def,
      unfolded device_bases, simplified]
  define s6 where "s6 = snd (map_pages MAILBOX_PAGE_BASE MAILBOX_PAGE_BASE PAGE_SIZE PTE_DEVICE_RW s5)"
  have "(unat MAILBOX_PAGE_BASE div 4096 + i) div 512 \<in> init_blocks" if "i < 1" for i
    using that by (intro blk [where b = 33760]) (simp_all add: device_bases init_blocks_def)
  note m6 = step [OF m5(1) device_bases(7) _ _ this, where flags = PTE_DEVICE_RW, folded s6_def,
      unfolded device_bases, simplified]
  define s7 where "s7 = snd (map_pages SDIO0_BASE SDIO0_BASE PAGE_SIZE PTE_DEVICE_RW s6)"
  have "(unat SDIO0_BASE div 4096 + i) div 512 \<in> init_blocks" if "i < 1" for i
    using that by (intro blk [where b = 32775]) (simp_all add: device_bases init_blocks_def)
  note m7 = step [OF m6(1) device_bases(7) _ _ this, where flags = PTE_DEVICE_RW, folded s7_def,
      unfolded device_bases, simplified]
  have t: "t = snd (map_pages PINCTRL_PAGE_BASE PINCTRL_PAGE_BASE PAGE_SIZE PTE_DEVICE_RW s7)"
    using start(1) m1(2) m2(2) unfolding t_def map_regions_def Let_def s1_def [symmetric]
    by (simp only: s2_def [symmetric] s3_def [symmetric] s4_def [symmetric] s5_def [symmetric]
        s6_def [symmetric] s7_def [symmetric])
  have "(unat PINCTRL_PAGE_BASE div 4096 + i) div 512 \<in> init_blocks" if "i < 1" for i
    using that by (intro blk [where b = 33770]) (simp_all add: device_bases init_blocks_def)
  note m8 = step [OF m7(1) device_bases(7) _ _ this, where flags = PTE_DEVICE_RW, folded t,
      unfolded device_bases, simplified]
  show "pt_inv t" using m8(1) by (simp add: ready_def)
  show "inp t = inp s" by (simp only: m1(3) m2(3) m3(3) m4(3) m5(3) m6(3) m7(3) m8(3))
  show "desc_at t (coord a) =
      (if unat a < 0x3F800000 then page_base a OR PTE_NORMAL_RW OR 3
       else if device_page a then page_base a OR PTE_DEVICE_RW OR 3 else 0)" if a: "unat a < 2 ^ 39"
  proof (cases "unat a < 0x3F800000")
    case True
    then have dev: "\<not> in_region PERIPHERAL_BASE 4259840 a" "\<not> in_region LOCAL_PERIPHERAL_BASE 32768 a"
      "\<not> in_region MAILBOX_PAGE_BASE 4096 a" "\<not> in_region SDIO0_BASE 4096 a"
      "\<not> in_region PINCTRL_PAGE_BASE 4096 a"
      by (simp_all add: in_region_def device_bases)
    have "desc_at t (coord a) = desc_at s3 (coord a)"
      using a dev m4(4) m5(4) m6(4) m7(4) m8(4) by simp
    moreover have "4096 * (q - 0x80) + 0x80000 = unat st" "unat st + 4096 * (0x3F800 - q) = 0x3F800000"
      using q_le by (simp_all add: q)
    then have "in_region 0 (4096 * 0x80) a \<or> in_region 0x80000 (4096 * (q - 0x80)) a
        \<or> in_region st (4096 * (0x3F800 - q)) a"
      using True unfolding in_region_def e80 by auto
    ultimately show ?thesis
      using True m1(4) [of a] m2(4) [of a] m3(4) [of a] a by (auto split: if_splits)
  next
    case False
    have "unat (0x80000 :: u64) + 4096 * (q - 0x80) = unat st" "unat st + 4096 * (0x3F800 - q) = 0x3F800000"
      using q_le by (simp_all add: q)
    then have "\<not> in_region 0 (4096 * 0x80) a" "\<not> in_region 0x80000 (4096 * (q - 0x80)) a"
        "\<not> in_region st (4096 * (0x3F800 - q)) a"
      using False start(4) unfolding in_region_def by auto
    then have "desc_at s3 (coord a) = 0"
      using m1(4) [of a] m2(4) [of a] m3(4) [of a] a by (simp add: none)
    with False a m4(4) m5(4) m6(4) m7(4) m8(4) show ?thesis by (auto simp: device_page_def)
  qed
qed

text \<open>The free frames that initialisation leaves for the tables.\<close>

lemma pmm_init_frames:
  fixes s :: "'a pmm_scheme"
  assumes "0x80000 \<le> unat kend" "unat kend \<le> 0x3F000000"
  defines "t \<equiv> pmm_init kend s"
  shows "2000 \<le> unat (total_frames t)" and "0x80000 \<le> unat (phys_mem_start t)"
    and "page_aligned (phys_mem_start t)" and "unat (phys_mem_start t) \<le> 0x3F800000"
proof -
  have k: "unat kend \<le> 0x3F7FF000" using assms(2) by simp
  note n = pmm_init_numbers [OF k]
  note g = pmm_init_geometry [of kend s, folded t_def]
  have "pmm_inv t" unfolding t_def by (rule pmm_init_inv [OF k])
  then have geom: "pmm_geom t" by (rule pmm_invD)
  then show "page_aligned (phys_mem_start t)" by (simp add: pmm_geom_def)
  define b where "b = unat (round_up kend PAGE_SIZE)"
  define st where "st = unat (phys_mem_start t)"
  have b: "b = (unat kend + 4095) div 4096 * 4096" using n(1) by (simp add: b_def)
  have b_le: "b \<le> unat kend + 4095" "unat kend \<le> b"
    using div_mult_mod_eq [of "unat kend + 4095" 4096] mod_less_divisor [of 4096 "unat kend + 4095"]
    unfolding b by linarith+
  define y where "y = ((0x3F800000 - b) div 4096 + 63) div 64 * 8"
  have st: "st = (b + y + 4095) div 4096 * 4096"
    using n(3) unfolding n(2) by (simp only: st_def g(1) b_def y_def)
  have "(0x3F800000 - b) div 4096 \<le> 260096" using div_le_mono [of "0x3F800000 - b" "0x3F800000" 4096] by simp
  then have "((0x3F800000 - b) div 4096 + 63) div 64 \<le> 4064"
    using div_le_mono [of "(0x3F800000 - b) div 4096 + 63" "260159" 64] by simp
  then have y: "y \<le> 32512" by (simp add: y_def)
  have s: "st \<le> b + y + 4095" "b + y \<le> st"
    using div_mult_mod_eq [of "b + y + 4095" 4096] mod_less_divisor [of 4096 "b + y + 4095"]
    unfolding st by linarith+
  have tot: "st + 4096 * unat (total_frames t) = 0x3F800000"
    using geom by (simp add: pmm_geom_def st_def device_bases)
  show "2000 \<le> unat (total_frames t)" "0x80000 \<le> unat (phys_mem_start t)" "unat (phys_mem_start t) \<le> 0x3F800000"
    using tot s y b_le assms(1,2) by (simp_all flip: st_def)
qed

lemma zero_table_fields:
  "phys_mem_start (zero_table a s) = phys_mem_start s" "inp (zero_table a s) = inp s"
proof -
  have "phys_mem_start (fold (\<lambda>i. store a i 0) is s) = phys_mem_start s
    \<and> inp (fold (\<lambda>i. store a i 0) is s) = inp s" for "is"
    by (induction "is" arbitrary: s) auto
  then show "phys_mem_start (zero_table a s) = phys_mem_start s" "inp (zero_table a s) = inp s"
    by (simp_all add: zero_table_def)
qed

lemma ready_emit [simp]: "ready P (emit es s) = ready P s"
proof -
  have "pt_inv (emit es s) = pt_inv s" by (simp add: pt_inv_def)
  then show ?thesis by (simp add: ready_def missing_def miss2_def miss3_def)
qed

lemma fold_store_inp: "inp (fold (\<lambda>i s. store (bitmap s) i 0 s) js s) = inp s"
  by (induction js arbitrary: s) auto

lemma pmm_init_inp: "inp (pmm_init kend s) = inp s"
  by (simp add: pmm_init_def Let_def fold_store_inp)

text \<open>The environment and the MMU flag are no part of the page tables.\<close>

lemma pt_environment [simp]:
  "pt_inv (s\<lparr>inp := vs\<rparr>) = pt_inv s" "desc_at (s\<lparr>inp := vs\<rparr>) = desc_at s"
  "pt_inv (s\<lparr>MMU_ACTIVE := b\<rparr>) = pt_inv s" "desc_at (s\<lparr>MMU_ACTIVE := b\<rparr>) = desc_at s"
proof -
  have u: "frame_used i (s\<lparr>inp := vs\<rparr>) = frame_used i s"
    "frame_used i (s\<lparr>MMU_ACTIVE := b\<rparr>) = frame_used i s" for i by (simp_all add: frame_used_def load_def)
  have m: "frame_addr (s\<lparr>inp := vs\<rparr>) = frame_addr s" "nwords (s\<lparr>inp := vs\<rparr>) = nwords s"
    "frame_addr (s\<lparr>MMU_ACTIVE := b\<rparr>) = frame_addr s" "nwords (s\<lparr>MMU_ACTIVE := b\<rparr>) = nwords s"
    by (simp_all add: frame_addr_def nwords_def fun_eq_iff)
  have e: "ent (s\<lparr>inp := vs\<rparr>) = ent s" "ent (s\<lparr>MMU_ACTIVE := b\<rparr>) = ent s"
    by (simp_all add: ent_def managed_frames_def m load_def fun_eq_iff)
  have l: "live (s\<lparr>inp := vs\<rparr>) = live s" "live (s\<lparr>MMU_ACTIVE := b\<rparr>) = live s"
    "pmm_inv (s\<lparr>inp := vs\<rparr>) = pmm_inv s" "pmm_inv (s\<lparr>MMU_ACTIVE := b\<rparr>) = pmm_inv s"
    by (simp_all add: live_def free_frames_def managed_frames_def free_set_def pmm_inv_def pmm_geom_def u m)
  show "pt_inv (s\<lparr>inp := vs\<rparr>) = pt_inv s" "desc_at (s\<lparr>inp := vs\<rparr>) = desc_at s"
    "pt_inv (s\<lparr>MMU_ACTIVE := b\<rparr>) = pt_inv s" "desc_at (s\<lparr>MMU_ACTIVE := b\<rparr>) = desc_at s"
    by (simp_all add: pt_inv_def desc_at_def pte_def e l)
qed

lemma pt_inv_emit [simp]: "pt_inv (emit es s) = pt_inv s"
  by (simp add: pt_inv_def)

text \<open>The state in which \<open>mmu_init\<close> begins to map.\<close>

lemma mmu_init_root:
  assumes k: "0x80000 \<le> unat kend" "unat kend \<le> 0x3F000000"
    and al: "alloc_frame (pmm_init kend s) = (a, t)"
  defines "u \<equiv> install_root a t"
  shows "a \<noteq> 0" and "ready (blocks init_blocks) u" and "desc_at u = (\<lambda>_. 0)" and "inp u = inp s"
    and "page_aligned (phys_mem_start u)" and "0x80000 \<le> unat (phys_mem_start u)"
    and "unat (phys_mem_start u) \<le> 0x3F800000"
proof -
  let ?p = "pmm_init kend s"
  have k': "unat kend \<le> 0x3F7FF000" using k by simp
  note p = pmm_init_inv [OF k', of s] and fr = pmm_init_frames [OF k, of s]
  have "inj_on (frame_addr ?p) {..<unat (total_frames ?p)}"
    using pmm_invD [OF p(1)] by (intro inj_onI) (simp add: frame_addr_inj)
  then have c: "card (free_frames ?p) = unat (total_frames ?p)"
    by (simp add: free_frames_def p(2) card_image)
  then have "free_frames ?p \<noteq> {}" using fr(1) by auto
  then show nz: "a \<noteq> 0" using pmm_alloc.alloc_null [OF p(1)] al by auto
  note r = install_root [OF p(1) al nz, folded u_def]
  show "desc_at u = (\<lambda>_. 0)" by (rule r)
  have "card (free_frames u) = unat (total_frames ?p) - 1"
    unfolding r(3) using c r(7) free_frames_finite by (simp add: card_Diff_singleton)
  then have "missing u (blocks init_blocks) \<le> card (free_frames u)"
    using missing_blocks [OF finite_init_blocks, of u] card_init_blocks fr(1) by linarith
  then show "ready (blocks init_blocks) u" using r(1) by (simp add: ready_def)
  note ab = alloc_frame_abs [OF p(1) al]
  have "phys_mem_start u = phys_mem_start ?p"
    using ab(5) by (simp add: u_def install_root_def zero_table_fields)
  then show "page_aligned (phys_mem_start u)" "0x80000 \<le> unat (phys_mem_start u)"
    "unat (phys_mem_start u) \<le> 0x3F800000" using fr by simp_all
  show "inp u = inp s" using ab(6) by (simp add: u_def install_root_def zero_table_fields pmm_init_inp)
qed

lemma translate_identity:
  assumes inv: "pt_inv s" and a: "unat a < 2 ^ 39" and flags: "flags AND ADDR_MASK = 0"
    and d: "desc_at s (coord a) = page_base a OR flags OR 3"
  shows "fst (translate a s) = a"
proof -
  have u: "unat (page_base a) = unat a div 2 ^ 12 * 2 ^ 12"
    by (simp only: page_base_def unat_and_not_mask)
  have al: "page_aligned (page_base a)" by (simp add: u)
  have "unat (page_base a) \<le> unat a" unfolding u by (rule div_times_less_eq_dividend)
  then have lt: "unat (page_base a) < 2 ^ 48" using a by simp
  have pd: "page_desc (page_base a) flags 0 = page_base a OR flags OR 3"
    by (simp add: page_desc_def)
  have "desc_at s (coord a) \<noteq> 0" "desc_at s (coord a) AND ADDR_MASK = page_base a"
    unfolding d pd [symmetric] using page_desc_addr [of "page_base a" 0 flags] al lt flags
    by (simp_all add: page_desc_ok(2))
  then show ?thesis
    using or_offset [OF al, of a] page_base_split [of a] by (simp add: translate_eq [OF inv])
qed

lemma mmu_init_ready:
  assumes "0x80000 \<le> unat kernel_end" and "unat kernel_end \<le> 0x3F000000" and "inp s = sctlr # vs"
  shows "\<exists>s'. mmu_init kernel_end s = Some s' \<and> pt_inv s' \<and> MMU_ACTIVE s' \<and> inp s' = vs
    \<and> (\<forall>a. unat a < 2 ^ 39 \<longrightarrow>
         desc_at s' (coord a) =
           (if unat a < 0x3F800000 then page_base a OR PTE_NORMAL_RW OR 3
            else if device_page a then page_base a OR PTE_DEVICE_RW OR 3 else 0)
       \<and> fst (translate a s') = (if unat a < 0x3F800000 \<or> device_page a then a else NOT 0))"
proof -
  define s1 where "s1 = msr TCR_EL1 TCR_VALUE (msr MAIR_EL1 MAIR_VALUE s)"
  obtain a t where al: "alloc_frame (pmm_init kernel_end s1) = (a, t)" by fastforce
  note r = mmu_init_root [OF assms(1,2) al]
  define u where "u = msr TTBR0_EL1 a (isb (dsb_ish (emit [Tlbi_vmalle1] (dsb_ish (install_root a t)))))"
  have u_emit: "u = emit [Dsb_ish, Tlbi_vmalle1, Dsb_ish, Isb, Msr TTBR0_EL1 a] (install_root a t)"
    by (simp add: u_def msr_def isb_def dsb_ish_def)
  have ru: "ready (blocks init_blocks) u" "desc_at u = (\<lambda>_. 0)" using r by (simp_all add: u_emit)
  have pu: "page_aligned (phys_mem_start u)" "0x80000 \<le> unat (phys_mem_start u)"
    "unat (phys_mem_start u) \<le> 0x3F800000" using r by (simp_all add: u_emit)
  note m = map_regions_step [OF ru refl pu]
  have "inp (map_regions u) = sctlr # vs"
    using m(2) r(4) assms(3) by (simp add: u_emit s1_def msr_def)
  then have run: "mmu_init kernel_end s = Some
      ((emit [Mrs SCTLR_EL1 sctlr, Msr SCTLR_EL1 (sctlr OR (push_bit 0 1 OR push_bit 2 1 OR push_bit 12 1)), Isb]
          ((map_regions u)\<lparr>inp := vs\<rparr>))\<lparr>MMU_ACTIVE := True\<rparr>)"
    (is "_ = Some ?s'")
    unfolding mmu_init_def Let_def s1_def [symmetric] al prod.case u_def [symmetric] if_not_P [OF r(1)]
    by (simp add: mrs_def env_read_def msr_def isb_def)
  have inv: "pt_inv ?s'" and d: "desc_at ?s' = desc_at (map_regions u)"
    using m(1) by simp_all
  have fl: "PTE_NORMAL_RW AND ADDR_MASK = 0" "PTE_DEVICE_RW AND ADDR_MASK = 0"
    by (simp_all add: board ADDR_MASK_def)
  have "fst (translate a ?s') = (if unat a < 0x3F800000 \<or> device_page a then a else NOT 0)"
    if a: "unat a < 2 ^ 39" for a
    using translate_identity [OF inv a fl(1)] translate_identity [OF inv a fl(2)] m(3) [OF a]
      translate_eq [OF inv, of a] unfolding d by (auto split: if_splits)
  with run inv m(3) show ?thesis unfolding d [symmetric] by auto
qed

text \<open>C5: \<open>mmu_init\<close> returns with the MMU on and the kernel identity-mapped, for every kernel that
  ends between 512 KiB and 1008 MiB: all of RAM below \<open>PHYS_MEM_END\<close> is normal memory, the pages
  of the five device windows are device memory, \<open>translate\<close> is the identity on both and fails on
  every other address of the 39-bit space. None of the ignored results of \<open>map\<close> is false.\<close>

theorem mmu_init_identity:
  assumes "0x80000 \<le> unat kernel_end" and "unat kernel_end \<le> 0x3F000000" and "inp s = sctlr # vs"
  shows "\<exists>s'. mmu_init kernel_end s = Some s' \<and> pt_inv s' \<and> MMU_ACTIVE s'
    \<and> (\<forall>a. unat a < 2 ^ 39 \<longrightarrow>
         desc_at s' (coord a) =
           (if unat a < 0x3F800000 then page_base a OR PTE_NORMAL_RW OR 3
            else if device_page a then page_base a OR PTE_DEVICE_RW OR 3 else 0)
       \<and> fst (translate a s') = (if unat a < 0x3F800000 \<or> device_page a then a else NOT 0))"
  using mmu_init_ready [OF assms] by blast

theorem mmu_init_identity_witness:
  "\<exists>s'. mmu_init 0x200000 (mmu_ram0\<lparr>inp := [0x30D00800]\<rparr>) = Some s' \<and> pt_inv s' \<and>
     fst (translate UART0_DR s') = UART0_DR"
proof -
  have "inp (mmu_ram0\<lparr>inp := [0x30D00800]\<rparr>) = 0x30D00800 # []" by simp
  from mmu_init_identity [of "0x200000", OF _ _ this] obtain s' where
    "mmu_init 0x200000 (mmu_ram0\<lparr>inp := [0x30D00800]\<rparr>) = Some s'" "pt_inv s'"
    "\<forall>a. unat a < 2 ^ 39 \<longrightarrow> fst (translate a s') = (if unat a < 0x3F800000 \<or> device_page a then a else NOT 0)"
    by auto
  moreover have "unat UART0_DR < 2 ^ 39" "device_page UART0_DR"
    by (simp_all add: board device_page_def in_region_def)
  ultimately show ?thesis by auto
qed

end
