(* ===== verification/Window.thy ===== *)
theory Window
  imports Mmu_Init
begin

text \<open>
  Memory that is allocated and mapped page by page: the facts that the kernel heap, the newlib
  heap and the DMA buffers share. \<open>grown\<close> is what allocation and mapping may change, \<open>backed\<close>
  says that a page is mapped to a frame of its own, and \<open>window\<close> that a run of pages is.
  No code is modelled here.
\<close>

section \<open>The page tables do not see the other components\<close>

lemma same_tables:
  fixes s :: "'a mmu_scheme" and t :: "'b mmu_scheme"
  assumes "mem t = mem s" "bitmap t = bitmap s" "phys_mem_start t = phys_mem_start s"
    "total_frames t = total_frames s" "l1_table t = l1_table s"
  shows "pt_inv t = pt_inv s" "desc_at t = desc_at s" "tables t = tables s" "owned t = owned s"
    "free_frames t = free_frames s" "managed_frames t = managed_frames s" "free_set t = free_set s"
    "pmm_inv t = pmm_inv s" "frame_addr t = frame_addr s" "missing t P = missing s P"
    "bitmap_region t = bitmap_region s" "nwords t = nwords s" "run_free n t = run_free n s"
proof -
  have l: "load b i t = load b i s" for b i by (simp add: load_def assms(1))
  then have u: "frame_used i t = frame_used i s" for i by (simp add: frame_used_def assms)
  show n: "nwords t = nwords s" and fs: "free_set t = free_set s"
    by (simp_all add: nwords_def free_set_def u assms)
  show fa: "frame_addr t = frame_addr s" by (simp add: frame_addr_def fun_eq_iff assms)
  show pi: "pmm_inv t = pmm_inv s" by (simp add: pmm_inv_def pmm_geom_def u n assms)
  show m: "managed_frames t = managed_frames s" and ff: "free_frames t = free_frames s"
    by (simp_all add: managed_frames_def free_frames_def fa fs assms)
  have e: "ent t = ent s" by (simp add: ent_def m l fun_eq_iff)
  have v: "live t = live s" by (simp add: live_def m ff)
  show "pt_inv t = pt_inv s" "desc_at t = desc_at s" and tb: "tables t = tables s"
    by (simp_all add: pt_inv_def desc_at_def pte_def tables_def e v pi assms(5))
  show "owned t = owned s" "missing t P = missing s P" "bitmap_region t = bitmap_region s"
    by (simp_all add: owned_def tb ff missing_def miss2_def miss3_def e n bitmap_region_def assms)
  show "run_free n t = run_free n s" by (simp add: run_free_def u assms fun_eq_iff)
qed

lemma pt_daif [simp]:
  "pt_inv (s\<lparr>daif := d\<rparr>) = pt_inv s" "desc_at (s\<lparr>daif := d\<rparr>) = desc_at s" "owned (s\<lparr>daif := d\<rparr>) = owned s"
  "free_frames (s\<lparr>daif := d\<rparr>) = free_frames s" "managed_frames (s\<lparr>daif := d\<rparr>) = managed_frames s"
  "missing (s\<lparr>daif := d\<rparr>) P = missing s P" "bitmap_region (s\<lparr>daif := d\<rparr>) = bitmap_region s"
  by (simp_all add: same_tables [of "s\<lparr>daif := d\<rparr>" s])

lemma pt_emit [simp]:
  "desc_at (emit es s) = desc_at s" "owned (emit es s) = owned s"
  "free_frames (emit es s) = free_frames s" "managed_frames (emit es s) = managed_frames s"
  "missing (emit es s) P = missing s P" "bitmap_region (emit es s) = bitmap_region s"
  by (simp_all add: same_tables [of "emit es s" s])

lemma tables_cong: "ent t = ent s \<Longrightarrow> l1_table t = l1_table s \<Longrightarrow> tables t = tables s"
  by (simp add: tables_def)

lemma desc_cong: "ent t = ent s \<Longrightarrow> l1_table t = l1_table s \<Longrightarrow> desc_at t = desc_at s"
  by (simp add: desc_at_def pte_def)

section \<open>Allocation and mapping of frames\<close>

definition grown_by :: "lock set \<Rightarrow> 'a mmu_scheme \<Rightarrow> 'a mmu_scheme \<Rightarrow> bool" where
  "grown_by L s t \<longleftrightarrow> pt_inv t \<and> managed_frames t = managed_frames s \<and> l1_table t = l1_table s
     \<and> bitmap_region t = bitmap_region s
     \<and> inp t = inp s \<and> daif t = daif s \<and> MMU_ACTIVE t = MMU_ACTIVE s \<and> owned t \<subseteq> owned s
     \<and> (\<forall>x. x \<notin> bitmap_region s \<and> x \<notin> words_of (owned s) \<longrightarrow> mem t x = mem s x)
     \<and> (\<exists>es. trace t = trace s @ es \<and> balanced L es)"

abbreviation grown :: "'a mmu_scheme \<Rightarrow> 'a mmu_scheme \<Rightarrow> bool" where
  "grown \<equiv> grown_by {Mmu_lock, Pmm_lock}"

lemma grownD:
  assumes "grown_by L s t"
  shows "pt_inv t" "managed_frames t = managed_frames s" "l1_table t = l1_table s"
    "bitmap_region t = bitmap_region s" "inp t = inp s" "daif t = daif s"
    "MMU_ACTIVE t = MMU_ACTIVE s" "owned t \<subseteq> owned s"
    "x \<notin> bitmap_region s \<Longrightarrow> x \<notin> words_of (owned s) \<Longrightarrow> mem t x = mem s x"
    "\<exists>es. trace t = trace s @ es \<and> balanced L es"
  using assms by (simp_all add: grown_by_def)

lemma grown_refl: "pt_inv s \<Longrightarrow> grown_by L s s"
  by (auto simp: grown_by_def)

lemma grown_trans: "grown_by L s t \<Longrightarrow> grown_by L t u \<Longrightarrow> grown_by L s u"
proof -
  assume a: "grown_by L s t" "grown_by L t u"
  note d = grownD [OF a(1)] grownD [OF a(2)]
  have "mem u x = mem s x" if "x \<notin> bitmap_region s" "x \<notin> words_of (owned s)" for x
    using d(9,19) [of x] d(4,8) that words_of_mono [OF d(8)] by auto
  moreover have "\<exists>es. trace u = trace s @ es \<and> balanced L es"
    using d(10,20) balanced_append by fastforce
  ultimately show ?thesis using d by (auto simp: grown_by_def)
qed

lemma grown_mono: "grown_by L s t \<Longrightarrow> L \<subseteq> L' \<Longrightarrow> grown_by L' s t"
  unfolding grown_by_def using balanced_mono by blast

lemma grown_emit: "pt_inv s \<Longrightarrow> balanced L es \<Longrightarrow> grown_by L s (emit es s)"
  by (simp add: grown_by_def)

text \<open>Such a step between \<open>spin_lock\<close> and \<open>spin_unlock\<close> of another lock.\<close>

lemma lock_state:
  assumes "spin_lock l s = (fl, s1)"
  shows "s1 = emit (if MMU_ACTIVE s then [Acquire l] else []) (s\<lparr>daif := daif s OR 0x3C0\<rparr>)" "fl = daif s"
  using assms by (auto simp: spin_lock_def Let_def)

lemma unlock_state:
  "spin_unlock l fl s = (emit (if MMU_ACTIVE s then [Release l] else []) s)\<lparr>daif := fl\<rparr>"
  by (simp add: spin_unlock_def Let_def)

lemma grown_locked:
  assumes lk: "spin_lock l s = (fl, s1)" and g: "grown_by L s1 s2" and l: "l \<notin> L"
  shows "grown_by (insert l L) s (spin_unlock l fl s2)"
proof -
  note s1 = lock_state [OF lk]
  note d = grownD [OF g]
  obtain es where es: "trace s2 = trace s1 @ es" "balanced L es" using d(10) by blast
  have "\<exists>es. trace (spin_unlock l fl s2) = trace s @ es \<and> balanced (insert l L) es"
  proof (cases "MMU_ACTIVE s")
    case True
    then have "trace (spin_unlock l fl s2) = trace s @ (Acquire l # es @ [Release l])"
      using es(1) d(7) by (simp add: unlock_state s1)
    with balanced_lock [OF es(2) l] show ?thesis by blast
  next
    case False
    then have "trace (spin_unlock l fl s2) = trace s @ es" using es(1) d(7) by (simp add: unlock_state s1)
    with balanced_mono [OF es(2), of "insert l L"] show ?thesis by auto
  qed
  moreover have "mem s2 x = mem s x" if "x \<notin> bitmap_region s" "x \<notin> words_of (owned s)" for x
    using d(9) [of x] that by (simp add: s1)
  ultimately show ?thesis using d by (simp add: grown_by_def unlock_state s1)
qed

lemma grown_map:
  assumes "pt_inv s" "map_pages va pa sz flags s = (ok, t)" "unat (sz div PAGE_SIZE) \<le> 2 ^ 27"
  shows "grown s t"
  using mmu_stepD [OF map_pages_step(1) [OF assms]] by (auto simp: grown_by_def)

lemma alloc_frame_mmu:
  assumes inv: "pt_inv s" and al: "alloc_frame s = (f, t)"
  shows "grown s t" "desc_at t = desc_at s" "mmu.more t = mmu.more s" "missing t P = missing s P"
    and "f = 0 \<Longrightarrow> free_frames s = {} \<and> free_frames t = {}"
    and "f \<noteq> 0 \<Longrightarrow> f \<in> free_frames s \<and> free_frames t = free_frames s - {f} \<and> owned t = owned s - {f}"
proof -
  note D = pt_invD [OF inv]
  note pt = alloc_frame_pt [OF D(1) al] and ab = alloc_frame_abs [OF D(1) al]
  have tab: "tables t = tables s" by (rule tables_cong [OF pt(1,2)])
  show f: "f \<noteq> 0 \<Longrightarrow> f \<in> free_frames s \<and> free_frames t = free_frames s - {f} \<and> owned t = owned s - {f}"
    using pt(5) D(6) by (auto simp: owned_def tab)
  show z: "f = 0 \<Longrightarrow> free_frames s = {} \<and> free_frames t = {}" using pt(4) by simp
  show "desc_at t = desc_at s" by (rule desc_cong [OF pt(1,2)])
  show "mmu.more t = mmu.more s" by (rule pt)
  show "missing t P = missing s P" by (simp add: missing_def miss2_def miss3_def pt(1,2))
  have nz: "0 \<notin> live s" by (rule wf_live [OF D(3)])
  have live: "live s \<subseteq> live t \<and> 0 \<notin> live t"
    using nz pt(4,5) by (cases "f = 0") (auto simp: live_def pt(3))
  have "wf_pt (l1_table t) (ent t) (live t)"
    unfolding pt(1,2)
  proof (rule wf_pt_mono [OF D(3)])
    show "tree (l1_table s) (ent s) \<subseteq> live t" using D(4) live by (auto simp: tables_def)
    show "0 \<notin> live t" using live by simp
  qed
  with ab(1) have i: "pt_inv t" by (simp add: pt_inv_def)
  have "owned t \<subseteq> owned s" using pt(4) f by (cases "f = 0") (auto simp: owned_def tab)
  moreover have "bitmap_region t = bitmap_region s" using ab by (simp add: bitmap_region_def nwords_def)
  ultimately show "grown s t"
    using i pt ab balanced_mono [OF balanced_with_lock [of Pmm_lock s], of "{Mmu_lock, Pmm_lock}"]
    by (auto simp: grown_by_def)
qed

text \<open>A page given back with \<open>free_frame\<close> is free again; nothing else changes.\<close>

lemma free_frame_mmu:
  assumes inv: "pt_inv s" and f: "f \<in> managed_frames s" "f \<notin> tables s"
  defines "t \<equiv> free_frame f s"
  shows "pt_inv t" "desc_at t = desc_at s" "mmu.more t = mmu.more s" "missing t P = missing s P"
    "managed_frames t = managed_frames s" "free_frames t = insert f (free_frames s)"
    "owned t = insert f (owned s)" "tables t = tables s" "inp t = inp s" "daif t = daif s"
    "MMU_ACTIVE t = MMU_ACTIVE s" "l1_table t = l1_table s" "bitmap_region t = bitmap_region s"
    "trace t = trace s @ with_lock Pmm_lock s"
    and "x \<notin> bitmap_region s \<Longrightarrow> mem t x = mem s x"
proof -
  note D = pt_invD [OF inv]
  note pt = free_frame_pt [OF D(1) f(1), folded t_def] and ab = free_frame_abs(1-8,10) [OF D(1), where a = f, folded t_def]
  show tab: "tables t = tables s" by (rule tables_cong [OF pt(1,2)])
  show "desc_at t = desc_at s" by (rule desc_cong [OF pt(1,2)])
  show "missing t P = missing s P" by (simp add: missing_def miss2_def miss3_def pt(1,2))
  show "owned t = insert f (owned s)" by (simp add: owned_def tab pt)
  have "wf_pt (l1_table t) (ent t) (live t)"
    unfolding pt(1,2)
  proof (rule wf_pt_mono [OF D(3)])
    show "tree (l1_table s) (ent s) \<subseteq> live t" using D(4) f(2) by (auto simp: tables_def pt(5))
    show "0 \<notin> live t" using wf_live [OF D(3)] by (simp add: pt(5))
  qed
  with ab(1) show "pt_inv t" by (simp add: pt_inv_def)
  show "mmu.more t = mmu.more s" "managed_frames t = managed_frames s"
    "free_frames t = insert f (free_frames s)" "l1_table t = l1_table s" by (rule pt)+
  show "inp t = inp s" "daif t = daif s" "MMU_ACTIVE t = MMU_ACTIVE s" by (rule ab)+
  show "bitmap_region t = bitmap_region s" using ab by (simp add: bitmap_region_def nwords_def)
  show "x \<notin> bitmap_region s \<Longrightarrow> mem t x = mem s x" by (rule ab)
  obtain p where p: "f = frame_addr s p" "p < unat (total_frames s)" using f(1) by (rule managed_frameE)
  show "trace t = trace s @ with_lock Pmm_lock s"
    using free_frame_abs(9) [OF D(1) p(2)] by (simp add: t_def p(1))
qed

text \<open>A contiguous run of frames, taken and given back.\<close>

lemma page_frame_addr: "page (frame_addr s i) j = frame_addr s (i + j)"
  by (simp add: page_def frame_addr_def distrib_right)

lemma alloc_frames_mmu:
  assumes inv: "pt_inv s" and al: "alloc_frames c s = (a, t)"
  defines "run \<equiv> page a ` {..<unat c}"
  shows "grown s t" "desc_at t = desc_at s" "mmu.more t = mmu.more s" "missing t P = missing s P"
    and "a = 0 \<Longrightarrow> free_frames t = free_frames s \<and> owned t = owned s"
    and "a \<noteq> 0 \<Longrightarrow> c \<noteq> 0 \<and> run \<subseteq> free_frames s \<and> free_frames t = free_frames s - run \<and> owned t = owned s - run"
    and "a \<noteq> 0 \<Longrightarrow> page_aligned a \<and> unat a + 4096 * unat c \<le> 0x3F800000 \<and> card run = unat c"
    and "a = 0 \<Longrightarrow> c \<noteq> 0 \<Longrightarrow> first_run (unat c) s = None"
proof -
  note D = pt_invD [OF inv]
  note ab = alloc_frames_abs [OF D(1) al]
  show "a = 0 \<Longrightarrow> c \<noteq> 0 \<Longrightarrow> first_run (unat c) s = None" by (rule ab)
  have m: "managed_frames t = managed_frames s" using ab by (simp add: managed_frames_def)
  have e: "ent t = ent s" by (rule ent_cong [OF D(2) m]) (rule ab)
  have l: "l1_table t = l1_table s" "mmu.more t = mmu.more s"
  proof -
    have f: "l1_table (fold mark_used js s) = l1_table s \<and> mmu.more (fold mark_used js s) = mmu.more s" for js
      by (induction js arbitrary: s) simp_all
    show "l1_table t = l1_table s" "mmu.more t = mmu.more s"
      using al alloc_frames_eq [OF D(1), of c] f
      by (cases "c = 0"; auto simp: alloc_frames_def split: option.splits)+
  qed
  then show "mmu.more t = mmu.more s" by simp
  have tab: "tables t = tables s" by (rule tables_cong [OF e l(1)])
  show "desc_at t = desc_at s" by (rule desc_cong [OF e l(1)])
  show "missing t P = missing s P" by (simp add: missing_def miss2_def miss3_def e l)
  show z: "a = 0 \<Longrightarrow> free_frames t = free_frames s \<and> owned t = owned s"
    using ab(3,11) by (simp add: free_frames_def owned_def tab)
  have r: "c \<noteq> 0 \<and> run \<subseteq> free_frames s \<and> free_frames t = free_frames s - run
      \<and> page_aligned a \<and> unat a + 4096 * unat c \<le> 0x3F800000 \<and> card run = unat c"
    if nz: "a \<noteq> 0"
  proof -
    obtain st where st: "c \<noteq> 0" "a = frame_addr s st" "first_run (unat c) s = Some st"
      "free_set t = free_set s - {st..<st + unat c}" using ab(12) nz by blast
    note fr = first_run_SomeD [OF st(3)]
    have run: "run = frame_addr s ` {st..<st + unat c}"
    proof -
      have "run = (\<lambda>j. frame_addr s (st + j)) ` {..<unat c}" by (simp add: run_def st(2) page_frame_addr)
      also have "\<dots> = frame_addr s ` (\<lambda>j. st + j) ` {0..<unat c}" by (simp only: image_image lessThan_atLeast0)
      also have "(\<lambda>j. st + j) ` {0..<unat c} = {st..<st + unat c}"
        using image_add_atLeastLessThan [of st 0 "unat c"] by (simp add: add.commute)
      finally show ?thesis .
    qed
    have inj: "inj_on (frame_addr s) {..unat (total_frames s)}"
      by (rule inj_onI) (simp add: frame_addr_inj [OF D(2)])
    have "free_frames t = frame_addr s ` (free_set s - {st..<st + unat c})"
      by (simp add: free_frames_def ab(3) st(4))
    also have "\<dots> = frame_addr s ` free_set s - frame_addr s ` {st..<st + unat c}"
      by (rule inj_on_image_set_diff [OF inj]) (use fr(2) in \<open>auto dest!: free_set_less\<close>)
    finally have "free_frames t = free_frames s - run" by (simp add: free_frames_def run)
    moreover have "run \<subseteq> free_frames s" using fr(1) by (auto simp: run free_frames_def)
    moreover have "card run = unat c"
      unfolding run using fr(2) by (subst card_image) (auto intro: inj_on_subset [OF inj])
    moreover have "page_aligned a \<and> unat a + 4096 * unat c \<le> 0x3F800000"
    proof -
      have pos: "0 < unat c" using st(1) by (simp add: unat_gt_0)
      with fr(2) have lt: "st < unat (total_frames s)" by simp
      have u: "unat (frame_addr s (st + unat c)) = unat (phys_mem_start s) + 4096 * (st + unat c)"
        by (rule unat_frame_addr [OF D(2) fr(2)])
      have "unat a = unat (phys_mem_start s) + 4096 * st"
        unfolding st(2) by (rule unat_frame_addr [OF D(2)]) (use lt in simp)
      moreover have "unat (phys_mem_start s) + 4096 * unat (total_frames s) \<le> 0x3F800000"
        using D(2) by (auto simp: pmm_geom_def unat_PHYS_MEM_END)
      ultimately show ?thesis using fr(2) frame_addr_facts(2) [OF D(2) lt] by (simp add: st(2))
    qed
    ultimately show ?thesis using st(1) by simp
  qed
  from r show "a \<noteq> 0 \<Longrightarrow> page_aligned a \<and> unat a + 4096 * unat c \<le> 0x3F800000 \<and> card run = unat c" by blast
  have "owned t = owned s - run" if "a \<noteq> 0"
    using r [OF that] D(6) by (auto simp: owned_def tab)
  with r show own: "a \<noteq> 0 \<Longrightarrow> c \<noteq> 0 \<and> run \<subseteq> free_frames s \<and> free_frames t = free_frames s - run \<and> owned t = owned s - run"
    by blast
  have nz: "0 \<notin> live s" by (rule wf_live [OF D(3)])
  have live: "live s \<subseteq> live t \<and> 0 \<notin> live t"
  proof (cases "a = 0")
    case True
    with z nz show ?thesis by (simp add: live_def m)
  next
    case False
    note o = own [OF False]
    have "0 \<notin> free_frames s" using pmm_alloc.null_unmanaged [OF D(1)] D(7) by auto
    with o nz show ?thesis by (auto simp: live_def m)
  qed
  have "wf_pt (l1_table t) (ent t) (live t)"
    unfolding e l(1)
  proof (rule wf_pt_mono [OF D(3)])
    show "tree (l1_table s) (ent s) \<subseteq> live t" using D(4) live by (auto simp: tables_def)
    show "0 \<notin> live t" using live by simp
  qed
  with ab(1) have i: "pt_inv t" by (simp add: pt_inv_def)
  have "owned t \<subseteq> owned s" using z own by (cases "a = 0") auto
  moreover have "bitmap_region t = bitmap_region s" using ab by (simp add: bitmap_region_def nwords_def)
  moreover have "balanced {Mmu_lock, Pmm_lock} (if c = 0 then [] else with_lock Pmm_lock s)"
    using balanced_mono [OF balanced_with_lock [of Pmm_lock s], of "{Mmu_lock, Pmm_lock}"] by simp
  ultimately show "grown s t"
    unfolding grown_by_def using i m l(1) ab(6-10) by blast
qed

lemma free_frames_mmu:
  assumes "pt_inv s" "\<forall>i \<in> set js. f i \<in> managed_frames s - tables s"
  defines "t \<equiv> fold (\<lambda>i. free_frame (f i)) js s"
  shows "pt_inv t" "desc_at t = desc_at s" "mmu.more t = mmu.more s" "missing t P = missing s P"
    "managed_frames t = managed_frames s" "free_frames t = f ` set js \<union> free_frames s"
    "owned t = f ` set js \<union> owned s" "tables t = tables s" "inp t = inp s" "daif t = daif s"
    "MMU_ACTIVE t = MMU_ACTIVE s" "l1_table t = l1_table s" "bitmap_region t = bitmap_region s"
    "\<exists>es. trace t = trace s @ es \<and> balanced {Pmm_lock} es"
    and "x \<notin> bitmap_region s \<Longrightarrow> mem t x = mem s x"
proof -
  have "pt_inv t \<and> desc_at t = desc_at s \<and> mmu.more t = mmu.more s \<and> (\<forall>P. missing t P = missing s P)
    \<and> managed_frames t = managed_frames s \<and> free_frames t = f ` set js \<union> free_frames s
    \<and> owned t = f ` set js \<union> owned s \<and> tables t = tables s \<and> inp t = inp s \<and> daif t = daif s
    \<and> MMU_ACTIVE t = MMU_ACTIVE s \<and> l1_table t = l1_table s \<and> bitmap_region t = bitmap_region s
    \<and> (\<exists>es. trace t = trace s @ es \<and> balanced {Pmm_lock} es)
    \<and> (\<forall>x. x \<notin> bitmap_region s \<longrightarrow> mem t x = mem s x)"
    using assms(1,2) unfolding t_def
  proof (induction js arbitrary: s)
    case Nil
    then show ?case by (simp add: exI [of _ "[]"])
  next
    case (Cons j js)
    have j: "f j \<in> managed_frames s" "f j \<notin> tables s" using Cons.prems(2) by simp_all
    note f = free_frame_mmu [OF Cons.prems(1) j]
    have ih: "\<forall>i \<in> set js. f i \<in> managed_frames (free_frame (f j) s) - tables (free_frame (f j) s)"
      using Cons.prems(2) by (simp add: f)
    note ih = Cons.IH [OF f(1) ih]
    obtain es where es: "trace (fold (\<lambda>i. free_frame (f i)) js (free_frame (f j) s)) = trace (free_frame (f j) s) @ es"
      "balanced {Pmm_lock} es" using ih by blast
    have "\<exists>es'. trace (fold (\<lambda>i. free_frame (f i)) js (free_frame (f j) s)) = trace s @ es' \<and> balanced {Pmm_lock} es'"
      using es balanced_append [OF balanced_with_lock es(2)] by (intro exI [of _ "with_lock Pmm_lock s @ es"]) (simp add: f(14))
    moreover have "f ` set (j # js) \<union> X = f ` set js \<union> insert (f j) X" for X by auto
    ultimately show ?case using ih unfolding fold.simps comp_def f by (simp add: f(15))
  qed
  then show "pt_inv t" "desc_at t = desc_at s" "mmu.more t = mmu.more s" "missing t P = missing s P"
    "managed_frames t = managed_frames s" "free_frames t = f ` set js \<union> free_frames s"
    "owned t = f ` set js \<union> owned s" "tables t = tables s" "inp t = inp s" "daif t = daif s"
    "MMU_ACTIVE t = MMU_ACTIVE s" "l1_table t = l1_table s" "bitmap_region t = bitmap_region s"
    "\<exists>es. trace t = trace s @ es \<and> balanced {Pmm_lock} es"
    "x \<notin> bitmap_region s \<Longrightarrow> mem t x = mem s x" by simp_all
qed

section \<open>Backed pages\<close>

text \<open>
  \<open>backed flags s va\<close>: the page at \<open>va\<close> is mapped with \<open>flags\<close> to a frame that is in use and is
  not a page table.
\<close>

definition page_frame :: "'a mmu_scheme \<Rightarrow> u64 \<Rightarrow> u64" where
  "page_frame s va = desc_at s (coord va) AND ADDR_MASK"

definition backed :: "u64 \<Rightarrow> 'a mmu_scheme \<Rightarrow> u64 \<Rightarrow> bool" where
  "backed flags s va \<longleftrightarrow> desc_at s (coord va) = page_frame s va OR flags OR 3
     \<and> page_frame s va \<in> managed_frames s - owned s"

definition window :: "u64 \<Rightarrow> u64 \<Rightarrow> nat \<Rightarrow> 'a mmu_scheme \<Rightarrow> bool" where
  "window flags base n s \<longleftrightarrow> (\<forall>i < n. backed flags s (page base i))
     \<and> inj_on (\<lambda>i. page_frame s (page base i)) {..<n}"

lemma window_0 [simp]: "window flags base 0 s"
  by (simp add: window_def)

lemma window_pred: "window flags base (Suc n) s \<Longrightarrow> window flags base n s"
  by (auto simp: window_def inj_on_def)

lemma window_cong:
  assumes "desc_at t = desc_at s" "managed_frames t = managed_frames s" "owned t \<subseteq> owned s"
    and "window flags base n s"
  shows "window flags base n t"
  using assms by (auto simp: window_def backed_def page_frame_def inj_on_def)

text \<open>A page mapped past the end of a window, to a frame from the free ones, extends it.\<close>

lemma window_extend:
  assumes w: "window flags base n s" and n: "n < 2 ^ 27"
    and d: "desc_at u = (desc_at s)(coord (page base n) := pa OR flags OR 3)"
    and m: "managed_frames u = managed_frames s" and o: "owned u = owned s - {pa}"
    and pa: "pa \<in> managed_frames s" "pa \<in> owned s" "(pa OR flags OR 3) AND ADDR_MASK = pa"
  shows "window flags base (Suc n) u"
proof -
  have same: "desc_at u (coord (page base i)) = desc_at s (coord (page base i))" if "i < n" for i
  proof -
    have "inj_on (\<lambda>i. coord (page base i)) {..<Suc n}" using n by (intro coord_page_inj) simp
    then have "coord (page base i) \<noteq> coord (page base n)" using that by (fastforce simp: inj_on_def)
    then show ?thesis by (simp add: d)
  qed
  then have f: "page_frame u (page base i) = page_frame s (page base i)" if "i < n" for i
    using that by (simp add: page_frame_def)
  have new: "page_frame u (page base n) = pa" "desc_at u (coord (page base n)) = pa OR flags OR 3"
    by (simp_all add: page_frame_def d pa)
  have old: "backed flags u (page base i)" "page_frame s (page base i) \<noteq> pa" if "i < n" for i
    using w that m o pa(2) by (auto simp: window_def backed_def f [OF that] same [OF that])
  have "backed flags u (page base n)"
    using new m o pa(1) by (simp add: backed_def)
  moreover have "inj_on (\<lambda>i. page_frame u (page base i)) {..<Suc n}"
  proof (rule inj_onI)
    fix i j assume ij: "i \<in> {..<Suc n}" "j \<in> {..<Suc n}"
      and eq: "page_frame u (page base i) = page_frame u (page base j)"
    have "inj_on (\<lambda>i. page_frame s (page base i)) {..<n}" using w by (simp add: window_def)
    then show "i = j"
      using ij eq old(2) [of i] old(2) [of j] f [of i] f [of j] new(1)
      by (cases "i = n"; cases "j = n") (auto simp: inj_on_def)
  qed
  ultimately show ?thesis using old(1) by (auto simp: window_def less_Suc_eq)
qed

lemma map_one_page:
  assumes inv: "pt_inv s" and eq: "map_pages va pa PAGE_SIZE flags s = (ok, s')"
    and pa: "pa \<in> managed_frames s" and fl: "flags AND ADDR_MASK = 0"
  shows "mmu_frame {Mmu_lock, Pmm_lock} s s'"
    and "desc_at s' = (if ok then (desc_at s)(coord va := pa OR flags OR 3) else desc_at s)"
    and "(pa OR flags OR 3) AND ADDR_MASK = pa"
    and "finite P \<Longrightarrow> coord va \<in> P \<Longrightarrow> missing s P + extra \<le> card (free_frames s) \<Longrightarrow>
           ok \<and> missing s' P + extra \<le> card (free_frames s')"
proof -
  have one: "unat (PAGE_SIZE div PAGE_SIZE) = 1" by (rule device_bases(7))
  have n: "unat (PAGE_SIZE div PAGE_SIZE) \<le> 2 ^ 27" by (simp add: one)
  note st = map_pages_step [OF inv eq n, unfolded one]
  show "mmu_frame {Mmu_lock, Pmm_lock} s s'" by (rule st(1))
  have pd: "page_desc pa flags 0 = pa OR flags OR 3" by (simp add: page_desc_def)
  show "desc_at s' = (if ok then (desc_at s)(coord va := pa OR flags OR 3) else desc_at s)"
    using st(2,3) by (auto simp: map_descs_def pd)
  obtain p where p: "pa = frame_addr s p" "p < unat (total_frames s)" using pa by (rule managed_frameE)
  note fa = frame_addr_facts [OF pt_invD(2) [OF inv] p(2), folded p(1)]
  have "unat pa < 2 ^ 48" using fa(4) by (simp add: unat_PHYS_MEM_END)
  with fa(2) fl page_desc_addr [of pa 0 flags] show "(pa OR flags OR 3) AND ADDR_MASK = pa"
    by (simp add: pd)
  assume P: "finite P" "coord va \<in> P" "missing s P + extra \<le> card (free_frames s)"
  have img: "(\<lambda>i. coord (page va i)) ` {..<1} \<subseteq> P" using P(2) by auto
  show "ok \<and> missing s' P + extra \<le> card (free_frames s')"
    by (rule st(4) [OF P(1) img P(3)])
qed

text \<open>One page of \<open>kmalloc\<close> or \<open>_sbrk\<close>: a frame, and its mapping at the end of the window.\<close>

lemma back_page:
  assumes inv: "pt_inv s" and al: "alloc_frame s = (pa, t)" and nz: "pa \<noteq> 0"
    and mp: "map_pages va pa PAGE_SIZE flags t = (ok, u)" and fl: "flags AND ADDR_MASK = 0"
  shows "grown s u" "mmu.more u = mmu.more s" "owned u = owned s - {pa}" "pa \<in> owned s"
    "pa \<in> managed_frames s" "(pa OR flags OR 3) AND ADDR_MASK = pa"
    "desc_at u = (if ok then (desc_at s)(coord va := pa OR flags OR 3) else desc_at s)"
    and "finite P \<Longrightarrow> coord va \<in> P \<Longrightarrow> missing s P + extra + 1 \<le> card (free_frames s) \<Longrightarrow>
           ok \<and> missing u P + extra \<le> card (free_frames u)"
proof -
  note a = alloc_frame_mmu [OF inv al]
  note f = a(6) [OF nz]
  note i = grownD(1) [OF a(1)]
  show own: "pa \<in> owned s" using f by (auto simp: owned_def)
  show m: "pa \<in> managed_frames s" using f pt_invD(7) [OF inv] by auto
  then have mt: "pa \<in> managed_frames t" using grownD(2) [OF a(1)] by simp
  note o = map_one_page [OF i mp mt fl]
  have n: "unat (PAGE_SIZE div PAGE_SIZE) \<le> 2 ^ 27" by (simp add: device_bases(7))
  show "grown s u" by (rule grown_trans [OF a(1) grown_map [OF i mp n]])
  show "mmu.more u = mmu.more s" "owned u = owned s - {pa}"
    using mmu_stepD [OF o(1)] a(3) f by auto
  show "(pa OR flags OR 3) AND ADDR_MASK = pa" by (rule o(3))
  show "desc_at u = (if ok then (desc_at s)(coord va := pa OR flags OR 3) else desc_at s)"
    using o(2) by (simp add: a(2))
  assume P: "finite P" "coord va \<in> P" "missing s P + extra + 1 \<le> card (free_frames s)"
  have "card (free_frames t) = card (free_frames s) - 1" using f free_frames_finite by auto
  then have "missing t P + extra \<le> card (free_frames t)" using P(3) by (simp add: a(4))
  then show "ok \<and> missing u P + extra \<le> card (free_frames u)" by (rule o(4) [OF P(1,2)])
qed

end
