(* ===== verification/Bump.thy ===== *)
theory Bump
  imports Prelude
begin

text \<open>
  The contract of the allocators that hand out addresses from a moving break: \<open>kmalloc\<close>,
  \<open>dma_alloc\<close> and \<open>_sbrk\<close> with a positive increment. Their models are shown to meet it in the
  theories \<open>Heap\<close>, \<open>Dma\<close> and \<open>Newlib\<close>; what it gives is that blocks never overlap.
\<close>

text \<open>The blocks that a list of requests yields, each with its request, in the order made.\<close>

fun alloc_all :: "('r \<Rightarrow> 's \<Rightarrow> u64 option \<times> 's) \<Rightarrow> 'r list \<Rightarrow> 's \<Rightarrow> (nat \<times> 'r) list \<times> 's" where
  "alloc_all alloc [] s = ([], s)"
| "alloc_all alloc (r # rs) s =
     (case alloc r s of (a, s) \<Rightarrow>
      case alloc_all alloc rs s of (bs, s) \<Rightarrow>
        (case a of None \<Rightarrow> bs | Some a \<Rightarrow> (unat a, r) # bs, s))"

locale bump_allocator =
  fixes inv :: "'s \<Rightarrow> bool" and ok :: "'r \<Rightarrow> bool" and bytes :: "'r \<Rightarrow> nat"
    and brk :: "'s \<Rightarrow> nat" and limit :: nat and alloc :: "'r \<Rightarrow> 's \<Rightarrow> u64 option \<times> 's"
  assumes alloc_inv: "inv s \<Longrightarrow> ok r \<Longrightarrow> inv (snd (alloc r s))"
    and brk_limit: "inv s \<Longrightarrow> brk s \<le> limit"
    and alloc_none: "inv s \<Longrightarrow> ok r \<Longrightarrow> fst (alloc r s) = None \<Longrightarrow> brk (snd (alloc r s)) = brk s"
    and alloc_some: "inv s \<Longrightarrow> ok r \<Longrightarrow> fst (alloc r s) = Some a \<Longrightarrow>
          unat a = brk s \<and> brk s + bytes r \<le> brk (snd (alloc r s))"
begin

lemma alloc_all_disjoint:
  assumes "inv s" "list_all ok rs" "alloc_all alloc rs s = (bs, t)"
  shows "inv t \<and> brk s \<le> brk t \<and> (\<forall>(a, r) \<in> set bs. brk s \<le> a \<and> a + bytes r \<le> brk t)
    \<and> sorted_wrt (\<lambda>(a, r) (b, _). a + bytes r \<le> b) bs"
  using assms
proof (induction rs arbitrary: s bs)
  case (Cons r rs)
  have ok: "ok r" "list_all ok rs" using Cons.prems(2) by simp_all
  obtain x u where x: "alloc r s = (x, u)" by fastforce
  obtain cs where cs: "alloc_all alloc rs u = (cs, t)" "bs = (case x of None \<Rightarrow> cs | Some a \<Rightarrow> (unat a, r) # cs)"
    using Cons.prems(3) x by (simp split: prod.splits)
  have u: "inv u" using alloc_inv [OF Cons.prems(1) ok(1)] x by simp
  note ih = Cons.IH [OF u ok(2) cs(1)]
  show ?case
  proof (cases x)
    case None
    with alloc_none [OF Cons.prems(1) ok(1)] x have "brk u = brk s" by simp
    with ih None cs(2) show ?thesis by simp
  next
    case (Some a)
    with alloc_some [OF Cons.prems(1) ok(1)] x have a: "unat a = brk s" "brk s + bytes r \<le> brk u" by simp_all
    have bs: "bs = (brk s, r) # cs" using Some cs(2) a(1) by simp
    have "inv t" "brk u \<le> brk t" and later: "\<And>b q. (b, q) \<in> set cs \<Longrightarrow> brk u \<le> b \<and> b + bytes q \<le> brk t"
      and so: "sorted_wrt (\<lambda>(a, r) (b, _). a + bytes r \<le> b) cs" using ih by auto
    moreover have "brk s \<le> b \<and> b + bytes q \<le> brk t" if "(b, q) \<in> set bs" for b q
      using that later [of b q] a(2) \<open>brk u \<le> brk t\<close> by (auto simp: bs)
    moreover have "sorted_wrt (\<lambda>(a, r) (b, _). a + bytes r \<le> b) bs"
      using so later a(2) by (fastforce simp: bs)
    ultimately show ?thesis using a(2) by auto
  qed
qed simp

text \<open>So all blocks lie between the break and the limit, and no two share a byte.\<close>

lemma alloc_all_blocks:
  assumes "inv s" "list_all ok rs"
  defines "bs \<equiv> fst (alloc_all alloc rs s)"
  shows "i < j \<Longrightarrow> j < length bs \<Longrightarrow> fst (bs ! i) + bytes (snd (bs ! i)) \<le> fst (bs ! j)"
    and "i < length bs \<Longrightarrow> brk s \<le> fst (bs ! i) \<and> fst (bs ! i) + bytes (snd (bs ! i)) \<le> limit"
proof -
  have "alloc_all alloc rs s = (bs, snd (alloc_all alloc rs s))" by (simp add: bs_def)
  note d = alloc_all_disjoint [OF assms(1,2) this]
  show "i < j \<Longrightarrow> j < length bs \<Longrightarrow> fst (bs ! i) + bytes (snd (bs ! i)) \<le> fst (bs ! j)"
    using d by (auto simp: sorted_wrt_iff_nth_less case_prod_beta)
  assume "i < length bs"
  then have "bs ! i \<in> set bs" by simp
  with d brk_limit show "brk s \<le> fst (bs ! i) \<and> fst (bs ! i) + bytes (snd (bs ! i)) \<le> limit"
    by (fastforce simp: case_prod_beta)
qed

end

end
