(* ===== verification/Heap.thy ===== *)
theory Heap
  imports Window Bump
begin

text \<open>
  The kernel heap (\<open>include/kernel/heap_alloc.h\<close>, \<open>src/kernel/heap_alloc/heap_alloc.cpp\<close>): a bump
  allocator over a 1 MiB window of virtual memory that is backed with frames on demand. A call of
  \<open>panic\<close> does not return; its message is the error value of the model.
\<close>

section \<open>State and operations\<close>

record heap = mmu +
  bump_ptr :: u64
  heap_end :: u64

definition HEAP_BASE :: u64 where [board]: "HEAP_BASE = 0x100000000"
definition HEAP_MAX_SIZE :: u64 where [board]: "HEAP_MAX_SIZE = 0x100000"
definition HEAP_ALIGN :: u64 where [board]: "HEAP_ALIGN = 16"

definition kheap_init :: "'a heap_scheme \<Rightarrow> 'a heap_scheme" where
  "kheap_init s = s\<lparr>bump_ptr := HEAP_BASE, heap_end := HEAP_BASE\<rparr>"

text \<open>The loop of \<open>kmalloc\<close>; false when there is no frame. The result of \<open>map\<close> is not looked at.\<close>

partial_function (option) heap_grow :: "u64 \<Rightarrow> 'a heap_scheme \<Rightarrow> (bool \<times> 'a heap_scheme) option" where
  "heap_grow required_end s =
     (if heap_end s < required_end
      then (case alloc_frame s of (pa, s) \<Rightarrow>
        if pa = 0 then Some (False, s)
        else (case map_pages (heap_end s) pa PAGE_SIZE PTE_NORMAL_RW s of (_, s) \<Rightarrow>
          heap_grow required_end (s\<lparr>heap_end := heap_end s + PAGE_SIZE\<rparr>)))
      else Some (True, s))"

definition kmalloc :: "u64 \<Rightarrow> 'a heap_scheme \<Rightarrow> ((string + u64) \<times> 'a heap_scheme) option" where
  "kmalloc sz s =
     (let aligned = (sz + 15) AND NOT 15;
          (flags, s) = spin_lock Heap_lock s;
          required_end = bump_ptr s + aligned
      in if required_end > HEAP_BASE + HEAP_MAX_SIZE
         then Some (Inl ''kmalloc: heap region exhausted'', spin_unlock Heap_lock flags s)
         else do { (ok, s) \<leftarrow> heap_grow required_end s;
                   if \<not> ok
                   then Some (Inl ''kmalloc: out of physical frames'', spin_unlock Heap_lock flags s)
                   else let result = bump_ptr s; s = s\<lparr>bump_ptr := bump_ptr s + aligned\<rparr>
                        in Some (Inr result, spin_unlock Heap_lock flags s) })"

section \<open>The heap window\<close>

lemma heap_more:
  fixes s t :: "'a heap_scheme"
  assumes "mmu.more t = mmu.more s"
  shows "bump_ptr t = bump_ptr s" "heap_end t = heap_end s" "heap.more t = heap.more s"
  using assms by (cases s; cases t; simp)+

lemma heap_tables [simp]:
  "pt_inv (s\<lparr>heap_end := x\<rparr>) = pt_inv s" "desc_at (s\<lparr>heap_end := x\<rparr>) = desc_at s"
  "owned (s\<lparr>heap_end := x\<rparr>) = owned s" "free_frames (s\<lparr>heap_end := x\<rparr>) = free_frames s"
  "managed_frames (s\<lparr>heap_end := x\<rparr>) = managed_frames s"
  "missing (s\<lparr>heap_end := x\<rparr>) P = missing s P" "bitmap_region (s\<lparr>heap_end := x\<rparr>) = bitmap_region s"
  "pt_inv (s\<lparr>bump_ptr := x\<rparr>) = pt_inv s" "desc_at (s\<lparr>bump_ptr := x\<rparr>) = desc_at s"
  "owned (s\<lparr>bump_ptr := x\<rparr>) = owned s" "free_frames (s\<lparr>bump_ptr := x\<rparr>) = free_frames s"
  "managed_frames (s\<lparr>bump_ptr := x\<rparr>) = managed_frames s"
  "missing (s\<lparr>bump_ptr := x\<rparr>) P = missing s P" "bitmap_region (s\<lparr>bump_ptr := x\<rparr>) = bitmap_region s"
  by (simp_all add: same_tables [of "s\<lparr>heap_end := x\<rparr>" s] same_tables [of "s\<lparr>bump_ptr := x\<rparr>" s])

lemma grown_heap [simp]:
  "grown_by L s (t\<lparr>heap_end := x\<rparr>) = grown_by L s t" "grown_by L s (t\<lparr>bump_ptr := x\<rparr>) = grown_by L s t"
  by (simp_all add: grown_by_def)

lemma window_heap [simp]:
  "window fl b n (t\<lparr>heap_end := x\<rparr>) = window fl b n t" "window fl b n (t\<lparr>bump_ptr := x\<rparr>) = window fl b n t"
  by (simp_all add: window_def backed_def page_frame_def)

lemma unat_HEAP: "unat HEAP_BASE = 0x100000000" "unat (HEAP_BASE + HEAP_MAX_SIZE) = 0x100100000"
  by (simp_all add: board)

lemma unat_heap_page: "n \<le> 256 \<Longrightarrow> unat (page HEAP_BASE n) = 0x100000000 + 4096 * n"
  by (subst unat_page) (simp_all add: unat_HEAP)

lemma heap_page_Suc: "page HEAP_BASE n + PAGE_SIZE = page HEAP_BASE (Suc n)"
  by (simp add: page_def distrib_right)

text \<open>The window lies in one block of 2 MiB, so at most two tables serve all of it.\<close>

lemma heap_block: "i < 256 \<Longrightarrow> coord (page HEAP_BASE i) \<in> blocks {2048}"
proof (rule coord_blocks)
  assume i: "i < 256"
  then have u: "unat (page HEAP_BASE i) = 0x100000000 + 4096 * i" by (intro unat_heap_page) simp
  with i have "vpn (page HEAP_BASE i) = 0x100000 + i" by (simp add: vpn_small)
  with i show "vpn (page HEAP_BASE i) div 512 \<in> {2048}" by simp
qed

definition heap_pages :: "'a heap_scheme \<Rightarrow> u64 \<Rightarrow> nat" where
  "heap_pages s r = (unat r - unat (heap_end s) + 4095) div 4096"

text \<open>What the loop does, from a window of \<open>n\<close> pages to one of \<open>n'\<close>.\<close>

definition heap_growth :: "u64 \<Rightarrow> nat \<Rightarrow> 'a heap_scheme \<Rightarrow> bool \<Rightarrow> 'a heap_scheme \<Rightarrow> nat \<Rightarrow> bool" where
  "heap_growth r n s b t n' \<longleftrightarrow> grown s t \<and> bump_ptr t = bump_ptr s
    \<and> heap.more t = heap.more s \<and> heap_end t = page HEAP_BASE n' \<and> n' \<le> 256
    \<and> (if b then n' = n + heap_pages s r else free_frames t = {} \<and> n \<le> n' \<and> n' < n + heap_pages s r)
    \<and> (\<forall>c. c \<notin> (\<lambda>i. coord (page HEAP_BASE i)) ` {n..<n'} \<longrightarrow> desc_at t c = desc_at s c)
    \<and> (window PTE_NORMAL_RW HEAP_BASE n s \<longrightarrow> missing s (blocks {2048}) + heap_pages s r \<le> card (free_frames s)
       \<longrightarrow> b \<and> window PTE_NORMAL_RW HEAP_BASE n' t)"

lemma heap_growthD:
  assumes "heap_growth r n s b t n'"
  shows "grown s t" "bump_ptr t = bump_ptr s" "heap.more t = heap.more s"
    "heap_end t = page HEAP_BASE n'" "n' \<le> 256"
    "if b then n' = n + heap_pages s r else free_frames t = {} \<and> n \<le> n' \<and> n' < n + heap_pages s r"
    "c \<notin> (\<lambda>i. coord (page HEAP_BASE i)) ` {n..<n'} \<Longrightarrow> desc_at t c = desc_at s c"
    "window PTE_NORMAL_RW HEAP_BASE n s \<Longrightarrow> missing s (blocks {2048}) + heap_pages s r \<le> card (free_frames s)
       \<Longrightarrow> b \<and> window PTE_NORMAL_RW HEAP_BASE n' t"
  using assms unfolding heap_growth_def by blast+

lemma heap_growthI:
  assumes "grown s t" "bump_ptr t = bump_ptr s" "heap.more t = heap.more s"
    "heap_end t = page HEAP_BASE n'" "n' \<le> 256"
    "if b then n' = n + heap_pages s r else free_frames t = {} \<and> n \<le> n' \<and> n' < n + heap_pages s r"
    "\<And>c. c \<notin> (\<lambda>i. coord (page HEAP_BASE i)) ` {n..<n'} \<Longrightarrow> desc_at t c = desc_at s c"
    "window PTE_NORMAL_RW HEAP_BASE n s \<Longrightarrow> missing s (blocks {2048}) + heap_pages s r \<le> card (free_frames s)
       \<Longrightarrow> b \<and> window PTE_NORMAL_RW HEAP_BASE n' t"
  shows "heap_growth r n s b t n'"
  using assms unfolding heap_growth_def by blast

lemma heap_grow_none: "pt_inv s \<Longrightarrow> heap_end s = page HEAP_BASE n \<Longrightarrow> n \<le> 256 \<Longrightarrow> \<not> heap_end s < r
    \<Longrightarrow> heap_grow r s = Some (True, s) \<and> heap_growth r n s True s n"
  by (simp add: heap_grow.simps heap_growth_def heap_pages_def word_less_nat_alt grown_refl)

lemma heap_grow_step:
  assumes "pt_inv s" "heap_end s = page HEAP_BASE n" "n \<le> 256" "unat r \<le> 0x100100000"
  shows "\<exists>b t n'. heap_grow r s = Some (b, t) \<and> heap_growth r n s b t n'"
  using assms
proof (induction "256 - n" arbitrary: n s)
  case (0 n s)
  then have n: "n = 256" by simp
  have "unat (heap_end s) = 0x100100000" unfolding 0(3) n by (simp add: unat_heap_page)
  with 0(5) have "\<not> heap_end s < r" by (simp add: word_less_nat_alt)
  from heap_grow_none [OF 0(2-4) this] show ?case by blast
next
  case (Suc m n s)
  then have n: "n < 256" and e: "unat (heap_end s) = 0x100000000 + 4096 * n" by (simp_all add: unat_heap_page)
  show ?case
  proof (cases "heap_end s < r")
    case False
    from heap_grow_none [OF Suc.prems(1-3) this] show ?thesis by blast
  next
    case True
    obtain pa t where al: "alloc_frame s = (pa, t)" by fastforce
    note a = alloc_frame_mmu [OF Suc.prems(1) al]
    have k: "0 < heap_pages s r" using True by (simp add: heap_pages_def word_less_nat_alt)
    show ?thesis
    proof (cases "pa = 0")
      case pa: True
      have "heap_grow r s = Some (False, t)" using True pa by (subst heap_grow.simps) (simp add: al)
      moreover have "free_frames s = {}" "free_frames t = {}" using a(5) [OF pa] by auto
      moreover have "heap_growth r n s False t n"
        by (rule heap_growthI) (use k calculation(2,3) a(1,2) heap_more [OF a(3)] Suc.prems(2,3) in simp_all)
      ultimately show ?thesis by blast
    next
      case nz: False
      obtain ok u where mp: "map_pages (heap_end s) pa PAGE_SIZE PTE_NORMAL_RW t = (ok, u)" by fastforce
      have fl: "PTE_NORMAL_RW AND ADDR_MASK = 0" by (simp add: board ADDR_MASK_def)
      have ht: "heap_end t = heap_end s" by (rule heap_more [OF a(3)])
      note b = back_page [OF Suc.prems(1) al nz mp fl]
      define v where "v = u\<lparr>heap_end := heap_end s + PAGE_SIZE\<rparr>"
      have grow: "heap_grow r s = heap_grow r v"
        using True nz heap_more(2) [OF b(2)] by (subst heap_grow.simps) (simp add: al ht mp v_def)
      have v: "pt_inv v" "heap_end v = page HEAP_BASE (Suc n)" "m = 256 - Suc n" "Suc n \<le> 256"
        using grownD(1) [OF b(1)] n Suc.hyps(2) by (simp_all add: v_def Suc.prems(2) heap_page_Suc)
      have hv: "unat (heap_end v) = unat (heap_end s) + 4096" using v n e by (simp add: unat_heap_page)
      have kv: "heap_pages v r = heap_pages s r - 1"
        using True unfolding heap_pages_def hv word_less_nat_alt by linarith
      obtain bb w n' where hg: "heap_grow r v = Some (bb, w)" "heap_growth r (Suc n) v bb w n'"
        using Suc.hyps(1) [OF v(3,1,2,4) Suc.prems(4)] by blast
      note w = hg(1) heap_growthD [OF hg(2)]
      have gr: "grown s w" by (rule grown_trans [OF _ w(2)]) (use b(1) in \<open>simp add: v_def\<close>)
      have n': "if bb then n' = n + heap_pages s r else free_frames w = {} \<and> n \<le> n' \<and> n' < n + heap_pages s r"
        using w(7) k by (auto simp: kv split: if_splits)
      have nn': "n < n'" using n' w(7) by (auto split: if_splits)
      have other: "desc_at w c = desc_at s c" if "c \<notin> (\<lambda>i. coord (page HEAP_BASE i)) ` {n..<n'}" for c
      proof -
        have "n \<in> {n..<n'}" using nn' by simp
        then have "c \<noteq> coord (heap_end s)" using that unfolding Suc.prems(2) by blast
        moreover have "c \<notin> (\<lambda>i. coord (page HEAP_BASE i)) ` {Suc n..<n'}" using that by auto
        ultimately show ?thesis
          using w(8) [of c] b(7) by (cases ok) (simp_all add: v_def)
      qed
      have enough: "bb \<and> window PTE_NORMAL_RW HEAP_BASE n' w"
        if win: "window PTE_NORMAL_RW HEAP_BASE n s"
          and mis: "missing s (blocks {2048}) + heap_pages s r \<le> card (free_frames s)"
      proof (rule w(9))
        have "missing s (blocks {2048}) + heap_pages v r + 1 \<le> card (free_frames s)" using mis k kv by simp
        note en = b(8) [OF finite_blocks _ this]
        have en: "ok \<and> missing u (blocks {2048}) + heap_pages v r \<le> card (free_frames u)"
          by (rule en) (simp_all add: Suc.prems(2) heap_block n)
        then show "missing v (blocks {2048}) + heap_pages v r \<le> card (free_frames v)" by (simp add: v_def)
        show "window PTE_NORMAL_RW HEAP_BASE (Suc n) v"
          unfolding v_def window_heap
          by (rule window_extend [OF win _ _ _ b(3) b(5,4,6)])
            (use b(7) en n grownD(2) [OF b(1)] in \<open>simp_all add: Suc.prems(2)\<close>)
      qed
      have "bump_ptr w = bump_ptr s" "heap.more w = heap.more s"
        using w(3,4) heap_more [OF b(2)] by (simp_all add: v_def)
      then have "heap_growth r n s bb w n'"
        by (intro heap_growthI gr n' other enough w(5,6))
      with w(1) show ?thesis unfolding grow by blast
    qed
  qed
qed

section \<open>What \<open>kmalloc\<close> does\<close>

definition heap_geom :: "'a heap_scheme \<Rightarrow> bool" where
  "heap_geom s \<longleftrightarrow> pt_inv s \<and> 0x100000000 \<le> unat (bump_ptr s) \<and> bump_ptr s \<le> heap_end s
     \<and> 16 dvd unat (bump_ptr s) \<and> (\<exists>n \<le> 256. heap_end s = page HEAP_BASE n)"

text \<open>The invariant that the header of \<open>heap_alloc.cpp\<close> states: moreover every page is backed.\<close>

definition heap_inv :: "'a heap_scheme \<Rightarrow> bool" where
  "heap_inv s \<longleftrightarrow> heap_geom s
     \<and> window PTE_NORMAL_RW HEAP_BASE ((unat (heap_end s) - 0x100000000) div 4096) s"

definition heap_aligned :: "u64 \<Rightarrow> nat" where
  "heap_aligned sz = (unat sz + 15) div 16 * 16"

lemma unat_heap_aligned: "unat sz < 2 ^ 63 \<Longrightarrow> unat ((sz + 15) AND NOT 15) = heap_aligned sz"
proof -
  assume "unat sz < 2 ^ 63"
  then have "unat (sz + 15) = unat sz + 15" by (subst unat_plus) simp_all
  moreover have "(15 :: u64) = mask 4" by (simp add: mask_eq_exp_minus_1)
  ultimately show ?thesis
    using unat_and_not_mask [of "sz + 15" 4] by (simp add: heap_aligned_def)
qed

lemma heap_geomD:
  assumes "heap_geom s"
  shows "pt_inv s" "0x100000000 \<le> unat (bump_ptr s)" "unat (bump_ptr s) \<le> unat (heap_end s)"
    "16 dvd unat (bump_ptr s)" "unat (heap_end s) \<le> 0x100100000"
    "\<exists>n \<le> 256. heap_end s = page HEAP_BASE n \<and> n = (unat (heap_end s) - 0x100000000) div 4096"
proof -
  obtain n where n: "n \<le> 256" "heap_end s = page HEAP_BASE n" using assms by (auto simp: heap_geom_def)
  then have u: "unat (heap_end s) = 0x100000000 + 4096 * n" by (simp add: unat_heap_page)
  show "unat (heap_end s) \<le> 0x100100000" using n(1) u by simp
  show "\<exists>n \<le> 256. heap_end s = page HEAP_BASE n \<and> n = (unat (heap_end s) - 0x100000000) div 4096"
    using n u by (intro exI [of _ n]) simp
  show "pt_inv s" "0x100000000 \<le> unat (bump_ptr s)" "16 dvd unat (bump_ptr s)"
    using assms by (simp_all add: heap_geom_def)
  show "unat (bump_ptr s) \<le> unat (heap_end s)" using assms unfolding heap_geom_def word_le_nat_alt by blast
qed

lemma heap_lock_fields [simp]:
  "bump_ptr (emit es s) = bump_ptr s" "heap_end (emit es s) = heap_end s"
  "heap.more (emit es s) = heap.more s"
  by (simp_all add: emit_def)

lemma window_io [simp]:
  "window fl b n (emit es s) = window fl b n s" "window fl b n (s\<lparr>daif := d\<rparr>) = window fl b n s"
  by (simp_all add: window_def backed_def page_frame_def)

lemma heap_geomI:
  assumes "pt_inv s" "0x100000000 \<le> unat (bump_ptr s)" "unat (bump_ptr s) \<le> unat (heap_end s)"
    "16 dvd unat (bump_ptr s)" "n \<le> 256" "heap_end s = page HEAP_BASE n"
  shows "heap_geom s"
  using assms unfolding heap_geom_def word_le_nat_alt by blast

text \<open>What a call may do: \<open>r\<close> is the result, \<open>t\<close> the state after it.\<close>

definition kmalloc_outcome :: "u64 \<Rightarrow> 'a heap_scheme \<Rightarrow> string + u64 \<Rightarrow> 'a heap_scheme \<Rightarrow> bool" where
  "kmalloc_outcome sz s r t \<longleftrightarrow>
    (case r of
       Inr p \<Rightarrow> p = bump_ptr s \<and> unat (bump_ptr t) = unat p + heap_aligned sz \<and> bump_ptr t \<le> heap_end t
     | Inl msg \<Rightarrow> bump_ptr t = bump_ptr s \<and>
        (if 0x100100000 < unat (bump_ptr s) + heap_aligned sz
         then msg = ''kmalloc: heap region exhausted'' \<and> heap_end t = heap_end s
         else msg = ''kmalloc: out of physical frames'' \<and> free_frames t = {}))"

lemma kmalloc_step:
  assumes g: "heap_geom s" and sz: "unat sz < 2 ^ 63"
  defines "k \<equiv> (unat (bump_ptr s) + heap_aligned sz - unat (heap_end s) + 4095) div 4096"
  shows "\<exists>r t. kmalloc sz s = Some (r, t) \<and> heap_geom t \<and> grown_by {Heap_lock, Mmu_lock, Pmm_lock} s t
    \<and> heap.more t = heap.more s \<and> kmalloc_outcome sz s r t
    \<and> (\<forall>c. c \<notin> (\<lambda>i. coord (page HEAP_BASE i)) ` {..<256} \<longrightarrow> desc_at t c = desc_at s c)
    \<and> (heap_inv s \<longrightarrow> unat (bump_ptr s) + heap_aligned sz \<le> 0x100100000
       \<longrightarrow> missing s (blocks {2048}) + k \<le> card (free_frames s) \<longrightarrow> heap_inv t \<and> (\<exists>p. r = Inr p))"
proof -
  note D = heap_geomD [OF g]
  define a where "a = (sz + 15) AND NOT 15"
  have am: "(sz + 15) AND - 16 = a" by (simp add: a_def)
  have ua: "unat a = heap_aligned sz" unfolding a_def by (rule unat_heap_aligned [OF sz])
  have "heap_aligned sz \<le> unat sz + 15" by (simp add: heap_aligned_def)
  then have ur: "unat (bump_ptr s + a) = unat (bump_ptr s) + heap_aligned sz"
    using D(3,5) sz by (subst unat_plus) (simp_all add: ua)
  obtain fl s1 where lk: "spin_lock Heap_lock s = (fl, s1)" by fastforce
  note s1 = lock_state [OF lk]
  have cap: "HEAP_BASE + HEAP_MAX_SIZE < bump_ptr s + a \<longleftrightarrow> 0x100100000 < unat (bump_ptr s) + heap_aligned sz"
    by (simp only: word_less_nat_alt ur unat_HEAP)
  show ?thesis
  proof (cases "0x100100000 < unat (bump_ptr s) + heap_aligned sz")
    case True
    have "grown_by {Mmu_lock, Pmm_lock} s1 s1" using D(1) by (intro grown_refl) (simp add: s1)
    then have gr: "grown_by {Heap_lock, Mmu_lock, Pmm_lock} s (spin_unlock Heap_lock fl s1)"
      by (rule grown_locked [OF lk]) simp
    have eq: "kmalloc sz s = Some (Inl ''kmalloc: heap region exhausted'', spin_unlock Heap_lock fl s1)"
      using True cap by (simp add: kmalloc_def lk s1(1) Let_def am)
    obtain n where n: "n \<le> 256" "heap_end s = page HEAP_BASE n" using D(6) by blast
    have "heap_geom (spin_unlock Heap_lock fl s1)"
      by (rule heap_geomI [OF _ _ _ _ n(1)]) (use D n in \<open>simp_all add: unlock_state s1\<close>)
    moreover have "kmalloc_outcome sz s (Inl ''kmalloc: heap region exhausted'') (spin_unlock Heap_lock fl s1)"
      using True by (simp add: kmalloc_outcome_def unlock_state s1)
    ultimately show ?thesis
      using eq gr True by (auto simp: unlock_state s1)
  next
    case False
    obtain n where n: "n \<le> 256" "heap_end s = page HEAP_BASE n" "n = (unat (heap_end s) - 0x100000000) div 4096"
      using D(6) by blast
    have p1: "pt_inv s1" "heap_end s1 = page HEAP_BASE n" using D(1) n(2) by (simp_all add: s1)
    obtain b t1 n' where hg: "heap_grow (bump_ptr s + a) s1 = Some (b, t1)" "heap_growth (bump_ptr s + a) n s1 b t1 n'"
      using heap_grow_step [OF p1 n(1), of "bump_ptr s + a"] False by (auto simp: ur)
    note w = heap_growthD [OF hg(2)]
    have same: "missing s1 (blocks {2048}) = missing s (blocks {2048})" "free_frames s1 = free_frames s"
      "window PTE_NORMAL_RW HEAP_BASE n s1 = window PTE_NORMAL_RW HEAP_BASE n s" by (simp_all add: s1)
    have k: "heap_pages s1 (bump_ptr s + a) = k" by (simp add: heap_pages_def k_def ur s1)
    have e': "unat (heap_end t1) = 0x100000000 + 4096 * n'" using w(4,5) by (simp add: unat_heap_page)
    have e: "unat (heap_end s) = 0x100000000 + 4096 * n" using n(1,2) by (simp add: unat_heap_page)
    have nn: "n \<le> n'" using w(6) by (auto split: if_splits)
    define t where "t = spin_unlock Heap_lock fl (if b then t1\<lparr>bump_ptr := bump_ptr t1 + a\<rparr> else t1)"
    have eq: "kmalloc sz s = Some (if b then Inr (bump_ptr s) else Inl ''kmalloc: out of physical frames'', t)"
      using False cap hg(1) w(2) by (simp add: kmalloc_def lk s1(1) Let_def t_def am)
    have gr: "grown_by {Heap_lock, Mmu_lock, Pmm_lock} s t"
      unfolding t_def by (rule grown_locked [OF lk]) (use w(1) in auto)
    have t: "desc_at t = desc_at t1" "heap_end t = heap_end t1" "heap.more t = heap.more s"
      "free_frames t = free_frames t1" "bump_ptr t = (if b then bump_ptr s + a else bump_ptr s)"
      "window PTE_NORMAL_RW HEAP_BASE n' t = window PTE_NORMAL_RW HEAP_BASE n' t1"
      using w(2,3) by (auto simp: t_def unlock_state s1)
    have le: "b \<Longrightarrow> unat (bump_ptr s) + heap_aligned sz \<le> unat (heap_end t1)"
      using w(6) unfolding k by (simp add: e' k_def e)
    have geom: "heap_geom t"
    proof (rule heap_geomI [OF _ _ _ _ w(5)])
      show "pt_inv t" by (rule grownD(1) [OF gr])
      show "0x100000000 \<le> unat (bump_ptr t)" "16 dvd unat (bump_ptr t)"
        using D(2,4) by (auto simp: t ur heap_aligned_def)
      show "unat (bump_ptr t) \<le> unat (heap_end t)"
        using le D(3) nn e e' by (auto simp: t ur)
      show "heap_end t = page HEAP_BASE n'" by (simp add: t w)
    qed
    have out: "kmalloc_outcome sz s (if b then Inr (bump_ptr s) else Inl ''kmalloc: out of physical frames'') t"
      using False w(6) le by (auto simp: kmalloc_outcome_def t ur word_le_nat_alt)
    have other: "desc_at t c = desc_at s c" if "c \<notin> (\<lambda>i. coord (page HEAP_BASE i)) ` {..<256}" for c
    proof -
      have "c \<notin> (\<lambda>i. coord (page HEAP_BASE i)) ` {n..<n'}" using that w(5) by auto
      with w(7) show ?thesis by (simp add: t s1)
    qed
    have "heap_inv t \<and> (\<exists>p. (if b then Inr (bump_ptr s) else Inl ''kmalloc: out of physical frames'') = Inr p)"
      if inv: "heap_inv s" and en: "missing s (blocks {2048}) + k \<le> card (free_frames s)"
    proof -
      have "window PTE_NORMAL_RW HEAP_BASE n s" using inv n(3) by (simp add: heap_inv_def)
      then have "b \<and> window PTE_NORMAL_RW HEAP_BASE n' t1"
        using en by (intro w(8)) (simp_all add: k same)
      with geom t(2,6) e' show ?thesis by (simp add: heap_inv_def)
    qed
    with eq gr geom out other t(3) show ?thesis by blast
  qed
qed

lemma kmalloc_stepE:
  assumes "heap_geom s" "unat sz < 2 ^ 63"
  obtains r t where "kmalloc sz s = Some (r, t)" "heap_geom t" "grown_by {Heap_lock, Mmu_lock, Pmm_lock} s t"
    "heap.more t = heap.more s" "kmalloc_outcome sz s r t"
    "\<And>c. c \<notin> (\<lambda>i. coord (page HEAP_BASE i)) ` {..<256} \<Longrightarrow> desc_at t c = desc_at s c"
    "heap_inv s \<Longrightarrow> unat (bump_ptr s) + heap_aligned sz \<le> 0x100100000 \<Longrightarrow>
       missing s (blocks {2048}) + (unat (bump_ptr s) + heap_aligned sz - unat (heap_end s) + 4095) div 4096
         \<le> card (free_frames s) \<Longrightarrow> heap_inv t \<and> (\<exists>p. r = Inr p)"
  using kmalloc_step [OF assms] by blast

section \<open>Blocks do not overlap\<close>

text \<open>\<open>kmalloc\<close> as an allocator from a break: no address when it panics.\<close>

definition kmalloc_block :: "u64 \<Rightarrow> 'a heap_scheme \<Rightarrow> u64 option \<times> 'a heap_scheme" where
  "kmalloc_block sz s = (case kmalloc sz s of
     None \<Rightarrow> (None, s) | Some (Inl _, t) \<Rightarrow> (None, t) | Some (Inr p, t) \<Rightarrow> (Some p, t))"

lemma kmalloc_block_step:
  assumes "heap_geom s" "unat sz < 2 ^ 63"
  shows "heap_geom (snd (kmalloc_block sz s))"
    and "fst (kmalloc_block sz s) = None \<Longrightarrow> bump_ptr (snd (kmalloc_block sz s)) = bump_ptr s"
    and "fst (kmalloc_block sz s) = Some p \<Longrightarrow> p = bump_ptr s
           \<and> unat (bump_ptr (snd (kmalloc_block sz s))) = unat p + heap_aligned sz"
proof -
  obtain r t where st: "kmalloc sz s = Some (r, t)" "heap_geom t" "kmalloc_outcome sz s r t"
    using kmalloc_stepE [OF assms] .
  show "heap_geom (snd (kmalloc_block sz s))"
    "fst (kmalloc_block sz s) = None \<Longrightarrow> bump_ptr (snd (kmalloc_block sz s)) = bump_ptr s"
    "fst (kmalloc_block sz s) = Some p \<Longrightarrow> p = bump_ptr s
       \<and> unat (bump_ptr (snd (kmalloc_block sz s))) = unat p + heap_aligned sz"
    using st by (cases r; simp add: kmalloc_block_def kmalloc_outcome_def)+
qed

interpretation kheap: bump_allocator
  "heap_geom :: 'a heap_scheme \<Rightarrow> bool" "\<lambda>sz. unat sz < 2 ^ 63" "heap_aligned"
  "\<lambda>s. unat (bump_ptr s)" "0x100100000" kmalloc_block
proof
  fix s :: "'a heap_scheme" and sz a :: u64
  assume s: "heap_geom s"
  then show "unat (bump_ptr s) \<le> 0x100100000"
    using heap_geomD(3,5) [OF s] by simp
  assume sz: "unat sz < 2 ^ 63"
  note st = kmalloc_block_step [OF s sz]
  show "heap_geom (snd (kmalloc_block sz s))" by (rule st)
  show "unat (bump_ptr (snd (kmalloc_block sz s))) = unat (bump_ptr s)"
    if "fst (kmalloc_block sz s) = None" using st(2) [OF that] by simp
  show "unat a = unat (bump_ptr s) \<and> unat (bump_ptr s) + heap_aligned sz \<le> unat (bump_ptr (snd (kmalloc_block sz s)))"
    if "fst (kmalloc_block sz s) = Some a" using st(3) [OF that] by simp
qed

section \<open>Properties of the kernel heap\<close>

definition heap_small :: heap where
  "heap_small = kheap_init (mmu.extend (mmu.truncate mmu_small) \<lparr>bump_ptr = 0, heap_end = 0\<rparr>)"

lemma heap_small: "heap_inv heap_small" "bump_ptr heap_small = HEAP_BASE" "heap_end heap_small = HEAP_BASE"
    "card (free_frames heap_small) = 14" "missing heap_small (blocks {2048}) \<le> 2"
proof -
  note eq = same_tables [of heap_small mmu_small]
  have f: "mem heap_small = mem mmu_small" "bitmap heap_small = bitmap mmu_small"
    "phys_mem_start heap_small = phys_mem_start mmu_small" "total_frames heap_small = total_frames mmu_small"
    "l1_table heap_small = l1_table mmu_small"
    by (simp_all add: heap_small_def kheap_init_def mmu.defs)
  note eq = same_tables [OF f]
  show b: "bump_ptr heap_small = HEAP_BASE" "heap_end heap_small = HEAP_BASE"
    by (simp_all add: heap_small_def kheap_init_def)
  have "heap_geom heap_small"
    by (rule heap_geomI [where n = 0]) (simp_all add: b eq mmu_small unat_HEAP)
  then show "heap_inv heap_small" by (simp add: heap_inv_def b unat_HEAP)
  show "card (free_frames heap_small) = 14" by (simp add: eq mmu_small)
  show "missing heap_small (blocks {2048}) \<le> 2" using missing_blocks [of "{2048}" heap_small] by simp
qed

text \<open>C6: \<open>kmalloc\<close> with frames for the pages the block needs, and for the page tables of the heap
  window, returns the old bump pointer and advances it by the size rounded up to 16 bytes. It
  keeps the invariant that the file states, that the bump pointer is aligned and every page below
  \<open>heap_end\<close> is mapped, here to a frame of its own that is in use by nothing else, and it changes
  no mapping outside the window.\<close>

theorem kmalloc_correct:
  assumes "heap_inv s" "unat sz < 2 ^ 63"
    and "unat (bump_ptr s) + heap_aligned sz \<le> unat (HEAP_BASE + HEAP_MAX_SIZE)"
    and "2 + (unat (bump_ptr s) + heap_aligned sz - unat (heap_end s) + 4095) div 4096 \<le> card (free_frames s)"
  shows "\<exists>t. kmalloc sz s = Some (Inr (bump_ptr s), t) \<and> heap_inv t
    \<and> unat (bump_ptr t) = unat (bump_ptr s) + heap_aligned sz \<and> daif t = daif s
    \<and> (\<forall>c. c \<notin> (\<lambda>i. coord (page HEAP_BASE i)) ` {..<256} \<longrightarrow> desc_at t c = desc_at s c)"
proof -
  have g: "heap_geom s" using assms(1) by (simp add: heap_inv_def)
  have "missing s (blocks {2048}) \<le> 2" using missing_blocks [of "{2048}" s] by simp
  then have en: "missing s (blocks {2048}) + (unat (bump_ptr s) + heap_aligned sz - unat (heap_end s) + 4095) div 4096
      \<le> card (free_frames s)" using assms(4) by linarith
  obtain r t where t: "kmalloc sz s = Some (r, t)" "kmalloc_outcome sz s r t"
      "grown_by {Heap_lock, Mmu_lock, Pmm_lock} s t"
      "\<And>c. c \<notin> (\<lambda>i. coord (page HEAP_BASE i)) ` {..<256} \<Longrightarrow> desc_at t c = desc_at s c"
      "heap_inv t \<and> (\<exists>p. r = Inr p)"
    using kmalloc_stepE [OF g assms(2)] assms(1) assms(3) [unfolded unat_HEAP] en by metis
  then obtain p where r: "r = Inr p" by blast
  have "p = bump_ptr s" "unat (bump_ptr t) = unat (bump_ptr s) + heap_aligned sz"
    using t(2) by (simp_all add: r kmalloc_outcome_def)
  with t r grownD(6) [OF t(3)] show ?thesis by (intro exI [of _ t]) simp
qed

theorem kmalloc_correct_witness:
  "\<exists>t. kmalloc 5000 heap_small = Some (Inr HEAP_BASE, t) \<and> heap_inv t"
proof -
  have a: "heap_aligned 5000 = 5008" by (simp add: heap_aligned_def)
  show ?thesis
    using kmalloc_correct [OF heap_small(1), of 5000] by (simp add: heap_small unat_HEAP a) blast
qed

text \<open>C17: whatever the state of memory, \<open>kmalloc\<close> of less than \<open>2^63\<close> bytes ends, keeps the
  bounds of the heap and the page tables, takes and releases its locks in order, and has one of
  three outcomes: the block at the old bump pointer; the panic for the exhausted region, exactly
  when the block does not fit; or the panic for frames, with no frame left.\<close>

theorem kmalloc_total:
  assumes "heap_geom s" "unat sz < 2 ^ 63"
  shows "\<exists>r t. kmalloc sz s = Some (r, t) \<and> heap_geom t \<and> kmalloc_outcome sz s r t
    \<and> (\<exists>es. trace t = trace s @ es \<and> balanced {Heap_lock, Mmu_lock, Pmm_lock} es)"
  by (rule kmalloc_stepE [OF assms]) (use grownD(10) in blast)

theorem kmalloc_total_witness:
  "\<exists>t. kmalloc 0x200000 heap_small = Some (Inl ''kmalloc: heap region exhausted'', t)"
proof -
  have "heap_geom heap_small" using heap_small(1) by (simp add: heap_inv_def)
  from kmalloc_total [OF this, of "0x200000"] obtain r t where
    "kmalloc 0x200000 heap_small = Some (r, t)" "heap_geom t" "kmalloc_outcome 0x200000 heap_small r t" by auto
  moreover have "heap_aligned 0x200000 = 0x200000" by (simp add: heap_aligned_def)
  moreover have "unat (heap_end t) \<le> 0x100100000" by (rule heap_geomD) fact
  ultimately show ?thesis
    by (cases r) (auto simp: kmalloc_outcome_def heap_small unat_HEAP word_le_nat_alt)
qed

text \<open>blocks from any series of calls of \<open>kmalloc\<close> lie in the heap window, in the order of
  the calls, and no two of them share a byte.\<close>

theorem kmalloc_disjoint:
  assumes "heap_geom s" and "\<forall>sz \<in> set szs. unat sz < 2 ^ 63"
    and "bs = fst (alloc_all kmalloc_block szs s)"
  shows "(\<forall>j < length bs. \<forall>i < j. fst (bs ! i) + heap_aligned (snd (bs ! i)) \<le> fst (bs ! j))
    \<and> (\<forall>i < length bs. unat (bump_ptr s) \<le> fst (bs ! i)
         \<and> fst (bs ! i) + heap_aligned (snd (bs ! i)) \<le> 0x100100000)"
proof -
  have ok: "list_all (\<lambda>sz. unat sz < 2 ^ 63) szs" using assms(2) by (simp add: list_all_iff)
  note d = kheap.alloc_all_blocks [OF assms(1) ok]
  from d show ?thesis unfolding assms(3) by blast
qed

theorem kmalloc_disjoint_witness:
  "let bs = fst (alloc_all kmalloc_block [16, 40] heap_small)
   in \<forall>i < length bs. 0x100000000 \<le> fst (bs ! i) \<and> fst (bs ! i) + heap_aligned (snd (bs ! i)) \<le> 0x100100000"
proof -
  have "heap_geom heap_small" using heap_small(1) by (simp add: heap_inv_def)
  from kmalloc_disjoint [OF this _ refl, of "[16, 40]"] show ?thesis
    by (simp add: heap_small unat_HEAP Let_def)
qed

text \<open>
  A size within 15 of \<open>2^64\<close> overflows twice: the rounded size of \<open>-16\<close> is \<open>-16\<close>, the sum passes
  the check of the region, and the bump pointer moves back, over the last block.
\<close>

lemma kmalloc_overflow:
  assumes "heap_geom s" "0x100000010 \<le> unat (bump_ptr s)"
  shows "\<exists>t. kmalloc (- 16) s = Some (Inr (bump_ptr s), t) \<and> bump_ptr t = bump_ptr s - 16"
proof -
  note D = heap_geomD [OF assms(1)]
  obtain fl s1 where lk: "spin_lock Heap_lock s = (fl, s1)" by fastforce
  note s1 = lock_state [OF lk]
  have a: "((- 16 :: u64) + 15) AND - 16 = - 16" by simp
  have "(16 :: u64) \<le> bump_ptr s" using assms(2) by (simp add: word_le_nat_alt)
  then have u: "unat (bump_ptr s - 16) = unat (bump_ptr s) - 16" by (simp add: unat_sub)
  have "\<not> HEAP_BASE + HEAP_MAX_SIZE < bump_ptr s - 16"
    unfolding word_less_nat_alt unat_HEAP u using D(3,5) by simp
  moreover have "\<not> heap_end s < bump_ptr s - 16" unfolding word_less_nat_alt u using D(3) by simp
  then have "heap_grow (bump_ptr s - 16) s1 = Some (True, s1)"
    by (subst heap_grow.simps) (simp add: s1)
  ultimately show ?thesis
    using a by (auto simp: kmalloc_def lk Let_def unlock_state s1)
qed

end
