(* ===== verification/Dma.thy ===== *)
theory Dma
  imports Heap
begin

text \<open>
  Buffers for devices (\<open>include/kernel/dma.h\<close>, \<open>src/kernel/dma/dma.cpp\<close>): contiguous frames, mapped
  non-cacheable at addresses from a window of 1 MiB that is used up once.
\<close>

section \<open>State and operations\<close>

record dma = heap +
  dma_bump_ptr :: u64

definition DMA_BASE :: u64 where [board]: "DMA_BASE = 0x140000000"
definition DMA_MAX_SIZE :: u64 where [board]: "DMA_MAX_SIZE = 0x100000"

definition dma_page_count :: "u64 \<Rightarrow> u64" where
  "dma_page_count sz = (sz + PAGE_SIZE - 1) div PAGE_SIZE"

definition dma_reclaim_va :: "u64 \<Rightarrow> u64 \<Rightarrow> 'a dma_scheme \<Rightarrow> 'a dma_scheme" where
  "dma_reclaim_va va sz s =
     (let aligned_size = dma_page_count sz * PAGE_SIZE;
          (irq_flags, s) = spin_lock Dma_lock s;
          s = (if dma_bump_ptr s = va + aligned_size then s\<lparr>dma_bump_ptr := va\<rparr> else s)
      in spin_unlock Dma_lock irq_flags s)"

definition dma_alloc :: "u64 \<Rightarrow> 'a dma_scheme \<Rightarrow> u64 \<times> 'a dma_scheme" where
  "dma_alloc sz s =
     (let page_count = dma_page_count sz;
          aligned_size = page_count * PAGE_SIZE;
          (irq_flags, s) = spin_lock Dma_lock s
      in if dma_bump_ptr s + aligned_size > DMA_BASE + DMA_MAX_SIZE
         then (0, spin_unlock Dma_lock irq_flags s)
         else let va = dma_bump_ptr s;
                  s = spin_unlock Dma_lock irq_flags (s\<lparr>dma_bump_ptr := va + aligned_size\<rparr>);
                  (phys, s) = alloc_frames page_count s
              in if phys = 0 then (0, dma_reclaim_va va sz s)
                 else let (ok, s) = map_pages va phys aligned_size PTE_NORMAL_NC_RW s
                      in if ok then (va, s)
                         else (0, dma_reclaim_va va sz
                                (fold (\<lambda>i. free_frame (phys + of_nat i * PAGE_SIZE)) [0..<unat page_count] s)))"

definition dma_free :: "u64 \<Rightarrow> u64 \<Rightarrow> 'a dma_scheme \<Rightarrow> 'a dma_scheme" where
  "dma_free ptr sz s =
     (let page_count = dma_page_count sz;
          aligned_size = page_count * PAGE_SIZE;
          (phys, s) = translate ptr s
      in if phys = NOT 0 then s
         else fold (\<lambda>i. free_frame (phys + of_nat i * PAGE_SIZE)) [0..<unat page_count]
                (unmap ptr aligned_size s))"

section \<open>The window\<close>

lemma dma_more:
  fixes s t :: "'a dma_scheme"
  assumes "mmu.more t = mmu.more s"
  shows "bump_ptr t = bump_ptr s" "heap_end t = heap_end s" "dma_bump_ptr t = dma_bump_ptr s"
    "dma.more t = dma.more s"
  using assms by (cases s; cases t; simp)+

lemma dma_tables [simp]:
  "pt_inv (s\<lparr>dma_bump_ptr := x\<rparr>) = pt_inv s" "desc_at (s\<lparr>dma_bump_ptr := x\<rparr>) = desc_at s"
  "owned (s\<lparr>dma_bump_ptr := x\<rparr>) = owned s" "free_frames (s\<lparr>dma_bump_ptr := x\<rparr>) = free_frames s"
  "managed_frames (s\<lparr>dma_bump_ptr := x\<rparr>) = managed_frames s" "tables (s\<lparr>dma_bump_ptr := x\<rparr>) = tables s"
  "missing (s\<lparr>dma_bump_ptr := x\<rparr>) P = missing s P" "bitmap_region (s\<lparr>dma_bump_ptr := x\<rparr>) = bitmap_region s"
  by (simp_all add: same_tables [of "s\<lparr>dma_bump_ptr := x\<rparr>" s])

lemma grown_dma [simp]: "grown_by L s (t\<lparr>dma_bump_ptr := x\<rparr>) = grown_by L s t"
  by (simp add: grown_by_def)

lemma dma_emit [simp]: "dma_bump_ptr (emit es s) = dma_bump_ptr s" "dma.more (emit es s) = dma.more s"
  by (simp_all add: emit_def)

lemma unat_DMA: "unat DMA_BASE = 0x140000000" "unat (DMA_BASE + DMA_MAX_SIZE) = 0x140100000"
  by (simp_all add: board)

lemma unat_dma_page: "n \<le> 256 \<Longrightarrow> unat (page DMA_BASE n) = 0x140000000 + 4096 * n"
  by (subst unat_page) (simp_all add: unat_DMA)

lemma dma_cap: "0x140100000 < 0x140000000 + 4096 * k \<longleftrightarrow> 256 < (k :: nat)"
  by simp

lemma page_page: "page (page b n) i = page b (n + i)"
  by (simp add: page_def distrib_right)

lemma dma_block: "i < 256 \<Longrightarrow> coord (page DMA_BASE i) \<in> blocks {2560}"
proof (rule coord_blocks)
  assume i: "i < 256"
  then have u: "unat (page DMA_BASE i) = 0x140000000 + 4096 * i" by (intro unat_dma_page) simp
  with i have "vpn (page DMA_BASE i) = 0x140000 + i" by (simp add: vpn_small)
  with i show "vpn (page DMA_BASE i) div 512 \<in> {2560}" by simp
qed

definition dma_pages :: "u64 \<Rightarrow> nat" where
  "dma_pages sz = (unat sz + 4095) div 4096"

lemma unat_dma_page_count:
  assumes "unat sz < 2 ^ 63"
  shows "unat (dma_page_count sz) = dma_pages sz" "unat (dma_page_count sz * PAGE_SIZE) = 4096 * dma_pages sz"
    "unat (dma_page_count sz * PAGE_SIZE div PAGE_SIZE) = dma_pages sz"
proof -
  have "unat (sz + 4095) = unat sz + 4095" using assms by (subst unat_plus) simp_all
  moreover have "dma_page_count sz = (sz + 4095) div 4096"
    by (simp add: dma_page_count_def PAGE_SIZE_def add.commute)
  ultimately show c: "unat (dma_page_count sz) = dma_pages sz"
    by (simp add: dma_pages_def unat_div_distrib)
  have "dma_pages sz * 4096 \<le> unat sz + 4095" by (simp add: dma_pages_def)
  then have "4096 * dma_pages sz < 2 ^ 64" using assms by simp
  then show m: "unat (dma_page_count sz * PAGE_SIZE) = 4096 * dma_pages sz"
    by (simp add: unat_word_ariths c PAGE_SIZE_def)
  show "unat (dma_page_count sz * PAGE_SIZE div PAGE_SIZE) = dma_pages sz"
    unfolding unat_div_distrib m by (simp add: PAGE_SIZE_def)
qed

text \<open>
  The invariant: the pages of the window past the bump pointer are not mapped. A buffer is a run
  of pages mapped to a run of frames that nothing else uses.
\<close>

definition dma_inv :: "'a dma_scheme \<Rightarrow> bool" where
  "dma_inv s \<longleftrightarrow> pt_inv s \<and> (\<exists>n \<le> 256. dma_bump_ptr s = page DMA_BASE n
     \<and> (\<forall>i. n \<le> i \<and> i < 256 \<longrightarrow> desc_at s (coord (page DMA_BASE i)) = 0))"

definition dma_buffer :: "u64 \<Rightarrow> u64 \<Rightarrow> nat \<Rightarrow> 'a dma_scheme \<Rightarrow> bool" where
  "dma_buffer va phys n s \<longleftrightarrow> page_aligned phys \<and> unat phys + 4096 * n \<le> 0x3F800000
     \<and> (\<forall>i < n. desc_at s (coord (page va i)) = page_desc phys PTE_NORMAL_NC_RW i
              \<and> page phys i \<in> managed_frames s - owned s)"

lemma dma_reclaim_eq:
  "\<exists>es x. dma_reclaim_va va sz s = (emit es s)\<lparr>dma_bump_ptr := x\<rparr> \<and> balanced {Dma_lock} es
    \<and> x = (if dma_bump_ptr s = va + dma_page_count sz * PAGE_SIZE then va else dma_bump_ptr s)"
proof -
  obtain fl s1 where lk: "spin_lock Dma_lock s = (fl, s1)" by fastforce
  note s1 = lock_state [OF lk]
  have "balanced {Dma_lock} (with_lock Dma_lock s)" by (rule balanced_with_lock)
  then show ?thesis
    by (intro exI [of _ "with_lock Dma_lock s"])
      (auto simp: dma_reclaim_va_def lk Let_def unlock_state s1 with_lock_def)
qed

lemma clear_pages_zero:
  "(\<And>i. i \<in> N \<Longrightarrow> f (coord (page va i)) = 0) \<Longrightarrow> clear_pages va N f = f"
  by (auto simp: clear_pages_def fun_eq_iff)

definition dma_outcome :: "u64 \<Rightarrow> 'a dma_scheme \<Rightarrow> u64 \<Rightarrow> 'a dma_scheme \<Rightarrow> bool" where
  "dma_outcome sz s r t \<longleftrightarrow>
    (if r = 0 then dma_bump_ptr t = dma_bump_ptr s \<and> desc_at t = desc_at s
     else r = dma_bump_ptr s \<and> 0 < dma_pages sz
       \<and> unat (dma_bump_ptr t) = unat r + 4096 * dma_pages sz
       \<and> (\<exists>phys. dma_buffer r phys (dma_pages sz) t \<and> page phys ` {..<dma_pages sz} \<subseteq> free_frames s)
       \<and> (\<forall>c. c \<notin> (\<lambda>i. coord (page r i)) ` {..<dma_pages sz} \<longrightarrow> desc_at t c = desc_at s c))"

lemma dma_invE:
  assumes "dma_inv s"
  obtains n where "pt_inv s" "n \<le> 256" "dma_bump_ptr s = page DMA_BASE n" "unat (dma_bump_ptr s) = 0x140000000 + 4096 * n"
    "\<forall>i. n \<le> i \<and> i < 256 \<longrightarrow> desc_at s (coord (page DMA_BASE i)) = 0"
  using assms unat_dma_page unfolding dma_inv_def by metis

lemma dma_invI:
  assumes "pt_inv s" "n \<le> 256" "dma_bump_ptr s = page DMA_BASE n"
    "\<And>i. n \<le> i \<Longrightarrow> i < 256 \<Longrightarrow> desc_at s (coord (page DMA_BASE i)) = 0"
  shows "dma_inv s"
  using assms unfolding dma_inv_def by blast

text \<open>The mapping step: the window's pages to the run of frames, or nothing at all.\<close>

lemma dma_map_step:
  assumes inv: "pt_inv s" and mp: "map_pages (page DMA_BASE n) phys sz PTE_NORMAL_NC_RW s = (ok, t)"
    and c: "unat (sz div PAGE_SIZE) = c" "n + c \<le> 256"
    and z: "\<forall>i. n \<le> i \<and> i < 256 \<longrightarrow> desc_at s (coord (page DMA_BASE i)) = 0"
  shows "grown s t" "mmu.more t = mmu.more s" "owned t = owned s"
    and "\<not> ok \<Longrightarrow> desc_at t = desc_at s"
    and "ok \<Longrightarrow> i < c \<Longrightarrow> desc_at t (coord (page (page DMA_BASE n) i)) = page_desc phys PTE_NORMAL_NC_RW i"
    and "ok \<Longrightarrow> d \<notin> (\<lambda>i. coord (page (page DMA_BASE n) i)) ` {..<c} \<Longrightarrow> desc_at t d = desc_at s d"
    and "2 \<le> card (free_frames s) \<Longrightarrow> ok"
proof -
  have cb: "unat (sz div PAGE_SIZE) \<le> 2 ^ 27" using c by simp
  note st = map_pages_step [OF inv mp cb, unfolded c(1)]
  show "grown s t" by (rule grown_map [OF inv mp cb])
  show "mmu.more t = mmu.more s" "owned t = owned s" by (rule mmu_stepD [OF st(1)])+
  show "desc_at t = desc_at s" if nok: "\<not> ok"
  proof -
    obtain m where m: "m < c" "desc_at t = clear_pages (page DMA_BASE n) {..<m} (desc_at s)"
      using st(3) nok by blast
    show ?thesis unfolding m(2) by (rule clear_pages_zero) (use z m(1) c(2) in \<open>simp add: page_page\<close>)
  qed
  show "ok \<Longrightarrow> i < c \<Longrightarrow> desc_at t (coord (page (page DMA_BASE n) i)) = page_desc phys PTE_NORMAL_NC_RW i"
    "ok \<Longrightarrow> d \<notin> (\<lambda>i. coord (page (page DMA_BASE n) i)) ` {..<c} \<Longrightarrow> desc_at t d = desc_at s d"
    using map_ok [OF inv _ cb, of "page DMA_BASE n" phys PTE_NORMAL_NC_RW t] mp by (simp_all add: c(1))
  assume en: "2 \<le> card (free_frames s)"
  have "missing s (blocks {2560}) \<le> 2" using missing_blocks [of "{2560}" s] by simp
  then have "missing s (blocks {2560}) + 0 \<le> card (free_frames s)" using en by simp
  moreover have "(\<lambda>i. coord (page (page DMA_BASE n) i)) ` {..<c} \<subseteq> blocks {2560}"
    using dma_block c(2) by (auto simp: page_page)
  ultimately show ok using st(4) [OF finite_blocks, of "{2560}" 0] by simp
qed

lemma dma_alloc_step:
  assumes inv: "dma_inv s" and sz: "unat sz < 2 ^ 63" and eq: "dma_alloc sz s = (r, t)"
  shows "dma_inv t \<and> grown_by {Dma_lock, Mmu_lock, Pmm_lock} s t \<and> dma_outcome sz s r t
    \<and> (0 < dma_pages sz \<longrightarrow> unat (dma_bump_ptr s) + 4096 * dma_pages sz \<le> 0x140100000
       \<longrightarrow> first_run (dma_pages sz) s \<noteq> None \<longrightarrow> 2 + dma_pages sz \<le> card (free_frames s) \<longrightarrow> r \<noteq> 0)"
proof -
  obtain n where n: "pt_inv s" "n \<le> 256" "dma_bump_ptr s = page DMA_BASE n"
    "unat (dma_bump_ptr s) = 0x140000000 + 4096 * n"
    "\<forall>i. n \<le> i \<and> i < 256 \<longrightarrow> desc_at s (coord (page DMA_BASE i)) = 0" by (rule dma_invE [OF inv])
  define c where "c = dma_pages sz"
  note uc = unat_dma_page_count [OF sz, folded c_def]
  have cb: "4096 * c < 2 ^ 63 + 4096" using sz by (simp add: c_def dma_pages_def)
  have ur: "unat (dma_bump_ptr s + dma_page_count sz * PAGE_SIZE) = 0x140000000 + 4096 * (n + c)"
    using n(2,4) cb uc(2) by (subst unat_plus) simp_all
  obtain fl s1 where lk: "spin_lock Dma_lock s = (fl, s1)" by fastforce
  note s1 = lock_state [OF lk]
  let ?L = "{Dma_lock, Mmu_lock, Pmm_lock}"
  have subL: "{Mmu_lock, Pmm_lock} \<subseteq> ?L" by blast
  have bl: "balanced ?L (with_lock Dma_lock s)" by (rule balanced_mono [OF balanced_with_lock]) simp
  have cap: "DMA_BASE + DMA_MAX_SIZE < dma_bump_ptr s + dma_page_count sz * PAGE_SIZE \<longleftrightarrow> 256 < n + c"
    unfolding word_less_nat_alt ur unat_DMA by (rule dma_cap)
  have out: "spin_unlock Dma_lock fl s1 = emit (with_lock Dma_lock s) s"
    by (simp add: unlock_state s1 with_lock_def)
  show ?thesis
  proof (cases "256 < n + c")
    case True
    then have rt: "r = 0" "t = emit (with_lock Dma_lock s) s"
      using eq cap by (simp_all add: dma_alloc_def lk Let_def s1 flip: out)
    have "dma_inv t" by (rule dma_invI [of _ n]) (use n in \<open>simp_all add: rt\<close>)
    with True n(1,4) bl show ?thesis
      by (simp add: rt dma_outcome_def grown_emit flip: c_def)
  next
    case fits: False
    define s2 where "s2 = (emit (with_lock Dma_lock s) s)\<lparr>dma_bump_ptr := page DMA_BASE (n + c)\<rparr>"
    have va: "dma_bump_ptr s + dma_page_count sz * PAGE_SIZE = page DMA_BASE (n + c)"
      unfolding word_unat_eq_iff ur by (rule sym, rule unat_dma_page) (use fits in simp)
    have s2: "spin_unlock Dma_lock fl (s1\<lparr>dma_bump_ptr := dma_bump_ptr s + dma_page_count sz * PAGE_SIZE\<rparr>) = s2"
      by (simp add: unlock_state s1 with_lock_def s2_def va)
    have g2: "grown_by ?L s s2" using grown_emit [OF n(1) bl] by (simp add: s2_def)
    have i2: "pt_inv s2" using n(1) by (simp add: s2_def)
    obtain phys s3 where al: "alloc_frames (dma_page_count sz) s2 = (phys, s3)" by fastforce
    have b1: "dma_bump_ptr s1 = dma_bump_ptr s" by (simp add: s1)
    have alloc: "dma_alloc sz s = (if phys = 0 then (0, dma_reclaim_va (dma_bump_ptr s) sz s3)
      else case map_pages (dma_bump_ptr s) phys (dma_page_count sz * PAGE_SIZE) PTE_NORMAL_NC_RW s3 of (ok, s4) \<Rightarrow>
        if ok then (dma_bump_ptr s, s4)
        else (0, dma_reclaim_va (dma_bump_ptr s) sz
               (fold (\<lambda>i. free_frame (phys + of_nat i * PAGE_SIZE)) [0..<unat (dma_page_count sz)] s4)))"
      using fits cap by (simp add: dma_alloc_def lk Let_def b1 s2 al)
    note af = alloc_frames_mmu [OF i2 al, unfolded uc(1)]
    note m3 = dma_more [OF af(3)]
    have g3: "grown_by ?L s s3" by (rule grown_trans [OF g2 grown_mono [OF af(1)]]) simp
    have reclaim: "\<exists>es. dma_reclaim_va (dma_bump_ptr s) sz u = (emit es u)\<lparr>dma_bump_ptr := dma_bump_ptr s\<rparr> \<and> balanced {Dma_lock} es"
      if "dma_bump_ptr u = page DMA_BASE (n + c)" for u :: "'a dma_scheme"
      using dma_reclaim_eq [of "dma_bump_ptr s" sz u] that by (auto simp: va)
    have failed: "dma_inv v \<and> grown_by ?L s v \<and> dma_outcome sz s 0 v"
      if v: "v = dma_reclaim_va (dma_bump_ptr s) sz u" and u: "dma_bump_ptr u = page DMA_BASE (n + c)"
        "grown_by ?L s u" "desc_at u = desc_at s" for u v :: "'a dma_scheme"
    proof -
      obtain es where es: "v = (emit es u)\<lparr>dma_bump_ptr := dma_bump_ptr s\<rparr>" "balanced {Dma_lock} es"
        using reclaim [OF u(1)] v by blast
      have "grown_by ?L u (emit es u)"
        by (rule grown_emit [OF grownD(1) [OF u(2)] balanced_mono [OF es(2)]]) simp
      then have g: "grown_by ?L s v" using grown_trans [OF u(2)] by (simp add: es(1))
      moreover have "dma_inv v"
        by (rule dma_invI [of _ n]) (use n u(3) grownD(1) [OF g] in \<open>simp_all add: es(1)\<close>)
      ultimately show ?thesis using u(3) by (simp add: dma_outcome_def es(1))
    qed
    have free2: "free_frames s2 = free_frames s" by (simp add: s2_def)
    show ?thesis
    proof (cases "phys = 0")
      case True
      then have rt: "r = 0" "t = dma_reclaim_va (dma_bump_ptr s) sz s3"
        using eq alloc by simp_all
      have "desc_at s3 = desc_at s" by (simp add: af(2) s2_def)
      moreover have "first_run c s = None" if "0 < c"
      proof -
        have "dma_page_count sz \<noteq> 0" using uc(1) that by auto
        moreover have "first_run c s2 = first_run c s"
          by (simp add: first_run_def s2_def same_tables(13) [of "(emit es s)\<lparr>dma_bump_ptr := x\<rparr>" s for es x])
        ultimately show ?thesis using af(8) [OF True] by simp
      qed
      ultimately show ?thesis
        using failed [OF rt(2) _ g3] m3(3) by (simp add: rt(1) s2_def flip: c_def)
    next
      case nz: False
      obtain ok s4 where mp: "map_pages (page DMA_BASE n) phys (dma_page_count sz * PAGE_SIZE) PTE_NORMAL_NC_RW s3 = (ok, s4)"
        by fastforce
      have fc: "n + c \<le> 256" using fits by simp
      have z3: "\<forall>i. n \<le> i \<and> i < 256 \<longrightarrow> desc_at s3 (coord (page DMA_BASE i)) = 0"
        using n(5) by (simp add: af(2) s2_def)
      note mm = dma_map_step [OF grownD(1) [OF af(1)] mp uc(3) fc z3]
      note run = af(6) [OF nz] and runc = af(7) [OF nz]
      have g4: "grown_by ?L s s4" by (rule grown_trans [OF g3 grown_mono [OF mm(1) subL]])
      have own: "owned s4 = owned s - page phys ` {..<c}" using run mm(3) by (simp add: s2_def)
      have man: "managed_frames s4 = managed_frames s" by (rule grownD(2) [OF g4])
      have sub: "page phys ` {..<c} \<subseteq> managed_frames s" using run pt_invD(7) [OF n(1)] by (auto simp: s2_def)
      have b4: "dma_bump_ptr s4 = page DMA_BASE (n + c)"
        using dma_more(3) [OF mm(2)] m3(3) by (simp add: s2_def)
      have "dma_page_count sz \<noteq> 0" using run by blast
      then have "0 < unat (dma_page_count sz)" by (simp add: unat_gt_0)
      then have c0: "0 < c" by (simp only: uc(1))
      show ?thesis
      proof (cases ok)
        case True
        then have rt: "r = page DMA_BASE n" "t = s4"
          using eq nz mp by (simp_all add: alloc n(3))
        have un: "unat (page DMA_BASE n) = 0x140000000 + 4096 * n" using n(2) by (rule unat_dma_page)
        then have "r \<noteq> 0" using rt(1) by auto
        have un': "unat (page DMA_BASE (n + c)) = 0x140000000 + 4096 * (n + c)" using fc by (rule unat_dma_page)
        have "dma_buffer r phys c t"
          unfolding dma_buffer_def using mm(5) [OF True] runc sub
          by (auto simp: rt own man)
        then have buf: "\<exists>phys. dma_buffer r phys c t \<and> page phys ` {..<c} \<subseteq> free_frames s"
          using run free2 by auto
        have other: "desc_at t d = desc_at s d" if "d \<notin> (\<lambda>i. coord (page r i)) ` {..<c}" for d
          using mm(6) [OF True] that by (simp add: rt af(2) s2_def)
        have "dma_outcome sz s r t"
          unfolding dma_outcome_def using \<open>r \<noteq> 0\<close> c0 buf other un un'
          by (simp add: rt(1) n(3) flip: c_def) (simp add: rt(2) b4)
        moreover have "dma_inv t"
        proof (rule dma_invI [OF _ fc])
          show "pt_inv t" "dma_bump_ptr t = page DMA_BASE (n + c)" using grownD(1) [OF g4] b4 by (simp_all add: rt)
          fix i assume i: "n + c \<le> i" "i < 256"
          have inj: "inj_on (\<lambda>i. coord (page DMA_BASE i)) {..<256}" by (rule coord_page_inj) simp
          have "coord (page DMA_BASE i) \<notin> (\<lambda>j. coord (page r j)) ` {..<c}"
          proof
            assume "coord (page DMA_BASE i) \<in> (\<lambda>j. coord (page r j)) ` {..<c}"
            then obtain j where "j < c" "coord (page DMA_BASE i) = coord (page DMA_BASE (n + j))"
              by (auto simp: rt(1) page_page)
            then show False using inj_onD [OF inj, of i "n + j"] i fc by simp
          qed
          then show "desc_at t (coord (page DMA_BASE i)) = 0" using other n(5) i by simp
        qed
        ultimately show ?thesis using g4 \<open>r \<noteq> 0\<close> by (simp add: rt(2))
      next
        case False
        define s5 where "s5 = fold (\<lambda>i. free_frame (phys + of_nat i * PAGE_SIZE)) [0..<c] s4"
        have rt: "r = 0" "t = dma_reclaim_va (dma_bump_ptr s) sz s5"
          using eq nz mp False by (simp_all add: alloc n(3) s5_def uc(1))
        have pg: "phys + of_nat i * PAGE_SIZE = page phys i" for i by (simp add: page_def)
        have s5: "s5 = fold (\<lambda>i. free_frame (page phys i)) [0..<c] s4" by (simp add: s5_def pg)
        have "page phys i \<in> managed_frames s4 - tables s4" if "i < c" for i
        proof -
          have "page phys i \<notin> owned s4" using that by (simp add: own)
          then show ?thesis using sub that by (auto simp: owned_def man)
        qed
        then have "\<forall>i \<in> set [0..<c]. page phys i \<in> managed_frames s4 - tables s4" by simp
        note f = free_frames_mmu [OF grownD(1) [OF g4] this, folded s5]
        have "grown_by ?L s s5"
        proof -
          obtain es es' where es: "trace s4 = trace s @ es" "balanced ?L es" "trace s5 = trace s4 @ es'" "balanced {Pmm_lock} es'"
            using grownD(10) [OF g4] f(14) by blast
          have "balanced ?L (es @ es')" by (rule balanced_append [OF es(2) balanced_mono [OF es(4)]]) simp
          then have "\<exists>es. trace s5 = trace s @ es \<and> balanced ?L es" using es(1,3) by auto
          moreover have "owned s5 \<subseteq> owned s"
          proof -
            have "page phys ` {..<c} \<subseteq> owned s" using run free2 by (auto simp: owned_def)
            then show ?thesis unfolding f(7) own by (auto simp: atLeast0LessThan)
          qed
          moreover have "mem s5 x = mem s x" if "x \<notin> bitmap_region s" "x \<notin> words_of (owned s)" for x
            using f(15) [of x] grownD(9) [OF g4 that] grownD(4) [OF g4] that by simp
          ultimately show ?thesis
            using grownD(1-7) [OF g4] f by (simp add: grown_by_def)
        qed
        moreover have "desc_at s5 = desc_at s" using mm(4) [OF False] by (simp add: f(2) af(2) s2_def)
        moreover have "dma_bump_ptr s5 = page DMA_BASE (n + c)" using dma_more(3) [OF f(3)] b4 by simp
        moreover have "\<not> 2 + c \<le> card (free_frames s)"
        proof
          assume en: "2 + c \<le> card (free_frames s)"
          have "card (free_frames s3) = card (free_frames s) - c"
            using run runc free2 free_frames_finite by (simp add: card_Diff_subset)
          then have "2 \<le> card (free_frames s3)" using en by linarith
          from mm(7) [OF this] False show False by simp
        qed
        ultimately show ?thesis using failed [OF rt(2)] by (simp add: rt(1) flip: c_def)
      qed
    qed
  qed
qed

section \<open>Freeing\<close>

lemma dma_free_step:
  assumes inv: "pt_inv s" and sz: "unat sz < 2 ^ 63" and c: "0 < dma_pages sz" "dma_pages sz \<le> 2 ^ 27"
    and va: "page_aligned va" and buf: "dma_buffer va phys (dma_pages sz) s"
  defines "t \<equiv> dma_free va sz s"
  shows "pt_inv t" "desc_at t = clear_pages va {..<dma_pages sz} (desc_at s)"
    "page phys ` {..<dma_pages sz} \<subseteq> free_frames t" "mmu.more t = mmu.more s" "daif t = daif s"
    "managed_frames t = managed_frames s" "owned t = page phys ` {..<dma_pages sz} \<union> owned s"
proof -
  define n where "n = dma_pages sz"
  note uc = unat_dma_page_count [OF sz, folded n_def]
  have b: "page_aligned phys" "unat phys + 4096 * n \<le> 0x3F800000"
    "i < n \<Longrightarrow> desc_at s (coord (page va i)) = page_desc phys PTE_NORMAL_NC_RW i"
    "i < n \<Longrightarrow> page phys i \<in> managed_frames s - owned s" for i
    using buf by (auto simp: dma_buffer_def n_def)
  have fl: "PTE_NORMAL_NC_RW AND ADDR_MASK = 0" by (simp add: board ADDR_MASK_def)
  define s1 where "s1 = emit (with_lock Mmu_lock s) s"
  have pd: "desc_at s (coord va) = page_desc phys PTE_NORMAL_NC_RW 0" using b(3) [of 0] c(1) by (simp add: n_def)
  have "unat phys < 2 ^ 48" using b(2) by simp
  then have pa: "page_desc phys PTE_NORMAL_NC_RW 0 AND ADDR_MASK = phys"
    using page_desc_addr [of phys 0 PTE_NORMAL_NC_RW] b(1) fl by simp
  have low: "va AND 0xFFF = 0"
    unfolding mask_word_simps by (rule bit_word_eqI) (use aligned_bits [OF va] in \<open>auto simp: bit_simps\<close>)
  have tr: "translate va s = (phys, s1)"
    using translate_eq [OF inv, of va] by (simp add: pd pa low s1_def)
  have "unat (NOT 0 :: u64) = 0xFFFFFFFFFFFFFFFF" by (simp add: unsigned_minus_1_eq_mask mask_eq_exp_minus_1)
  then have "phys \<noteq> NOT 0" using b(2) by auto
  then have eq: "t = fold (\<lambda>i. free_frame (page phys i)) [0..<n] (unmap va (dma_page_count sz * PAGE_SIZE) s1)"
    by (simp add: t_def dma_free_def Let_def tr uc(1) page_def)
  define s2 where "s2 = unmap va (dma_page_count sz * PAGE_SIZE) s1"
  have i1: "pt_inv s1" using inv by (simp add: s1_def)
  note um = unmap_step [OF i1, where va = va and sz = "dma_page_count sz * PAGE_SIZE", unfolded uc(3), folded s2_def]
  note d = mmu_stepD [OF um(1)]
  have "\<forall>i < n. desc_at s1 (coord (page va i)) \<noteq> 0" using b(3) by (simp add: s1_def)
  then have ds: "desc_at s2 = clear_pages va {..<n} (desc_at s)"
    using um(2) c(2) unfolding n_def [symmetric] by (auto simp: s1_def)
  have o: "owned s2 = owned s" "managed_frames s2 = managed_frames s" "mmu.more s2 = mmu.more s" "daif s2 = daif s"
    using d by (simp_all add: s1_def)
  have "page phys i \<in> managed_frames s2 - tables s2" if "i < n" for i
  proof -
    have "page phys i \<notin> owned s2" "page phys i \<in> managed_frames s2" using b(4) [OF that] o by simp_all
    then show ?thesis by (simp add: owned_def)
  qed
  then have "\<forall>i \<in> set [0..<n]. page phys i \<in> managed_frames s2 - tables s2" by simp
  note f = free_frames_mmu [OF d(1) this, folded s2_def eq [folded s2_def]]
  show "pt_inv t" by (rule f)
  show "desc_at t = clear_pages va {..<dma_pages sz} (desc_at s)" by (simp add: f ds n_def)
  show "page phys ` {..<dma_pages sz} \<subseteq> free_frames t" by (auto simp: f n_def)
  show "mmu.more t = mmu.more s" "daif t = daif s" "managed_frames t = managed_frames s"
    "owned t = page phys ` {..<dma_pages sz} \<union> owned s"
    by (simp_all add: f o atLeast0LessThan n_def)
qed

section \<open>Buffers do not overlap\<close>

definition dma_block_alloc :: "u64 \<Rightarrow> 'a dma_scheme \<Rightarrow> u64 option \<times> 'a dma_scheme" where
  "dma_block_alloc sz s = (case dma_alloc sz s of (r, t) \<Rightarrow> (if r = 0 then None else Some r, t))"

interpretation dma_window: bump_allocator
  "dma_inv :: 'a dma_scheme \<Rightarrow> bool" "\<lambda>sz. unat sz < 2 ^ 63" "\<lambda>sz. 4096 * dma_pages sz"
  "\<lambda>s. unat (dma_bump_ptr s)" "0x140100000" dma_block_alloc
proof
  fix s :: "'a dma_scheme" and sz a :: u64
  assume s: "dma_inv s"
  show "unat (dma_bump_ptr s) \<le> 0x140100000" by (rule dma_invE [OF s]) simp
  assume sz: "unat sz < 2 ^ 63"
  obtain r t where rt: "dma_alloc sz s = (r, t)" by fastforce
  note st = dma_alloc_step [OF s sz rt]
  show "dma_inv (snd (dma_block_alloc sz s))" using st by (simp add: dma_block_alloc_def rt)
  show "unat (dma_bump_ptr (snd (dma_block_alloc sz s))) = unat (dma_bump_ptr s)"
    if "fst (dma_block_alloc sz s) = None"
    using that st by (simp add: dma_block_alloc_def rt dma_outcome_def split: if_splits)
  show "unat a = unat (dma_bump_ptr s)
      \<and> unat (dma_bump_ptr s) + 4096 * dma_pages sz \<le> unat (dma_bump_ptr (snd (dma_block_alloc sz s)))"
    if "fst (dma_block_alloc sz s) = Some a"
    using that st by (simp add: dma_block_alloc_def rt dma_outcome_def split: if_splits)
qed

section \<open>Properties of the buffers\<close>

text \<open>The small machine once more: fourteen free frames, any thirteen of fifteen hold a pair.\<close>

definition dma_small :: dma where
  "dma_small = heap.extend heap_small \<lparr>dma_bump_ptr = DMA_BASE\<rparr>"

lemma zero_table_total: "total_frames (zero_table a s) = total_frames s"
proof -
  have "total_frames (fold (\<lambda>i. store a i 0) is s) = total_frames s" for "is"
    by (induction "is" arbitrary: s) auto
  then show ?thesis by (simp add: zero_table_def)
qed

lemma mmu_small_total: "total_frames mmu_small = 15"
proof -
  note p = pmm_init_small [of mmu_ram0]
  obtain a t where at: "alloc_frame (pmm_init 0x3F7F0000 mmu_ram0) = (a, t)" by fastforce
  have "total_frames t = 15" using alloc_frame_abs(2) [OF p(1) at] p(3) by simp
  then show ?thesis by (simp add: mmu_small_def at install_root_def zero_table_total)
qed

lemma mmu_small_run: "first_run 2 mmu_small \<noteq> None"
proof
  assume none: "first_run 2 mmu_small = None"
  have inj: "inj_on (frame_addr mmu_small) (free_set mmu_small)"
    using pt_invD(2) [OF mmu_small(1)]
    by (intro inj_onI) (auto simp: frame_addr_inj dest!: free_set_less)
  have "card (free_set mmu_small) = 14"
    using mmu_small(3) card_image [OF inj] by (simp add: free_frames_def)
  moreover have sub: "free_set mmu_small \<subseteq> {..<15}"
    using free_set_less [of _ mmu_small] by (auto simp: mmu_small_total)
  ultimately have "card ({..<15} - free_set mmu_small) = 1" by (subst card_Diff_subset) (auto intro: finite_subset)
  then obtain m where m: "{..<15} - free_set mmu_small = {m}" by (auto simp: card_1_singleton_iff)
  define st :: nat where "st = (if m < 2 then 2 else 0)"
  have "{st..<st + 2} \<subseteq> {..<15} - {m}" by (auto simp: st_def)
  also have "\<dots> \<subseteq> free_set mmu_small" using m by auto
  finally have "{st..<st + 2} \<subseteq> free_set mmu_small" .
  moreover have "st \<le> 2" by (simp add: st_def)
  ultimately show False using first_run_NoneD [OF none, of st] by (simp add: mmu_small_total)
qed

lemma dma_small: "dma_inv dma_small" "dma_bump_ptr dma_small = DMA_BASE"
  "card (free_frames dma_small) = 14" "first_run 2 dma_small \<noteq> None"
proof -
  have f: "mem dma_small = mem mmu_small" "bitmap dma_small = bitmap mmu_small"
    "phys_mem_start dma_small = phys_mem_start mmu_small" "total_frames dma_small = total_frames mmu_small"
    "l1_table dma_small = l1_table mmu_small"
    by (simp_all add: dma_small_def heap_small_def kheap_init_def mmu.defs heap.defs)
  note eq = same_tables [OF f]
  show b: "dma_bump_ptr dma_small = DMA_BASE" by (simp add: dma_small_def heap.defs)
  show "dma_inv dma_small"
    by (rule dma_invI [where n = 0]) (simp_all add: b eq mmu_small)
  show "card (free_frames dma_small) = 14" by (simp add: eq mmu_small)
  have "first_run 2 dma_small = first_run 2 mmu_small" by (simp add: first_run_def eq f)
  then show "first_run 2 dma_small \<noteq> None" using mmu_small_run by simp
qed





text \<open>no two buffers from a series of calls of \<open>dma_alloc\<close> share an address, and all lie in
  the window.\<close>

theorem dma_disjoint:
  assumes "dma_inv s" and "\<forall>sz \<in> set szs. unat sz < 2 ^ 63"
    and "bs = fst (alloc_all dma_block_alloc szs s)"
  shows "(\<forall>j < length bs. \<forall>i < j. fst (bs ! i) + 4096 * dma_pages (snd (bs ! i)) \<le> fst (bs ! j))
    \<and> (\<forall>i < length bs. unat (dma_bump_ptr s) \<le> fst (bs ! i)
         \<and> fst (bs ! i) + 4096 * dma_pages (snd (bs ! i)) \<le> 0x140100000)"
proof -
  have ok: "list_all (\<lambda>sz. unat sz < 2 ^ 63) szs" using assms(2) by (simp add: list_all_iff)
  note d = dma_window.alloc_all_blocks [OF assms(1) ok]
  from d show ?thesis unfolding assms(3) by blast
qed

theorem dma_disjoint_witness:
  "let bs = fst (alloc_all dma_block_alloc [16, 5000] dma_small)
   in \<forall>i < length bs. 0x140000000 \<le> fst (bs ! i) \<and> fst (bs ! i) + 4096 * dma_pages (snd (bs ! i)) \<le> 0x140100000"
  using dma_disjoint [OF dma_small(1) _ refl, of "[16, 5000]"] by (simp add: dma_small unat_DMA Let_def)

end
