(* ===== verification/Timer.thy ===== *)
theory Timer
  imports Uart Dma
begin

text \<open>
  The tick counter and the delays (\<open>src/kernel/timer/timer.cpp\<close>). The counter \<open>CNTPCT_EL0\<close> and its
  frequency are read from the environment.
\<close>

section \<open>State and operations\<close>

record timer = dma +
  time :: u64
  freq :: u64

definition timer_init :: "'a timer_scheme \<Rightarrow> 'a timer_scheme option" where
  "timer_init s = do {
     (v, s) \<leftarrow> mrs CNTFRQ_EL0 s;
     let s = s\<lparr>freq := v\<rparr>;
     let s = msr CNTP_TVAL_EL0 (freq s div 10) s;
     Some (msr CNTP_CTL_EL0 1 s) }"

definition increment_time :: "'a timer_scheme \<Rightarrow> 'a timer_scheme" where
  "increment_time s =
     (let (flags, s) = spin_lock Timer_lock s;
          s = s\<lparr>time := time s + 1\<rparr>
      in spin_unlock Timer_lock flags s)"

definition get_time :: "'a timer_scheme \<Rightarrow> u64 \<times> 'a timer_scheme" where
  "get_time s =
     (let (flags, s) = spin_lock Timer_lock s; t = time s
      in (t, spin_unlock Timer_lock flags s))"

definition get_freq :: "'a timer_scheme \<Rightarrow> u64" where "get_freq s = freq s"

text \<open>The first read is of \<open>CNTFRQ_EL0\<close>, as in the source.\<close>

definition delay_ms :: "u64 \<Rightarrow> 'a io_scheme \<Rightarrow> 'a io_scheme option" where
  "delay_ms N s = do {
     (init_count, s) \<leftarrow> mrs CNTFRQ_EL0 s;
     let target_ticks = init_count div 1000 * N;
     (_, s) \<leftarrow> poll_until (mrs CNTPCT_EL0) (\<lambda>d_time. \<not> (d_time - init_count \<le> target_ticks)) s;
     Some s }"

definition get_ticks :: "'a io_scheme \<Rightarrow> (u64 \<times> 'a io_scheme) option" where
  "get_ticks s = mrs CNTPCT_EL0 s"

definition ticks_elapsed_ms :: "u64 \<Rightarrow> u64 \<Rightarrow> 'a io_scheme \<Rightarrow> (bool \<times> 'a io_scheme) option" where
  "ticks_elapsed_ms start_ticks ms s = do {
     (freq, s) \<leftarrow> mrs CNTFRQ_EL0 s;
     let target_ticks = freq div 1000 * ms;
     (ticks, s) \<leftarrow> get_ticks s;
     Some (ticks - start_ticks \<ge> target_ticks, s) }"

definition print_time :: "'a timer_scheme \<Rightarrow> 'a timer_scheme option" where
  "print_time s = do {
     s \<leftarrow> uart_puts (13 # ascii ''Uptime: '') s;
     let (t, s) = get_time s;
     uart_put_uint t s }"

definition shell_print_time :: "'a timer_scheme \<Rightarrow> 'a timer_scheme option" where
  "shell_print_time s = do {
     s \<leftarrow> uart_puts (13 # ascii ''Uptime: '') s;
     let (t, s) = get_time s;
     s \<leftarrow> uart_put_uint t s;
     uart_puts [13, 10] s }"

section \<open>Lemmas\<close>

lemma timer_emit [simp]: "time (emit es s) = time s" "freq (emit es s) = freq s"
  by (simp_all add: emit_def)

lemma increment_time_eq:
  "increment_time s = (emit (with_lock Timer_lock s) s)\<lparr>time := time s + 1\<rparr>"
proof -
  obtain fl s1 where lk: "spin_lock Timer_lock s = (fl, s1)" by fastforce
  note s1 = lock_state [OF lk]
  have e: "emit es (s\<lparr>time := x\<rparr>) = (emit es s)\<lparr>time := x\<rparr>" for es x and s :: "'a timer_scheme"
    by (simp add: emit_def)
  show ?thesis by (simp add: increment_time_def lk Let_def unlock_state s1 with_lock_def e)
qed

lemma get_time_eq: "get_time s = (time s, emit (with_lock Timer_lock s) s)"
proof -
  obtain fl s1 where lk: "spin_lock Timer_lock s = (fl, s1)" by fastforce
  note s1 = lock_state [OF lk]
  show ?thesis by (simp add: get_time_def lk Let_def unlock_state s1 with_lock_def)
qed

lemma mrs_eq: "inp s = v # vs \<Longrightarrow> mrs r s = Some (v, emit [Mrs r v] (s\<lparr>inp := vs\<rparr>))"
  by (simp add: mrs_def env_read_def)

lemma mrs_SomeD: "mrs r s = Some (v, t) \<Longrightarrow> \<exists>vs. inp s = v # vs \<and> t = emit [Mrs r v] (s\<lparr>inp := vs\<rparr>)"
  by (auto simp: mrs_def env_read_def split: list.splits)

section \<open>Properties\<close>

text \<open>a delay that starts when the counter is outside \<open>[f, f + f/1000 * N]\<close>, for the counter
  frequency \<open>f\<close>, is none: \<open>delay_ms\<close> reads the frequency register in place of the counter as its
  starting point and returns after one look at the counter. That is the case in the first second
  after power-on and at any time later than \<open>N\<close> milliseconds after it.\<close>

theorem delay_ms_no_wait:
  assumes "inp s = f # d # vs" and "unat (f div 1000) * unat N < 2 ^ 64"
    and "unat d < unat f \<and> unat f - unat d + unat (f div 1000) * unat N < 2 ^ 64
         \<or> unat f + unat (f div 1000) * unat N < unat d"
  shows "delay_ms N s = Some (emit [Mrs CNTFRQ_EL0 f, Mrs CNTPCT_EL0 d] (s\<lparr>inp := vs\<rparr>))"
proof -
  have t: "unat (f div 1000 * N) = unat (f div 1000) * unat N"
    using assms(2) by (simp add: unat_word_ariths)
  have "\<not> d - f \<le> f div 1000 * N"
    using assms(3)
  proof
    assume a: "unat d < unat f \<and> unat f - unat d + unat (f div 1000) * unat N < 2 ^ 64"
    then have "\<not> f \<le> d" by (simp add: word_le_nat_alt)
    then have "unat (d - f) = unat d + 2 ^ 64 - unat f" by (simp add: unat_sub_if_size word_size word_le_nat_alt)
    then show ?thesis using a unfolding word_le_nat_alt t by linarith
  next
    assume a: "unat f + unat (f div 1000) * unat N < unat d"
    then have "f \<le> d" by (simp add: word_le_nat_alt)
    then have "unat (d - f) = unat d - unat f" by (rule unat_sub)
    then show ?thesis using a unfolding word_le_nat_alt t by linarith
  qed
  then show ?thesis
    using assms(1) by (simp add: delay_ms_def mrs_eq) (subst poll_until.simps, simp add: mrs_eq)
qed

theorem delay_ms_no_wait_witness:
  "delay_ms 10 (io0 [54000000, 54540001]) = Some (emit [Mrs CNTFRQ_EL0 54000000, Mrs CNTPCT_EL0 54540001] (io0 []))"
  using delay_ms_no_wait [of "io0 [54000000, 54540001]" 54000000 54540001 "[]" 10] by (simp add: io0_def)

text \<open>C25: \<open>ticks_elapsed_ms\<close> is right: for a start and a current counter value less than \<open>2^64\<close>
  ticks apart, also across a wrap of the counter, it tells whether \<open>ms\<close> milliseconds of
  \<open>freq / 1000\<close> ticks have passed.\<close>

theorem ticks_elapsed_ms_correct:
  assumes "inp s = f # now # vs" and "unat (f div 1000) * unat ms < 2 ^ 64"
    and "now = start + of_nat k" "k < 2 ^ 64"
  shows "ticks_elapsed_ms start ms s =
    Some (unat f div 1000 * unat ms \<le> k, emit [Mrs CNTFRQ_EL0 f, Mrs CNTPCT_EL0 now] (s\<lparr>inp := vs\<rparr>))"
proof -
  have "unat (f div 1000) = unat f div 1000" by (simp add: unat_div_distrib)
  moreover have "unat (f div 1000 * ms) = unat (f div 1000) * unat ms"
    using assms(2) by (simp add: unat_word_ariths)
  moreover have "unat (now - start) = k" using assms(3,4) unat_of_nat_small [of k, where 'a = 64] by simp
  ultimately have "f div 1000 * ms \<le> now - start \<longleftrightarrow> unat f div 1000 * unat ms \<le> k"
    unfolding word_le_nat_alt by (simp only:)
  then show ?thesis using assms(1) by (simp add: ticks_elapsed_ms_def get_ticks_def mrs_eq)
qed

theorem ticks_elapsed_ms_correct_witness:
  "ticks_elapsed_ms (- 5) 1 (io0 [54000000, 54000]) =
     Some (True, emit [Mrs CNTFRQ_EL0 54000000, Mrs CNTPCT_EL0 54000] (io0 []))"
proof -
  have i: "inp (io0 [54000000, 54000]) = [54000000, 54000]" "(io0 [54000000, 54000])\<lparr>inp := []\<rparr> = io0 []"
    by (simp_all add: io0_def)
  have m: "unat ((54000000 :: u64) div 1000) * unat (1 :: u64) < 2 ^ 64" by simp
  have n: "(54000 :: u64) = - 5 + of_nat 54005" by simp
  have k: "(54005 :: nat) < 2 ^ 64" by simp
  have "unat (54000000 :: u64) div 1000 * unat (1 :: u64) \<le> 54005" by simp
  with ticks_elapsed_ms_correct [OF i(1) m n k] show ?thesis by (simp only: i simp_thms)
qed

end
