(* ===== verification/Cache.thy ===== *)
theory Cache
  imports Timer
begin

text \<open>
  Cache maintenance by virtual address (\<open>src/kernel/cache/cache.cpp\<close>). The line size is whatever
  \<open>CTR_EL0\<close> says.
\<close>

definition cache_line_size :: "'a io_scheme \<Rightarrow> (u64 \<times> 'a io_scheme) option" where
  "cache_line_size s = do {
     (ctr, s) \<leftarrow> mrs CTR_EL0 s;
     let dminline = drop_bit 16 ctr AND 0xF;
     Some (push_bit (unat dminline) 4, s) }"

text \<open>The loop over the lines, with the instruction \<open>op\<close>.\<close>

partial_function (option) cache_lines ::
  "(u64 \<Rightarrow> event) \<Rightarrow> u64 \<Rightarrow> u64 \<Rightarrow> u64 \<Rightarrow> 'a io_scheme \<Rightarrow> 'a io_scheme option" where
  "cache_lines op va stop line s =
     (if va < stop then cache_lines op (va + line) stop line (emit [op va] s) else Some s)"

definition cache_clean :: "u64 \<Rightarrow> u64 \<Rightarrow> 'a io_scheme \<Rightarrow> 'a io_scheme option" where
  "cache_clean addr sz s = do {
     (line, s) \<leftarrow> cache_line_size s;
     let start = addr AND NOT (line - 1);
     let end' = (addr + sz + line - 1) AND NOT (line - 1);
     s \<leftarrow> cache_lines Dc_cvac start end' line s;
     Some (dsb_sy s) }"

definition cache_invalidate :: "u64 \<Rightarrow> u64 \<Rightarrow> 'a io_scheme \<Rightarrow> 'a io_scheme option" where
  "cache_invalidate addr sz s = do {
     (line, s) \<leftarrow> cache_line_size s;
     let start = addr AND NOT (line - 1);
     let end' = (addr + sz + line - 1) AND NOT (line - 1);
     s \<leftarrow> cache_lines Dc_ivac start end' line s;
     Some (dsb_sy s) }"

section \<open>The lines of a buffer\<close>

lemma cache_lines_eq:
  assumes "unat stop = unat va + n * unat line" "0 < unat line"
  shows "cache_lines op va stop line s = Some (emit (map (\<lambda>k. op (va + of_nat k * line)) [0..<n]) s)"
  using assms(1)
proof (induction n arbitrary: va s)
  case 0
  then show ?case by (subst cache_lines.simps) (simp add: word_less_nat_alt)
next
  case (Suc n)
  have "unat va + unat line < 2 ^ 64"
  proof -
    have "unat va + unat line \<le> unat stop" using Suc.prems by simp
    also have "\<dots> < 2 ^ 64" using unsigned_less [of stop] by simp
    finally show ?thesis .
  qed
  then have u: "unat (va + line) = unat va + unat line" by (rule unat_plus)
  have "va < stop" using Suc.prems assms(2) by (simp add: word_less_nat_alt)
  then have "cache_lines op va stop line s = cache_lines op (va + line) stop line (emit [op va] s)"
    by (subst cache_lines.simps) simp
  also have "\<dots> = Some (emit (map (\<lambda>k. op (va + line + of_nat k * line)) [0..<n]) (emit [op va] s))"
    by (rule Suc.IH) (use Suc.prems in \<open>simp add: u\<close>)
  also have "map (\<lambda>k. op (va + line + of_nat k * line)) [0..<n] = map (\<lambda>k. op (va + of_nat (Suc k) * line)) [0..<n]"
    by (simp add: distrib_right add.assoc)
  also have "\<dots> = map (\<lambda>k. op (va + of_nat k * line)) [1..<Suc n]"
    by (simp add: map_Suc_upt [symmetric] comp_def del: upt_Suc)
  finally show ?case
    by (simp add: upt_conv_Cons del: upt_Suc)
qed

lemma cache_line_size_eq:
  assumes "inp s = ctr # vs"
  defines "m \<equiv> unat (drop_bit 16 ctr AND 0xF) + 2"
  shows "cache_line_size s = Some (2 ^ m, emit [Mrs CTR_EL0 ctr] (s\<lparr>inp := vs\<rparr>))" and "m \<le> 17"
proof -
  have "(0xF :: u64) = mask 4" by (simp add: mask_eq_exp_minus_1)
  moreover have "unat (drop_bit 16 ctr AND mask 4) < 16" unfolding unat_and_mask by simp
  ultimately have "unat (drop_bit 16 ctr AND 0xF) < 16" by (simp only:)
  then show "m \<le> 17" by (simp add: m_def)
  have "push_bit k 4 = (2 :: u64) ^ (k + 2)" for k by (simp add: push_bit_eq_mult power_add mult.commute)
  then show "cache_line_size s = Some (2 ^ m, emit [Mrs CTR_EL0 ctr] (s\<lparr>inp := vs\<rparr>))"
    using assms(1) by (simp add: cache_line_size_def mrs_eq m_def)
qed

definition line_bytes :: "u64 \<Rightarrow> nat" where
  "line_bytes ctr = 4 * 2 ^ unat (drop_bit 16 ctr AND 0xF)"

lemma line_start: "unat (a AND NOT (2 ^ m - 1) :: u64) = unat a div 2 ^ m * 2 ^ m"
  using unat_and_not_mask [of a m] by (simp add: mask_eq_exp_minus_1)

text \<open>What both functions do to a non-empty buffer.\<close>

lemma cache_lines_buffer:
  fixes addr sz :: u64
  assumes m: "m \<le> 17" and sz: "0 < unat sz" "unat addr + unat sz + 2 ^ m < 2 ^ 64"
  shows "\<exists>ls. cache_lines op (addr AND NOT (2 ^ m - 1)) ((addr + sz + 2 ^ m - 1) AND NOT (2 ^ m - 1)) (2 ^ m) s
      = Some (emit (map op ls) s) \<and> distinct ls
      \<and> set ls = {a. 2 ^ m dvd unat a \<and> unat addr < unat a + 2 ^ m \<and> unat a < unat addr + unat sz}"
proof -
  define L :: nat where "L = 2 ^ m"
  define A S where "A = unat addr" and "S = unat sz"
  have L: "0 < L" by (simp add: L_def)
  have "(2 :: nat) ^ m \<le> 2 ^ 17" using m by (intro power_increasing) simp_all
  then have "(2 :: nat) ^ m < 2 ^ 64" by simp
  moreover have "(2 ^ m :: u64) = of_nat L" by (simp add: L_def)
  ultimately have uL: "unat (2 ^ m :: u64) = L" by (simp only:) (rule unat_of_nat_small, simp add: L_def)
  define start n where "start = addr AND NOT (2 ^ m - 1)" and "n = (A + S + L - 1) div L - A div L"
  have us: "unat start = A div L * L" unfolding start_def line_start by (simp add: A_def L_def)
  have sum: "unat (addr + sz + 2 ^ m - 1) = A + S + L - 1"
  proof -
    have e: "addr + sz + 2 ^ m - 1 = of_nat (A + S + L - 1)"
      using L by (simp add: A_def S_def of_nat_diff) (simp add: L_def)
    have "A + S + L - 1 < 2 ^ LENGTH(64)" using sz by (simp add: A_def S_def L_def)
    then show ?thesis unfolding e by (rule unat_of_nat_small)
  qed
  have le: "A div L \<le> (A + S + L - 1) div L" using sz(1) by (intro div_le_mono) (simp add: S_def)
  have ue: "unat ((addr + sz + 2 ^ m - 1) AND NOT (2 ^ m - 1)) = unat start + n * unat (2 ^ m :: u64)"
    unfolding line_start sum us uL using le by (simp add: n_def L_def flip: distrib_right)
  define ls where "ls = map (\<lambda>k. start + of_nat k * 2 ^ m) [0..<n]"
  have u: "unat (start + of_nat k * 2 ^ m) = (A div L + k) * L" if "k < n" for k
  proof -
    have "(A div L + k) * L \<le> (A + S + L - 1) div L * L" using that by (intro mult_right_mono) (simp_all add: n_def)
    also have "\<dots> \<le> A + S + L - 1" by (rule div_times_less_eq_dividend)
    also have "\<dots> < 2 ^ LENGTH(64)" using sz by (simp add: A_def S_def L_def)
    finally have b: "(A div L + k) * L < 2 ^ LENGTH(64)" .
    have "start = of_nat (A div L * L)" unfolding us [symmetric] by simp
    then have "start + of_nat k * 2 ^ m = of_nat ((A div L + k) * L)"
      by (simp add: distrib_right) (simp add: L_def)
    then show ?thesis using b by (simp only: unat_of_nat_small)
  qed
  have eq: "cache_lines op start ((addr + sz + 2 ^ m - 1) AND NOT (2 ^ m - 1)) (2 ^ m) s = Some (emit (map op ls) s)"
    unfolding ls_def map_map comp_def by (rule cache_lines_eq [OF ue]) (simp add: uL L)
  have dis: "distinct ls"
    unfolding ls_def distinct_map
  proof
    show "inj_on (\<lambda>k. start + of_nat k * 2 ^ m) (set [0..<n])"
    proof (rule inj_onI)
      fix i j assume "i \<in> set [0..<n]" "j \<in> set [0..<n]" "start + of_nat i * 2 ^ m = start + of_nat j * 2 ^ m"
      then have "(A div L + i) * L = (A div L + j) * L" using u [of i] u [of j] by (metis atLeastLessThan_iff set_upt)
      then show "i = j" using L by simp
    qed
  qed simp
  have "a \<in> set ls \<longleftrightarrow> L dvd unat a \<and> A < unat a + L \<and> unat a < A + S" for a
  proof
    assume "a \<in> set ls"
    then obtain k where k: "k < n" "unat a = (A div L + k) * L" using u by (auto simp: ls_def)
    have "A < A div L * L + L" using div_mult_mod_eq [of A L] mod_less_divisor [OF L, of A] by linarith
    moreover have "(A div L + k + 1) * L \<le> (A + S + L - 1) div L * L"
      using k(1) by (intro mult_right_mono) (simp_all add: n_def)
    then have "(A div L + k) * L + L \<le> (A + S + L - 1) div L * L" by (simp only: distrib_right mult_1)
    then have "(A div L + k) * L + L \<le> A + S + L - 1"
      using div_times_less_eq_dividend [of "A + S + L - 1" L] by (rule order_trans)
    ultimately show "L dvd unat a \<and> A < unat a + L \<and> unat a < A + S"
      using k(2) L by (auto simp: distrib_right)
  next
    assume a: "L dvd unat a \<and> A < unat a + L \<and> unat a < A + S"
    then obtain q where q: "unat a = q * L" by (metis dvd_def mult.commute)
    have "A div L < q + 1" using a L by (simp add: q div_less_iff_less_mult)
    moreover have "q * L < A + S" using a by (simp add: q)
    then have "(q + 1) * L \<le> A + S + L - 1" unfolding distrib_right mult_1 by linarith
    then have "q + 1 \<le> (A + S + L - 1) div L" using L by (simp add: less_eq_div_iff_mult_less_eq)
    ultimately have k: "q - A div L < n" "A div L + (q - A div L) = q" by (simp_all add: n_def)
    then have "unat (start + of_nat (q - A div L) * 2 ^ m) = unat a" using u [OF k(1)] by (simp add: q)
    then have "a = start + of_nat (q - A div L) * 2 ^ m" by (simp only: word_unat_eq_iff)
    then show "a \<in> set ls" using k(1) by (auto simp: ls_def)
  qed
  then have "set ls = {a. 2 ^ m dvd unat a \<and> unat addr < unat a + 2 ^ m \<and> unat a < unat addr + unat sz}"
    by (auto simp: A_def S_def L_def)
  with eq dis show ?thesis by (auto simp: start_def)
qed

section \<open>Property\<close>



end
