(* ===== verification/Refinement.thy ===== *)
theory Refinement
  imports Main
begin

text \<open>
  The contract of a component whose operations are judged by a specification on an abstract state:
  while the invariant holds, an operation keeps it and does on the abstract state what the
  specification says. Then so does every sequence of operations.
\<close>

locale refinement =
  fixes inv :: "'s \<Rightarrow> bool" and abs :: "'s \<Rightarrow> 'a" and conc :: "'c \<Rightarrow> 's \<Rightarrow> 's" and spec :: "'c \<Rightarrow> 'a \<Rightarrow> 'a"
  assumes conc_inv: "inv s \<Longrightarrow> inv (conc c s)"
    and conc_abs: "inv s \<Longrightarrow> abs (conc c s) = spec c (abs s)"
begin

lemma run: "inv s \<Longrightarrow> inv (fold conc cs s) \<and> abs (fold conc cs s) = fold spec cs (abs s)"
  by (induction cs arbitrary: s) (simp_all add: conc_inv conc_abs)

end

end
