(* ===== verification/Render.thy ===== *)
theory Render
  imports Timer
begin

text \<open>
  The framebuffer and the drawing primitives (\<open>src/display/render.cpp\<close>, \<open>include/display/render.h\<close>,
  the variables of \<open>include/display/display.h\<close>). The framebuffer is memory that VideoCore lends to the
  kernel: \<open>fb\<close> gives its bytes by address. \<open>pixel\<close> reads it back as the display does, and the lemmas
  state every primitive in terms of pixels.
\<close>

section \<open>State and operations\<close>

record screen = timer +
  framebuffer_base :: u32
  framebuffer_size :: u32
  framebuffer_pitch :: u32
  framebuffer_width :: u32
  framebuffer_height :: u32
  fb :: "u64 \<Rightarrow> u8"
  term_buffer :: "int \<Rightarrow> u8"
  term_rows :: u8
  term_cols :: u8
  cursor_row :: u8
  cursor_col :: u8

definition store32 :: "u64 \<Rightarrow> u32 \<Rightarrow> (u64 \<Rightarrow> u8) \<Rightarrow> u64 \<Rightarrow> u8" where
  "store32 a v m = m(a := ucast v, a + 1 := ucast (drop_bit 8 v), a + 2 := ucast (drop_bit 16 v),
     a + 3 := ucast (drop_bit 24 v))"

definition load32 :: "u64 \<Rightarrow> (u64 \<Rightarrow> u8) \<Rightarrow> u32" where
  "load32 a m = ucast (m a) OR push_bit 8 (ucast (m (a + 1))) OR push_bit 16 (ucast (m (a + 2)))
     OR push_bit 24 (ucast (m (a + 3)))"

definition put_pixel :: "u32 \<Rightarrow> u32 \<Rightarrow> u32 \<Rightarrow> 'a screen_scheme \<Rightarrow> 'a screen_scheme" where
  "put_pixel x y color s =
     (let row = ucast (framebuffer_base s) + ucast (y * framebuffer_pitch s);
          pixel = row + ucast (x * 4)
      in s\<lparr>fb := store32 pixel color (fb s)\<rparr>)"

definition pack_color :: "u8 \<Rightarrow> u8 \<Rightarrow> u8 \<Rightarrow> u32" where
  "pack_color r g b = ucast b OR push_bit 8 (ucast g) OR push_bit 16 (ucast r)"

definition text_color :: u32 where "text_color = pack_color 255 255 255"
definition background_color :: u32 where "background_color = pack_color 0 0 0"

text \<open>The values of a \<open>uint32_t\<close> loop variable that runs from \<open>a\<close> while it is below \<open>b\<close>.\<close>

definition upto32 :: "u32 \<Rightarrow> u32 \<Rightarrow> u32 list" where
  "upto32 a b = map of_nat [unat a..<unat b]"

definition draw_horizontal_line :: "u32 \<Rightarrow> u32 \<Rightarrow> 'a screen_scheme \<Rightarrow> 'a screen_scheme" where
  "draw_horizontal_line y color s =
     fold (\<lambda>x. put_pixel x y color) (upto32 0 (framebuffer_width s)) s"

text \<open>The inner loop of \<open>fill_screen\<close> is the loop of \<open>draw_horizontal_line\<close>.\<close>

definition fill_screen :: "u32 \<Rightarrow> 'a screen_scheme \<Rightarrow> 'a screen_scheme" where
  "fill_screen color s =
     fold (\<lambda>y s. fold (\<lambda>x. put_pixel x y color) (upto32 0 (framebuffer_width s)) s)
       (upto32 0 (framebuffer_height s)) s"

definition font8x8_fallback :: "u8 list" where
  "font8x8_fallback = [0x00, 0x7E, 0x42, 0x42, 0x42, 0x42, 0x7E, 0x00]"

definition font8x8_basic :: "u8 list list" where
  "font8x8_basic = [
    [0x00, 0x00, 0x00, 0x00, 0x00, 0x00, 0x00, 0x00],
    [0x18, 0x3C, 0x3C, 0x18, 0x18, 0x00, 0x18, 0x00],
    [0x36, 0x36, 0x00, 0x00, 0x00, 0x00, 0x00, 0x00],
    [0x36, 0x36, 0x7F, 0x36, 0x7F, 0x36, 0x36, 0x00],
    [0x0C, 0x3E, 0x03, 0x1E, 0x30, 0x1F, 0x0C, 0x00],
    [0x00, 0x63, 0x33, 0x18, 0x0C, 0x66, 0x63, 0x00],
    [0x1C, 0x36, 0x1C, 0x6E, 0x3B, 0x33, 0x6E, 0x00],
    [0x06, 0x06, 0x03, 0x00, 0x00, 0x00, 0x00, 0x00],
    [0x18, 0x0C, 0x06, 0x06, 0x06, 0x0C, 0x18, 0x00],
    [0x06, 0x0C, 0x18, 0x18, 0x18, 0x0C, 0x06, 0x00],
    [0x00, 0x66, 0x3C, 0xFF, 0x3C, 0x66, 0x00, 0x00],
    [0x00, 0x0C, 0x0C, 0x3F, 0x0C, 0x0C, 0x00, 0x00],
    [0x00, 0x00, 0x00, 0x00, 0x00, 0x0C, 0x0C, 0x06],
    [0x00, 0x00, 0x00, 0x3F, 0x00, 0x00, 0x00, 0x00],
    [0x00, 0x00, 0x00, 0x00, 0x00, 0x0C, 0x0C, 0x00],
    [0x60, 0x30, 0x18, 0x0C, 0x06, 0x03, 0x01, 0x00],
    [0x3E, 0x63, 0x73, 0x7B, 0x6F, 0x67, 0x3E, 0x00],
    [0x0C, 0x0E, 0x0C, 0x0C, 0x0C, 0x0C, 0x3F, 0x00],
    [0x1E, 0x33, 0x30, 0x1C, 0x06, 0x33, 0x3F, 0x00],
    [0x1E, 0x33, 0x30, 0x1C, 0x30, 0x33, 0x1E, 0x00],
    [0x38, 0x3C, 0x36, 0x33, 0x7F, 0x30, 0x78, 0x00],
    [0x3F, 0x03, 0x1F, 0x30, 0x30, 0x33, 0x1E, 0x00],
    [0x1C, 0x06, 0x03, 0x1F, 0x33, 0x33, 0x1E, 0x00],
    [0x3F, 0x33, 0x30, 0x18, 0x0C, 0x0C, 0x0C, 0x00],
    [0x1E, 0x33, 0x33, 0x1E, 0x33, 0x33, 0x1E, 0x00],
    [0x1E, 0x33, 0x33, 0x3E, 0x30, 0x18, 0x0E, 0x00],
    [0x00, 0x0C, 0x0C, 0x00, 0x00, 0x0C, 0x0C, 0x00],
    [0x00, 0x0C, 0x0C, 0x00, 0x00, 0x0C, 0x0C, 0x06],
    [0x18, 0x0C, 0x06, 0x03, 0x06, 0x0C, 0x18, 0x00],
    [0x00, 0x00, 0x3F, 0x00, 0x00, 0x3F, 0x00, 0x00],
    [0x06, 0x0C, 0x18, 0x30, 0x18, 0x0C, 0x06, 0x00],
    [0x1E, 0x33, 0x30, 0x18, 0x0C, 0x00, 0x0C, 0x00],
    [0x3E, 0x63, 0x7B, 0x7B, 0x7B, 0x03, 0x1E, 0x00],
    [0x0C, 0x1E, 0x33, 0x33, 0x3F, 0x33, 0x33, 0x00],
    [0x3F, 0x66, 0x66, 0x3E, 0x66, 0x66, 0x3F, 0x00],
    [0x3C, 0x66, 0x03, 0x03, 0x03, 0x66, 0x3C, 0x00],
    [0x1F, 0x36, 0x66, 0x66, 0x66, 0x36, 0x1F, 0x00],
    [0x7F, 0x46, 0x16, 0x1E, 0x16, 0x46, 0x7F, 0x00],
    [0x7F, 0x46, 0x16, 0x1E, 0x16, 0x06, 0x0F, 0x00],
    [0x3C, 0x66, 0x03, 0x03, 0x73, 0x66, 0x7C, 0x00],
    [0x33, 0x33, 0x33, 0x3F, 0x33, 0x33, 0x33, 0x00],
    [0x1E, 0x0C, 0x0C, 0x0C, 0x0C, 0x0C, 0x1E, 0x00],
    [0x78, 0x30, 0x30, 0x30, 0x33, 0x33, 0x1E, 0x00],
    [0x67, 0x66, 0x36, 0x1E, 0x36, 0x66, 0x67, 0x00],
    [0x0F, 0x06, 0x06, 0x06, 0x46, 0x66, 0x7F, 0x00],
    [0x63, 0x77, 0x7F, 0x7F, 0x6B, 0x63, 0x63, 0x00],
    [0x63, 0x67, 0x6F, 0x7B, 0x73, 0x63, 0x63, 0x00],
    [0x1C, 0x36, 0x63, 0x63, 0x63, 0x36, 0x1C, 0x00],
    [0x3F, 0x66, 0x66, 0x3E, 0x06, 0x06, 0x0F, 0x00],
    [0x1E, 0x33, 0x33, 0x33, 0x3B, 0x1E, 0x38, 0x00],
    [0x3F, 0x66, 0x66, 0x3E, 0x36, 0x66, 0x67, 0x00],
    [0x1E, 0x33, 0x07, 0x0E, 0x38, 0x33, 0x1E, 0x00],
    [0x3F, 0x2D, 0x0C, 0x0C, 0x0C, 0x0C, 0x1E, 0x00],
    [0x33, 0x33, 0x33, 0x33, 0x33, 0x33, 0x3F, 0x00],
    [0x33, 0x33, 0x33, 0x33, 0x33, 0x1E, 0x0C, 0x00],
    [0x63, 0x63, 0x63, 0x6B, 0x7F, 0x77, 0x63, 0x00],
    [0x63, 0x63, 0x36, 0x1C, 0x1C, 0x36, 0x63, 0x00],
    [0x33, 0x33, 0x33, 0x1E, 0x0C, 0x0C, 0x1E, 0x00],
    [0x7F, 0x63, 0x31, 0x18, 0x4C, 0x66, 0x7F, 0x00],
    [0x1E, 0x06, 0x06, 0x06, 0x06, 0x06, 0x1E, 0x00],
    [0x03, 0x06, 0x0C, 0x18, 0x30, 0x60, 0x40, 0x00],
    [0x1E, 0x18, 0x18, 0x18, 0x18, 0x18, 0x1E, 0x00],
    [0x08, 0x1C, 0x36, 0x63, 0x00, 0x00, 0x00, 0x00],
    [0x00, 0x00, 0x00, 0x00, 0x00, 0x00, 0x00, 0xFF],
    [0x0C, 0x0C, 0x18, 0x00, 0x00, 0x00, 0x00, 0x00],
    [0x00, 0x00, 0x1E, 0x30, 0x3E, 0x33, 0x6E, 0x00],
    [0x07, 0x06, 0x06, 0x3E, 0x66, 0x66, 0x3B, 0x00],
    [0x00, 0x00, 0x1E, 0x33, 0x03, 0x33, 0x1E, 0x00],
    [0x38, 0x30, 0x30, 0x3E, 0x33, 0x33, 0x6E, 0x00],
    [0x00, 0x00, 0x1E, 0x33, 0x3F, 0x03, 0x1E, 0x00],
    [0x1C, 0x36, 0x06, 0x0F, 0x06, 0x06, 0x0F, 0x00],
    [0x00, 0x00, 0x6E, 0x33, 0x33, 0x3E, 0x30, 0x1F],
    [0x07, 0x06, 0x36, 0x6E, 0x66, 0x66, 0x67, 0x00],
    [0x0C, 0x00, 0x0E, 0x0C, 0x0C, 0x0C, 0x1E, 0x00],
    [0x30, 0x00, 0x30, 0x30, 0x30, 0x33, 0x33, 0x1E],
    [0x07, 0x06, 0x66, 0x36, 0x1E, 0x36, 0x67, 0x00],
    [0x0E, 0x0C, 0x0C, 0x0C, 0x0C, 0x0C, 0x1E, 0x00],
    [0x00, 0x00, 0x33, 0x7F, 0x7F, 0x6B, 0x63, 0x00],
    [0x00, 0x00, 0x1F, 0x33, 0x33, 0x33, 0x33, 0x00],
    [0x00, 0x00, 0x1E, 0x33, 0x33, 0x33, 0x1E, 0x00],
    [0x00, 0x00, 0x3B, 0x66, 0x66, 0x3E, 0x06, 0x0F],
    [0x00, 0x00, 0x6E, 0x33, 0x33, 0x3E, 0x30, 0x78],
    [0x00, 0x00, 0x3B, 0x6E, 0x66, 0x06, 0x0F, 0x00],
    [0x00, 0x00, 0x3E, 0x03, 0x1E, 0x30, 0x1F, 0x00],
    [0x08, 0x0C, 0x3E, 0x0C, 0x0C, 0x2C, 0x18, 0x00],
    [0x00, 0x00, 0x33, 0x33, 0x33, 0x33, 0x6E, 0x00],
    [0x00, 0x00, 0x33, 0x33, 0x33, 0x1E, 0x0C, 0x00],
    [0x00, 0x00, 0x63, 0x6B, 0x7F, 0x7F, 0x36, 0x00],
    [0x00, 0x00, 0x63, 0x36, 0x1C, 0x36, 0x63, 0x00],
    [0x00, 0x00, 0x33, 0x33, 0x33, 0x3E, 0x30, 0x1F],
    [0x00, 0x00, 0x3F, 0x19, 0x0C, 0x26, 0x3F, 0x00],
    [0x38, 0x0C, 0x0C, 0x07, 0x0C, 0x0C, 0x38, 0x00],
    [0x18, 0x18, 0x18, 0x00, 0x18, 0x18, 0x18, 0x00],
    [0x07, 0x0C, 0x0C, 0x38, 0x0C, 0x0C, 0x07, 0x00],
    [0x6E, 0x3B, 0x00, 0x00, 0x00, 0x00, 0x00, 0x00]]"

definition glyph :: "u8 \<Rightarrow> u8 list" where
  "glyph c = (if c < 32 \<or> c > 126 then font8x8_fallback else font8x8_basic ! unat (c - 32))"

definition draw_char :: "u32 \<Rightarrow> u32 \<Rightarrow> u8 \<Rightarrow> u32 \<Rightarrow> u32 \<Rightarrow> 'a screen_scheme \<Rightarrow> 'a screen_scheme" where
  "draw_char col row c fg bg s =
     (let x0 = col * 8; y0 = row * 8 in
      fold (\<lambda>i. fold (\<lambda>k. put_pixel (x0 + of_nat k) (y0 + of_nat i) (if bit (glyph c ! i) k then fg else bg)) [0..<8])
        [0..<8] s)"

section \<open>Bytes of a pixel\<close>

lemma load32_store32 [simp]: "load32 a (store32 a v m) = v"
proof -
  have d: "a + 1 \<noteq> a" "a + 2 \<noteq> a" "a + 3 \<noteq> a" "a + 2 \<noteq> a + 1" "a + 3 \<noteq> a + 1" "a + 3 \<noteq> a + 2"
    "a \<noteq> a + 1" "a \<noteq> a + 2" "a \<noteq> a + 3" "a + 1 \<noteq> a + 2" "a + 1 \<noteq> a + 3" "a + 2 \<noteq> a + 3"
    by simp_all
  show ?thesis
    unfolding load32_def store32_def
    apply (rule bit_word_eqI)
    apply (auto simp: d bit_simps)
    subgoal for n by (cases "24 \<le> n") auto
    done
qed

lemma load32_store32_other:
  assumes "unat a + 4 \<le> unat a' \<or> unat a' + 4 \<le> unat a" "unat a + 4 < 2 ^ 64" "unat a' + 4 < 2 ^ 64"
  shows "load32 a' (store32 a v m) = load32 a' m"
proof -
  have "unat (x + of_nat k :: u64) = unat x + k" if "unat x + 4 < 2 ^ 64" "k < 4" for x k
    using that by (subst unat_plus) (simp_all add: unat_of_nat_small)
  note u = this [OF assms(2)] this [OF assms(3)]
  have "a + of_nat i \<noteq> a' + of_nat j" if "i < 4" "j < 4" for i j
    using u(1) [OF that(1)] u(2) [OF that(2)] assms(1) that by auto
  note d = this [of 0 0] this [of 0 1] this [of 0 2] this [of 0 3] this [of 1 0] this [of 1 1] this [of 1 2]
    this [of 1 3] this [of 2 0] this [of 2 1] this [of 2 2] this [of 2 3] this [of 3 0] this [of 3 1]
    this [of 3 2] this [of 3 3]
  show ?thesis unfolding load32_def store32_def using d by simp
qed

section \<open>The screen as pixels\<close>

text \<open>A framebuffer that holds its pixels: rows of \<open>pitch\<close> bytes, below the end of the address space.\<close>

definition fb_geom :: "'a screen_scheme \<Rightarrow> bool" where
  "fb_geom s \<longleftrightarrow> 4 * unat (framebuffer_width s) \<le> unat (framebuffer_pitch s)
     \<and> unat (framebuffer_base s) + unat (framebuffer_pitch s) * unat (framebuffer_height s) < 2 ^ 32"

definition pixel_addr :: "'a screen_scheme \<Rightarrow> nat \<Rightarrow> nat \<Rightarrow> nat" where
  "pixel_addr s X Y = unat (framebuffer_base s) + unat (framebuffer_pitch s) * Y + 4 * X"

definition pixel :: "'a screen_scheme \<Rightarrow> nat \<Rightarrow> nat \<Rightarrow> u32" where
  "pixel s X Y = load32 (of_nat (pixel_addr s X Y)) (fb s)"

definition on_screen :: "'a screen_scheme \<Rightarrow> nat \<times> nat \<Rightarrow> bool" where
  "on_screen s p \<longleftrightarrow> fst p < unat (framebuffer_width s) \<and> snd p < unat (framebuffer_height s)"

lemma pixel_addr_le:
  assumes "fb_geom s" "on_screen s (X, Y)"
  shows "pixel_addr s X Y + 4 \<le> unat (framebuffer_base s) + unat (framebuffer_pitch s) * Suc Y"
    and "pixel_addr s X Y + 4 < 2 ^ 32"
proof -
  show a: "pixel_addr s X Y + 4 \<le> unat (framebuffer_base s) + unat (framebuffer_pitch s) * Suc Y"
    using assms by (simp add: fb_geom_def on_screen_def pixel_addr_def)
  have "unat (framebuffer_pitch s) * Suc Y \<le> unat (framebuffer_pitch s) * unat (framebuffer_height s)"
    using assms(2) by (intro mult_le_mono2) (simp add: on_screen_def)
  with a assms(1) show "pixel_addr s X Y + 4 < 2 ^ 32"
    unfolding fb_geom_def by linarith
qed

lemma pixel_addr_apart:
  assumes "fb_geom s" "on_screen s (X, Y)" "on_screen s (X', Y')" "(X, Y) \<noteq> (X', Y')"
  shows "pixel_addr s X Y + 4 \<le> pixel_addr s X' Y' \<or> pixel_addr s X' Y' + 4 \<le> pixel_addr s X Y"
proof -
  have *: "pixel_addr s X Y + 4 \<le> pixel_addr s X' Y'" if "Y < Y'" "on_screen s (X, Y)" for X Y X' Y'
  proof -
    have "unat (framebuffer_pitch s) * Suc Y \<le> unat (framebuffer_pitch s) * Y'"
      using that(1) by (intro mult_le_mono2) simp
    with pixel_addr_le(1) [OF assms(1) that(2)] show ?thesis by (simp add: pixel_addr_def)
  qed
  show ?thesis
  proof (cases "Y = Y'")
    case True
    with assms(4) show ?thesis by (auto simp: pixel_addr_def)
  next
    case False
    then show ?thesis using * [of Y Y' X X'] * [of Y' Y X' X] assms(2,3) by linarith
  qed
qed

lemma put_pixel_eq:
  assumes "fb_geom s" "on_screen s (unat x, unat y)"
  shows "put_pixel x y c s = s\<lparr>fb := store32 (of_nat (pixel_addr s (unat x) (unat y))) c (fb s)\<rparr>"
proof -
  have le: "unat (framebuffer_base s) + unat (framebuffer_pitch s) * unat y + 4 * unat x + 4 < 2 ^ 32"
    using pixel_addr_le(2) [OF assms] by (simp only: pixel_addr_def)
  have small: "unat a * unat b < 2 ^ 32 \<Longrightarrow> unat (a * b) = unat a * unat b" for a b :: u32
    by (simp add: unat_mult_lem [THEN iffD1])
  have "unat (framebuffer_pitch s) * unat y < 2 ^ 32" "4 * unat x < 2 ^ 32"
    using le by linarith+
  then have u: "unat (y * framebuffer_pitch s) = unat (framebuffer_pitch s) * unat y" "unat (x * 4) = 4 * unat x"
    using small [of y "framebuffer_pitch s"] small [of x 4] by (simp_all add: mult.commute)
  have c: "(ucast (v :: u32) :: u64) = of_nat (unat v)" for v by simp
  have "ucast (framebuffer_base s) + ucast (y * framebuffer_pitch s) + ucast (x * 4)
      = (of_nat (pixel_addr s (unat x) (unat y)) :: u64)"
    unfolding c u pixel_addr_def of_nat_add ..
  then show ?thesis by (simp only: put_pixel_def Let_def)
qed

text \<open>
  \<open>t\<close> is \<open>s\<close> with the pixels of \<open>D\<close> painted as \<open>f\<close> says, no other pixel changed and nothing
  outside the framebuffer.
\<close>

definition fb_outside :: "'a screen_scheme \<Rightarrow> u64 \<Rightarrow> bool" where
  "fb_outside s a \<longleftrightarrow> unat a < unat (framebuffer_base s)
     \<or> unat (framebuffer_base s) + unat (framebuffer_pitch s) * unat (framebuffer_height s) \<le> unat a"

definition painted :: "(nat \<times> nat) set \<Rightarrow> (nat \<times> nat \<Rightarrow> u32) \<Rightarrow> 'a screen_scheme \<Rightarrow> 'a screen_scheme \<Rightarrow> bool" where
  "painted D f s t \<longleftrightarrow> (\<exists>m. t = s\<lparr>fb := m\<rparr> \<and> (\<forall>a. fb_outside s a \<longrightarrow> m a = fb s a))
     \<and> (\<forall>p. on_screen s p \<longrightarrow> pixel t (fst p) (snd p) = (if p \<in> D then f p else pixel s (fst p) (snd p)))"

lemma painted_refl: "painted {} f s s"
  by (auto simp: painted_def intro: exI [of _ "fb s"])

lemma fb_geom_fb [simp]: "fb_geom (s\<lparr>fb := m\<rparr>) = fb_geom s" "on_screen (s\<lparr>fb := m\<rparr>) = on_screen s"
  "fb_outside (s\<lparr>fb := m\<rparr>) = fb_outside s"
  by (simp_all add: fb_geom_def on_screen_def fb_outside_def fun_eq_iff)

lemma paintedE:
  assumes "painted D f s t"
  obtains m where "t = s\<lparr>fb := m\<rparr>" "\<forall>a. fb_outside s a \<longrightarrow> m a = fb s a"
  using assms by (auto simp: painted_def)

lemma painted_trans:
  assumes "painted D f s t" "painted E f t u"
  shows "painted (D \<union> E) f s u"
proof -
  obtain m where m: "t = s\<lparr>fb := m\<rparr>" "\<forall>a. fb_outside s a \<longrightarrow> m a = fb s a" using assms(1) by (rule paintedE)
  obtain n where n: "u = t\<lparr>fb := n\<rparr>" "\<forall>a. fb_outside t a \<longrightarrow> n a = fb t a" using assms(2) by (rule paintedE)
  have "u = s\<lparr>fb := n\<rparr> \<and> (\<forall>a. fb_outside s a \<longrightarrow> n a = fb s a)" using m n by simp
  then show ?thesis using assms m by (auto simp: painted_def)
qed

lemma painted_mono:
  assumes "painted D f s t" "\<And>p. on_screen s p \<Longrightarrow> p \<in> D \<longleftrightarrow> p \<in> E" "\<And>p. on_screen s p \<Longrightarrow> p \<in> E \<Longrightarrow> f p = g p"
  shows "painted E g s t"
  using assms by (simp add: painted_def)

text \<open>A loop of painting steps paints the union.\<close>

lemma painted_fold:
  assumes "\<And>i m. i \<in> set is \<Longrightarrow> painted (D i) f (s\<lparr>fb := m\<rparr>) (g i (s\<lparr>fb := m\<rparr>))"
  shows "painted (\<Union>i\<in>set is. D i) f s (fold g is s)"
  using assms
proof (induction "is" arbitrary: s)
  case Nil
  then show ?case by (simp add: painted_refl)
next
  case (Cons i js)
  have i: "painted (D i) f s (g i s)" using Cons.prems [of i "fb s"] by simp
  then obtain m where m: "g i s = s\<lparr>fb := m\<rparr>" by (rule paintedE) blast
  have "painted (\<Union>i\<in>set js. D i) f (g i s) (fold g js (g i s))"
    by (rule Cons.IH) (use Cons.prems in \<open>simp add: m\<close>)
  with painted_trans [OF i] show ?case by simp
qed

lemma store32_outside:
  assumes "fb_geom s" "on_screen s (X, Y)"
  shows "\<forall>a. fb_outside s a \<longrightarrow> store32 (of_nat (pixel_addr s X Y)) c (fb s) a = fb s a"
proof (intro allI impI)
  fix a assume a: "fb_outside s a"
  let ?b = "unat (framebuffer_base s)" and ?p = "unat (framebuffer_pitch s)" and ?h = "unat (framebuffer_height s)"
  have "?p * Suc Y \<le> ?p * ?h" using assms(2) by (intro mult_le_mono2) (simp add: on_screen_def)
  then have hi: "pixel_addr s X Y + 4 \<le> ?b + ?p * ?h" using pixel_addr_le(1) [OF assms] by linarith
  have lo: "?b \<le> pixel_addr s X Y" by (simp add: pixel_addr_def)
  have "a \<noteq> of_nat (pixel_addr s X Y) + of_nat k" if "k < 4" for k
  proof -
    have "pixel_addr s X Y + k < 2 ^ LENGTH(64)" using pixel_addr_le(2) [OF assms] that by simp
    then have "unat (of_nat (pixel_addr s X Y + k) :: u64) = pixel_addr s X Y + k" by (rule unat_of_nat_small)
    then show ?thesis using a hi lo that by (auto simp: fb_outside_def)
  qed
  from this [of 0] this [of 1] this [of 2] this [of 3]
  show "store32 (of_nat (pixel_addr s X Y)) c (fb s) a = fb s a" by (simp add: store32_def)
qed

lemma painted_put_pixel:
  assumes "fb_geom s" "on_screen s (unat x, unat y)" "f (unat x, unat y) = c"
  shows "painted {(unat x, unat y)} f s (put_pixel x y c s)"
  unfolding painted_def
proof (intro conjI allI impI)
  note eq = put_pixel_eq [OF assms(1,2), of c]
  show "\<exists>m. put_pixel x y c s = s\<lparr>fb := m\<rparr> \<and> (\<forall>a. fb_outside s a \<longrightarrow> m a = fb s a)"
    using eq store32_outside [OF assms(1,2)] by blast
  fix p assume p: "on_screen s p"
  have pa: "pixel_addr (put_pixel x y c s) = pixel_addr s" by (simp add: eq pixel_addr_def fun_eq_iff)
  show "pixel (put_pixel x y c s) (fst p) (snd p) = (if p \<in> {(unat x, unat y)} then f p else pixel s (fst p) (snd p))"
  proof (cases "p = (unat x, unat y)")
    case True
    then show ?thesis by (simp add: pixel_def pa) (simp add: eq assms(3))
  next
    case False
    let ?a = "pixel_addr s (unat x) (unat y)" and ?b = "pixel_addr s (fst p) (snd p)"
    have lt: "?a + 4 < 2 ^ 32" "?b + 4 < 2 ^ 32"
      using pixel_addr_le(2) [OF assms(1,2)] pixel_addr_le(2) [OF assms(1), of "fst p" "snd p"] p by simp_all
    have u: "unat (of_nat ?a :: u64) = ?a" "unat (of_nat ?b :: u64) = ?b"
      using lt by (simp_all add: unat_of_nat_small)
    have "load32 (of_nat ?b) (store32 (of_nat ?a) c (fb s)) = load32 (of_nat ?b) (fb s)"
    proof (rule load32_store32_other; unfold u)
      show "?a + 4 \<le> ?b \<or> ?b + 4 \<le> ?a"
        using pixel_addr_apart [OF assms(1,2), of "fst p" "snd p"] p False by auto
    qed (use lt in simp_all)
    with False show ?thesis by (simp add: pixel_def pa) (simp add: eq)
  qed
qed

section \<open>Drawing\<close>

lemma upto32_set: "x \<in> set (upto32 a b) \<Longrightarrow> unat a \<le> unat x \<and> unat x < unat b"
proof -
  assume "x \<in> set (upto32 a b)"
  then obtain n where n: "x = of_nat n" "unat a \<le> n" "n < unat b" by (auto simp: upto32_def)
  moreover have "unat b < 2 ^ LENGTH(32)" by (rule unsigned_less)
  ultimately have "unat x = n" by (simp add: unat_of_nat_small)
  with n show ?thesis by simp
qed

lemma upto32_image: "unat ` set (upto32 a b) = {unat a..<unat b}"
proof -
  have "n \<in> unat ` set (upto32 a b)" if "unat a \<le> n" "n < unat b" for n
  proof (rule image_eqI)
    have "unat b < 2 ^ LENGTH(32)" by (rule unsigned_less)
    with that show "n = unat (of_nat n :: u32)" by (simp add: unat_of_nat_small)
    show "of_nat n \<in> set (upto32 a b)" using that by (simp add: upto32_def)
  qed
  then show ?thesis using upto32_set [of _ a b] by auto
qed

lemma painted_line:
  assumes "fb_geom s" "unat y < unat (framebuffer_height s)"
  shows "painted {p. snd p = unat y} (\<lambda>_. color) s (draw_horizontal_line y color s)"
proof -
  let ?xs = "upto32 0 (framebuffer_width s)"
  have "painted (\<Union>x\<in>set ?xs. {(unat x, unat y)}) (\<lambda>_. color) s (draw_horizontal_line y color s)"
    unfolding draw_horizontal_line_def
  proof (rule painted_fold)
    fix x m assume "x \<in> set ?xs"
    then show "painted {(unat x, unat y)} (\<lambda>_. color) (s\<lparr>fb := m\<rparr>) (put_pixel x y color (s\<lparr>fb := m\<rparr>))"
      using upto32_set [of x 0] assms by (intro painted_put_pixel) (auto simp: on_screen_def)
  qed
  then show ?thesis
  proof (rule painted_mono)
    fix p assume "on_screen s p"
    then have "fst p \<in> unat ` set ?xs" by (simp add: upto32_image on_screen_def)
    then obtain x where "x \<in> set ?xs" "fst p = unat x" by blast
    then show "p \<in> (\<Union>x\<in>set ?xs. {(unat x, unat y)}) \<longleftrightarrow> p \<in> {p. snd p = unat y}"
      by (cases p) auto
  qed simp
qed

lemma painted_lines:
  assumes "fb_geom s" "\<And>y. y \<in> set ys \<Longrightarrow> unat y < unat (framebuffer_height s)"
  shows "painted {p. snd p \<in> unat ` set ys} (\<lambda>_. color) s (fold (\<lambda>y. draw_horizontal_line y color) ys s)"
proof -
  have "painted (\<Union>y\<in>set ys. {p. snd p = unat y}) (\<lambda>_. color) s (fold (\<lambda>y. draw_horizontal_line y color) ys s)"
    by (rule painted_fold) (use assms in \<open>simp add: painted_line\<close>)
  then show ?thesis by (rule painted_mono) auto
qed

lemma painted_fill:
  assumes "fb_geom s"
  shows "painted UNIV (\<lambda>_. color) s (fill_screen color s)"
proof -
  let ?ys = "upto32 0 (framebuffer_height s)"
  have w: "fold (\<lambda>y s. fold (\<lambda>x. put_pixel x y color) (upto32 0 (framebuffer_width s)) s) ys s
      = fold (\<lambda>y. draw_horizontal_line y color) ys s" for ys
    by (rule fold_cong) (simp_all add: draw_horizontal_line_def fun_eq_iff)
  have "painted {p. snd p \<in> unat ` set ?ys} (\<lambda>_. color) s (fill_screen color s)"
    unfolding fill_screen_def w using upto32_set by (intro painted_lines [OF assms]) auto
  then show ?thesis by (rule painted_mono) (simp_all add: upto32_image on_screen_def)
qed

text \<open>The pixel of a glyph at a position of its cell, and the cell of the character at \<open>(col, row)\<close>.\<close>

definition cell :: "nat \<Rightarrow> nat \<Rightarrow> (nat \<times> nat) set" where
  "cell col row = {p. fst p div 8 = col \<and> snd p div 8 = row}"

definition glyph_color :: "u8 \<Rightarrow> u32 \<Rightarrow> u32 \<Rightarrow> nat \<times> nat \<Rightarrow> u32" where
  "glyph_color c fg bg p = (if bit (glyph c ! (snd p mod 8)) (fst p mod 8) then fg else bg)"

lemma painted_char:
  assumes "fb_geom s" "8 * Suc (unat col) \<le> unat (framebuffer_width s)" "8 * Suc (unat row) \<le> unat (framebuffer_height s)"
  shows "painted (cell (unat col) (unat row)) (glyph_color c fg bg) s (draw_char col row c fg bg s)"
proof -
  have at: "unat (v * 8 + of_nat k) = 8 * unat v + k" if "8 * Suc (unat v) \<le> unat (w :: u32)" "k < 8" for v w :: u32 and k
  proof -
    have "unat w < 2 ^ LENGTH(32)" by (rule unsigned_less)
    then have lt: "8 * unat v + 8 < 2 ^ 32" using that(1) by simp
    then have m: "unat (v * 8) = 8 * unat v" by (simp add: unat_mult_lem [THEN iffD1] mult.commute)
    have "unat (v * 8) + unat (of_nat k :: u32) < 2 ^ LENGTH(32)"
      using lt that(2) by (simp add: m unat_of_nat_small)
    then show ?thesis using that(2) by (subst unat_add_lem [THEN iffD1]) (simp_all add: m unat_of_nat_small)
  qed
  let ?f = "glyph_color c fg bg"
  let ?put = "\<lambda>i k. put_pixel (col * 8 + of_nat k) (row * 8 + of_nat i) (if bit (glyph c ! i) k then fg else bg)"
  have px: "painted {(8 * unat col + k, 8 * unat row + i)} ?f (s\<lparr>fb := m\<rparr>) (?put i k (s\<lparr>fb := m\<rparr>))"
    if "i < 8" "k < 8" for i k m
  proof -
    note u = at [OF assms(2) that(2)] at [OF assms(3) that(1)]
    have "on_screen s (8 * unat col + k, 8 * unat row + i)" using assms that by (simp add: on_screen_def)
    then show ?thesis
      using painted_put_pixel [of "s\<lparr>fb := m\<rparr>" "col * 8 + of_nat k" "row * 8 + of_nat i" ?f] assms(1) that
      by (simp add: u glyph_color_def)
  qed
  have row: "painted (\<Union>k\<in>set [0..<8]. {(8 * unat col + k, 8 * unat row + i)}) ?f (s\<lparr>fb := m\<rparr>)
      (fold (?put i) [0..<8] (s\<lparr>fb := m\<rparr>))" if "i < 8" for i m
    by (rule painted_fold) (use px [OF that] in simp)
  have "painted (\<Union>i\<in>set [0..<8]. \<Union>k\<in>set [0..<8]. {(8 * unat col + k, 8 * unat row + i)}) ?f s
      (fold (\<lambda>i. fold (?put i) [0..<8]) [0..<8] s)"
    by (rule painted_fold) (use row in simp)
  then have "painted (\<Union>i\<in>set [0..<8]. \<Union>k\<in>set [0..<8]. {(8 * unat col + k, 8 * unat row + i)}) ?f s
      (draw_char col row c fg bg s)"
    by (simp add: draw_char_def)
  then show ?thesis
  proof (rule painted_mono)
    fix p
    have "p \<in> cell (unat col) (unat row) \<longleftrightarrow> (\<exists>i<8. \<exists>k<8. p = (8 * unat col + k, 8 * unat row + i))"
    proof
      assume "p \<in> cell (unat col) (unat row)"
      then have "p = (8 * unat col + fst p mod 8, 8 * unat row + snd p mod 8)"
        using div_mult_mod_eq [of "fst p" 8] div_mult_mod_eq [of "snd p" 8]
        by (cases p) (simp add: cell_def mult.commute)
      moreover have "fst p mod 8 < 8" "snd p mod 8 < 8" by simp_all
      ultimately show "\<exists>i<8. \<exists>k<8. p = (8 * unat col + k, 8 * unat row + i)" by blast
    qed (auto simp: cell_def)
    then show "p \<in> (\<Union>i\<in>set [0..<8]. \<Union>k\<in>set [0..<8]. {(8 * unat col + k, 8 * unat row + i)})
        \<longleftrightarrow> p \<in> cell (unat col) (unat row)" by auto
  qed simp
qed

end
