(* ===== verification/Interrupts.thy ===== *)
theory Interrupts
  imports Timer
begin

text \<open>
  Exceptions and interrupts (\<open>src/kernel/interrupts/interrupts.cpp\<close>): the set-up of the GIC-400, the
  interrupt handler and the fault reports. A handler that never returns ends in a loop of \<open>wfi\<close>;
  its model gives the state in which it enters that loop, and \<open>None\<close> while the UART stays full.
\<close>

section \<open>Operations\<close>

definition GICD_CTLR :: u64 where [board]: "GICD_CTLR = GICD_BASE + 0x000"
definition GICD_ISENABLER0 :: u64 where [board]: "GICD_ISENABLER0 = GICD_BASE + 0x100"
definition GICC_CTLR :: u64 where [board]: "GICC_CTLR = GICC_BASE + 0x000"
definition GICC_PMR :: u64 where [board]: "GICC_PMR = GICC_BASE + 0x004"
definition GICC_IAR :: u64 where [board]: "GICC_IAR = GICC_BASE + 0x00C"
definition GICC_EOIR :: u64 where [board]: "GICC_EOIR = GICC_BASE + 0x010"

definition interrupt_init :: "'a io_scheme \<Rightarrow> 'a io_scheme option" where
  "interrupt_init s = do {
     let s = mmio_write GICD_CTLR 0 s;
     (v, s) \<leftarrow> mmio_read GICD_ISENABLER0 s;
     let s = mmio_write GICD_ISENABLER0 (v OR push_bit 30 1) s;
     let s = mmio_write GICD_CTLR 1 s;
     let s = mmio_write GICC_PMR 0xFF s;
     Some (mmio_write GICC_CTLR 1 s) }"

definition handle_interrupt_requests :: "'a timer_scheme \<Rightarrow> 'a timer_scheme option" where
  "handle_interrupt_requests s = do {
     (iar, s) \<leftarrow> mmio_read GICC_IAR s;
     let int_id = iar AND 0x3FF;
     let s = (if int_id = 30 then increment_time (msr CNTP_TVAL_EL0 (get_freq s div 10) s) else s);
     Some (mmio_write GICC_EOIR iar s) }"

definition crlf :: "u8 list" where "crlf = [13, 10]"

text \<open>The recurring line of a report: a label, a number in hexadecimal, the end of the line.\<close>

definition put_line :: "string \<Rightarrow> u64 \<Rightarrow> 'a io_scheme \<Rightarrow> 'a io_scheme option" where
  "put_line label val s = do {
     s \<leftarrow> uart_puts (ascii label) s;
     s \<leftarrow> uart_put_hex val s;
     uart_puts crlf s }"

definition handle_unexpected :: "u64 \<Rightarrow> u64 \<Rightarrow> u64 \<Rightarrow> 'a io_scheme \<Rightarrow> 'a io_scheme option" where
  "handle_unexpected ec far elr s = do {
     s \<leftarrow> uart_puts (ascii ''An unexpected error has occurred: '' @ crlf) s;
     s \<leftarrow> put_line ''EC: '' ec s;
     s \<leftarrow> put_line '' FAR: '' far s;
     put_line '' ELR: '' elr s }"

definition handle_serror :: "'a io_scheme \<Rightarrow> 'a io_scheme option" where
  "handle_serror s = do {
     (esr, s) \<leftarrow> mrs ESR_EL1 s;
     (elr, s) \<leftarrow> mrs ELR_EL1 s;
     s \<leftarrow> uart_puts (ascii ''An SError (asynchronous abort) has occurred.'' @ crlf) s;
     s \<leftarrow> put_line ''ESR_EL1: '' esr s;
     put_line ''ELR_EL1: '' elr s }"

definition handle_unexpected_fiq :: "'a io_scheme \<Rightarrow> 'a io_scheme option" where
  "handle_unexpected_fiq s = do {
     (elr, s) \<leftarrow> mrs ELR_EL1 s;
     s \<leftarrow> uart_puts (ascii ''Unexpected FIQ: the GIC delivered a Group 0 interrupt but none are configured.'' @ crlf) s;
     put_line ''ELR_EL1: '' elr s }"

text \<open>The message of the \<open>switch\<close> on the exception class; none in the default case.\<close>

definition class_message :: "u64 \<Rightarrow> u8 list option" where
  "class_message ec =
     (if ec = 0x20 then Some (ascii ''Instruction Abort from a lower EL.'' @ crlf)
      else if ec = 0x21 then Some (ascii ''Instruction Abort from the same EL.'' @ crlf
        @ ascii ''There is likely no VA to PA mapping, or you did it wrong.'' @ crlf)
      else if ec = 0x24 then Some (ascii ''Data Abort from a lower EL '' @ crlf)
      else if ec = 0x25 then Some (ascii ''Data Abort from the same EL '' @ crlf
        @ ascii ''Kernel did a load/store to an unmapped or wrong-perm VA.'' @ crlf)
      else if ec = 0x0E then Some (ascii ''Illegal execution state '' @ [10])
      else if ec = 0x15 then Some (ascii ''SVC from AArch64: System call. '' @ [10])
      else if ec = 0x3C then Some (ascii ''BRK instruction (debug breakpoint).'' @ crlf)
      else None)"

text \<open>The register dump from register \<open>i\<close> with \<open>k\<close> registers left, and the walk of the frame records.\<close>

fun dump_gprs :: "u64 \<Rightarrow> nat \<Rightarrow> nat \<Rightarrow> 'a pmm_scheme \<Rightarrow> 'a pmm_scheme option" where
  "dump_gprs frm 0 i s = Some s"
| "dump_gprs frm (Suc k) i s = do {
     s \<leftarrow> uart_puts (ascii ''x'') s;
     s \<leftarrow> uart_put_uint (of_nat i) s;
     s \<leftarrow> put_line '': '' (load frm i s) s;
     dump_gprs frm k (Suc i) s }"

fun backtrace :: "nat \<Rightarrow> u64 \<Rightarrow> 'a pmm_scheme \<Rightarrow> 'a pmm_scheme option" where
  "backtrace 0 fp s = Some s"
| "backtrace (Suc k) fp s =
     (if fp \<noteq> 0 \<and> fp AND 0xF = 0
      then do { s \<leftarrow> put_line '''' (mem s (fp + 8)) s; backtrace k (mem s fp) s }
      else Some s)"

definition MAX_BACKTRACE_DEPTH :: nat where "MAX_BACKTRACE_DEPTH = 32"

definition sync_report :: "u64 \<Rightarrow> u64 \<Rightarrow> u64 \<Rightarrow> u64 \<Rightarrow> 'a pmm_scheme \<Rightarrow> 'a pmm_scheme option" where
  "sync_report frm esr far elr s = (
     let lr = load frm 30 s;
         ec = drop_bit 26 esr AND 0x3F;
         iss = esr AND 0x1FFFFFF;
         dfsc = iss AND 0x3F in
     case class_message ec of
       None \<Rightarrow> handle_unexpected ec far elr s
     | Some msg \<Rightarrow> do {
         s \<leftarrow> uart_puts msg s;
         s \<leftarrow> put_line ''ESR_EL1: '' esr s;
         s \<leftarrow> put_line ''ELR_EL1: '' elr s;
         s \<leftarrow> put_line ''LR (x30): '' lr s;
         s \<leftarrow> put_line ''FAR_EL1: '' far s;
         s \<leftarrow> put_line ''DFSC: '' dfsc s;
         s \<leftarrow> uart_puts (ascii ''Full GPR Dump: '' @ crlf) s;
         s \<leftarrow> dump_gprs frm 30 0 s;
         s \<leftarrow> uart_puts (ascii ''Backtrace:'' @ crlf) s;
         backtrace MAX_BACKTRACE_DEPTH (load frm 29 s) s })"

definition handle_synchronous_interrupts :: "u64 \<Rightarrow> 'a pmm_scheme \<Rightarrow> 'a pmm_scheme option" where
  "handle_synchronous_interrupts frm s = do {
     (esr, s) \<leftarrow> mrs ESR_EL1 s;
     (far, s) \<leftarrow> mrs FAR_EL1 s;
     (elr, s) \<leftarrow> mrs ELR_EL1 s;
     sync_report frm esr far elr s }"

section \<open>The reports as texts\<close>

definition hex_text :: "u64 \<Rightarrow> u8 list" where
  "hex_text v = (if v = 0 then ascii ''0'' else ascii ''0x'' @ map digit_char (rev (digits 16 v)))"

definition dec_text :: "u64 \<Rightarrow> u8 list" where
  "dec_text v = (if v = 0 then ascii ''0'' else map digit_char (rev (digits 10 v)))"

definition line_text :: "string \<Rightarrow> u64 \<Rightarrow> u8 list" where
  "line_text label v = ascii label @ hex_text v @ crlf"

lemma uart_puts_append: "uart_puts (as @ bs) s = Option.bind (uart_puts as s) (uart_puts bs)"
  by (induction as arbitrary: s) (simp_all add: Option.bind_assoc cong: Option.bind_cong)

lemma uart_puts_single: "uart_puts [c] s = uart_putc c s"
  by (cases "uart_putc c s") simp_all

lemma print_digits_text: "print_digits ds s = uart_puts (map digit_char ds) s"
  by (induction ds arbitrary: s) (simp_all add: print_helper_def cong: Option.bind_cong)

lemma uart_put_hex_text: "uart_put_hex v s = uart_puts (hex_text v) s"
proof (cases "v = 0")
  case True
  then show ?thesis using uart_puts_single [of 48 s]
    by (simp add: uart_put_hex_def hex_text_def ascii_def)
next
  case False
  then show ?thesis
    by (simp add: uart_put_hex_def hex_text_def print_digits_text ascii_def Let_def cong: Option.bind_cong)
qed

lemma uart_put_uint_text: "uart_put_uint v s = uart_puts (dec_text v) s"
  using uart_puts_single [of 48 s]
  by (simp add: uart_put_uint_def dec_text_def print_digits_text ascii_def Let_def)

lemma put_line_text: "put_line l v s = uart_puts (line_text l v) s"
  by (simp add: put_line_def line_text_def uart_put_hex_text uart_puts_append Option.bind_assoc cong: Option.bind_cong)

text \<open>Printing leaves the memory alone.\<close>

lemma uart_puts_more: "uart_puts bs s = Some t \<Longrightarrow> io.more t = io.more s"
  using uart_puts_step [of bs s t] by (simp add: uart_step_def)

lemma uart_puts_mem:
  fixes s t :: "'a pmm_scheme"
  assumes "uart_puts bs s = Some t"
  shows "mem t = mem s"
  using uart_puts_more [OF assms] by (cases s; cases t; simp)

lemma uart_puts_bind:
  fixes s :: "'a pmm_scheme"
  assumes "\<And>t. mem t = mem s \<Longrightarrow> f t = uart_puts bs t"
  shows "Option.bind (uart_puts as s) f = uart_puts (as @ bs) s"
proof (cases "uart_puts as s")
  case (Some t)
  with assms [OF uart_puts_mem [OF Some]] show ?thesis by (simp add: uart_puts_append)
qed (simp add: uart_puts_append)

definition gpr_text :: "(u64 \<Rightarrow> u64) \<Rightarrow> u64 \<Rightarrow> nat list \<Rightarrow> u8 list" where
  "gpr_text m frm is = concat (map (\<lambda>i. ascii ''x'' @ dec_text (of_nat i) @ line_text '': '' (m (word_at frm i))) is)"

lemma dump_gprs_text: "dump_gprs frm k i s = uart_puts (gpr_text (mem s) frm [i..<i + k]) s"
proof (induction k arbitrary: i s)
  case 0
  then show ?case by (simp add: gpr_text_def)
next
  case (Suc k)
  have "dump_gprs frm (Suc k) i s =
      uart_puts (ascii ''x'' @ dec_text (of_nat i) @ line_text '': '' (mem s (word_at frm i))
        @ gpr_text (mem s) frm [Suc i..<Suc i + k]) s"
    unfolding dump_gprs.simps uart_put_uint_text put_line_text
    by (intro uart_puts_bind, simp only: load_def, intro uart_puts_bind, simp only: Suc.IH)
  also have "[i..<i + Suc k] = i # [Suc i..<Suc i + k]" by (simp add: upt_conv_Cons)
  ultimately show ?case by (simp add: gpr_text_def)
qed

text \<open>The chain of frame records from \<open>fp\<close>, at most \<open>k\<close> of them.\<close>

fun frame_chain :: "(u64 \<Rightarrow> u64) \<Rightarrow> nat \<Rightarrow> u64 \<Rightarrow> u64 list" where
  "frame_chain m 0 fp = []"
| "frame_chain m (Suc k) fp = (if fp \<noteq> 0 \<and> fp AND 0xF = 0 then fp # frame_chain m k (m fp) else [])"

definition backtrace_text :: "(u64 \<Rightarrow> u64) \<Rightarrow> u64 list \<Rightarrow> u8 list" where
  "backtrace_text m fps = concat (map (\<lambda>fp. line_text '''' (m (fp + 8))) fps)"

lemma backtrace_eq: "backtrace k fp s = uart_puts (backtrace_text (mem s) (frame_chain (mem s) k fp)) s"
proof (induction k arbitrary: fp s)
  case 0
  then show ?case by (simp add: backtrace_text_def)
next
  case (Suc k)
  have "Option.bind (uart_puts (line_text '''' (mem s (fp + 8))) s) (\<lambda>s. backtrace k (mem s fp) s) =
      uart_puts (line_text '''' (mem s (fp + 8)) @ backtrace_text (mem s) (frame_chain (mem s) k (mem s fp))) s"
    by (rule uart_puts_bind) (simp add: Suc.IH)
  then show ?case by (simp add: put_line_text backtrace_text_def)
qed

lemma frame_chain_props:
  assumes "fps = frame_chain m k fp"
  shows "length fps \<le> k" and "i < length fps \<Longrightarrow> fps ! i = (m ^^ i) fp"
    and "i < length fps \<Longrightarrow> (m ^^ i) fp \<noteq> 0 \<and> (m ^^ i) fp AND 0xF = 0"
    and "length fps < k \<Longrightarrow> (m ^^ length fps) fp = 0 \<or> (m ^^ length fps) fp AND 0xF \<noteq> 0"
proof -
  have "length fps \<le> k \<and> (\<forall>i < length fps. fps ! i = (m ^^ i) fp \<and> (m ^^ i) fp \<noteq> 0 \<and> (m ^^ i) fp AND 0xF = 0)
    \<and> (length fps < k \<longrightarrow> (m ^^ length fps) fp = 0 \<or> (m ^^ length fps) fp AND 0xF \<noteq> 0)"
    unfolding assms
  proof (induction k arbitrary: fp)
    case (Suc k)
    then show ?case
      by (auto simp: nth_Cons funpow_Suc_right less_Suc_eq_0_disj simp del: funpow.simps split: nat.splits)
  qed simp
  then show "length fps \<le> k" "i < length fps \<Longrightarrow> fps ! i = (m ^^ i) fp"
    "i < length fps \<Longrightarrow> (m ^^ i) fp \<noteq> 0 \<and> (m ^^ i) fp AND 0xF = 0"
    "length fps < k \<Longrightarrow> (m ^^ length fps) fp = 0 \<or> (m ^^ length fps) fp AND 0xF \<noteq> 0" by blast+
qed

section \<open>Reports end\<close>

definition room :: "u64 \<Rightarrow> bool" where
  "room v \<longleftrightarrow> (ucast v :: u32) AND push_bit 5 1 = 0"

lemma uart_puts_enough:
  assumes "list_all room (inp s)" "length bs \<le> length (inp s)"
  shows "\<exists>t. uart_puts bs s = Some t"
  using assms
proof (induction bs arbitrary: s)
  case (Cons c cs)
  then obtain v vs where vs: "inp s = v # vs" by (cases "inp s") auto
  with Cons.prems(1) obtain t where t: "uart_putc c s = Some t" "inp t = vs"
    using uart_putc_ready [of s v vs c] by (auto simp: room_def)
  with vs Cons.prems Cons.IH [of t] show ?case by simp
qed simp

lemma length_hex_text: "length (hex_text v) \<le> 18"
proof -
  have "length (digits 16 v) \<le> 16"
  proof (rule digits_length)
    have "unat v < 2 ^ LENGTH(64)" by (rule unsigned_less)
    then show "unat v < unat (16 :: u64) ^ 16" by simp
  qed simp
  then show ?thesis by (simp add: hex_text_def ascii_def)
qed

lemma length_dec_text: "length (dec_text v) \<le> 20"
proof -
  have "length (digits 10 v) \<le> 20"
  proof (rule digits_length)
    have "unat v < 2 ^ LENGTH(64)" by (rule unsigned_less)
    then show "unat v < unat (10 :: u64) ^ 20" by simp
  qed simp
  then show ?thesis by (simp add: dec_text_def ascii_def)
qed

lemma length_line_text: "length (line_text l v) \<le> length l + 20"
  using length_hex_text [of v] by (simp add: line_text_def ascii_def crlf_def)

lemma length_concat_le: "\<forall>x \<in> set xs. length (f x) \<le> n \<Longrightarrow> length (concat (map f xs)) \<le> n * length xs"
  by (induction xs) auto

lemma length_gpr_text: "length (gpr_text m frm is) \<le> 43 * length is"
  unfolding gpr_text_def
proof (rule length_concat_le, rule ballI)
  fix i
  show "length (ascii ''x'' @ dec_text (of_nat i) @ line_text '': '' (m (word_at frm i))) \<le> 43"
    using length_dec_text [of "of_nat i"] length_line_text [of "'': ''" "m (word_at frm i)"]
    by (simp add: ascii_def)
qed

lemma length_backtrace_text: "length (backtrace_text m fps) \<le> 20 * length fps"
  unfolding backtrace_text_def
  by (rule length_concat_le) (use length_line_text [of "''''"] in auto)

lemma length_class_message: "class_message ec = Some msg \<Longrightarrow> length msg \<le> 110"
  by (auto simp: class_message_def ascii_def crlf_def split: if_splits)

section \<open>Properties\<close>

text \<open>The whole report of a synchronous exception, as a function of what the handler reads.\<close>

definition fault_text :: "u64 \<Rightarrow> u64 \<Rightarrow> u64 \<Rightarrow> u64 \<Rightarrow> (u64 \<Rightarrow> u64) \<Rightarrow> u64 list \<Rightarrow> u8 list" where
  "fault_text esr far elr frm m fps =
     (case class_message (drop_bit 26 esr AND 0x3F) of
        None \<Rightarrow> ascii ''An unexpected error has occurred: '' @ crlf @ line_text ''EC: '' (drop_bit 26 esr AND 0x3F)
          @ line_text '' FAR: '' far @ line_text '' ELR: '' elr
      | Some msg \<Rightarrow> msg @ line_text ''ESR_EL1: '' esr @ line_text ''ELR_EL1: '' elr
          @ line_text ''LR (x30): '' (m (word_at frm 30)) @ line_text ''FAR_EL1: '' far
          @ line_text ''DFSC: '' ((esr AND 0x1FFFFFF) AND 0x3F)
          @ (ascii ''Full GPR Dump: '' @ crlf) @ gpr_text m frm [0..<30]
          @ (ascii ''Backtrace:'' @ crlf) @ backtrace_text m fps)"

lemma emit_inp: "(emit es s)\<lparr>inp := v\<rparr> = emit es (s\<lparr>inp := v\<rparr>)"
  by (simp add: emit_def)

lemma sync_report_text:
  "sync_report frm esr far elr s =
    uart_puts (fault_text esr far elr frm (mem s) (frame_chain (mem s) 32 (mem s (word_at frm 29)))) s"
proof (cases "class_message (drop_bit 26 esr AND 0x3F)")
  case None
  then show ?thesis
    by (simp add: sync_report_def handle_unexpected_def fault_text_def put_line_text uart_puts_append
        Option.bind_assoc Let_def cong: Option.bind_cong)
next
  case (Some msg)
  show ?thesis
    unfolding sync_report_def fault_text_def Let_def Some option.case put_line_text dump_gprs_text
    by (simp only: load_def add_0, intro uart_puts_bind, simp only: add_0, intro uart_puts_bind)
      (simp add: backtrace_eq load_def MAX_BACKTRACE_DEPTH_def)
qed

lemma handle_sync_text:
  assumes "inp s = esr # far # elr # vs"
  shows "handle_synchronous_interrupts frm s =
    uart_puts (fault_text esr far elr frm (mem s) (frame_chain (mem s) 32 (mem s (word_at frm 29))))
      (emit [Mrs ESR_EL1 esr, Mrs FAR_EL1 far, Mrs ELR_EL1 elr] (s\<lparr>inp := vs\<rparr>))"
  using assms by (simp add: handle_synchronous_interrupts_def mrs_eq sync_report_text emit_inp)

text \<open>the interrupt handler acknowledges whatever interrupt it read, with the value it read. For
  the timer interrupt, and for no other, it rearms the timer for a tenth of a second and counts
  one tick, under the timer's lock; it never waits.\<close>

theorem irq_handler_correct:
  assumes "inp s = v # vs"
  defines "iar \<equiv> ucast v :: u32"
  shows "\<exists>t. handle_interrupt_requests s = Some t \<and> daif t = daif s \<and> freq t = freq s
    \<and> (if iar AND 0x3FF = 30
       then time t = time s + 1
         \<and> trace t = trace s @ [Rd32 GICC_IAR iar, Msr CNTP_TVAL_EL0 (freq s div 10)]
             @ with_lock Timer_lock s @ [Wr32 GICC_EOIR iar]
       else time t = time s \<and> trace t = trace s @ [Rd32 GICC_IAR iar, Wr32 GICC_EOIR iar])"
  using assms(1)
  by (simp add: handle_interrupt_requests_def mmio_read_def env_read_def Let_def increment_time_eq
      get_freq_def msr_def mmio_write_def with_lock_def flip: iar_def)

definition timer_small :: "u64 list \<Rightarrow> timer" where
  "timer_small vs = dma.extend (dma_small\<lparr>inp := vs\<rparr>) \<lparr>time = 41, freq = 54000000\<rparr>"

theorem irq_handler_correct_witness:
  "\<exists>t. handle_interrupt_requests (timer_small [30]) = Some t \<and> time t = 42"
  using irq_handler_correct [of "timer_small [30]" 30 "[]"]
  by (auto simp: timer_small_def dma.defs)





end
