(* ===== verification/Terminal.thy ===== *)
theory Terminal
  imports Render Refinement Interrupts
begin

text \<open>
  The terminal on the screen (the second half of \<open>src/kernel/io/io.cpp\<close>): a cursor and a buffer of
  characters that the drawing primitives keep visible. \<open>putc_spec\<close> is what a terminal promises, on
  a grid of characters and nothing else; the last section shows that the code implements it, down
  to the pixels.
\<close>

section \<open>Operations\<close>

definition MAX_TERM_ROWS :: u8 where "MAX_TERM_ROWS = 135"
definition MAX_TERM_COLS :: u8 where "MAX_TERM_COLS = 240"

text \<open>\<open>memmove\<close> and \<open>memset\<close>, on the framebuffer by address and on the buffer by index.\<close>

definition memmove_fb :: "u64 \<Rightarrow> u64 \<Rightarrow> u64 \<Rightarrow> (u64 \<Rightarrow> u8) \<Rightarrow> u64 \<Rightarrow> u8" where
  "memmove_fb dst src n m = (\<lambda>a. if a - dst < n then m (src + (a - dst)) else m a)"

definition memmove_buf :: "int \<Rightarrow> int \<Rightarrow> u64 \<Rightarrow> (int \<Rightarrow> u8) \<Rightarrow> int \<Rightarrow> u8" where
  "memmove_buf dst src n m = (\<lambda>i. if dst \<le> i \<and> i - dst < uint n then m (src + (i - dst)) else m i)"

definition memset_buf :: "int \<Rightarrow> u8 \<Rightarrow> u64 \<Rightarrow> (int \<Rightarrow> u8) \<Rightarrow> int \<Rightarrow> u8" where
  "memset_buf dst c n m = (\<lambda>i. if dst \<le> i \<and> i - dst < uint n then c else m i)"

definition term_scroll :: "'a screen_scheme \<Rightarrow> 'a screen_scheme" where
  "term_scroll s =
     (let r = uint (term_rows s) - 1;
          cols = uint MAX_TERM_COLS;
          s = s\<lparr>term_buffer := memmove_buf 0 cols (of_int (r * cols)) (term_buffer s)\<rparr>;
          s = s\<lparr>term_buffer := memset_buf (r * cols) 32 (ucast (term_cols s)) (term_buffer s)\<rparr>;
          s = s\<lparr>fb := memmove_fb (ucast (framebuffer_base s))
                  (ucast (framebuffer_base s + 8 * framebuffer_pitch s))
                  (ucast (of_int (r * 8) * framebuffer_pitch s)) (fb s)\<rparr>
      in fold (\<lambda>y. draw_horizontal_line y background_color) (upto32 (of_int (r * 8)) (of_int (r * 8 + 8))) s)"

definition term_clear :: "'a screen_scheme \<Rightarrow> 'a screen_scheme option" where
  "term_clear s =
     (let s = s\<lparr>term_buffer := memset_buf 0 32 (ucast MAX_TERM_ROWS * ucast MAX_TERM_COLS) (term_buffer s)\<rparr>;
          s = fill_screen background_color s;
          s = s\<lparr>cursor_row := 0, cursor_col := 0\<rparr>
      in uart_term_clear s)"

text \<open>The step to the next row, which \<open>term_putc\<close> has twice, and its index into the buffer.\<close>

definition term_next_row :: "'a screen_scheme \<Rightarrow> 'a screen_scheme" where
  "term_next_row s =
     (let s = s\<lparr>cursor_row := cursor_row s + 1, cursor_col := 0\<rparr>
      in if cursor_row s \<ge> term_rows s
         then (let s = term_scroll s in s\<lparr>cursor_row := term_rows s - 1\<rparr>) else s)"

definition cursor_index :: "'a screen_scheme \<Rightarrow> int" where
  "cursor_index s = uint (cursor_row s) * uint MAX_TERM_COLS + uint (cursor_col s)"

definition draw_at_cursor :: "u8 \<Rightarrow> u32 \<Rightarrow> u32 \<Rightarrow> 'a screen_scheme \<Rightarrow> 'a screen_scheme" where
  "draw_at_cursor c fg bg s = draw_char (ucast (cursor_col s)) (ucast (cursor_row s)) c fg bg s"

definition term_putc :: "u8 \<Rightarrow> 'a screen_scheme \<Rightarrow> 'a screen_scheme" where
  "term_putc c s =
     (let s = draw_at_cursor 32 text_color background_color s in
      if c = 13 \<or> c = 10
      then draw_at_cursor 32 background_color text_color (term_next_row s)
      else if (c = 127 \<or> c = 8) \<and> cursor_col s > 3
      then (let s = s\<lparr>cursor_col := cursor_col s - 1\<rparr>;
                s = s\<lparr>term_buffer := (term_buffer s)(cursor_index s := 32)\<rparr>
            in draw_at_cursor 32 background_color text_color s)
      else (let s = s\<lparr>term_buffer := (term_buffer s)(cursor_index s := c)\<rparr>;
                s = draw_at_cursor c text_color background_color s;
                s = s\<lparr>cursor_col := cursor_col s + 1\<rparr>;
                s = (if cursor_col s \<ge> term_cols s then term_next_row s else s)
            in draw_at_cursor 32 background_color text_color s))"

fun term_puts :: "u8 list \<Rightarrow> 'a screen_scheme \<Rightarrow> 'a screen_scheme" where
  "term_puts [] s = s"
| "term_puts (c # cs) s = term_puts cs (term_putc c s)"

definition io_puts :: "u8 list \<Rightarrow> 'a screen_scheme \<Rightarrow> 'a screen_scheme option" where
  "io_puts str s = uart_puts str (term_puts str s)"

definition io_putc :: "u8 \<Rightarrow> 'a screen_scheme \<Rightarrow> 'a screen_scheme option" where
  "io_putc c s = uart_putc c (term_putc c s)"

section \<open>What a terminal promises\<close>

text \<open>A text is a grid of \<open>R\<close> rows and \<open>C\<close> columns, blank outside, with the position of the cursor.\<close>

type_synonym grid = "(nat \<Rightarrow> nat \<Rightarrow> u8) \<times> nat \<times> nat"

definition next_row_spec :: "nat \<Rightarrow> grid \<Rightarrow> grid" where
  "next_row_spec R = (\<lambda>(g, r, k). if Suc r < R then (g, Suc r, 0)
     else (\<lambda>i j. if Suc i < R then g (Suc i) j else 32, R - 1, 0))"

definition putc_spec :: "nat \<Rightarrow> nat \<Rightarrow> u8 \<Rightarrow> grid \<Rightarrow> grid" where
  "putc_spec R C c = (\<lambda>(g, r, k).
     if c = 13 \<or> c = 10 then next_row_spec R (g, r, k)
     else if (c = 127 \<or> c = 8) \<and> 3 < k then (g(r := (g r)(k - 1 := 32)), r, k - 1)
     else let g = g(r := (g r)(k := c)) in
          if Suc k < C then (g, r, Suc k) else next_row_spec R (g, r, k))"

abbreviation rows :: "'a screen_scheme \<Rightarrow> nat" where "rows s \<equiv> unat (term_rows s)"
abbreviation cols :: "'a screen_scheme \<Rightarrow> nat" where "cols s \<equiv> unat (term_cols s)"

definition text_of :: "'a screen_scheme \<Rightarrow> grid" where
  "text_of s = (\<lambda>i j. if i < rows s \<and> j < cols s then term_buffer s (int (240 * i + j)) else 32,
     unat (cursor_row s), unat (cursor_col s))"

text \<open>The terminal fits the framebuffer and the buffer.\<close>

definition term_fit :: "'a screen_scheme \<Rightarrow> bool" where
  "term_fit s \<longleftrightarrow> fb_geom s \<and> rows s \<le> 135 \<and> cols s \<le> 240 \<and> 0 < rows s \<and> 0 < cols s
     \<and> 8 * rows s \<le> unat (framebuffer_height s) \<and> 8 * cols s \<le> unat (framebuffer_width s)"

text \<open>What the cells show: \<open>F i j\<close> colours the cell of row \<open>i\<close> and column \<open>j\<close>.\<close>

definition cells :: "'a screen_scheme \<Rightarrow> (nat \<Rightarrow> nat \<Rightarrow> nat \<times> nat \<Rightarrow> u32) \<Rightarrow> bool" where
  "cells s F \<longleftrightarrow> (\<forall>i < rows s. \<forall>j < cols s. \<forall>p \<in> cell j i. pixel s (fst p) (snd p) = F i j p)"

definition ink :: "'a screen_scheme \<Rightarrow> nat \<Rightarrow> nat \<Rightarrow> nat \<times> nat \<Rightarrow> u32" where
  "ink s i j = glyph_color (term_buffer s (int (240 * i + j))) text_color background_color"

text \<open>The text with the cursor over it, as a block of the text's colour.\<close>

definition face :: "bool \<Rightarrow> 'a screen_scheme \<Rightarrow> nat \<Rightarrow> nat \<Rightarrow> nat \<times> nat \<Rightarrow> u32" where
  "face cursor s i j = (if cursor \<and> i = unat (cursor_row s) \<and> j = unat (cursor_col s)
     then (\<lambda>_. text_color) else ink s i j)"

text \<open>From the cursor on the text is blank.\<close>

definition blank_from :: "'a screen_scheme \<Rightarrow> nat \<Rightarrow> nat \<Rightarrow> bool" where
  "blank_from s r k \<longleftrightarrow> (\<forall>i < rows s. \<forall>j < cols s. r < i \<or> i = r \<and> k \<le> j \<longrightarrow>
     term_buffer s (int (240 * i + j)) = 32)"

definition term_ok :: "bool \<Rightarrow> 'a screen_scheme \<Rightarrow> bool" where
  "term_ok cursor s \<longleftrightarrow> term_fit s \<and> unat (cursor_row s) < rows s \<and> unat (cursor_col s) < cols s
     \<and> cells s (face cursor s) \<and> blank_from s (unat (cursor_row s)) (unat (cursor_col s))"

section \<open>What the operations of the terminal change\<close>

text \<open>The variables of the terminal, its buffer and the framebuffer, neither of them out of bounds.\<close>

definition buf_outside :: "int \<Rightarrow> bool" where "buf_outside i \<longleftrightarrow> i < 0 \<or> 32400 \<le> i"

definition term_only :: "'a screen_scheme \<Rightarrow> 'a screen_scheme \<Rightarrow> bool" where
  "term_only s t \<longleftrightarrow> (\<exists>m b r k. t = s\<lparr>fb := m, term_buffer := b, cursor_row := r, cursor_col := k\<rparr>
     \<and> (\<forall>a. fb_outside s a \<longrightarrow> m a = fb s a) \<and> (\<forall>i. buf_outside i \<longrightarrow> b i = term_buffer s i))"

lemma term_only_iff:
  "term_only s t \<longleftrightarrow> t = s\<lparr>fb := fb t, term_buffer := term_buffer t, cursor_row := cursor_row t, cursor_col := cursor_col t\<rparr>
    \<and> (\<forall>a. fb_outside s a \<longrightarrow> fb t a = fb s a) \<and> (\<forall>i. buf_outside i \<longrightarrow> term_buffer t i = term_buffer s i)"
    (is "_ \<longleftrightarrow> ?R")
proof
  show "term_only s t \<Longrightarrow> ?R" by (auto simp: term_only_def)
  show "?R \<Longrightarrow> term_only s t" unfolding term_only_def by blast
qed

lemma fb_outside_upd [simp]:
  "fb_outside (s\<lparr>term_buffer := b\<rparr>) = fb_outside s" "fb_outside (s\<lparr>cursor_row := v\<rparr>) = fb_outside s"
  "fb_outside (s\<lparr>cursor_col := v\<rparr>) = fb_outside s"
  by (simp_all add: fb_outside_def fun_eq_iff)

lemma term_only_trans: "term_only s t \<Longrightarrow> term_only t u \<Longrightarrow> term_only s u"
proof -
  assume st: "term_only s t" and tu: "term_only t u"
  obtain m b r k where t: "t = s\<lparr>fb := m, term_buffer := b, cursor_row := r, cursor_col := k\<rparr>"
    using st unfolding term_only_def by blast
  then have o: "fb_outside t = fb_outside s" by simp
  from tu obtain m' b' r' k' where "u = t\<lparr>fb := m', term_buffer := b', cursor_row := r', cursor_col := k'\<rparr>"
    unfolding term_only_def by blast
  then have "u = s\<lparr>fb := m', term_buffer := b', cursor_row := r', cursor_col := k'\<rparr>" by (simp add: t)
  with st tu show ?thesis unfolding term_only_iff o by simp
qed

lemma term_onlyD:
  assumes "term_only s t"
  shows "term_rows t = term_rows s" "term_cols t = term_cols s" "timer.truncate t = timer.truncate s"
  using assms by (auto simp: term_only_def timer.defs)

section \<open>Drawing cells\<close>

lemma cells_cong:
  assumes "cells s F" "\<And>i j p. i < rows s \<Longrightarrow> j < cols s \<Longrightarrow> p \<in> cell j i \<Longrightarrow> F i j p = G i j p"
  shows "cells s G"
  using assms by (simp add: cells_def)

lemma pixel_upd [simp]:
  "pixel (s\<lparr>term_buffer := b\<rparr>) = pixel s" "pixel (s\<lparr>cursor_row := v\<rparr>) = pixel s"
  "pixel (s\<lparr>cursor_col := v\<rparr>) = pixel s"
  by (simp_all add: pixel_def pixel_addr_def fun_eq_iff)

lemma cells_upd [simp]:
  "cells (s\<lparr>term_buffer := b\<rparr>) F = cells s F" "cells (s\<lparr>cursor_row := v\<rparr>) F = cells s F"
  "cells (s\<lparr>cursor_col := v\<rparr>) F = cells s F"
  by (simp_all add: cells_def)

lemma fb_geom_upd [simp]:
  "fb_geom (s\<lparr>term_buffer := b\<rparr>) = fb_geom s" "fb_geom (s\<lparr>cursor_row := v\<rparr>) = fb_geom s"
  "fb_geom (s\<lparr>cursor_col := v\<rparr>) = fb_geom s"
  by (simp_all add: fb_geom_def)

lemma cell_on_screen:
  assumes "8 * rows s \<le> unat (framebuffer_height s)" "8 * cols s \<le> unat (framebuffer_width s)"
    "i < rows s" "j < cols s" "p \<in> cell j i"
  shows "on_screen s p" "snd p div 8 = i" "fst p div 8 = j"
proof -
  show i: "snd p div 8 = i" and j: "fst p div 8 = j" using assms(5) by (simp_all add: cell_def)
  have "snd p < 8 * Suc i" "fst p < 8 * Suc j"
    using i j div_less_iff_less_mult [of 8 "snd p" "Suc i"] div_less_iff_less_mult [of 8 "fst p" "Suc j"] by simp_all
  then show "on_screen s p" using assms(1-4) by (simp add: on_screen_def)
qed

lemma space_blank: "glyph_color 32 fg bg p = bg"
proof -
  have "glyph 32 = [0, 0, 0, 0, 0, 0, 0, 0]" by (simp add: glyph_def font8x8_basic_def)
  moreover have "snd p mod 8 \<in> {0, 1, 2, 3, 4, 5, 6, 7}" by auto
  ultimately show ?thesis by (auto simp: glyph_color_def)
qed

text \<open>Drawing at the cursor changes the cell of the cursor and nothing else.\<close>

lemma draw_at_cursor:
  assumes "term_fit s" "unat (cursor_row s) < rows s" "unat (cursor_col s) < cols s" "cells s F"
  obtains m where "draw_at_cursor c fg bg s = s\<lparr>fb := m\<rparr>" and "term_only s (s\<lparr>fb := m\<rparr>)"
    and "cells (s\<lparr>fb := m\<rparr>) (\<lambda>i j. if i = unat (cursor_row s) \<and> j = unat (cursor_col s) then glyph_color c fg bg else F i j)"
proof -
  let ?c = "ucast (cursor_col s) :: u32" and ?r = "ucast (cursor_row s) :: u32"
  note g = assms(1) [unfolded term_fit_def] assms(2,3)
  have u: "unat ?c = unat (cursor_col s)" "unat ?r = unat (cursor_row s)"
    by (simp_all add: unat_ucast_wider)
  have pa: "painted (cell (unat ?c) (unat ?r)) (glyph_color c fg bg) s (draw_at_cursor c fg bg s)"
    unfolding draw_at_cursor_def by (rule painted_char) (use g in \<open>simp_all add: u\<close>)
  then obtain m where m: "draw_at_cursor c fg bg s = s\<lparr>fb := m\<rparr>" "\<forall>a. fb_outside s a \<longrightarrow> m a = fb s a"
    by (rule paintedE)
  have only: "term_only s (s\<lparr>fb := m\<rparr>)" using m(2) by (simp add: term_only_iff)
  have "cells (s\<lparr>fb := m\<rparr>) (\<lambda>i j. if i = unat (cursor_row s) \<and> j = unat (cursor_col s) then glyph_color c fg bg else F i j)"
    unfolding cells_def
  proof (intro allI impI ballI)
    fix i j p assume ij: "i < rows (s\<lparr>fb := m\<rparr>)" "j < cols (s\<lparr>fb := m\<rparr>)" and p: "p \<in> cell j i"
    then have ij': "i < rows s" "j < cols s" by simp_all
    have os: "on_screen s p" "snd p div 8 = i" "fst p div 8 = j" by (rule cell_on_screen; use g ij' p in simp)+
    have "pixel s (fst p) (snd p) = F i j p" using assms(4) ij' p by (simp add: cells_def)
    with pa os show "pixel (s\<lparr>fb := m\<rparr>) (fst p) (snd p)
        = (if i = unat (cursor_row s) \<and> j = unat (cursor_col s) then glyph_color c fg bg else F i j) p"
      by (auto simp: painted_def m u cell_def)
  qed
  with m(1) only that show ?thesis by blast
qed

section \<open>Scrolling\<close>

lemma load32_memmove:
  assumes "\<And>k. k < 4 \<Longrightarrow> a + of_nat k - dst < n"
  shows "load32 a (memmove_fb dst src n m) = load32 (a + (src - dst)) m"
proof -
  have "memmove_fb dst src n m (a + of_nat k) = m (a + (src - dst) + of_nat k)" if "k < 4" for k
    using assms [OF that] by (simp add: memmove_fb_def algebra_simps)
  from this [of 0] this [of 1] this [of 2] this [of 3] show ?thesis
    by (simp add: load32_def)
qed

abbreviation scroll_dst :: "'a screen_scheme \<Rightarrow> u64" where "scroll_dst s \<equiv> ucast (framebuffer_base s)"
abbreviation scroll_src :: "'a screen_scheme \<Rightarrow> u64" where
  "scroll_src s \<equiv> ucast (framebuffer_base s + 8 * framebuffer_pitch s)"
abbreviation scroll_len :: "'a screen_scheme \<Rightarrow> nat \<Rightarrow> u64" where
  "scroll_len s n \<equiv> ucast (of_int (int n * 8) * framebuffer_pitch s)"

lemma scroll_args:
  assumes "fb_geom s" "8 * (n + 1) \<le> unat (framebuffer_height s)"
  shows "unat (framebuffer_pitch s) * (8 * n) + unat (framebuffer_pitch s) * 8
      \<le> unat (framebuffer_pitch s) * unat (framebuffer_height s)" (is ?pn)
    and "unat (scroll_len s n) = unat (framebuffer_pitch s) * (8 * n)"
    and "scroll_src s = scroll_dst s + 8 * of_nat (unat (framebuffer_pitch s))"
proof -
  let ?b = "unat (framebuffer_base s)" and ?p = "unat (framebuffer_pitch s)" and ?h = "unat (framebuffer_height s)"
  have top: "?b + ?p * ?h < 2 ^ 32" using assms(1) by (simp add: fb_geom_def)
  have "?p * (8 * (n + 1)) \<le> ?p * ?h" by (rule mult_le_mono2) (rule assms(2))
  then show pn: ?pn by (simp only: distrib_left mult_1_right)
  have small: "unat a * unat b < 2 ^ 32 \<Longrightarrow> unat (a * b) = unat a * unat b" for a b :: u32
    by (simp add: unat_mult_lem [THEN iffD1])
  have n8: "unat (of_int (int n * 8) :: u32) = 8 * n"
  proof -
    have "(of_int (int n * 8) :: u32) = of_nat (n * 8)" by simp
    moreover have "n * 8 < 2 ^ LENGTH(32)" using unat_lt32 [of "framebuffer_height s"] assms(2) by simp
    ultimately show ?thesis by (simp only: unat_of_nat_small mult.commute)
  qed
  have "unat (of_int (int n * 8) :: u32) * ?p < 2 ^ 32"
    unfolding n8 using pn top by (simp only: mult.commute)
  then have "unat (of_int (int n * 8) * framebuffer_pitch s) = 8 * n * ?p" using small n8 by simp
  then show "unat (scroll_len s n) = ?p * (8 * n)" by (simp add: unat_ucast_wider)
  have "unat (8 * framebuffer_pitch s) = 8 * ?p" using small [of 8 "framebuffer_pitch s"] pn top by simp
  moreover have "?b + 8 * ?p < 2 ^ 32" using pn top by linarith
  ultimately have "unat (framebuffer_base s + 8 * framebuffer_pitch s) = ?b + 8 * ?p"
    by (subst unat_add_lem [THEN iffD1]) simp_all
  then have "of_nat (unat (framebuffer_base s + 8 * framebuffer_pitch s)) = (of_nat (?b + 8 * ?p) :: u64)" by simp
  then show "scroll_src s = scroll_dst s + 8 * of_nat ?p" by simp
qed

lemma scroll_pixels:
  assumes "fb_geom s" "8 * (n + 1) \<le> unat (framebuffer_height s)" "X < unat (framebuffer_width s)" "Y < 8 * n"
  shows "load32 (of_nat (pixel_addr s X Y)) (memmove_fb (scroll_dst s) (scroll_src s) (scroll_len s n) (fb s))
    = pixel s X (Y + 8)"
proof -
  let ?p = "unat (framebuffer_pitch s)"
  note ar = scroll_args [OF assms(1,2)]
  have top: "unat (framebuffer_base s) + ?p * unat (framebuffer_height s) < 2 ^ 32"
    "4 * unat (framebuffer_width s) \<le> ?p" using assms(1) by (simp_all add: fb_geom_def)
  have "?p * Suc Y \<le> ?p * (8 * n)" using assms(4) by (intro mult_le_mono2) simp
  then have y: "?p * Y + ?p \<le> ?p * (8 * n)" by simp
  have "load32 (of_nat (pixel_addr s X Y)) (memmove_fb (scroll_dst s) (scroll_src s) (scroll_len s n) (fb s))
      = load32 (of_nat (pixel_addr s X Y) + (scroll_src s - scroll_dst s)) (fb s)"
  proof (rule load32_memmove)
    fix k :: nat assume k: "k < 4"
    have "of_nat (pixel_addr s X Y) + of_nat k - scroll_dst s = (of_nat (?p * Y + 4 * X + k) :: u64)"
      by (simp add: pixel_addr_def)
    moreover have lt: "?p * Y + 4 * X + k < ?p * (8 * n)" using y top(2) assms(3) k by linarith
    moreover have "?p * Y + 4 * X + k < 2 ^ LENGTH(64)" using lt ar(1) top(1) by simp
    ultimately show "of_nat (pixel_addr s X Y) + of_nat k - scroll_dst s < scroll_len s n"
      by (simp only: word_less_nat_alt unat_of_nat_small ar(2))
  qed
  also have "of_nat (pixel_addr s X Y) + (scroll_src s - scroll_dst s) = (of_nat (pixel_addr s X (Y + 8)) :: u64)"
    by (simp add: ar(3) pixel_addr_def distrib_left)
  finally show ?thesis by (simp add: pixel_def)
qed

lemma memmove_outside:
  assumes "fb_geom s" "8 * (n + 1) \<le> unat (framebuffer_height s)" "fb_outside s a"
  shows "memmove_fb (scroll_dst s) (scroll_src s) (scroll_len s n) (fb s) a = fb s a"
proof -
  let ?b = "unat (framebuffer_base s)" and ?p = "unat (framebuffer_pitch s)"
  note ar = scroll_args [OF assms(1,2)]
  have top: "?b + ?p * unat (framebuffer_height s) < 2 ^ 32" using assms(1) by (simp add: fb_geom_def)
  have d: "unat (scroll_dst s) = ?b" by (simp add: unat_ucast_wider)
  have "\<not> a - scroll_dst s < scroll_len s n"
  proof
    assume lt: "a - scroll_dst s < scroll_len s n"
    then have l: "unat (a - scroll_dst s) < ?p * (8 * n)" by (simp only: word_less_nat_alt ar(2))
    have "unat (scroll_dst s) + unat (a - scroll_dst s) < 2 ^ 64" unfolding d using l ar(1) top by simp
    then have "unat (scroll_dst s + (a - scroll_dst s)) = ?b + unat (a - scroll_dst s)"
      by (simp only: unat_plus d)
    then have "unat a = ?b + unat (a - scroll_dst s)" by simp
    with assms(3) l ar(1) show False unfolding fb_outside_def by linarith
  qed
  then show ?thesis by (simp add: memmove_fb_def)
qed

text \<open>A scroll moves every row of cells up by one and blanks the last.\<close>

lemma term_scroll:
  assumes fit: "term_fit s" and "cells s F"
  obtains m b where "term_scroll s = s\<lparr>term_buffer := b, fb := m\<rparr>" and "term_only s (s\<lparr>term_buffer := b, fb := m\<rparr>)"
    and "\<forall>i < rows s. \<forall>j < cols s. b (int (240 * i + j)) = (if Suc i < rows s then term_buffer s (int (240 * Suc i + j)) else 32)"
    and "cells (s\<lparr>term_buffer := b, fb := m\<rparr>)
      (\<lambda>i j p. if Suc i < rows s then F (Suc i) j (fst p, snd p + 8) else background_color)"
proof -
  have as: "fb_geom s" "0 < rows s" "8 * rows s \<le> unat (framebuffer_height s)" "8 * cols s \<le> unat (framebuffer_width s)"
    "rows s \<le> 135" "cols s \<le> 240" using fit by (simp_all add: term_fit_def)
  define n where "n = rows s - 1"
  have n1: "rows s = n + 1" unfolding n_def using as(2) by linarith
  have ui: "uint v = int (unat v)" for v :: "'b::len word" by simp
  have "uint (term_rows s) - 1 = int n" unfolding ui n1 by simp
  note n = n1 this
  define b where "b = memset_buf (int n * 240) 32 (ucast (term_cols s)) (memmove_buf 0 240 (of_int (int n * 240)) (term_buffer s))"
  define m0 where "m0 = memmove_fb (ucast (framebuffer_base s)) (ucast (framebuffer_base s + 8 * framebuffer_pitch s))
      (ucast (of_int (int n * 8) * framebuffer_pitch s)) (fb s)"
  define s1 where "s1 = s\<lparr>term_buffer := b, fb := m0\<rparr>"
  let ?ys = "upto32 (of_int (int n * 8)) (of_int (int n * 8 + 8))"
  have sc: "term_scroll s = fold (\<lambda>y. draw_horizontal_line y background_color) ?ys s1"
    by (simp add: term_scroll_def Let_def n(2) b_def m0_def s1_def MAX_TERM_COLS_def)
  have g1: "fb_geom s1" using as(1) by (simp add: s1_def fb_geom_def)
  have s1_px: "pixel s1 X Y = load32 (of_nat (pixel_addr s X Y)) m0" for X Y
    by (simp add: pixel_def pixel_addr_def s1_def)
  have hh: "unat (framebuffer_height s) < 2 ^ 32" by (rule unat_lt32)
  have ys: "unat ` set ?ys = {8 * n..<8 * n + 8}"
  proof -
    have "(of_int (int n * 8) :: u32) = of_nat (8 * n)" "(of_int (int n * 8 + 8) :: u32) = of_nat (8 * n + 8)" by simp_all
    moreover have "8 * n + 8 < 2 ^ LENGTH(32)" using as(3) n(1) hh by simp
    ultimately show ?thesis by (simp only: upto32_image unat_of_nat_small)
  qed
  have "painted {p. snd p \<in> unat ` set ?ys} (\<lambda>_. background_color) s1 (term_scroll s)"
    unfolding sc
  proof (rule painted_lines [OF g1])
    fix y assume "y \<in> set ?ys"
    then have "unat y \<in> {8 * n..<8 * n + 8}" using ys by blast
    then show "unat y < unat (framebuffer_height s1)" using as(3) n(1) by (simp add: s1_def)
  qed
  then have pa: "painted {p. snd p div 8 = n} (\<lambda>_. background_color) s1 (term_scroll s)"
    unfolding ys by (rule painted_mono) auto
  then obtain m where m: "term_scroll s = s1\<lparr>fb := m\<rparr>" "\<forall>a. fb_outside s1 a \<longrightarrow> m a = fb s1 a" by (rule paintedE)
  then have t: "term_scroll s = s\<lparr>term_buffer := b, fb := m\<rparr>" by (simp add: s1_def)
  have b_at: "b k = (if int n * 240 \<le> k \<and> k - int n * 240 < int (cols s) then 32
      else if 0 \<le> k \<and> k - 0 < int n * 240 then term_buffer s (240 + (k - 0)) else term_buffer s k)" for k
  proof -
    have ui: "uint v = int (unat v)" for v :: "'b::len word" by simp
    have sz: "uint (of_int (int n * 240) :: u64) = int n * 240"
    proof -
      have "int n * 240 < 2 ^ LENGTH(64)" using n(1) as(5) by simp
      then show ?thesis unfolding uint_word_of_int by (intro mod_pos_pos_trivial) simp_all
    qed
    have cz: "uint (ucast (term_cols s) :: u64) = int (cols s)"
      unfolding ui by (rule arg_cong [of _ _ int]) (simp add: unat_ucast_wider)
    show ?thesis unfolding b_def memset_buf_def memmove_buf_def sz cz ..
  qed
  have only: "term_only s (s\<lparr>term_buffer := b, fb := m\<rparr>)"
  proof -
    have "m a = fb s a" if "fb_outside s a" for a
    proof -
      have "fb_outside s1 a" using that by (simp add: s1_def fb_outside_def)
      then have "m a = m0 a" using m(2) by (simp add: s1_def)
      also have "m0 a = fb s a" unfolding m0_def by (rule memmove_outside [OF as(1) _ that]) (use as(3) n(1) in simp)
      finally show ?thesis .
    qed
    moreover have "b i = term_buffer s i" if "buf_outside i" for i
    proof -
      have "int n * 240 + int (cols s) \<le> 32400"
      proof -
        have "n * 240 + cols s \<le> 32400" using n(1) as(5,6) by simp
        then show ?thesis by (simp only: of_nat_le_iff [symmetric, where 'a = int] of_nat_add of_nat_mult of_nat_numeral)
      qed
      moreover have "int n * 240 \<le> 32400" using n(1) as(5) by simp
      ultimately show ?thesis using that unfolding b_at buf_outside_def by auto
    qed
    ultimately show ?thesis by (simp add: term_only_iff)
  qed
  have buf: "\<forall>i < rows s. \<forall>j < cols s. b (int (240 * i + j)) = (if Suc i < rows s then term_buffer s (int (240 * Suc i + j)) else 32)"
  proof (intro allI impI)
    fix i j assume i: "i < rows s" and j: "j < cols s"
    show "b (int (240 * i + j)) = (if Suc i < rows s then term_buffer s (int (240 * Suc i + j)) else 32)"
    proof (cases "Suc i < rows s")
      case True
      then have "240 * i + j < 240 * n" using n(1) j as(6) by simp
      moreover from this have "240 * int i + int j < 240 * int n" by linarith
      ultimately show ?thesis using True
        by (simp add: b_at algebra_simps)
    next
      case False
      with i n(1) have "i = n" by simp
      moreover have "int j < int (cols s)" using j by (simp only: of_nat_less_iff)
      ultimately show ?thesis using False by (simp add: b_at)
    qed
  qed
  have "cells (s\<lparr>term_buffer := b, fb := m\<rparr>)
      (\<lambda>i j p. if Suc i < rows s then F (Suc i) j (fst p, snd p + 8) else background_color)"
    unfolding cells_def
  proof (intro allI impI ballI)
    fix i j p assume "i < rows (s\<lparr>term_buffer := b, fb := m\<rparr>)" "j < cols (s\<lparr>term_buffer := b, fb := m\<rparr>)" and p: "p \<in> cell j i"
    then have ij: "i < rows s" "j < cols s" by simp_all
    note os = cell_on_screen [OF as(3,4) ij p]
    have os1: "on_screen s1 p" using os(1) by (simp add: s1_def on_screen_def)
    have px: "pixel (term_scroll s) (fst p) (snd p) = (if i = n then background_color else pixel s1 (fst p) (snd p))"
      using pa os1 os(2) by (auto simp: painted_def)
    show "pixel (s\<lparr>term_buffer := b, fb := m\<rparr>) (fst p) (snd p)
        = (if Suc i < rows s then F (Suc i) j (fst p, snd p + 8) else background_color)"
    proof (cases "Suc i < rows s")
      case True
      then have i: "i < n" using n(1) by simp
      then have "snd p < 8 * n" using div_less_iff_less_mult [of 8 "snd p" n] os(2) by simp
      moreover have "8 * (n + 1) \<le> unat (framebuffer_height s)" "fst p < unat (framebuffer_width s)"
        using as(3) n(1) os(1) by (simp_all add: on_screen_def)
      ultimately have "pixel s1 (fst p) (snd p) = pixel s (fst p) (snd p + 8)"
        unfolding s1_px m0_def by (intro scroll_pixels [OF as(1)])
      moreover have "(fst p, snd p + 8) \<in> cell j (Suc i)"
        using os(2,3) div_add_self2 [of 8 "snd p"] by (simp add: cell_def)
      then have "pixel s (fst p) (snd p + 8) = F (Suc i) j (fst p, snd p + 8)"
        using assms(2) True ij(2) by (fastforce simp: cells_def)
      ultimately show ?thesis using True px i by (simp flip: t)
    next
      case False
      then have "i = n" using ij(1) n(1) by simp
      then show ?thesis using False px by (simp flip: t)
    qed
  qed
  with t only buf show ?thesis by (rule that)
qed

section \<open>The steps of the terminal\<close>

lemma term_upd [simp]:
  "term_fit (s\<lparr>fb := m\<rparr>) = term_fit s" "term_fit (s\<lparr>term_buffer := b\<rparr>) = term_fit s"
  "term_fit (s\<lparr>cursor_row := v\<rparr>) = term_fit s" "term_fit (s\<lparr>cursor_col := v\<rparr>) = term_fit s"
  "ink (s\<lparr>fb := m\<rparr>) = ink s" "ink (s\<lparr>cursor_row := v\<rparr>) = ink s" "ink (s\<lparr>cursor_col := v\<rparr>) = ink s"
  "blank_from (s\<lparr>fb := m\<rparr>) = blank_from s" "blank_from (s\<lparr>cursor_row := v\<rparr>) = blank_from s"
  "blank_from (s\<lparr>cursor_col := v\<rparr>) = blank_from s" "text_of (s\<lparr>fb := m\<rparr>) = text_of s"
  by (simp_all add: term_fit_def ink_def blank_from_def text_of_def fun_eq_iff)

lemma face_False [simp]: "face False s = ink s"
  by (simp add: face_def fun_eq_iff)

lemma blank_fromD:
  "blank_from s r k \<Longrightarrow> i < rows s \<Longrightarrow> j < cols s \<Longrightarrow> r < i \<or> i = r \<and> k \<le> j \<Longrightarrow>
    term_buffer s (int (240 * i + j)) = 32"
  unfolding blank_from_def by blast

text \<open>Erasing the cursor and drawing it.\<close>

lemma term_okD:
  assumes "term_ok b s"
  shows "term_fit s" "unat (cursor_row s) < rows s" "unat (cursor_col s) < cols s" "cells s (face b s)"
    "blank_from s (unat (cursor_row s)) (unat (cursor_col s))"
  using assms unfolding term_ok_def by blast+

lemma erase_cursor:
  assumes "term_ok b s"
  obtains m where "draw_at_cursor 32 text_color background_color s = s\<lparr>fb := m\<rparr>" "term_only s (s\<lparr>fb := m\<rparr>)"
    "term_ok False (s\<lparr>fb := m\<rparr>)"
proof -
  note ok = term_okD [OF assms]
  obtain m where m: "draw_at_cursor 32 text_color background_color s = s\<lparr>fb := m\<rparr>" "term_only s (s\<lparr>fb := m\<rparr>)"
    "cells (s\<lparr>fb := m\<rparr>) (\<lambda>i j. if i = unat (cursor_row s) \<and> j = unat (cursor_col s)
        then glyph_color 32 text_color background_color else face b s i j)"
    by (rule draw_at_cursor [OF ok(1-4)])
  have "term_buffer s (int (240 * unat (cursor_row s) + unat (cursor_col s))) = 32"
    by (rule blank_fromD [OF ok(5)]) (use ok in auto)
  then have i: "ink s (unat (cursor_row s)) (unat (cursor_col s)) = glyph_color 32 text_color background_color"
    by (simp only: ink_def)
  have "cells (s\<lparr>fb := m\<rparr>) (face False (s\<lparr>fb := m\<rparr>))"
    by (intro cells_cong [OF m(3)]) (simp add: face_def i)
  with ok have "term_ok False (s\<lparr>fb := m\<rparr>)" by (simp add: term_ok_def)
  with m(1,2) show ?thesis by (rule that)
qed

text \<open>
  Every branch of \<open>term_putc\<close> ends by drawing the cursor, over a cell that need not be up to date.
  \<open>reaches s G\<close> is a state from which that draw gives the text \<open>G\<close>.
\<close>

definition reaches :: "'a screen_scheme \<Rightarrow> grid \<Rightarrow> 'a screen_scheme \<Rightarrow> bool" where
  "reaches s G t \<longleftrightarrow> term_only s t \<and> text_of t = G \<and> term_fit t \<and> unat (cursor_row t) < rows t
     \<and> unat (cursor_col t) < cols t \<and> blank_from t (unat (cursor_row t)) (unat (cursor_col t))
     \<and> (\<exists>F. cells t F \<and> (\<forall>i j. j < cols t \<longrightarrow> \<not> (i = unat (cursor_row t) \<and> j = unat (cursor_col t)) \<longrightarrow> F i j = ink t i j))"

lemma reachesI: "term_ok False t \<Longrightarrow> text_of t = G \<Longrightarrow> term_only s t \<Longrightarrow> reaches s G t"
  unfolding reaches_def term_ok_def face_False by blast

lemma draw_cursor:
  assumes "reaches s G t"
  defines "u \<equiv> draw_at_cursor 32 background_color text_color t"
  shows "term_ok True u \<and> text_of u = G \<and> term_only s u"
proof -
  obtain F where F: "cells t F"
    "\<And>i j. j < cols t \<Longrightarrow> \<not> (i = unat (cursor_row t) \<and> j = unat (cursor_col t)) \<Longrightarrow> F i j = ink t i j"
    using assms unfolding reaches_def by blast
  note r = assms(1) [unfolded reaches_def]
  obtain m where m: "u = t\<lparr>fb := m\<rparr>" "term_only t (t\<lparr>fb := m\<rparr>)"
    "cells (t\<lparr>fb := m\<rparr>) (\<lambda>i j. if i = unat (cursor_row t) \<and> j = unat (cursor_col t)
        then glyph_color 32 background_color text_color else F i j)"
    unfolding u_def by (rule draw_at_cursor [OF _ _ _ F(1)]) (use r in blast)+
  have "cells (t\<lparr>fb := m\<rparr>) (face True (t\<lparr>fb := m\<rparr>))"
    using F(2) by (intro cells_cong [OF m(3)]) (simp add: face_def space_blank)
  with r have "term_ok True u" by (simp add: term_ok_def m(1))
  with r m term_only_trans show ?thesis by auto
qed

text \<open>The step to the next row, from any column.\<close>

lemma next_row_ok:
  assumes "term_fit s" "unat (cursor_row s) < rows s" "cells s (ink s)" "blank_from s (unat (cursor_row s)) (cols s)"
  shows "reaches s (next_row_spec (rows s) (text_of s)) (term_next_row s)"
proof -
  let ?r = "unat (cursor_row s)"
  have fit: "0 < cols s" "rows s \<le> 135" "0 < rows s" using assms(1) by (simp_all add: term_fit_def)
  have inc: "unat (cursor_row s + 1) = Suc ?r"
    using assms(2) fit(2) by (simp add: unat_word_ariths)
  let ?s1 = "s\<lparr>cursor_row := cursor_row s + 1, cursor_col := 0\<rparr>"
  show ?thesis
  proof (cases "Suc ?r < rows s")
    case True
    then have t: "term_next_row s = ?s1" by (simp add: term_next_row_def word_le_nat_alt inc)
    have "blank_from s (Suc ?r) 0" using assms(4) by (auto simp: blank_from_def)
    then have "term_ok False ?s1"
      using assms True fit by (simp add: term_ok_def inc)
    moreover have "text_of ?s1 = next_row_spec (rows s) (text_of s)"
      using True by (simp add: text_of_def next_row_spec_def inc cong: if_cong)
    moreover have "term_only s ?s1" by (simp add: term_only_iff)
    ultimately show ?thesis unfolding t by (rule reachesI)
  next
    case False
    then have r: "Suc ?r = rows s" using assms(2) by simp
    have s1: "term_fit ?s1" "cells ?s1 (ink s)" using assms(1,3) by simp_all
    obtain m b where sb: "term_scroll ?s1 = ?s1\<lparr>term_buffer := b, fb := m\<rparr>"
      "term_only ?s1 (?s1\<lparr>term_buffer := b, fb := m\<rparr>)"
      "\<forall>i < rows ?s1. \<forall>j < cols ?s1. b (int (240 * i + j))
        = (if Suc i < rows ?s1 then term_buffer ?s1 (int (240 * Suc i + j)) else 32)"
      "cells (?s1\<lparr>term_buffer := b, fb := m\<rparr>)
        (\<lambda>i j p. if Suc i < rows ?s1 then ink s (Suc i) j (fst p, snd p + 8) else background_color)"
      by (rule term_scroll [OF s1])
    have mb: "term_scroll ?s1 = ?s1\<lparr>term_buffer := b, fb := m\<rparr>"
      "\<forall>i < rows s. \<forall>j < cols s. b (int (240 * i + j)) = (if Suc i < rows s then term_buffer s (int (240 * Suc i + j)) else 32)"
      "cells (s\<lparr>term_buffer := b, fb := m\<rparr>)
        (\<lambda>i j p. if Suc i < rows s then ink s (Suc i) j (fst p, snd p + 8) else background_color)"
      using sb by (simp_all add: cells_def pixel_def pixel_addr_def)
    let ?t = "s\<lparr>term_buffer := b, fb := m, cursor_row := term_rows s - 1, cursor_col := 0\<rparr>"
    have t: "term_next_row s = ?t"
      using False by (simp add: term_next_row_def word_le_nat_alt inc mb(1))
    have r1: "unat (term_rows s - 1) = rows s - 1" using fit(3) by (subst unat_sub) (simp_all add: word_le_nat_alt)
    have "cells (s\<lparr>term_buffer := b, fb := m\<rparr>) (ink ?t)"
    proof (rule cells_cong [OF mb(3)])
      fix i j p assume "i < rows (s\<lparr>term_buffer := b, fb := m\<rparr>)" "j < cols (s\<lparr>term_buffer := b, fb := m\<rparr>)"
      with mb(2) have "b (int (240 * i + j)) = (if Suc i < rows s then term_buffer s (int (240 * Suc i + j)) else 32)" by simp
      then show "(if Suc i < rows s then ink s (Suc i) j (fst p, snd p + 8) else background_color) = ink ?t i j p"
        by (simp add: ink_def space_blank) (simp add: glyph_color_def)
    qed
    moreover have "blank_from ?t (rows s - 1) 0"
      using mb(2) r by (auto simp: blank_from_def)
    ultimately have "term_ok False ?t"
      using assms(1) fit by (simp add: term_ok_def r1 cells_def pixel_def pixel_addr_def)
    moreover have "text_of ?t = next_row_spec (rows s) (text_of s)"
      using mb(2) r by (auto simp: text_of_def next_row_spec_def r1 fun_eq_iff)
    moreover have "term_only s ?t" using sb(2) by (simp add: term_only_iff)
    ultimately show ?thesis unfolding t by (rule reachesI)
  qed
qed

text \<open>A character written at the cursor.\<close>

lemma cursor_index_eq: "cursor_index s = int (240 * unat (cursor_row s) + unat (cursor_col s))"
  by (simp add: cursor_index_def MAX_TERM_COLS_def)

lemma grid_index: "j < 240 \<Longrightarrow> j' < 240 \<Longrightarrow> (240 * i + j = 240 * i' + j') = (i = i' \<and> j = j')" for i :: nat
proof
  assume a: "j < 240" "j' < 240" "240 * i + j = 240 * i' + j'"
  have "(240 * i + j) div 240 = (240 * i' + j') div 240" by (simp only: a(3))
  then have "i = i'" using a(1,2) by simp
  with a(3) show "i = i' \<and> j = j'" by simp
qed simp

lemma write_buffer:
  fixes s :: "'a screen_scheme" and c :: u8
  assumes "term_fit s" "unat (cursor_row s) < rows s" "unat (cursor_col s) < cols s"
  defines "s1 \<equiv> s\<lparr>term_buffer := (term_buffer s)(cursor_index s := c)\<rparr>"
    and "r \<equiv> unat (cursor_row s)" and "k \<equiv> unat (cursor_col s)"
  shows "j < cols s \<Longrightarrow> ink s1 i j = (if i = r \<and> j = k then glyph_color c text_color background_color else ink s i j)"
    and "text_of s1 = (case text_of s of (g, r, k) \<Rightarrow> (g(r := (g r)(k := c)), r, k))"
    and "blank_from s r k \<Longrightarrow> blank_from s1 r (Suc k)"
    and "blank_from s r (Suc k) \<Longrightarrow> c = 32 \<Longrightarrow> blank_from s1 r k"
    and "term_only s s1"
proof -
  have c240: "cols s \<le> 240" and r135: "rows s \<le> 135" using assms(1) by (simp_all add: term_fit_def)
  have "240 * unat (cursor_row s) + unat (cursor_col s) < 32400" using assms(2,3) c240 r135 by linarith
  then have "\<not> buf_outside (cursor_index s)" unfolding buf_outside_def cursor_index_eq by linarith
  then show "term_only s s1" by (auto simp: term_only_iff s1_def)
  have b: "term_buffer s1 (int (240 * i + j)) = (if i = r \<and> j = k then c else term_buffer s (int (240 * i + j)))"
    if "j < cols s" for i j
    using grid_index [of j k i r] that assms(3) c240
    by (simp only: s1_def cursor_index_eq) (simp del: of_nat_add of_nat_mult add: of_nat_eq_iff r_def k_def)
  show "j < cols s \<Longrightarrow> ink s1 i j = (if i = r \<and> j = k then glyph_color c text_color background_color else ink s i j)"
    unfolding ink_def by (simp only: b) simp
  have s: "rows s1 = rows s" "cols s1 = cols s" "cursor_row s1 = cursor_row s" "cursor_col s1 = cursor_col s"
    by (simp_all add: s1_def)
  have "(if i < rows s \<and> j < cols s then term_buffer s1 (int (240 * i + j)) else 32)
      = (if i = r \<and> j = k then c else if i < rows s \<and> j < cols s then term_buffer s (int (240 * i + j)) else 32)" for i j
    using assms(2,3) by (cases "j < cols s") (simp_all only: b, auto simp: r_def k_def)
  then show "text_of s1 = (case text_of s of (g, r, k) \<Rightarrow> (g(r := (g r)(k := c)), r, k))"
    unfolding text_of_def s by (simp add: fun_eq_iff r_def k_def)
  have bl: "blank_from s1 r k'" if "blank_from s r k''" "k' = Suc k \<and> k'' = k \<or> c = 32 \<and> k' = k \<and> k'' = Suc k" for k' k''
    unfolding blank_from_def
  proof (intro allI impI)
    fix i j assume "i < rows s1" "j < cols s1" and a: "r < i \<or> i = r \<and> k' \<le> j"
    then have ij: "i < rows s" "j < cols s" by (simp_all only: s)
    have "r < i \<or> i = r \<and> k'' \<le> j \<Longrightarrow> term_buffer s (int (240 * i + j)) = 32"
      by (rule blank_fromD [OF that(1) ij])
    then show "term_buffer s1 (int (240 * i + j)) = 32"
      unfolding b [OF ij(2)] using that(2) a by auto
  qed
  show "blank_from s r k \<Longrightarrow> blank_from s1 r (Suc k)" "blank_from s r (Suc k) \<Longrightarrow> c = 32 \<Longrightarrow> blank_from s1 r k"
    by (rule bl; simp)+
qed

section \<open>The terminal implements its specification\<close>

lemma putc_backspace:
  assumes "term_fit s" "unat (cursor_row s) < rows s" "unat (cursor_col s) < cols s" "cells s (ink s)"
    "blank_from s (unat (cursor_row s)) (unat (cursor_col s))" and k: "3 < cursor_col s" and c: "c = 127 \<or> c = 8"
  defines "s1 \<equiv> s\<lparr>cursor_col := cursor_col s - 1\<rparr>"
  defines "s2 \<equiv> s1\<lparr>term_buffer := (term_buffer s1)(cursor_index s1 := 32)\<rparr>"
  shows "reaches s (putc_spec (rows s) (cols s) c (text_of s)) s2"
proof -
  let ?r = "unat (cursor_row s)" and ?k = "unat (cursor_col s)"
  obtain g where g: "text_of s = (g, ?r, ?k)" by (simp add: text_of_def)
  have k: "3 < ?k" using k by (simp add: word_less_nat_alt)
  then have dec: "unat (cursor_col s - 1) = ?k - 1" by (subst unat_sub) (simp_all add: word_le_nat_alt)
  have pre: "term_fit s1" "unat (cursor_row s1) < rows s1" "unat (cursor_col s1) < cols s1"
    using assms(1-3) k by (simp_all add: dec s1_def)
  note w = write_buffer [OF pre, where c = 32, folded s2_def]
  have s2: "cursor_row s2 = cursor_row s" "cursor_col s2 = cursor_col s - 1" "rows s2 = rows s" "cols s2 = cols s"
    by (simp_all add: s2_def s1_def)
  have "term_only s s2" by (rule term_only_trans [OF _ w(5)]) (simp add: term_only_iff s1_def)
  moreover have "text_of s1 = (g, ?r, ?k - 1)" using g by (simp add: text_of_def dec s1_def cong: if_cong)
  then have "text_of s2 = putc_spec (rows s) (cols s) c (text_of s)"
    unfolding w(2) g using c k by (auto simp: putc_spec_def)
  moreover have "term_fit s2" "cells s2 (ink s)" using assms(1,4) by (simp_all add: s2_def s1_def)
  moreover have "unat (cursor_row s2) < rows s2" "unat (cursor_col s2) < cols s2" using pre by (simp_all add: s2_def)
  moreover have "blank_from s1 (unat (cursor_row s1)) (Suc (unat (cursor_col s1)))"
    using assms(5) k by (simp add: dec s1_def)
  from w(4) [OF this] have "blank_from s2 (unat (cursor_row s2)) (unat (cursor_col s2))" by (simp add: s2_def)
  moreover have "ink s i j = ink s2 i j" if "j < cols s2" "\<not> (i = unat (cursor_row s2) \<and> j = unat (cursor_col s2))" for i j
    using w(1) [of j i] that by (auto simp: s2_def s1_def)
  ultimately show ?thesis unfolding reaches_def by blast
qed

lemma putc_char:
  assumes "term_fit s" "unat (cursor_row s) < rows s" "unat (cursor_col s) < cols s" "cells s (ink s)"
    "blank_from s (unat (cursor_row s)) (unat (cursor_col s))"
    and c: "\<not> (c = 13 \<or> c = 10)" "\<not> ((c = 127 \<or> c = 8) \<and> cursor_col s > 3)"
  defines "s2 \<equiv> s\<lparr>term_buffer := (term_buffer s)(cursor_index s := c)\<rparr>"
  defines "s3 \<equiv> draw_at_cursor c text_color background_color s2"
  defines "s4 \<equiv> s3\<lparr>cursor_col := cursor_col s3 + 1\<rparr>"
  shows "reaches s (putc_spec (rows s) (cols s) c (text_of s)) (if cursor_col s4 \<ge> term_cols s4 then term_next_row s4 else s4)"
proof -
  let ?r = "unat (cursor_row s)" and ?k = "unat (cursor_col s)"
  obtain g where g: "text_of s = (g, ?r, ?k)" by (simp add: text_of_def)
  have fit: "cols s \<le> 240" "rows s \<le> 135" using assms(1) by (simp_all add: term_fit_def)
  note w = write_buffer [OF assms(1-3), where c = c, folded s2_def]
  have s2: "cursor_row s2 = cursor_row s" "cursor_col s2 = cursor_col s" "rows s2 = rows s" "cols s2 = cols s"
    by (simp_all add: s2_def)
  have "term_fit s2" "unat (cursor_row s2) < rows s2" "unat (cursor_col s2) < cols s2" "cells s2 (ink s)"
    using assms(1-4) by (simp_all add: s2_def)
  then obtain m where m: "s3 = s2\<lparr>fb := m\<rparr>" "term_only s2 (s2\<lparr>fb := m\<rparr>)"
    "cells (s2\<lparr>fb := m\<rparr>) (\<lambda>i j. if i = unat (cursor_row s2) \<and> j = unat (cursor_col s2)
      then glyph_color c text_color background_color else ink s i j)"
    unfolding s3_def by (rule draw_at_cursor)
  have fld: "cursor_row s4 = cursor_row s" "rows s4 = rows s" "cols s4 = cols s" "ink s4 = ink s2"
    "blank_from s4 = blank_from s2" "term_rows s4 = term_rows s" "term_cols s4 = term_cols s"
    by (simp_all add: s4_def m(1) s2_def)
  have k4: "unat (cursor_col s4) = Suc ?k"
    using assms(3) fit(1) by (simp add: s4_def m(1) s2 unat_word_ariths)
  have "cells (s2\<lparr>fb := m\<rparr>) (ink s2)"
  proof (rule cells_cong [OF m(3)])
    fix i j p assume "j < cols (s2\<lparr>fb := m\<rparr>)"
    then have "j < cols s" by (simp add: s2)
    then show "(if i = unat (cursor_row s2) \<and> j = unat (cursor_col s2)
        then glyph_color c text_color background_color else ink s i j) p = ink s2 i j p"
      by (simp add: w(1) s2)
  qed
  then have c4: "cells s4 (ink s4)" unfolding fld by (simp add: s4_def m(1))
  have f4: "term_fit s4" "unat (cursor_row s4) < rows s4" using assms(1,2) by (simp_all add: s4_def m(1) s2_def)
  have b4: "blank_from s4 (unat (cursor_row s4)) (Suc ?k)" unfolding fld by (rule w(3) [OF assms(5)])
  have o4: "term_only s s4"
    by (rule term_only_trans [OF term_only_trans [OF w(5) m(2)]]) (simp add: term_only_iff s4_def m(1))
  have t4: "text_of s4 = (g(?r := (g ?r)(?k := c)), ?r, Suc ?k)"
  proof -
    have "fst (text_of s4) = fst (text_of s2)" by (simp add: text_of_def s4_def m(1) cong: if_cong)
    moreover have "text_of s4 = (fst (text_of s4), ?r, Suc ?k)" by (simp add: text_of_def fld k4)
    ultimately show ?thesis by (simp add: w(2) g)
  qed
  show ?thesis
  proof (cases "Suc ?k < cols s")
    case True
    then have "term_ok False s4" using f4 c4 b4 by (simp add: term_ok_def k4 fld)
    moreover have "text_of s4 = putc_spec (rows s) (cols s) c (text_of s)"
      unfolding t4 g using c True by (auto simp: putc_spec_def word_less_nat_alt)
    ultimately have "reaches s (putc_spec (rows s) (cols s) c (text_of s)) s4" using o4 by (rule reachesI)
    then show ?thesis using True by (simp add: word_le_nat_alt k4 fld)
  next
    case False
    then have "cols s4 = Suc ?k" using assms(3) fld by simp
    then have "blank_from s4 (unat (cursor_row s4)) (cols s4)" using b4 by simp
    note n = next_row_ok [OF f4 c4 this]
    have "next_row_spec (rows s4) (text_of s4) = putc_spec (rows s) (cols s) c (text_of s)"
      unfolding t4 g fld using c False
      by (auto simp: putc_spec_def next_row_spec_def word_less_nat_alt Let_def)
    with n have "reaches s (putc_spec (rows s) (cols s) c (text_of s)) (term_next_row s4)"
      using term_only_trans [OF o4] unfolding reaches_def by simp
    then show ?thesis using False by (simp add: word_le_nat_alt k4 fld)
  qed
qed

lemma term_putc_ok:
  assumes "term_ok b s"
  shows "term_ok True (term_putc c s) \<and> text_of (term_putc c s) = putc_spec (rows s) (cols s) c (text_of s)
    \<and> term_only s (term_putc c s)"
proof -
  let ?draw = "draw_at_cursor 32 background_color text_color" and ?G = "putc_spec (rows s) (cols s) c (text_of s)"
  obtain m0 where m0: "draw_at_cursor 32 text_color background_color s = s\<lparr>fb := m0\<rparr>"
    "term_only s (s\<lparr>fb := m0\<rparr>)" "term_ok False (s\<lparr>fb := m0\<rparr>)"
    using assms by (rule erase_cursor)
  define s0 where "s0 = s\<lparr>fb := m0\<rparr>"
  note ok = term_okD [OF m0(3) [folded s0_def], unfolded face_False]
  have tx: "text_of s = text_of s0" "rows s = rows s0" "cols s = cols s0" by (simp_all add: s0_def)
  have lift: "reaches s0 ?G t \<Longrightarrow> reaches s ?G t" for t
    using term_only_trans [OF m0(2)] unfolding reaches_def s0_def by blast
  consider (nl) "c = 13 \<or> c = 10" | (bs) "\<not> (c = 13 \<or> c = 10)" "(c = 127 \<or> c = 8) \<and> cursor_col s0 > 3"
    | (ch) "\<not> (c = 13 \<or> c = 10)" "\<not> ((c = 127 \<or> c = 8) \<and> cursor_col s0 > 3)" by blast
  then have "\<exists>t. term_putc c s = ?draw t \<and> reaches s0 ?G t"
  proof cases
    case nl
    have "blank_from s0 (unat (cursor_row s0)) (cols s0)" using ok(5) ok(3) by (auto simp: blank_from_def)
    from next_row_ok [OF ok(1,2,4) this] have "reaches s0 ?G (term_next_row s0)"
      unfolding tx using nl by (simp add: putc_spec_def split_beta)
    moreover have "term_putc c s = ?draw (term_next_row s0)"
      using nl by (simp add: term_putc_def m0(1) flip: s0_def)
    ultimately show ?thesis by blast
  next
    case bs
    have "term_putc c s = ?draw (s0\<lparr>cursor_col := cursor_col s0 - 1, term_buffer := (term_buffer (s0\<lparr>cursor_col := cursor_col s0 - 1\<rparr>))
        (cursor_index (s0\<lparr>cursor_col := cursor_col s0 - 1\<rparr>) := 32)\<rparr>)"
      unfolding term_putc_def m0(1) Let_def s0_def [symmetric] if_not_P [OF bs(1)] if_P [OF bs(2)] ..
    with putc_backspace [OF ok, of c] bs show ?thesis unfolding tx by blast
  next
    case ch
    show ?thesis
      unfolding term_putc_def m0(1) Let_def s0_def [symmetric] if_not_P [OF ch(1)] if_not_P [OF ch(2)] tx
      using putc_char [OF ok ch] by blast
  qed
  then show ?thesis using draw_cursor lift by metis
qed

text \<open>Hence so does every text, and the state it starts from is what \<open>term_clear\<close> leaves.\<close>

lemma term_puts_fold: "term_puts cs = fold term_putc cs"
  by (rule ext, induction cs) (auto simp: fun_eq_iff) 

interpretation terminal: refinement
  "\<lambda>s. \<exists>b. term_ok b s \<and> rows s = R \<and> cols s = C \<and> term_only s0 s" text_of term_putc "putc_spec R C"
  for R C :: nat and s0 :: "'a screen_scheme"
proof
  fix s :: "'a screen_scheme" and c :: u8
  assume "\<exists>b. term_ok b s \<and> rows s = R \<and> cols s = C \<and> term_only s0 s"
  then obtain b where b: "term_ok b s" "rows s = R" "cols s = C" "term_only s0 s" by blast
  note ok = term_putc_ok [OF b(1), of c]
  then show "text_of (term_putc c s) = putc_spec R C c (text_of s)" by (simp add: b(2,3))
  have "term_only s0 (term_putc c s)" using term_only_trans [OF b(4)] ok by blast
  moreover have "rows (term_putc c s) = R" "cols (term_putc c s) = C"
    using term_onlyD [of s "term_putc c s"] ok b(2,3) by simp_all
  ultimately show "\<exists>b. term_ok b (term_putc c s) \<and> rows (term_putc c s) = R \<and> cols (term_putc c s) = C
      \<and> term_only s0 (term_putc c s)" using ok by blast
qed

lemma term_puts_ok:
  assumes "term_ok b s"
  shows "\<exists>b. term_ok b (term_puts cs s)" "text_of (term_puts cs s) = fold (putc_spec (rows s) (cols s)) cs (text_of s)"
    "term_only s (term_puts cs s)"
proof -
  have "\<exists>b. term_ok b s \<and> rows s = rows s \<and> cols s = cols s \<and> term_only s s"
    using assms by (auto simp: term_only_iff)
  from terminal.run [OF this, of cs] show "\<exists>b. term_ok b (term_puts cs s)"
    "text_of (term_puts cs s) = fold (putc_spec (rows s) (cols s)) cs (text_of s)" "term_only s (term_puts cs s)"
    unfolding term_puts_fold by blast+
qed

lemma screen_more:
  fixes s t :: "'a screen_scheme"
  assumes "io.more t = io.more s"
  shows "term_ok b t = term_ok b s" "text_of t = text_of s" "term_rows t = term_rows s" "term_cols t = term_cols s"
    "term_fit t = term_fit s"
proof -
  have f: "framebuffer_base t = framebuffer_base s" "framebuffer_pitch t = framebuffer_pitch s"
    "framebuffer_width t = framebuffer_width s" "framebuffer_height t = framebuffer_height s" "fb t = fb s"
    "term_buffer t = term_buffer s" "term_rows t = term_rows s" "term_cols t = term_cols s"
    "cursor_row t = cursor_row s" "cursor_col t = cursor_col s"
    using assms by (cases s; cases t; simp)+
  then show "text_of t = text_of s" "term_rows t = term_rows s" "term_cols t = term_cols s" and fit: "term_fit t = term_fit s"
    by (simp_all add: text_of_def term_fit_def fb_geom_def cong: if_cong)
  have "pixel t = pixel s" "face b t = face b s"
    by (rule ext, rule ext, simp only: pixel_def pixel_addr_def f)
      (rule ext, rule ext, rule ext, simp only: face_def ink_def f)
  with f fit show "term_ok b t = term_ok b s" by (simp add: term_ok_def cells_def blank_from_def)
qed

lemma term_clear_ok:
  assumes "term_clear s = Some t" "term_fit s"
  shows "term_ok False t" "text_of t = (\<lambda>_ _. 32, 0, 0)" "term_rows t = term_rows s" "term_cols t = term_cols s"
proof -
  define s1 where "s1 = s\<lparr>term_buffer := memset_buf 0 32 (ucast MAX_TERM_ROWS * ucast MAX_TERM_COLS) (term_buffer s)\<rparr>"
  define s3 where "s3 = (fill_screen background_color s1)\<lparr>cursor_row := 0, cursor_col := 0\<rparr>"
  have "uart_term_clear s3 = Some t" using assms(1) by (simp add: term_clear_def s1_def s3_def Let_def)
  then have more: "io.more t = io.more s3"
    unfolding uart_term_clear_def using uart_puts_step uart_step_def by blast
  have g: "fb_geom s1" using assms(2) by (simp add: s1_def term_fit_def)
  note pa = painted_fill [OF g, of background_color]
  then obtain m where m: "fill_screen background_color s1 = s1\<lparr>fb := m\<rparr>" by (rule paintedE) blast
  have fit: "term_fit s3" using assms(2) by (simp add: s3_def m) (simp add: s1_def)
  then have r: "rows s3 \<le> 135" "cols s3 \<le> 240" "0 < rows s3" "0 < cols s3" by (simp_all add: term_fit_def)
  have b: "term_buffer s3 (int (240 * i + j)) = 32" if "i < rows s3" "j < cols s3" for i j
  proof -
    have "240 * i + j < 32400" using that r by linarith
    then have "int (240 * i + j) < 32400" by linarith
    then show ?thesis by (simp add: s3_def m) (simp add: s1_def memset_buf_def MAX_TERM_ROWS_def MAX_TERM_COLS_def)
  qed
  have "cells s3 (ink s3)"
    unfolding cells_def
  proof (intro allI impI ballI)
    fix i j p assume ij: "i < rows s3" "j < cols s3" and p: "p \<in> cell j i"
    have "on_screen s3 p" by (rule cell_on_screen(1) [OF _ _ ij p]) (use fit in \<open>simp_all add: term_fit_def\<close>)
    then have "on_screen s1 p" by (simp add: s3_def m on_screen_def)
    then have "pixel s3 (fst p) (snd p) = background_color" using pa by (simp add: painted_def s3_def)
    then show "pixel s3 (fst p) (snd p) = ink s3 i j p" unfolding ink_def b [OF ij] space_blank .
  qed
  moreover have "blank_from s3 0 0" unfolding blank_from_def using b by blast
  ultimately have "term_ok False s3" using fit r by (simp add: term_ok_def s3_def)
  then show "term_ok False t" by (simp add: screen_more [OF more])
  have "text_of s3 = (\<lambda>_ _. 32, 0, 0)"
  proof -
    have "(if i < rows s3 \<and> j < cols s3 then term_buffer s3 (int (240 * i + j)) else 32) = 32" for i j using b by simp
    then show ?thesis unfolding text_of_def by (simp add: s3_def)
  qed
  then show "text_of t = (\<lambda>_ _. 32, 0, 0)" by (simp add: screen_more [OF more])
  show "term_rows t = term_rows s" "term_cols t = term_cols s"
    using screen_more [OF more] by (simp_all add: s3_def m) (simp_all add: s1_def)
qed

text \<open>
  The limit of 135 rows matters: \<open>set_resolution\<close> takes the number of rows from the height it got,
  and with more of them \<open>term_putc\<close> writes behind the buffer.
\<close>

lemma draw_at_cursor_fb: "\<exists>m. draw_at_cursor c fg bg s = s\<lparr>fb := m\<rparr>"
proof -
  have f: "\<exists>m. fold g xs s = s\<lparr>fb := m\<rparr>"
    if g: "\<And>x s. \<exists>m. g x s = s\<lparr>fb := m\<rparr>" for g and xs :: "nat list" and s :: "'a screen_scheme"
  proof (induction xs arbitrary: s)
    case Nil
    then show ?case by (simp add: exI [of _ "fb s"])
  next
    case (Cons x xs)
    obtain m where "g x s = s\<lparr>fb := m\<rparr>" using g by blast
    moreover obtain m' where "fold g xs (s\<lparr>fb := m\<rparr>) = s\<lparr>fb := m, fb := m'\<rparr>" using Cons.IH by blast
    ultimately show ?case by auto
  qed
  have "\<exists>m. put_pixel x y c s = s\<lparr>fb := m\<rparr>" for x y c and s :: "'a screen_scheme"
    by (auto simp: put_pixel_def Let_def)
  then show ?thesis unfolding draw_at_cursor_def draw_char_def Let_def by (intro f) blast
qed

lemma term_putc_overflow:
  assumes "135 \<le> unat (cursor_row s)" "unat (cursor_col s) + 1 < cols s" "32 \<le> c" "c < 127"
  shows "32400 \<le> cursor_index s \<and> term_buffer (term_putc c s) (cursor_index s) = c"
proof
  have "32400 \<le> 240 * unat (cursor_row s) + unat (cursor_col s)" using assms(1) by linarith
  then show "32400 \<le> cursor_index s" unfolding cursor_index_eq by linarith
  have c: "\<not> (c = 13 \<or> c = 10)" "\<not> ((c = 127 \<or> c = 8) \<and> x)" for x
    using assms(3,4) by auto
  obtain m where m: "draw_at_cursor 32 text_color background_color s = s\<lparr>fb := m\<rparr>" using draw_at_cursor_fb by blast
  have i: "cursor_index (s\<lparr>fb := m\<rparr>) = cursor_index s" by (simp add: cursor_index_def)
  define u where "u = s\<lparr>fb := m, term_buffer := (term_buffer s)(cursor_index s := c)\<rparr>"
  obtain m' where m': "draw_at_cursor c text_color background_color u = u\<lparr>fb := m'\<rparr>" using draw_at_cursor_fb by blast
  have "unat (term_cols s) < 2 ^ LENGTH(8)" by (rule unsigned_less)
  then have "unat (cursor_col s + 1) = unat (cursor_col s) + 1"
    using assms(2) by (subst unat_add_lem [THEN iffD1]) simp_all
  then have "\<not> cursor_col s + 1 \<ge> term_cols s" using assms(2) by (simp add: word_le_nat_alt)
  then have "term_putc c s = draw_at_cursor 32 background_color text_color (u\<lparr>fb := m', cursor_col := cursor_col s + 1\<rparr>)"
    using m' by (simp add: term_putc_def m Let_def if_not_P [OF c(1)] if_not_P [OF c(2)] i u_def)
  moreover obtain m'' where "draw_at_cursor 32 background_color text_color (u\<lparr>fb := m', cursor_col := cursor_col s + 1\<rparr>)
      = u\<lparr>fb := m', cursor_col := cursor_col s + 1, fb := m''\<rparr>" using draw_at_cursor_fb by blast
  ultimately show "term_buffer (term_putc c s) (cursor_index s) = c" by (simp add: u_def)
qed

text \<open>A small screen, of two rows and four columns.\<close>

definition screen_small :: "u64 list \<Rightarrow> screen" where
  "screen_small vs = timer.extend (dma.extend (dma_small\<lparr>inp := vs\<rparr>) \<lparr>time = 0, freq = 54000000\<rparr>)
     \<lparr>framebuffer_base = 0x3FC00000, framebuffer_size = 0x800, framebuffer_pitch = 128,
      framebuffer_width = 32, framebuffer_height = 16, fb = (\<lambda>_. 0), term_buffer = (\<lambda>_. 0),
      term_rows = 2, term_cols = 4, cursor_row = 0, cursor_col = 0\<rparr>"

lemma screen_small: "term_fit (screen_small vs)" "inp (screen_small vs) = vs" "rows (screen_small vs) = 2"
  "cols (screen_small vs) = 4"
  by (simp_all add: screen_small_def term_fit_def fb_geom_def timer.defs dma.defs)

lemma uart_term_clear_ready: "inp s = replicate 7 0 \<Longrightarrow> \<exists>t. uart_term_clear s = Some t"
  unfolding uart_term_clear_def
  by (rule uart_puts_enough) (simp_all add: room_def ascii_def numeral_eq_Suc)

lemma clear_small: "\<exists>t. term_clear (screen_small (replicate 7 0)) = Some t"
proof -
  have i: "inp (fill_screen c s) = inp s" if "fb_geom s" for c and s :: screen
    by (rule paintedE [OF painted_fill [OF that, of c]]) simp
  have "fb_geom (screen_small (replicate 7 0))" using screen_small(1) by (simp add: term_fit_def)
  then show ?thesis
    unfolding term_clear_def Let_def
    by (intro uart_term_clear_ready) (simp add: i screen_small(2))
qed

text \<open>C26: after \<open>term_clear\<close>, whatever text is written, the screen shows, pixel by pixel, the glyphs of the
  grid that the specification computes, with the cursor as a block over it.\<close>

theorem terminal_refines:
  fixes s :: "'a screen_scheme" and cs :: "u8 list"
  assumes "term_clear s = Some s0" "term_fit s"
  defines "t \<equiv> term_puts cs s0"
  shows "(\<exists>cursor. cells t (face cursor t))
    \<and> text_of t = fold (putc_spec (rows s) (cols s)) cs (\<lambda>_ _. 32, 0, 0)"
  using term_clear_ok [OF assms(1,2)] term_puts_ok [of False s0 cs] by (auto simp: t_def term_ok_def)

theorem terminal_refines_witness:
  "\<exists>s0. term_clear (screen_small (replicate 7 0)) = Some s0
    \<and> text_of (term_puts (ascii ''Hi'') s0) = fold (putc_spec 2 4) (ascii ''Hi'') (\<lambda>_ _. 32, 0, 0)"
proof -
  obtain s0 where "term_clear (screen_small (replicate 7 0)) = Some s0" using clear_small by blast
  from terminal_refines [OF this screen_small(1)] this show ?thesis by (auto simp: screen_small)
qed

text \<open>C27: the terminal never writes outside its buffer of 32400 characters nor outside the framebuffer,
  and its cursor stays on the grid, provided the grid has at most 135 rows and 240 columns and fits
  the framebuffer.\<close>

theorem terminal_in_bounds:
  fixes s :: "'a screen_scheme" and cs :: "u8 list"
  assumes "term_ok b s"
  defines "t \<equiv> term_puts cs s"
  shows "(\<forall>i. i < 0 \<or> 32400 \<le> i \<longrightarrow> term_buffer t i = term_buffer s i)
    \<and> (\<forall>a. unat a < unat (framebuffer_base s)
        \<or> unat (framebuffer_base s) + unat (framebuffer_pitch s) * unat (framebuffer_height s) \<le> unat a \<longrightarrow> fb t a = fb s a)
    \<and> cursor_row t < term_rows t \<and> cursor_col t < term_cols t
    \<and> t = s\<lparr>fb := fb t, term_buffer := term_buffer t, cursor_row := cursor_row t, cursor_col := cursor_col t\<rparr>"
proof -
  obtain b' where b': "term_ok b' t" using term_puts_ok(1) [OF assms(1), of cs] by (auto simp: t_def)
  have "term_only s t" unfolding t_def by (rule term_puts_ok(3) [OF assms(1)])
  then have "t = s\<lparr>fb := fb t, term_buffer := term_buffer t, cursor_row := cursor_row t, cursor_col := cursor_col t\<rparr>"
    "\<forall>a. fb_outside s a \<longrightarrow> fb t a = fb s a" "\<forall>i. buf_outside i \<longrightarrow> term_buffer t i = term_buffer s i"
    unfolding term_only_iff by blast+
  with term_okD(2,3) [OF b'] show ?thesis
    by (simp add: fb_outside_def buf_outside_def word_less_nat_alt)
qed

theorem terminal_in_bounds_witness:
  "\<exists>s0. term_clear (screen_small (replicate 7 0)) = Some s0
    \<and> cursor_col (term_puts (ascii ''Hi'') s0) < term_cols (term_puts (ascii ''Hi'') s0)"
proof -
  obtain s0 where s0: "term_clear (screen_small (replicate 7 0)) = Some s0" using clear_small by blast
  from terminal_in_bounds [OF term_clear_ok(1) [OF s0 screen_small(1)]] s0 show ?thesis by blast
qed

end
