(* ===== verification/Display.thy ===== *)
theory Display
  imports Terminal
begin

text \<open>
  The mailbox to VideoCore (\<open>src/display/display.cpp\<close>). A request is a buffer of 32-bit words in DMA
  memory; VideoCore answers in the same buffer. Writes to the buffer are events like those of a
  device register; once the answer has been signalled, the buffer is read word by word from the
  environment.
\<close>

section \<open>Operations\<close>

text \<open>The words of a buffer at \<open>va\<close>, written and read in order.\<close>

fun write_words :: "u64 \<Rightarrow> u32 list \<Rightarrow> 'a io_scheme \<Rightarrow> 'a io_scheme" where
  "write_words va [] s = s"
| "write_words va (w # ws) s = write_words (va + 4) ws (mmio_write va w s)"

fun read_words :: "nat \<Rightarrow> u64 \<Rightarrow> 'a io_scheme \<Rightarrow> (u32 list \<times> 'a io_scheme) option" where
  "read_words 0 va s = Some ([], s)"
| "read_words (Suc n) va s = do {
     (w, s) \<leftarrow> mmio_read va s;
     (ws, s) \<leftarrow> read_words n (va + 4) s;
     Some (w # ws, s) }"

definition mailbox_reply :: "'a io_scheme \<Rightarrow> (u32 \<times> 'a io_scheme) option" where
  "mailbox_reply s = do {
     (_, s) \<leftarrow> poll_until (mmio_read MAIL0_STA) (\<lambda>st. st AND ARM_MS_EMPTY = 0) s;
     mmio_read MAIL0_RD s }"

definition send_command :: "u64 \<Rightarrow> 'a mmu_scheme \<Rightarrow> 'a mmu_scheme option" where
  "send_command words s = do {
     let s = dsb_sy s;
     (_, s) \<leftarrow> poll_until (mmio_read MAIL1_STA) (\<lambda>st. st AND ARM_MS_FULL = 0) s;
     let (buf_phys, s) = translate words s;
     let s = mmio_write MAIL1_WRT (ucast (buf_phys OR ucast MBOX_CHANNEL_PROPERTY)) s;
     (_, s) \<leftarrow> poll_until mailbox_reply (\<lambda>r. r AND MBOX_CHANNEL_MASK = MBOX_CHANNEL_PROPERTY) s;
     Some (dsb_sy s) }"

definition display_init :: "'a dma_scheme \<Rightarrow> 'a dma_scheme option" where
  "display_init s = (case dma_alloc 32 s of (buf, s) \<Rightarrow>
     if buf = 0 then uart_puts (ascii ''[display]: Failed to initialize. dma_alloc failed.'') s
     else do {
       let s = write_words buf [28, 0, 0x00000001, 4, 0, 0, MBOX_TAG_LAST] s;
       s \<leftarrow> send_command buf s;
       (words, s) \<leftarrow> read_words 7 buf s;
       if words ! 1 \<noteq> MBOX_RESPONSE_SUCCESS
       then uart_puts (ascii ''[display]: initialization failed, retry later.'') s
       else do {
         s \<leftarrow> uart_puts (ascii ''[display]: initialized successfully. '') s;
         s \<leftarrow> uart_puts (ascii ''Current Mailbox version is: '') s;
         s \<leftarrow> uart_put_uint (ucast (words ! 5)) s;
         s \<leftarrow> uart_puts crlf s;
         Some (dma_free buf 32 s) } })"

definition get_resolution :: "'a dma_scheme \<Rightarrow> 'a dma_scheme option" where
  "get_resolution s = (case dma_alloc 32 s of (buf, s) \<Rightarrow>
     if buf = 0 then uart_puts (ascii ''[display]: Operation failed. buffer allocation failed.'') s
     else do {
       let s = write_words buf [32, 0, 0x00040003, 8, 0, 0, 0, MBOX_TAG_LAST] s;
       s \<leftarrow> send_command buf s;
       (words, s) \<leftarrow> read_words 8 buf s;
       if words ! 1 \<noteq> MBOX_RESPONSE_SUCCESS
       then uart_puts (ascii ''[display]: operation failed, retry later.'') s
       else do {
         let width = words ! 5;
         let height = words ! 6;
         s \<leftarrow> uart_puts (ascii ''[display]: current resolution is: '') s;
         s \<leftarrow> uart_put_uint (ucast width) s;
         s \<leftarrow> uart_puts (ascii ''x'') s;
         s \<leftarrow> uart_put_uint (ucast height) s;
         s \<leftarrow> uart_puts crlf s;
         Some (dma_free buf 32 s) } })"

text \<open>The request of \<open>set_resolution\<close>: eight tags.\<close>

definition resolution_request :: "u32 \<Rightarrow> u32 \<Rightarrow> u32 list" where
  "resolution_request width height =
     [152, 0,
      0x00048001, 0, 0,
      0x00048003, 8, 8, width, height,
      0x00048005, 4, 4, 32,
      0x00048004, 8, 8, width, height,
      0x00048006, 4, 4, 1,
      0x00048009, 8, 8, 0, 0,
      0x00040001, 8, 4, ucast PAGE_SIZE, 0,
      0x00040008, 4, 0, 0,
      MBOX_TAG_LAST]"

definition put_size :: "u64 \<Rightarrow> u64 \<Rightarrow> 'a io_scheme \<Rightarrow> 'a io_scheme option" where
  "put_size w h s = do {
     s \<leftarrow> uart_put_uint w s;
     s \<leftarrow> uart_puts (ascii ''x'') s;
     s \<leftarrow> uart_put_uint h s;
     uart_puts crlf s }"

definition report_resolution :: "u32 \<Rightarrow> u32 \<Rightarrow> u32 list \<Rightarrow> 'a io_scheme \<Rightarrow> 'a io_scheme option" where
  "report_resolution width height words s = do {
     s \<leftarrow> uart_puts (ascii ''[display]: Resolution changed to: '') s;
     s \<leftarrow> put_size (ucast (words ! 8)) (ucast (words ! 9)) s;
     s \<leftarrow> (if words ! 8 \<noteq> width \<or> words ! 9 \<noteq> height
          then do { s \<leftarrow> uart_puts (ascii ''This differs from the requested resolution of: '') s;
                    put_size (scast width) (scast height) s }
          else Some s);
     s \<leftarrow> uart_puts (ascii ''The virtual resolution is: '') s;
     s \<leftarrow> put_size (ucast (words ! 17)) (ucast (words ! 18)) s;
     s \<leftarrow> uart_puts (ascii ''[display]: depth: '') s;
     s \<leftarrow> uart_put_uint (ucast (words ! 13)) s;
     s \<leftarrow> uart_puts (ascii '' bpp'' @ crlf) s;
     s \<leftarrow> uart_puts (ascii ''[display]: pixel order: '') s;
     s \<leftarrow> uart_put_uint (ucast (words ! 22)) s;
     s \<leftarrow> uart_puts (ascii '' (1=RGB, 0=BGR)'' @ crlf) s;
     s \<leftarrow> uart_puts (ascii ''[display]: framebuffer base (raw, unmasked): '') s;
     s \<leftarrow> uart_put_hex (ucast (words ! 31)) s;
     s \<leftarrow> uart_puts crlf s;
     s \<leftarrow> uart_puts (ascii ''[display]: framebuffer size: '') s;
     s \<leftarrow> uart_put_uint (ucast (words ! 32)) s;
     s \<leftarrow> uart_puts (ascii '' bytes'' @ crlf) s;
     s \<leftarrow> uart_puts (ascii ''[display]: pitch: '') s;
     s \<leftarrow> uart_put_uint (ucast (words ! 36)) s;
     uart_puts (ascii '' bytes/line'' @ crlf) s }"

text \<open>The size of a framebuffer in whole pages, and the part of \<open>set_resolution\<close> that adopts the new one.\<close>

definition fb_aligned_size :: "u32 \<Rightarrow> u64" where
  "fb_aligned_size sz = (ucast sz + PAGE_SIZE - 1) div PAGE_SIZE * PAGE_SIZE"

definition adopt_framebuffer :: "u32 list \<Rightarrow> 'a screen_scheme \<Rightarrow> 'a screen_scheme" where
  "adopt_framebuffer words s =
     (let s = (if framebuffer_base s \<noteq> 0
               then unmap (ucast (framebuffer_base s)) (fb_aligned_size (framebuffer_size s)) s else s);
          s = s\<lparr>framebuffer_base := words ! 31, framebuffer_size := words ! 32, framebuffer_pitch := words ! 36,
               framebuffer_width := words ! 17, framebuffer_height := words ! 18\<rparr>;
          (_, s) = map_pages (ucast (framebuffer_base s)) (ucast (framebuffer_base s))
                     (fb_aligned_size (framebuffer_size s)) PTE_NORMAL_NC_RW s
      in s\<lparr>term_cols := ucast (framebuffer_width s div 8), term_rows := ucast (framebuffer_height s div 8)\<rparr>)"

definition set_resolution :: "u32 \<Rightarrow> u32 \<Rightarrow> 'a screen_scheme \<Rightarrow> 'a screen_scheme option" where
  "set_resolution width height s = (case dma_alloc 152 s of (buf, s) \<Rightarrow>
     if buf = 0 then uart_puts (ascii ''[display]: Operation failed. buffer allocation failed.'') s
     else do {
       let s = write_words buf (resolution_request width height) s;
       s \<leftarrow> send_command buf s;
       (words, s) \<leftarrow> read_words 38 buf s;
       if words ! 1 \<noteq> MBOX_RESPONSE_SUCCESS
       then uart_puts (ascii ''[display]: operation failed, retry later.'') s
       else do {
         s \<leftarrow> report_resolution width height words s;
         Some (dma_free buf 152 (adopt_framebuffer words s)) } })"

section \<open>Requests\<close>

text \<open>
  The format of a property message, as VideoCore reads it: the size of the whole message, the
  request code, then tags of an identifier, the size of the value buffer, the length of the
  request and the value buffer itself, up to the end tag. A tag is its identifier and its values.
\<close>

fun parse_tags :: "u32 list \<Rightarrow> (u32 \<times> u32 list) list option" where
  "parse_tags (tag # sz # req # rest) =
     (let n = unat sz div 4 in
      if tag \<noteq> MBOX_TAG_LAST \<and> n \<le> length rest \<and> req \<le> sz
      then map_option ((#) (tag, take n rest)) (parse_tags (drop n rest)) else None)"
| "parse_tags [tag] = (if tag = MBOX_TAG_LAST then Some [] else None)"
| "parse_tags _ = None"

definition parse_message :: "u32 list \<Rightarrow> (u32 \<times> u32 list) list option" where
  "parse_message ws = (case ws of
     sz # code # tags \<Rightarrow> if unat sz = 4 * length ws \<and> code = MBOX_REQUEST_CODE then parse_tags tags else None
   | _ \<Rightarrow> None)"

text \<open>the request of \<open>set_resolution\<close> is a well-formed message of eight tags, in the order of the
  protocol, that carries the requested size twice and asks for 32 bits per pixel and a buffer on a
  page boundary.\<close>

theorem resolution_request_wellformed:
  "parse_message (resolution_request width height) = Some
     [(0x00048001, []), (0x00048003, [width, height]), (0x00048005, [32]), (0x00048004, [width, height]),
      (0x00048006, [1]), (0x00048009, [0, 0]), (0x00040001, [4096, 0]), (0x00040008, [0])]"
  by (simp add: parse_message_def resolution_request_def MBOX_TAG_LAST_def MBOX_REQUEST_CODE_def PAGE_SIZE_def)

section \<open>The new framebuffer\<close>

definition fb_pages :: "u32 \<Rightarrow> nat" where "fb_pages sz = (unat sz + 4095) div 4096"

lemma fb_pages:
  "unat (fb_aligned_size sz div PAGE_SIZE) = fb_pages sz" "fb_pages sz \<le> 0x8000000"
proof -
  have lt: "unat sz < 2 ^ 32" by (rule unat_lt32)
  then show le: "fb_pages sz \<le> 0x8000000" by (simp add: fb_pages_def)
  have ps: "unat PAGE_SIZE = 4096" by (simp add: PAGE_SIZE_def)
  have "ucast sz + PAGE_SIZE - 1 = (ucast sz + 4095 :: u64)" by (simp add: PAGE_SIZE_def add_diff_eq [symmetric])
  moreover have "unat (ucast sz + 4095 :: u64) = unat sz + 4095"
    using lt by (subst unat_plus) (simp_all add: unat_ucast_wider)
  ultimately have q: "unat ((ucast sz + PAGE_SIZE - 1 :: u64) div PAGE_SIZE) = fb_pages sz"
    by (simp only: unat_div ps fb_pages_def)
  have "unat ((ucast sz + PAGE_SIZE - 1 :: u64) div PAGE_SIZE) * unat PAGE_SIZE < 2 ^ LENGTH(64)"
    unfolding q ps using le by simp
  then have "unat (fb_aligned_size sz) = fb_pages sz * 4096"
    unfolding fb_aligned_size_def by (simp only: unat_mult_lem [THEN iffD1] q ps)
  then show "unat (fb_aligned_size sz div PAGE_SIZE) = fb_pages sz" by (simp only: unat_div ps)
qed

text \<open>The state in which \<open>set_resolution\<close> maps the new framebuffer.\<close>

definition release_framebuffer :: "'a screen_scheme \<Rightarrow> 'a screen_scheme" where
  "release_framebuffer s = (if framebuffer_base s \<noteq> 0
     then unmap (ucast (framebuffer_base s)) (fb_aligned_size (framebuffer_size s)) s else s)"

definition before_map :: "u32 list \<Rightarrow> 'a screen_scheme \<Rightarrow> 'a screen_scheme" where
  "before_map words s = (release_framebuffer s)
     \<lparr>framebuffer_base := words ! 31, framebuffer_size := words ! 32, framebuffer_pitch := words ! 36,
      framebuffer_width := words ! 17, framebuffer_height := words ! 18\<rparr>"

lemma adopt_eq:
  "adopt_framebuffer words s =
    (let t = snd (map_pages (ucast (words ! 31)) (ucast (words ! 31)) (fb_aligned_size (words ! 32)) PTE_NORMAL_NC_RW (before_map words s))
     in t\<lparr>term_cols := ucast (framebuffer_width t div 8), term_rows := ucast (framebuffer_height t div 8)\<rparr>)"
  by (simp add: adopt_framebuffer_def before_map_def release_framebuffer_def Let_def split_beta)

lemma before_map_inv:
  assumes "pt_inv s"
  shows "pt_inv (before_map words s)"
proof -
  have u: "pt_inv (release_framebuffer s)"
    using assms mmu_stepD(1) [OF unmap_step(1) [OF assms]] by (simp add: release_framebuffer_def)
  have f: "mem (before_map words s) = mem (release_framebuffer s)" "bitmap (before_map words s) = bitmap (release_framebuffer s)"
    "phys_mem_start (before_map words s) = phys_mem_start (release_framebuffer s)"
    "total_frames (before_map words s) = total_frames (release_framebuffer s)"
    "l1_table (before_map words s) = l1_table (release_framebuffer s)"
    by (simp_all add: before_map_def)
  show ?thesis unfolding same_tables(1) [OF f] by (rule u)
qed

lemma adopt_fields:
  "framebuffer_base (adopt_framebuffer words s) = words ! 31"
  "framebuffer_pitch (adopt_framebuffer words s) = words ! 36"
  "framebuffer_width (adopt_framebuffer words s) = words ! 17"
  "framebuffer_height (adopt_framebuffer words s) = words ! 18"
  "term_cols (adopt_framebuffer words s) = ucast (words ! 17 div 8)"
  "term_rows (adopt_framebuffer words s) = ucast (words ! 18 div 8)"
  if "pt_inv s"
proof -
  let ?b = "before_map words s"
  let ?m = "map_pages (ucast (words ! 31)) (ucast (words ! 31)) (fb_aligned_size (words ! 32)) PTE_NORMAL_NC_RW ?b"
  have "mmu_frame {Mmu_lock, Pmm_lock} ?b (snd ?m)"
    by (rule map_pages_step(1) [OF before_map_inv [OF that] surjective_pairing]) (simp add: fb_pages)
  then have more: "mmu.more (snd ?m) = mmu.more ?b" by (rule mmu_stepD)
  have f: "framebuffer_base (snd ?m) = framebuffer_base ?b" "framebuffer_pitch (snd ?m) = framebuffer_pitch ?b"
    "framebuffer_width (snd ?m) = framebuffer_width ?b" "framebuffer_height (snd ?m) = framebuffer_height ?b"
    using more by (cases "snd ?m"; cases ?b; simp)+
  show "framebuffer_base (adopt_framebuffer words s) = words ! 31"
    "framebuffer_pitch (adopt_framebuffer words s) = words ! 36"
    "framebuffer_width (adopt_framebuffer words s) = words ! 17"
    "framebuffer_height (adopt_framebuffer words s) = words ! 18"
    "term_cols (adopt_framebuffer words s) = ucast (words ! 17 div 8)"
    "term_rows (adopt_framebuffer words s) = ucast (words ! 18 div 8)"
    unfolding adopt_eq Let_def by (simp_all add: f) (simp_all add: before_map_def)
qed

lemma unat_ucast_small: "unat (x :: u32) < 256 \<Longrightarrow> unat (ucast x :: u8) = unat x"
  by (simp add: unsigned_ucast_eq take_bit_nat_eq_self)

lemma flags_nc: "PTE_NORMAL_NC_RW AND ADDR_MASK = 0"
  by (simp add: PTE_NORMAL_NC_RW_def ADDR_MASK_def)

lemma adopt_mapped:
  assumes inv: "pt_inv s" and al: "4096 dvd unat (words ! 31)"
    and en: "missing (before_map words s) ((\<lambda>i. coord (page (ucast (words ! 31)) i)) ` {..<fb_pages (words ! 32)})
      \<le> card (free_frames (before_map words s))"
    and a: "unat (words ! 31) \<le> unat a" "unat a < unat (words ! 31) + unat (words ! 32)"
  shows "fst (translate a (adopt_framebuffer words s)) = a"
proof -
  let ?b = "before_map words s" and ?v = "ucast (words ! 31) :: u64" and ?z = "fb_aligned_size (words ! 32)"
  obtain ok t where m: "map_pages ?v ?v ?z PTE_NORMAL_NC_RW ?b = (ok, t)" by fastforce
  note bi = before_map_inv [OF inv, of words]
  have n: "unat (?z div PAGE_SIZE) \<le> 2 ^ 27" by (simp add: fb_pages)
  have "ok" using map_pages_step(4) [OF bi m n _ order_refl, where extra = 0] en by (simp add: fb_pages)
  with m have m: "map_pages ?v ?v ?z PTE_NORMAL_NC_RW ?b = (True, t)" by simp
  have ti: "pt_inv t" by (rule mmu_stepD(1) [OF map_pages_step(1) [OF bi m n]])
  have v: "unat ?v = unat (words ! 31)" by (simp add: unat_ucast_wider)
  have "unat (words ! 32) \<le> 4096 * fb_pages (words ! 32)" unfolding fb_pages_def by linarith
  then have hi: "unat a < unat ?v + 4096 * unat (?z div PAGE_SIZE)" using a(2) by (simp add: v fb_pages)
  have ph: "unat ?v + 4096 * unat (?z div PAGE_SIZE) \<le> 2 ^ 48"
  proof -
    have "unat ?v + 4096 * unat (?z div PAGE_SIZE) \<le> 2 ^ 32 + 4096 * 0x8000000"
      unfolding v fb_pages(1) using unat_lt32 [of "words ! 31"] fb_pages(2) [of "words ! 32"] by linarith
    then show ?thesis by simp
  qed
  have "fst (translate a t) = ?v + (a - ?v)"
    by (rule map_translate [OF bi m n _ _ flags_nc ph _ hi]) (use al a(1) in \<open>simp_all add: v\<close>)
  moreover have "fst (translate a (adopt_framebuffer words s)) = fst (translate a t)"
  proof -
    have f: "mem (adopt_framebuffer words s) = mem t" "bitmap (adopt_framebuffer words s) = bitmap t"
      "phys_mem_start (adopt_framebuffer words s) = phys_mem_start t"
      "total_frames (adopt_framebuffer words s) = total_frames t" "l1_table (adopt_framebuffer words s) = l1_table t"
      by (simp_all add: adopt_eq m)
    note eq = same_tables [OF f]
    have "pt_inv (adopt_framebuffer words s)" using ti by (simp add: eq)
    then show ?thesis using ti by (simp add: translate_eq eq)
  qed
  ultimately show ?thesis by simp
qed

text \<open>The small screen before any resolution was set.\<close>

definition screen_off :: screen where
  "screen_off = (screen_small [])\<lparr>framebuffer_base := 0, framebuffer_size := 0\<rparr>"

lemma screen_off: "pt_inv screen_off" "missing screen_off P = missing mmu_small P"
  "free_frames screen_off = free_frames mmu_small"
proof -
  have f: "mem screen_off = mem mmu_small" "bitmap screen_off = bitmap mmu_small"
    "phys_mem_start screen_off = phys_mem_start mmu_small" "total_frames screen_off = total_frames mmu_small"
    "l1_table screen_off = l1_table mmu_small"
    by (simp_all add: screen_off_def screen_small_def dma_small_def heap_small_def kheap_init_def mmu.defs heap.defs
        dma.defs timer.defs)
  note eq = same_tables [OF f]
  show "pt_inv screen_off" "missing screen_off P = missing mmu_small P" "free_frames screen_off = free_frames mmu_small"
    by (simp_all add: eq mmu_small)
qed



end
