(* ===== verification/Newlib.thy ===== *)
theory Newlib
  imports Display
begin

text \<open>
  The functions that newlib calls (\<open>src/kernel/libc_retarget/libc_retarget.cpp\<close>): the break of its
  heap and the stubs of the file functions. \<open>errno\<close> is a variable of the core that runs, whose
  number is read from \<open>TPIDR_EL1\<close>.
\<close>

section \<open>State and operations\<close>

record newlib = screen +
  curr_brk :: u64
  CURR_NEWLIB_HEAP_END :: u64
  core_errno :: "u32 list"

definition NEWLIB_HEAP_BASE :: u64 where [board]: "NEWLIB_HEAP_BASE = 0x180000000"
definition NEWLIB_HEAP_MAX_SIZE :: u64 where [board]: "NEWLIB_HEAP_MAX_SIZE = 0x38000000"

text \<open>Constants of newlib's \<open>errno.h\<close> and \<open>stat.h\<close>.\<close>

definition EBADF :: u32 where "EBADF = 9"
definition ENOMEM :: u32 where "ENOMEM = 12"
definition EINVAL :: u32 where "EINVAL = 22"
definition ESPIPE :: u32 where "ESPIPE = 29"
definition S_IFCHR :: u32 where "S_IFCHR = 0x2000"

definition errno_index :: "'a newlib_scheme \<Rightarrow> (nat \<times> 'a newlib_scheme) option" where
  "errno_index s = do { (core_id, s) \<leftarrow> mrs TPIDR_EL1 s; Some (unat core_id, s) }"

definition set_errno :: "u32 \<Rightarrow> 'a newlib_scheme \<Rightarrow> 'a newlib_scheme option" where
  "set_errno e s = do { (i, s) \<leftarrow> errno_index s; Some (s\<lparr>core_errno := (core_errno s)[i := e]\<rparr>) }"

partial_function (option) sbrk_shrink :: "u64 \<Rightarrow> 'a newlib_scheme \<Rightarrow> 'a newlib_scheme option" where
  "sbrk_shrink required_end s =
     (if CURR_NEWLIB_HEAP_END s > round_up required_end PAGE_SIZE
      then (case translate (CURR_NEWLIB_HEAP_END s - PAGE_SIZE) s of (pa, s) \<Rightarrow>
        let s = unmap (CURR_NEWLIB_HEAP_END s - PAGE_SIZE) PAGE_SIZE s;
            s = free_frame pa s
        in sbrk_shrink required_end (s\<lparr>CURR_NEWLIB_HEAP_END := CURR_NEWLIB_HEAP_END s - PAGE_SIZE\<rparr>))
      else Some s)"

definition free_sbrk :: "u64 \<Rightarrow> 'a newlib_scheme \<Rightarrow> (bool \<times> 'a newlib_scheme) option" where
  "free_sbrk incr s =
     (let required_end = curr_brk s + incr in
      if required_end < NEWLIB_HEAP_BASE then Some (False, s)
      else do { s \<leftarrow> sbrk_shrink required_end s; Some (True, s\<lparr>curr_brk := required_end\<rparr>) })"

partial_function (option) sbrk_grow :: "u64 \<Rightarrow> 'a newlib_scheme \<Rightarrow> (bool \<times> 'a newlib_scheme) option" where
  "sbrk_grow required_end s =
     (if CURR_NEWLIB_HEAP_END s < required_end
      then (case alloc_frame s of (pa, s) \<Rightarrow>
        if pa = 0 then do { s \<leftarrow> set_errno ENOMEM s; Some (False, s) }
        else (case map_pages (CURR_NEWLIB_HEAP_END s) pa PAGE_SIZE PTE_NORMAL_RW s of (map_result, s) \<Rightarrow>
          if \<not> map_result then do { s \<leftarrow> set_errno ENOMEM s; Some (False, free_frame pa s) }
          else sbrk_grow required_end (s\<lparr>CURR_NEWLIB_HEAP_END := CURR_NEWLIB_HEAP_END s + PAGE_SIZE\<rparr>)))
      else Some (True, s))"

definition sbrk :: "u64 \<Rightarrow> 'a newlib_scheme \<Rightarrow> (u64 \<times> 'a newlib_scheme) option" where
  "sbrk incr s = (case spin_lock Newlib_lock s of (flags, s) \<Rightarrow>
     if incr = 0 then Some (curr_brk s, spin_unlock Newlib_lock flags s)
     else if sint incr < 0 then
       let prev_brk = curr_brk s in do {
         (ok, s) \<leftarrow> free_sbrk incr s;
         if \<not> ok then do {
           s \<leftarrow> set_errno ENOMEM s;
           Some (- 1, spin_unlock Newlib_lock flags (s\<lparr>curr_brk := prev_brk\<rparr>)) }
         else Some (prev_brk, spin_unlock Newlib_lock flags s) }
     else
       let required_end = curr_brk s + incr in
       if required_end > NEWLIB_HEAP_BASE + NEWLIB_HEAP_MAX_SIZE
       then do { s \<leftarrow> set_errno ENOMEM s; Some (- 1, spin_unlock Newlib_lock flags s) }
       else do {
         (ok, s) \<leftarrow> sbrk_grow required_end s;
         if \<not> ok then Some (- 1, spin_unlock Newlib_lock flags s)
         else let result = curr_brk s
              in Some (result, spin_unlock Newlib_lock flags (s\<lparr>curr_brk := curr_brk s + incr\<rparr>)) })"

fun write_bytes :: "u8 list \<Rightarrow> 'a screen_scheme \<Rightarrow> 'a screen_scheme option" where
  "write_bytes [] s = Some s"
| "write_bytes (b # bs) s = do { s \<leftarrow> io_putc b s; write_bytes bs s }"

text \<open>\<open>buf\<close> is the content of the buffer, so \<open>nbyte\<close> is its length.\<close>

definition write_fd :: "u32 \<Rightarrow> u8 list \<Rightarrow> 'a newlib_scheme \<Rightarrow> (u32 \<times> 'a newlib_scheme) option" where
  "write_fd fd buf s =
     (if fd = 1 \<or> fd = 2 then do { s \<leftarrow> write_bytes buf s; Some (of_nat (length buf), s) }
      else do { s \<leftarrow> set_errno EBADF s; Some (- 1, s) })"

definition read_fd :: "u32 \<Rightarrow> 'a newlib_scheme \<Rightarrow> u32 \<times> 'a newlib_scheme" where
  "read_fd fd s = (0, s)"

definition close_fd :: "u32 \<Rightarrow> u32" where
  "close_fd fildes = (if fildes = 1 \<or> fildes = 2 then 0 else - 1)"

definition lseek_fd :: "u32 \<Rightarrow> u64 \<Rightarrow> u32 \<Rightarrow> 'a newlib_scheme \<Rightarrow> (u64 \<times> 'a newlib_scheme) option" where
  "lseek_fd fildes offset whence s = do { s \<leftarrow> set_errno ESPIPE s; Some (- 1, s) }"

text \<open>The second result is the new \<open>st_mode\<close>, if it is written.\<close>

definition fstat_fd :: "u32 \<Rightarrow> 'a newlib_scheme \<Rightarrow> (u32 \<times> u32 option \<times> 'a newlib_scheme) option" where
  "fstat_fd fd s =
     (if fd = 1 \<or> fd = 2 then Some (0, Some S_IFCHR, s)
      else do { s \<leftarrow> set_errno EBADF s; Some (- 1, None, s) })"

definition isatty_fd :: "u32 \<Rightarrow> u32" where
  "isatty_fd fildes = (if fildes = 1 \<or> fildes = 2 then 1 else 0)"

definition exit_message :: "u8 list" where
  "exit_message = ascii ''newlib: exit has been called'' @ crlf"

definition kill_pid :: "u32 \<Rightarrow> u32 \<Rightarrow> 'a newlib_scheme \<Rightarrow> (u32 \<times> 'a newlib_scheme) option" where
  "kill_pid pid sig s = do { s \<leftarrow> set_errno EINVAL s; Some (- 1, s) }"

definition getpid :: u32 where "getpid = 1"

section \<open>The window of the heap\<close>

lemma newlib_more:
  fixes s t :: "'a newlib_scheme"
  assumes "mmu.more t = mmu.more s"
  shows "curr_brk t = curr_brk s" "CURR_NEWLIB_HEAP_END t = CURR_NEWLIB_HEAP_END s" "core_errno t = core_errno s"
    "newlib.more t = newlib.more s"
  using assms by (cases s; cases t; simp)+

lemma newlib_tables [simp]:
  "pt_inv (s\<lparr>CURR_NEWLIB_HEAP_END := x\<rparr>) = pt_inv s" "desc_at (s\<lparr>CURR_NEWLIB_HEAP_END := x\<rparr>) = desc_at s"
  "owned (s\<lparr>CURR_NEWLIB_HEAP_END := x\<rparr>) = owned s" "free_frames (s\<lparr>CURR_NEWLIB_HEAP_END := x\<rparr>) = free_frames s"
  "managed_frames (s\<lparr>CURR_NEWLIB_HEAP_END := x\<rparr>) = managed_frames s"
  "missing (s\<lparr>CURR_NEWLIB_HEAP_END := x\<rparr>) P = missing s P"
  "pt_inv (s\<lparr>curr_brk := x\<rparr>) = pt_inv s" "desc_at (s\<lparr>curr_brk := x\<rparr>) = desc_at s"
  "owned (s\<lparr>curr_brk := x\<rparr>) = owned s" "free_frames (s\<lparr>curr_brk := x\<rparr>) = free_frames s"
  "managed_frames (s\<lparr>curr_brk := x\<rparr>) = managed_frames s" "missing (s\<lparr>curr_brk := x\<rparr>) P = missing s P"
  "pt_inv (s\<lparr>core_errno := c\<rparr>) = pt_inv s" "desc_at (s\<lparr>core_errno := c\<rparr>) = desc_at s"
  "owned (s\<lparr>core_errno := c\<rparr>) = owned s" "free_frames (s\<lparr>core_errno := c\<rparr>) = free_frames s"
  "managed_frames (s\<lparr>core_errno := c\<rparr>) = managed_frames s" "missing (s\<lparr>core_errno := c\<rparr>) P = missing s P"
  "pt_inv (s\<lparr>inp := c'\<rparr>) = pt_inv s" "desc_at (s\<lparr>inp := c'\<rparr>) = desc_at s"
  "owned (s\<lparr>inp := c'\<rparr>) = owned s" "free_frames (s\<lparr>inp := c'\<rparr>) = free_frames s"
  "managed_frames (s\<lparr>inp := c'\<rparr>) = managed_frames s" "missing (s\<lparr>inp := c'\<rparr>) P = missing s P"
  by (simp_all add: same_tables [of "s\<lparr>CURR_NEWLIB_HEAP_END := x\<rparr>" s] same_tables [of "s\<lparr>curr_brk := x\<rparr>" s]
      same_tables [of "s\<lparr>core_errno := c\<rparr>" s] same_tables [of "s\<lparr>inp := c'\<rparr>" s])

lemma window_newlib [simp]:
  "window fl b n (t\<lparr>CURR_NEWLIB_HEAP_END := x\<rparr>) = window fl b n t" "window fl b n (t\<lparr>curr_brk := x\<rparr>) = window fl b n t"
  "window fl b n (t\<lparr>core_errno := c\<rparr>) = window fl b n t" "window fl b n (t\<lparr>inp := c'\<rparr>) = window fl b n t"
  by (simp_all add: window_def backed_def page_frame_def)

lemma unat_NEWLIB: "unat NEWLIB_HEAP_BASE = 0x180000000"
    "unat (NEWLIB_HEAP_BASE + NEWLIB_HEAP_MAX_SIZE) = 0x1B8000000"
  by (simp_all add: board)

lemma unat_newlib_page: "n \<le> 0x38000 \<Longrightarrow> unat (page NEWLIB_HEAP_BASE n) = 0x180000000 + 4096 * n"
  by (subst unat_page) (simp_all add: unat_NEWLIB)

lemma newlib_page_Suc: "page NEWLIB_HEAP_BASE n + PAGE_SIZE = page NEWLIB_HEAP_BASE (Suc n)"
  by (simp add: page_def distrib_right)

text \<open>The heap has \<open>n\<close> pages, each of them on a frame of its own.\<close>

definition newlib_pages :: "nat \<Rightarrow> 'a newlib_scheme \<Rightarrow> bool" where
  "newlib_pages n s \<longleftrightarrow> pt_inv s \<and> n \<le> 0x38000 \<and> CURR_NEWLIB_HEAP_END s = page NEWLIB_HEAP_BASE n
     \<and> window PTE_NORMAL_RW NEWLIB_HEAP_BASE n s"

lemma newlib_pagesD:
  assumes "newlib_pages n s"
  shows "pt_inv s" "n \<le> 0x38000" "CURR_NEWLIB_HEAP_END s = page NEWLIB_HEAP_BASE n"
    "unat (CURR_NEWLIB_HEAP_END s) = 0x180000000 + 4096 * n" "window PTE_NORMAL_RW NEWLIB_HEAP_BASE n s"
  using assms by (auto simp: newlib_pages_def unat_newlib_page)

text \<open>What every step of the two loops keeps.\<close>

definition newlib_range :: "(nat \<times> nat \<times> nat) set" where
  "newlib_range = (\<lambda>i. coord (page NEWLIB_HEAP_BASE i)) ` {..<0x38000}"

definition newlib_step :: "'a newlib_scheme \<Rightarrow> 'a newlib_scheme \<Rightarrow> bool" where
  "newlib_step s t \<longleftrightarrow> curr_brk t = curr_brk s \<and> daif t = daif s \<and> MMU_ACTIVE t = MMU_ACTIVE s
     \<and> (\<forall>c. c \<notin> newlib_range \<longrightarrow> desc_at t c = desc_at s c)
     \<and> (\<exists>es. trace t = trace s @ es \<and> balanced {Mmu_lock, Pmm_lock} es)"

lemma newlib_step_trans: "newlib_step s t \<Longrightarrow> newlib_step t u \<Longrightarrow> newlib_step s u"
proof -
  assume st: "newlib_step s t" and tu: "newlib_step t u"
  obtain es es' where "trace t = trace s @ es" "balanced {Mmu_lock, Pmm_lock} es"
    "trace u = trace t @ es'" "balanced {Mmu_lock, Pmm_lock} es'"
    using st tu unfolding newlib_step_def by blast
  then have "trace u = trace s @ (es @ es') \<and> balanced {Mmu_lock, Pmm_lock} (es @ es')"
    by (simp add: balanced_append)
  with st tu show ?thesis unfolding newlib_step_def by auto
qed

lemma grown_newlib_step:
  assumes "grown s t" "mmu.more t = mmu.more s" "\<And>c. c \<notin> newlib_range \<Longrightarrow> desc_at t c = desc_at s c"
  shows "newlib_step s t"
  using grownD [OF assms(1)] newlib_more(1) [OF assms(2)] assms(3) by (auto simp: newlib_step_def)

lemma set_errno_step:
  assumes "inp s = v # vs"
  obtains t where "set_errno e s = Some t" "newlib_step s t" "newlib_pages n t = newlib_pages n s"
    "core_errno t = (core_errno s)[unat v := e]" "owned t = owned s" "free_frames t = free_frames s" "desc_at t = desc_at s"
    "managed_frames t = managed_frames s"
proof
  let ?t = "(emit [Mrs TPIDR_EL1 v] (s\<lparr>inp := vs\<rparr>))\<lparr>core_errno := (core_errno s)[unat v := e]\<rparr>"
  have c: "core_errno (emit es u) = core_errno u" "curr_brk (emit es u) = curr_brk u"
    "CURR_NEWLIB_HEAP_END (emit es u) = CURR_NEWLIB_HEAP_END u" for es and u :: "'a newlib_scheme"
    by (simp_all add: emit_def)
  show "set_errno e s = Some ?t" using assms by (simp add: set_errno_def errno_index_def mrs_eq c)
  have "balanced {Mmu_lock, Pmm_lock} [Mrs TPIDR_EL1 v]" by (rule balanced_lock_free) (simp add: lock_free_def)
  then show "newlib_step s ?t" by (simp add: newlib_step_def c)
  show "newlib_pages n ?t = newlib_pages n s" by (simp add: newlib_pages_def c)
  show "core_errno ?t = (core_errno s)[unat v := e]" "owned ?t = owned s" "free_frames ?t = free_frames s"
    "desc_at ?t = desc_at s" "managed_frames ?t = managed_frames s" by simp_all
qed

section \<open>Shrinking\<close>

text \<open>A page is unmapped and its frame given back.\<close>

lemma unback_page:
  assumes inv: "pt_inv s" and b: "backed PTE_NORMAL_RW s va" and va: "page_aligned va"
  obtains t where "translate va s = (page_frame s va, t)"
    "pt_inv (free_frame (page_frame s va) (unmap va PAGE_SIZE t))"
    "desc_at (free_frame (page_frame s va) (unmap va PAGE_SIZE t)) = (desc_at s)(coord va := 0)"
    "managed_frames (free_frame (page_frame s va) (unmap va PAGE_SIZE t)) = managed_frames s"
    "owned (free_frame (page_frame s va) (unmap va PAGE_SIZE t)) = insert (page_frame s va) (owned s)"
    "page_frame s va \<in> free_frames (free_frame (page_frame s va) (unmap va PAGE_SIZE t))"
    "mmu.more (free_frame (page_frame s va) (unmap va PAGE_SIZE t)) = mmu.more s"
    "daif (free_frame (page_frame s va) (unmap va PAGE_SIZE t)) = daif s"
    "MMU_ACTIVE (free_frame (page_frame s va) (unmap va PAGE_SIZE t)) = MMU_ACTIVE s"
    "inp (free_frame (page_frame s va) (unmap va PAGE_SIZE t)) = inp s"
    "\<exists>es. trace (free_frame (page_frame s va) (unmap va PAGE_SIZE t)) = trace s @ es \<and> balanced {Mmu_lock, Pmm_lock} es"
proof -
  let ?pa = "page_frame s va"
  have d: "desc_at s (coord va) = ?pa OR PTE_NORMAL_RW OR 3" and pa: "?pa \<in> managed_frames s - owned s"
    using b by (auto simp: backed_def)
  define s1 where "s1 = emit (with_lock Mmu_lock s) s"
  have nz: "desc_at s (coord va) \<noteq> 0"
  proof
    assume "desc_at s (coord va) = 0"
    then have "bit (?pa OR PTE_NORMAL_RW OR 3) 0 = bit (0 :: u64) 0" unfolding d by simp
    then show False by (simp add: bit_simps)
  qed
  have low: "va AND 0xFFF = 0"
    unfolding mask_word_simps by (rule bit_word_eqI) (use aligned_bits [OF va] in \<open>auto simp: bit_simps\<close>)
  have tr: "translate va s = (?pa, s1)"
    using translate_eq [OF inv, of va] nz by (simp add: low s1_def page_frame_def)
  define s2 where "s2 = unmap va PAGE_SIZE s1"
  have i1: "pt_inv s1" using inv by (simp add: s1_def)
  have one: "unat (PAGE_SIZE div PAGE_SIZE) = 1" by (rule device_bases(7))
  note um = unmap_step [OF i1, where va = va and sz = PAGE_SIZE, unfolded one, folded s2_def]
  note m = mmu_stepD [OF um(1)]
  have p0: "page va 0 = va" by (simp add: page_def)
  have "\<forall>i < 1. desc_at s1 (coord (page va i)) \<noteq> 0" using nz by (simp add: s1_def p0)
  then have "desc_at s2 = clear_pages va {..<1} (desc_at s1)" using um(2) by auto
  then have ds: "desc_at s2 = (desc_at s)(coord va := 0)"
    by (auto simp: clear_pages_def s1_def p0 fun_eq_iff)
  have o: "owned s2 = owned s" "managed_frames s2 = managed_frames s" "mmu.more s2 = mmu.more s"
    "daif s2 = daif s" "inp s2 = inp s" "MMU_ACTIVE s2 = MMU_ACTIVE s"
    using m by (simp_all add: s1_def)
  have "?pa \<in> managed_frames s2" "?pa \<notin> tables s2" using pa o by (auto simp: owned_def)
  note f = free_frame_mmu [OF m(1) this]
  obtain es where es: "trace s2 = trace s1 @ es" "balanced {Mmu_lock, Pmm_lock} es" using m(11) by blast
  have "trace (free_frame ?pa s2) = trace s @ (with_lock Mmu_lock s @ es @ with_lock Pmm_lock s2)"
    by (simp add: f(14) es(1) s1_def)
  moreover have "balanced {Mmu_lock, Pmm_lock} (with_lock Mmu_lock s @ es @ with_lock Pmm_lock s2)"
    by (intro balanced_append es(2) balanced_mono [OF balanced_with_lock]) auto
  ultimately show ?thesis
    using that [of s1] tr f ds o unfolding s2_def [symmetric] by (metis insertI1)
qed

lemma window_shrink:
  assumes w: "window flags base (Suc n) s" and n: "n < 2 ^ 27"
    and d: "desc_at u = (desc_at s)(coord (page base n) := 0)"
    and m: "managed_frames u = managed_frames s" and o: "owned u = insert (page_frame s (page base n)) (owned s)"
  shows "window flags base n u"
proof -
  have inj: "inj_on (\<lambda>i. coord (page base i)) {..<Suc n}" using n by (intro coord_page_inj) simp
  have same: "desc_at u (coord (page base i)) = desc_at s (coord (page base i))" if "i < n" for i
  proof -
    have "coord (page base i) \<noteq> coord (page base n)" using that inj by (fastforce simp: inj_on_def)
    then show ?thesis by (simp add: d)
  qed
  then have f: "page_frame u (page base i) = page_frame s (page base i)" if "i < n" for i
    using that by (simp add: page_frame_def)
  have wi: "inj_on (\<lambda>i. page_frame s (page base i)) {..<Suc n}" using w by (simp add: window_def)
  have "backed flags u (page base i)" if i: "i < n" for i
  proof -
    have "page_frame s (page base i) \<noteq> page_frame s (page base n)" using wi i by (fastforce simp: inj_on_def)
    moreover have "backed flags s (page base i)" using w i by (simp add: window_def)
    ultimately show ?thesis by (simp add: backed_def same [OF i] f [OF i] m o)
  qed
  moreover have "inj_on (\<lambda>i. page_frame u (page base i)) {..<n}"
    using wi f by (auto simp: inj_on_def)
  ultimately show ?thesis by (simp add: window_def)
qed

definition pages_for :: "u64 \<Rightarrow> nat" where
  "pages_for r = (unat r - 0x180000000 + 4095) div 4096"

lemma unat_round_up_newlib:
  assumes "0x180000000 \<le> unat r" "unat r \<le> 0x1B8000000"
  shows "unat (round_up r PAGE_SIZE) = 0x180000000 + 4096 * pages_for r" "pages_for r \<le> 0x38000"
proof -
  have "unat (round_up r PAGE_SIZE) = (unat r + 4095) div 4096 * 4096"
    by (rule round_up_page) (use assms(2) in simp)
  moreover have "(unat r + 4095) div 4096 = 0x180000 + pages_for r"
    unfolding pages_for_def using assms(1) by linarith
  ultimately show "unat (round_up r PAGE_SIZE) = 0x180000000 + 4096 * pages_for r" by simp
  show "pages_for r \<le> 0x38000" unfolding pages_for_def using assms by linarith
qed

lemma sbrk_shrink_step:
  assumes "newlib_pages n s" "0x180000000 \<le> unat r" "unat r \<le> 0x1B8000000"
  shows "\<exists>t. sbrk_shrink r s = Some t \<and> newlib_pages (min n (pages_for r)) t \<and> newlib_step s t
    \<and> owned t = owned s \<union> (\<lambda>i. page_frame s (page NEWLIB_HEAP_BASE i)) ` {min n (pages_for r)..<n} \<and> core_errno t = core_errno s"
  using assms
proof (induction n arbitrary: s)
  case (0 s)
  note u = unat_round_up_newlib [OF 0(2,3)]
  have "\<not> CURR_NEWLIB_HEAP_END s > round_up r PAGE_SIZE"
    using newlib_pagesD(4) [OF 0(1)] by (simp add: word_less_nat_alt u)
  with 0(1) show ?case
    by (subst sbrk_shrink.simps) (auto simp: newlib_step_def)
next
  case (Suc n s)
  note u = unat_round_up_newlib [OF Suc.prems(2,3)]
  note w = newlib_pagesD [OF Suc.prems(1)]
  show ?case
  proof (cases "pages_for r < Suc n")
    case False
    then have "\<not> CURR_NEWLIB_HEAP_END s > round_up r PAGE_SIZE" using w(4) by (simp add: word_less_nat_alt u)
    moreover have "min (Suc n) (pages_for r) = Suc n" using False by simp
    ultimately show ?thesis using Suc.prems(1) by (subst sbrk_shrink.simps) (auto simp: newlib_step_def)
  next
    case True
    then have go: "CURR_NEWLIB_HEAP_END s > round_up r PAGE_SIZE" using w(4) by (simp add: word_less_nat_alt u)
    define va where "va = page NEWLIB_HEAP_BASE n"
    have va: "CURR_NEWLIB_HEAP_END s - PAGE_SIZE = va" unfolding w(3) va_def newlib_page_Suc [symmetric] by simp
    have al: "page_aligned va" using w(2) by (simp add: va_def unat_newlib_page)
    have b: "backed PTE_NORMAL_RW s va" using w(5) by (simp add: window_def va_def)
    obtain t where t: "translate va s = (page_frame s va, t)"
      "pt_inv (free_frame (page_frame s va) (unmap va PAGE_SIZE t))"
      "desc_at (free_frame (page_frame s va) (unmap va PAGE_SIZE t)) = (desc_at s)(coord va := 0)"
      "managed_frames (free_frame (page_frame s va) (unmap va PAGE_SIZE t)) = managed_frames s"
      "owned (free_frame (page_frame s va) (unmap va PAGE_SIZE t)) = insert (page_frame s va) (owned s)"
      "page_frame s va \<in> free_frames (free_frame (page_frame s va) (unmap va PAGE_SIZE t))"
      "mmu.more (free_frame (page_frame s va) (unmap va PAGE_SIZE t)) = mmu.more s"
      "daif (free_frame (page_frame s va) (unmap va PAGE_SIZE t)) = daif s"
      "MMU_ACTIVE (free_frame (page_frame s va) (unmap va PAGE_SIZE t)) = MMU_ACTIVE s"
      "inp (free_frame (page_frame s va) (unmap va PAGE_SIZE t)) = inp s"
      "\<exists>es. trace (free_frame (page_frame s va) (unmap va PAGE_SIZE t)) = trace s @ es \<and> balanced {Mmu_lock, Pmm_lock} es"
      by (rule unback_page [OF w(1) b al])
    define v where "v = free_frame (page_frame s va) (unmap va PAGE_SIZE t)"
    note tv = t [folded v_def]
    have te: "CURR_NEWLIB_HEAP_END t = CURR_NEWLIB_HEAP_END s"
    proof -
      have "t = emit (with_lock Mmu_lock s) s" using translate_eq [OF w(1), of va] t(1) by simp
      then show ?thesis by (simp add: emit_def)
    qed
    have ve: "CURR_NEWLIB_HEAP_END v = CURR_NEWLIB_HEAP_END s" by (rule newlib_more(2) [OF tv(7)])
    define v' where "v' = v\<lparr>CURR_NEWLIB_HEAP_END := va\<rparr>"
    have step: "sbrk_shrink r s = sbrk_shrink r v'"
      using go by (subst sbrk_shrink.simps) (simp add: va t(1) te v_def [symmetric] ve v'_def)
    have "window PTE_NORMAL_RW NEWLIB_HEAP_BASE n v"
      by (rule window_shrink [OF w(5)]) (use w(2) tv(3-5) in \<open>simp_all add: va_def\<close>)
    then have pv: "newlib_pages n v'" using w(2) tv(2) by (simp add: newlib_pages_def v'_def va_def)
    have "coord va \<in> newlib_range" using w(2) by (auto simp: newlib_range_def va_def)
    then have "\<forall>c. c \<notin> newlib_range \<longrightarrow> desc_at v c = desc_at s c" unfolding tv(3) by auto
    then have sv: "newlib_step s v'"
      using tv(8,9,11) newlib_more(1) [OF tv(7)] by (simp add: newlib_step_def v'_def)
    obtain x where x: "sbrk_shrink r v' = Some x" "newlib_pages (min n (pages_for r)) x" "newlib_step v' x"
      "owned x = owned v' \<union> (\<lambda>i. page_frame v' (page NEWLIB_HEAP_BASE i)) ` {min n (pages_for r)..<n}"
      "core_errno x = core_errno v'"
      using Suc.IH [OF pv Suc.prems(2,3)] by blast
    have mn: "min (Suc n) (pages_for r) = min n (pages_for r)" "min n (pages_for r) \<le> n" using True by auto
    have "page_frame v' (page NEWLIB_HEAP_BASE i) = page_frame s (page NEWLIB_HEAP_BASE i)" if "i < n" for i
    proof -
      have "inj_on (\<lambda>i. coord (page NEWLIB_HEAP_BASE i)) {..<Suc n}" using w(2) by (intro coord_page_inj) simp
      then have "coord (page NEWLIB_HEAP_BASE i) \<noteq> coord va" using that by (fastforce simp: inj_on_def va_def)
      then show ?thesis by (simp add: page_frame_def v'_def tv(3))
    qed
    then have "(\<lambda>i. page_frame v' (page NEWLIB_HEAP_BASE i)) ` {min n (pages_for r)..<n}
        = (\<lambda>i. page_frame s (page NEWLIB_HEAP_BASE i)) ` {min n (pages_for r)..<n}" by (intro image_cong) auto
    moreover have "{min n (pages_for r)..<Suc n} = insert n {min n (pages_for r)..<n}" using mn(2) by auto
    ultimately have "owned x = owned s \<union> (\<lambda>i. page_frame s (page NEWLIB_HEAP_BASE i)) ` {min n (pages_for r)..<Suc n}"
      by (simp add: x(4) v'_def tv(5) va_def)
    moreover have "core_errno x = core_errno s" using newlib_more(3) [OF tv(7)] by (simp add: x(5) v'_def)
    ultimately show ?thesis using x(1,2) newlib_step_trans [OF sv x(3)] by (simp add: step mn(1))
  qed
qed

section \<open>Growing\<close>

text \<open>The blocks of 2 MiB of the window, each served by two page tables at most.\<close>

abbreviation newlib_blocks :: "(nat \<times> nat \<times> nat) set" where "newlib_blocks \<equiv> blocks {3072..<3520}"

lemma newlib_block:
  assumes "i < 0x38000"
  shows "coord (page NEWLIB_HEAP_BASE i) \<in> newlib_blocks"
proof (rule coord_blocks)
  have u: "unat (page NEWLIB_HEAP_BASE i) = 0x180000000 + 4096 * i" using assms by (intro unat_newlib_page) simp
  with assms have "vpn (page NEWLIB_HEAP_BASE i) = 0x180000 + i" by (simp add: vpn_small)
  with assms show "vpn (page NEWLIB_HEAP_BASE i) div 512 \<in> {3072..<3520}" by auto
qed

definition sbrk_growth :: "u64 \<Rightarrow> nat \<Rightarrow> 'a newlib_scheme \<Rightarrow> bool \<Rightarrow> 'a newlib_scheme \<Rightarrow> bool" where
  "sbrk_growth r n s b t \<longleftrightarrow> newlib_step s t
     \<and> (\<exists>n' \<ge> n. newlib_pages n' t \<and> n' \<le> max n (pages_for r) \<and> (b \<longrightarrow> n' = max n (pages_for r)))
     \<and> (if b then core_errno t = core_errno s else \<exists>core. core_errno t = (core_errno s)[core := ENOMEM])
     \<and> (missing s newlib_blocks + (pages_for r - n) \<le> card (free_frames s) \<longrightarrow> b)"

lemma sbrk_growthI:
  assumes "newlib_step s t" "newlib_pages n' t" "n \<le> n'" "n' \<le> max n (pages_for r)" "b \<Longrightarrow> n' = max n (pages_for r)"
    "b \<Longrightarrow> core_errno t = core_errno s" "\<not> b \<Longrightarrow> \<exists>core. core_errno t = (core_errno s)[core := ENOMEM]"
    "missing s newlib_blocks + (pages_for r - n) \<le> card (free_frames s) \<Longrightarrow> b"
  shows "sbrk_growth r n s b t"
  unfolding sbrk_growth_def using assms by auto

text \<open>The two ways in which a page cannot be had.\<close>

lemma grow_no_frame:
  assumes pg: "newlib_pages n s" and in_s: "inp s = v # vs" and k: "n < pages_for r"
    and al: "alloc_frame s = (0, t)"
  obtains u where "set_errno ENOMEM t = Some u" "sbrk_growth r n s False u"
proof -
  note w = newlib_pagesD [OF pg] and a = alloc_frame_mmu [OF newlib_pagesD(1) [OF pg] al]
  have ta: "CURR_NEWLIB_HEAP_END t = CURR_NEWLIB_HEAP_END s" "core_errno t = core_errno s" by (rule newlib_more [OF a(3)])+
  have it: "inp t = v # vs" using grownD(5) [OF a(1)] in_s by simp
  obtain u where u: "set_errno ENOMEM t = Some u" "newlib_step t u" "newlib_pages n u = newlib_pages n t"
    "core_errno u = (core_errno t)[unat v := ENOMEM]" using set_errno_step [OF it] by metis
  have "newlib_pages n t"
    using w a(2) grownD(1,2,8) [OF a(1)] window_cong [OF a(2)] by (auto simp: newlib_pages_def ta)
  moreover have "newlib_step s t" by (rule grown_newlib_step [OF a(1,3)]) (simp add: a(2))
  moreover have "free_frames s = {}" using a(5) by simp
  ultimately have "sbrk_growth r n s False u"
    using u k newlib_step_trans by (intro sbrk_growthI [where n' = n]) (auto simp: ta)
  with u(1) show ?thesis by (rule that)
qed

lemma grow_no_map:
  assumes pg: "newlib_pages n s" and in_s: "inp s = v # vs" and k: "n < pages_for r" and n: "n < 0x38000"
    and al: "alloc_frame s = (pa, t)" "pa \<noteq> 0"
    and mp: "map_pages (CURR_NEWLIB_HEAP_END s) pa PAGE_SIZE PTE_NORMAL_RW t = (False, u)"
  obtains x where "set_errno ENOMEM u = Some x" "sbrk_growth r n s False (free_frame pa x)"
proof -
  have fl: "PTE_NORMAL_RW AND ADDR_MASK = 0" by (simp add: board ADDR_MASK_def)
  note w = newlib_pagesD [OF pg] and b = back_page [OF newlib_pagesD(1) [OF pg] al mp fl]
  note gr = grownD [OF b(1)]
  have du: "desc_at u = desc_at s" using b(7) by simp
  have ue: "CURR_NEWLIB_HEAP_END u = CURR_NEWLIB_HEAP_END s" "core_errno u = core_errno s"
    by (rule newlib_more [OF b(2)])+
  have su: "newlib_step s u" by (rule grown_newlib_step [OF b(1,2)]) (simp add: du)
  have iu: "inp u = v # vs" using gr(5) in_s by simp
  obtain x where x: "set_errno ENOMEM u = Some x" "newlib_step u x" "newlib_pages n x = newlib_pages n u"
    "core_errno x = (core_errno u)[unat v := ENOMEM]" "owned x = owned u" "managed_frames x = managed_frames u"
    "desc_at x = desc_at u" using set_errno_step [OF iu] by metis
  have "newlib_pages n u"
    using w du gr(1,2,8) window_cong [of u s] by (auto simp: newlib_pages_def ue)
  then have px: "newlib_pages n x" by (simp add: x(3))
  have m: "pa \<in> managed_frames x" "pa \<notin> owned x" using b(3,5) gr(2) by (auto simp: x(5,6))
  then have nt: "pa \<notin> tables x" by (simp add: owned_def)
  note f = free_frame_mmu [OF newlib_pagesD(1) [OF px] m(1) nt]
  have fx: "CURR_NEWLIB_HEAP_END (free_frame pa x) = CURR_NEWLIB_HEAP_END x"
    "core_errno (free_frame pa x) = core_errno x" "curr_brk (free_frame pa x) = curr_brk x"
    by (rule newlib_more [OF f(3)])+
  have "page_frame s (page NEWLIB_HEAP_BASE i) \<noteq> pa" if "i < n" for i
    using w(5) that b(4) by (auto simp: window_def backed_def)
  then have "window PTE_NORMAL_RW NEWLIB_HEAP_BASE n (free_frame pa x)"
    using newlib_pagesD(5) [OF px] by (auto simp: window_def backed_def page_frame_def f(2,5,7) inj_on_def x(7) du)
  then have "newlib_pages n (free_frame pa x)"
    using newlib_pagesD [OF px] f(1) by (simp add: newlib_pages_def fx)
  moreover have "newlib_step x (free_frame pa x)"
    using f(2,10,11,14) balanced_mono [OF balanced_with_lock [of Pmm_lock x], of "{Mmu_lock, Pmm_lock}"]
    by (auto simp: newlib_step_def fx)
  then have "newlib_step s (free_frame pa x)" using newlib_step_trans su x(2) by blast
  moreover have "\<not> missing s newlib_blocks + (pages_for r - n) \<le> card (free_frames s)"
  proof
    assume "missing s newlib_blocks + (pages_for r - n) \<le> card (free_frames s)"
    then have "missing s newlib_blocks + (pages_for r - Suc n) + 1 \<le> card (free_frames s)" using k by linarith
    from b(8) [OF finite_blocks _ this] newlib_block [OF n] show False by (simp add: w(3))
  qed
  ultimately have "sbrk_growth r n s False (free_frame pa x)"
    using k x(4) by (intro sbrk_growthI [where n' = n]) (auto simp: fx ue)
  with x(1) show ?thesis by (rule that)
qed

lemma grow_page:
  assumes pg: "newlib_pages n s" and n: "n < 0x38000"
    and al: "alloc_frame s = (pa, t)" "pa \<noteq> 0"
    and mp: "map_pages (CURR_NEWLIB_HEAP_END s) pa PAGE_SIZE PTE_NORMAL_RW t = (True, u)"
  defines "u' \<equiv> u\<lparr>CURR_NEWLIB_HEAP_END := CURR_NEWLIB_HEAP_END u + PAGE_SIZE\<rparr>"
  shows "newlib_pages (Suc n) u'" "newlib_step s u'" "core_errno u' = core_errno s" "inp u' = inp s"
    and "missing s newlib_blocks + (k + 1) \<le> card (free_frames s) \<Longrightarrow> missing u' newlib_blocks + k \<le> card (free_frames u')"
proof -
  have fl: "PTE_NORMAL_RW AND ADDR_MASK = 0" by (simp add: board ADDR_MASK_def)
  note w = newlib_pagesD [OF pg] and b = back_page [OF newlib_pagesD(1) [OF pg] al mp fl]
  note gr = grownD [OF b(1)]
  have ue: "CURR_NEWLIB_HEAP_END u = CURR_NEWLIB_HEAP_END s" "core_errno u = core_errno s"
    by (rule newlib_more [OF b(2)])+
  have "coord (CURR_NEWLIB_HEAP_END s) \<in> newlib_range" using n by (auto simp: newlib_range_def w(3))
  then have "newlib_step s u" by (intro grown_newlib_step [OF b(1,2)]) (auto simp: b(7))
  then show "newlib_step s u'" by (simp add: newlib_step_def u'_def)
  have "window PTE_NORMAL_RW NEWLIB_HEAP_BASE (Suc n) u"
    by (rule window_extend [OF w(5) _ _ gr(2) b(3) b(5,4,6)]) (use n b(7) in \<open>simp_all add: w(3)\<close>)
  then show "newlib_pages (Suc n) u'"
    using gr(1) n by (simp add: newlib_pages_def u'_def ue w(3) newlib_page_Suc)
  show "core_errno u' = core_errno s" "inp u' = inp s" using gr(5) by (simp_all add: u'_def ue)
  show "missing s newlib_blocks + (k + 1) \<le> card (free_frames s) \<Longrightarrow> missing u' newlib_blocks + k \<le> card (free_frames u')"
    using b(8) [OF finite_blocks, of "{3072..<3520}" k] newlib_block [OF n] by (simp add: w(3) u'_def)
qed

lemma sbrk_grow_done:
  assumes "newlib_pages n s" "\<not> CURR_NEWLIB_HEAP_END s < r"
  shows "\<exists>b t. sbrk_grow r s = Some (b, t) \<and> sbrk_growth r n s b t"
proof -
  have "pages_for r \<le> n"
    using assms(2) unfolding pages_for_def word_less_nat_alt newlib_pagesD(4) [OF assms(1)] by linarith
  then have "sbrk_growth r n s True s"
    by (intro sbrk_growthI [where n' = n] assms(1)) (auto simp: newlib_step_def)
  then show ?thesis using assms(2) by (subst sbrk_grow.simps) (auto intro: exI [of _ True])
qed

lemma sbrk_grow_step:
  assumes "newlib_pages n s" "0x180000000 \<le> unat r" "unat r \<le> 0x1B8000000" "inp s \<noteq> []"
  shows "\<exists>b t. sbrk_grow r s = Some (b, t) \<and> sbrk_growth r n s b t"
  using assms
proof (induction "0x38000 - n" arbitrary: n s)
  case (0 n s)
  note w = newlib_pagesD [OF 0(2)]
  have "\<not> CURR_NEWLIB_HEAP_END s < r" using w(2,4) 0(1,4) by (simp add: word_less_nat_alt)
  then show ?case by (rule sbrk_grow_done [OF 0(2)])
next
  case (Suc m n s)
  note w = newlib_pagesD [OF Suc.prems(1)]
  obtain v vs where v: "inp s = v # vs" using Suc.prems(4) by (cases "inp s") auto
  show ?case
  proof (cases "CURR_NEWLIB_HEAP_END s < r")
    case lt: True
    have k: "n < pages_for r" using lt unfolding pages_for_def word_less_nat_alt w(4) by linarith
    have n: "n < 0x38000" using k unat_round_up_newlib(2) [OF Suc.prems(2,3)] by linarith
    obtain pa t where al: "alloc_frame s = (pa, t)" by fastforce
    have ta: "CURR_NEWLIB_HEAP_END t = CURR_NEWLIB_HEAP_END s"
      by (rule newlib_more(2)) (rule alloc_frame_mmu(3) [OF w(1) al])
    obtain ok u where mp: "map_pages (CURR_NEWLIB_HEAP_END s) pa PAGE_SIZE PTE_NORMAL_RW t = (ok, u)" by fastforce
    consider "pa = 0" | "pa \<noteq> 0" "\<not> ok" | "pa \<noteq> 0" "ok" by blast
    then show ?thesis
    proof cases
      case 1
      obtain x where "set_errno ENOMEM t = Some x" "sbrk_growth r n s False x"
        using grow_no_frame [OF Suc.prems(1) v k] al 1 by blast
      then show ?thesis using 1 by (subst sbrk_grow.simps) (auto simp: lt al)
    next
      case 2
      obtain x where "set_errno ENOMEM u = Some x" "sbrk_growth r n s False (free_frame pa x)"
        using grow_no_map [OF Suc.prems(1) v k n al 2(1)] mp 2(2) by auto
      then show ?thesis using 2 by (subst sbrk_grow.simps) (auto simp: lt al ta mp)
    next
      case 3
      define u' where "u' = u\<lparr>CURR_NEWLIB_HEAP_END := CURR_NEWLIB_HEAP_END u + PAGE_SIZE\<rparr>"
      note g = grow_page [OF Suc.prems(1) n al 3(1), of u, folded u'_def]
      have mp': "map_pages (CURR_NEWLIB_HEAP_END s) pa PAGE_SIZE PTE_NORMAL_RW t = (True, u)" using mp 3(2) by simp
      note g = g [OF mp']
      have m: "m = 0x38000 - Suc n" using Suc.hyps(2) by simp
      have i: "inp u' \<noteq> []" using v by (simp add: g)
      obtain bb x where x: "sbrk_grow r u' = Some (bb, x)" "sbrk_growth r (Suc n) u' bb x"
        using Suc.hyps(1) [OF m g(1) Suc.prems(2,3) i] by blast
      have en: "missing u' newlib_blocks + (pages_for r - Suc n) \<le> card (free_frames u')"
        if "missing s newlib_blocks + (pages_for r - n) \<le> card (free_frames s)"
        using that k by (intro g(5)) simp
      obtain n' where n': "Suc n \<le> n'" "newlib_pages n' x" "n' \<le> max (Suc n) (pages_for r)"
        "bb \<longrightarrow> n' = max (Suc n) (pages_for r)" using x(2) unfolding sbrk_growth_def by blast
      have "sbrk_growth r n s bb x"
        by (rule sbrk_growthI [where n' = n'])
          (use x(2) n' newlib_step_trans [OF g(2)] en k in \<open>auto simp: sbrk_growth_def g split: if_splits\<close>)
      moreover have "sbrk_grow r s = sbrk_grow r u'"
        using lt 3(1) by (subst sbrk_grow.simps) (simp add: al ta mp' u'_def)
      ultimately show ?thesis using x(1) by auto
    qed
  qed (rule sbrk_grow_done [OF Suc.prems(1)])
qed

section \<open>The break\<close>

text \<open>The break lies in the mapped part of the heap.\<close>

definition newlib_inv :: "'a newlib_scheme \<Rightarrow> bool" where
  "newlib_inv s \<longleftrightarrow> 0x180000000 \<le> unat (curr_brk s) \<and> curr_brk s \<le> CURR_NEWLIB_HEAP_END s \<and> (\<exists>n. newlib_pages n s)"

lemma newlib_invE:
  assumes "newlib_inv s"
  obtains n where "newlib_pages n s" "0x180000000 \<le> unat (curr_brk s)" "unat (curr_brk s) \<le> 0x180000000 + 4096 * n"
    "n = (unat (CURR_NEWLIB_HEAP_END s) - 0x180000000) div 4096" "unat (curr_brk s) \<le> 0x1B8000000"
proof -
  obtain n where n: "newlib_pages n s" using assms by (auto simp: newlib_inv_def)
  note w = newlib_pagesD [OF n]
  have "unat (curr_brk s) \<le> 0x180000000 + 4096 * n"
    using assms unfolding newlib_inv_def word_le_nat_alt w(4) by blast
  moreover have "n = (unat (CURR_NEWLIB_HEAP_END s) - 0x180000000) div 4096" unfolding w(4) by simp
  moreover have "0x180000000 \<le> unat (curr_brk s)" using assms by (simp add: newlib_inv_def)
  moreover have "unat (curr_brk s) \<le> 0x1B8000000" using calculation(1) w(2) by linarith
  ultimately show ?thesis using that [OF n] by blast
qed

lemma newlib_invI: "newlib_pages n s \<Longrightarrow> 0x180000000 \<le> unat (curr_brk s) \<Longrightarrow> unat (curr_brk s) \<le> 0x180000000 + 4096 * n \<Longrightarrow> newlib_inv s"
  unfolding newlib_inv_def word_le_nat_alt using newlib_pagesD(4) by metis

lemma uint_add_sint:
  assumes "0 \<le> uint a + sint b" "uint a + sint b < 2 ^ 64"
  shows "uint (a + b :: u64) = uint a + sint b"
proof -
  have "word_of_int (uint a + sint b) = a + b" by (simp add: of_int_add)
  then have "uint (a + b) = uint (word_of_int (uint a + sint b) :: u64)" by simp
  also have "\<dots> = (uint a + sint b) mod 2 ^ LENGTH(64)" by (rule uint_word_of_int)
  finally show ?thesis using assms by simp
qed

text \<open>What a call of \<open>_sbrk\<close> does.\<close>

definition sbrk_outcome :: "u64 \<Rightarrow> 'a newlib_scheme \<Rightarrow> u64 \<Rightarrow> 'a newlib_scheme \<Rightarrow> bool" where
  "sbrk_outcome incr s r t \<longleftrightarrow>
    (let brk = uint (curr_brk s) + sint incr;
         have_pages = (unat (CURR_NEWLIB_HEAP_END s) - 0x180000000) div 4096 in
     if r = - 1
     then curr_brk t = curr_brk s \<and> (\<exists>core. core_errno t = (core_errno s)[core := ENOMEM])
       \<and> (brk < 0x180000000 \<or> 0x1B8000000 < brk
          \<or> card (free_frames s) < missing s newlib_blocks + (pages_for (curr_brk s + incr) - have_pages))
     else r = curr_brk s \<and> uint (curr_brk t) = brk \<and> core_errno t = core_errno s)"

definition newlib_call :: "'a newlib_scheme \<Rightarrow> 'a newlib_scheme \<Rightarrow> bool" where
  "newlib_call s t \<longleftrightarrow> newlib_inv t \<and> daif t = daif s \<and> (\<forall>c. c \<notin> newlib_range \<longrightarrow> desc_at t c = desc_at s c)
     \<and> (\<exists>es. trace t = trace s @ es \<and> balanced {Newlib_lock, Mmu_lock, Pmm_lock} es)"

lemma newlib_locked:
  assumes "spin_lock Newlib_lock s = (fl, s1)"
  shows "fl = daif s" "newlib_pages n s1 = newlib_pages n s" "curr_brk s1 = curr_brk s" "core_errno s1 = core_errno s"
    "inp s1 = inp s" "free_frames s1 = free_frames s" "missing s1 P = missing s P" "desc_at s1 = desc_at s"
    "MMU_ACTIVE s1 = MMU_ACTIVE s" "owned s1 = owned s"
proof -
  note s1 = lock_state [OF assms]
  have e: "curr_brk (emit es u) = curr_brk u" "core_errno (emit es u) = core_errno u"
    "CURR_NEWLIB_HEAP_END (emit es u) = CURR_NEWLIB_HEAP_END u" for es and u :: "'a newlib_scheme"
    by (simp_all add: emit_def)
  show "fl = daif s" "newlib_pages n s1 = newlib_pages n s" "curr_brk s1 = curr_brk s" "core_errno s1 = core_errno s"
    "inp s1 = inp s" "free_frames s1 = free_frames s" "missing s1 P = missing s P" "desc_at s1 = desc_at s"
    "MMU_ACTIVE s1 = MMU_ACTIVE s" "owned s1 = owned s"
    using s1 by (simp_all add: newlib_pages_def e)
qed

lemma newlib_unlock:
  assumes lk: "spin_lock Newlib_lock s = (fl, s1)" and st: "newlib_step s1 t1" and pg: "newlib_pages n t1"
    and x: "0x180000000 \<le> unat x" "unat x \<le> 0x180000000 + 4096 * n"
  defines "t \<equiv> spin_unlock Newlib_lock fl (t1\<lparr>curr_brk := x\<rparr>)"
  shows "newlib_call s t" "curr_brk t = x" "core_errno t = core_errno t1" "owned t = owned t1"
proof -
  note s1 = lock_state [OF lk] and l = newlib_locked [OF lk]
  have e: "curr_brk (emit es u) = curr_brk u" "core_errno (emit es u) = core_errno u"
    "CURR_NEWLIB_HEAP_END (emit es u) = CURR_NEWLIB_HEAP_END u" for es and u :: "'a newlib_scheme"
    by (simp_all add: emit_def)
  show b: "curr_brk t = x" "core_errno t = core_errno t1" "owned t = owned t1"
    by (simp_all add: t_def unlock_state e)
  have "newlib_pages n t" using pg by (simp add: newlib_pages_def t_def unlock_state e)
  then have "newlib_inv t" by (rule newlib_invI) (simp_all add: b x)
  moreover have "\<forall>c. c \<notin> newlib_range \<longrightarrow> desc_at t c = desc_at s c"
    using st l(8) by (simp add: newlib_step_def t_def unlock_state)
  moreover obtain es where es: "trace t1 = trace s1 @ es" "balanced {Mmu_lock, Pmm_lock} es"
    using st by (auto simp: newlib_step_def)
  have act: "MMU_ACTIVE t1 = MMU_ACTIVE s" using st l(9) by (simp add: newlib_step_def)
  have "\<exists>es. trace t = trace s @ es \<and> balanced {Newlib_lock, Mmu_lock, Pmm_lock} es"
  proof (cases "MMU_ACTIVE s")
    case True
    then have "trace t = trace s @ (Acquire Newlib_lock # es @ [Release Newlib_lock])"
      by (simp add: t_def unlock_state act es(1) s1)
    with balanced_lock [OF es(2), of Newlib_lock] show ?thesis by auto
  next
    case False
    then have "trace t = trace s @ es" by (simp add: t_def unlock_state act es(1) s1)
    with balanced_mono [OF es(2)] show ?thesis by auto
  qed
  ultimately show "newlib_call s t" by (simp add: newlib_call_def t_def unlock_state l(1))
qed

lemma sbrk_negative:
  assumes inv: "newlib_inv s" and in_s: "inp s = v # vs" and neg: "sint incr < 0" "0 \<le> uint (curr_brk s) + sint incr"
  shows "\<exists>r t. sbrk incr s = Some (r, t) \<and> newlib_call s t \<and> sbrk_outcome incr s r t"
proof -
  obtain n where n: "newlib_pages n s" "0x180000000 \<le> unat (curr_brk s)" "unat (curr_brk s) \<le> 0x180000000 + 4096 * n"
    "unat (curr_brk s) \<le> 0x1B8000000" by (rule newlib_invE [OF inv])
  obtain fl s1 where lk: "spin_lock Newlib_lock s = (fl, s1)" by fastforce
  note l = newlib_locked [OF lk]
  have nz: "incr \<noteq> 0" using neg(1) by auto
  define r where "r = curr_brk s + incr"
  have ui: "uint v = int (unat v)" for v :: u64 by simp
  have ub: "uint (curr_brk s) \<le> 0x1B8000000" using n(4) unfolding ui by linarith
  have ur: "uint r = uint (curr_brk s) + sint incr"
  proof -
    have "uint (curr_brk s) + sint incr \<le> 0x1B8000000" using ub neg(1) by linarith
    then show ?thesis unfolding r_def by (intro uint_add_sint [OF neg(2)]) simp
  qed
  have rb: "unat r \<le> unat (curr_brk s)" using ur neg(1) unfolding ui by linarith
  have m1: "curr_brk s \<noteq> - 1"
  proof
    assume "curr_brk s = - 1"
    then have "unat (curr_brk s) = 0xFFFFFFFFFFFFFFFF" by (simp add: unsigned_minus_1_eq_mask mask_eq_exp_minus_1)
    with n(4) show False by simp
  qed
  show ?thesis
  proof (cases "r < NEWLIB_HEAP_BASE")
    case True
    obtain u where u: "set_errno ENOMEM s1 = Some u" "newlib_step s1 u" "newlib_pages n u = newlib_pages n s1"
      "core_errno u = (core_errno s1)[unat v := ENOMEM]"
      using set_errno_step [of s1 v vs] in_s l(5) by metis
    have pu: "newlib_pages n u" using n(1) u(3) l(2) by simp
    note un = newlib_unlock [OF lk u(2) pu n(2,3)]
    have "sbrk incr s = Some (- 1, spin_unlock Newlib_lock fl (u\<lparr>curr_brk := curr_brk s\<rparr>))"
      using True neg(1) nz by (simp add: sbrk_def lk free_sbrk_def l(3) r_def u(1) Let_def)
    moreover have "unat r < 0x180000000" using True by (simp add: word_less_nat_alt unat_NEWLIB)
    then have "uint r < 0x180000000" unfolding ui by linarith
    then have "sbrk_outcome incr s (- 1) (spin_unlock Newlib_lock fl (u\<lparr>curr_brk := curr_brk s\<rparr>))"
      using un(2,3) u(4) l(4) ur by (auto simp: sbrk_outcome_def Let_def)
    ultimately show ?thesis using un(1) by blast
  next
    case False
    then have rl: "0x180000000 \<le> unat r" by (simp add: word_less_nat_alt unat_NEWLIB)
    have rh: "unat r \<le> 0x1B8000000" using rb n(4) by linarith
    obtain u where u: "sbrk_shrink r s1 = Some u" "newlib_pages (min n (pages_for r)) u" "newlib_step s1 u"
      "core_errno u = core_errno s1"
      using sbrk_shrink_step [of n s1 r] n(1) l(2) rl rh by auto
    have "unat r \<le> 0x180000000 + 4096 * min n (pages_for r)"
    proof -
      have "unat r \<le> 0x180000000 + 4096 * n" using rb n(3) by linarith
      moreover have "unat r \<le> 0x180000000 + 4096 * pages_for r" unfolding pages_for_def using rl by linarith
      ultimately show ?thesis by (simp add: min_def)
    qed
    note un = newlib_unlock [OF lk u(3,2) rl this]
    have "sbrk incr s = Some (curr_brk s, spin_unlock Newlib_lock fl (u\<lparr>curr_brk := r\<rparr>))"
      using False neg(1) nz by (simp add: sbrk_def lk free_sbrk_def l(3) r_def [symmetric] u(1) Let_def)
    moreover have "sbrk_outcome incr s (curr_brk s) (spin_unlock Newlib_lock fl (u\<lparr>curr_brk := r\<rparr>))"
      using un(2,3) u(4) l(4) ur m1 by (simp add: sbrk_outcome_def Let_def)
    ultimately show ?thesis using un(1) by blast
  qed
qed

lemma sbrk_positive:
  assumes inv: "newlib_inv s" and in_s: "inp s = v # vs" and pos: "0 < sint incr"
  shows "\<exists>r t. sbrk incr s = Some (r, t) \<and> newlib_call s t \<and> sbrk_outcome incr s r t"
proof -
  obtain n where n: "newlib_pages n s" "0x180000000 \<le> unat (curr_brk s)" "unat (curr_brk s) \<le> 0x180000000 + 4096 * n"
    "n = (unat (CURR_NEWLIB_HEAP_END s) - 0x180000000) div 4096" "unat (curr_brk s) \<le> 0x1B8000000" by (rule newlib_invE [OF inv])
  obtain fl s1 where lk: "spin_lock Newlib_lock s = (fl, s1)" by fastforce
  note l = newlib_locked [OF lk]
  have nz: "incr \<noteq> 0" "\<not> sint incr < 0" using pos by auto
  define r where "r = curr_brk s + incr"
  have ui: "uint v = int (unat v)" for v :: u64 by simp
  have ub: "uint (curr_brk s) \<le> 0x1B8000000" using n(5) unfolding ui by linarith
  have "sint incr < 2 ^ (LENGTH(64) - 1)" by (rule sint_lt)
  then have ur: "uint r = uint (curr_brk s) + sint incr"
    unfolding r_def using ub pos by (intro uint_add_sint) simp_all
  have rb: "unat (curr_brk s) \<le> unat r" using ur pos unfolding ui by linarith
  have m1: "curr_brk s \<noteq> - 1"
  proof
    assume "curr_brk s = - 1"
    then have "unat (curr_brk s) = 0xFFFFFFFFFFFFFFFF" by (simp add: unsigned_minus_1_eq_mask mask_eq_exp_minus_1)
    with n(5) show False by simp
  qed
  have pg1: "newlib_pages n s1" using n(1) l(2) by simp
  show ?thesis
  proof (cases "r > NEWLIB_HEAP_BASE + NEWLIB_HEAP_MAX_SIZE")
    case True
    obtain u where u: "set_errno ENOMEM s1 = Some u" "newlib_step s1 u" "newlib_pages n u = newlib_pages n s1"
      "core_errno u = (core_errno s1)[unat v := ENOMEM]"
      using set_errno_step [of s1 v vs] in_s l(5) by metis
    have cu: "u\<lparr>curr_brk := curr_brk s\<rparr> = u" using u(2) l(3) by (simp add: newlib_step_def)
    have pu: "newlib_pages n u" using pg1 u(3) by simp
    note un = newlib_unlock [OF lk u(2) pu n(2,3), unfolded cu]
    have "sbrk incr s = Some (- 1, spin_unlock Newlib_lock fl u)"
      using True nz by (simp add: sbrk_def lk l(3) r_def u(1) Let_def)
    moreover have "0x1B8000000 < unat r" using True by (simp only: word_less_nat_alt unat_NEWLIB)
    then have "0x1B8000000 < uint r" unfolding ui by linarith
    then have "sbrk_outcome incr s (- 1) (spin_unlock Newlib_lock fl u)"
      using un(2,3) u(4) l(4) ur by (auto simp: sbrk_outcome_def Let_def)
    ultimately show ?thesis using un(1) by blast
  next
    case False
    then have rh: "unat r \<le> 0x1B8000000" by (simp add: word_less_nat_alt unat_NEWLIB)
    have rl: "0x180000000 \<le> unat r" using rb n(2) by linarith
    have i1: "inp s1 \<noteq> []" using in_s l(5) by simp
    obtain b u where g: "sbrk_grow r s1 = Some (b, u)" "sbrk_growth r n s1 b u"
      using sbrk_grow_step [OF pg1 rl rh i1] by blast
    have st: "newlib_step s1 u" using g(2) by (simp add: sbrk_growth_def)
    obtain n' where n': "n \<le> n'" "newlib_pages n' u" "b \<longrightarrow> n' = max n (pages_for r)"
      using g(2) unfolding sbrk_growth_def by blast
    have er: "if b then core_errno u = core_errno s1 else \<exists>core. core_errno u = (core_errno s1)[core := ENOMEM]"
      "missing s newlib_blocks + (pages_for r - n) \<le> card (free_frames s) \<longrightarrow> b"
      using g(2) unfolding sbrk_growth_def l by blast+
    show ?thesis
    proof (cases b)
      case True
      have "unat r \<le> 0x180000000 + 4096 * pages_for r" unfolding pages_for_def using rl by linarith
      then have "unat r \<le> 0x180000000 + 4096 * n'" using n'(3) True by simp
      note un = newlib_unlock [OF lk st n'(2) rl this]
      have cb: "curr_brk u = curr_brk s" using st l(3) by (simp add: newlib_step_def)
      have "sbrk incr s = Some (curr_brk s, spin_unlock Newlib_lock fl (u\<lparr>curr_brk := r\<rparr>))"
        using False nz True g(1) by (simp add: sbrk_def lk l(3) r_def [symmetric] cb Let_def)
      moreover have "sbrk_outcome incr s (curr_brk s) (spin_unlock Newlib_lock fl (u\<lparr>curr_brk := r\<rparr>))"
        using un(2,3) er(1) True l(4) ur m1 by (simp add: sbrk_outcome_def Let_def)
      ultimately show ?thesis using un(1) by blast
    next
      case b: False
      have cu: "u\<lparr>curr_brk := curr_brk s\<rparr> = u" using st l(3) by (simp add: newlib_step_def)
      have "unat (curr_brk s) \<le> 0x180000000 + 4096 * n'" using n(3) n'(1) by linarith
      note un = newlib_unlock [OF lk st n'(2) n(2) this, unfolded cu]
      have "sbrk incr s = Some (- 1, spin_unlock Newlib_lock fl u)"
        using False nz b g(1) by (simp add: sbrk_def lk l(3) r_def [symmetric] Let_def)
      moreover have "card (free_frames s) < missing s newlib_blocks + (pages_for r - n)" using er(2) b by simp
      then have "sbrk_outcome incr s (- 1) (spin_unlock Newlib_lock fl u)"
        using un(2,3) er(1) b l(4) n(4) by (auto simp: sbrk_outcome_def Let_def r_def)
      ultimately show ?thesis using un(1) by blast
    qed
  qed
qed

lemma sbrk_zero:
  assumes inv: "newlib_inv s"
  shows "\<exists>t. sbrk 0 s = Some (curr_brk s, t) \<and> newlib_call s t \<and> curr_brk t = curr_brk s \<and> core_errno t = core_errno s"
proof -
  obtain n where n: "newlib_pages n s" "0x180000000 \<le> unat (curr_brk s)" "unat (curr_brk s) \<le> 0x180000000 + 4096 * n"
    by (rule newlib_invE [OF inv])
  obtain fl s1 where lk: "spin_lock Newlib_lock s = (fl, s1)" by fastforce
  note l = newlib_locked [OF lk]
  have c: "s1\<lparr>curr_brk := curr_brk s\<rparr> = s1" using l(3) by simp
  have "newlib_step s1 s1" by (auto simp: newlib_step_def)
  note un = newlib_unlock [OF lk this _ n(2,3), unfolded c l(2), OF n(1)]
  have "sbrk 0 s = Some (curr_brk s, spin_unlock Newlib_lock fl s1)" by (simp add: sbrk_def lk l(3))
  with un l(4) show ?thesis by auto
qed

lemma sbrk_step:
  assumes "newlib_inv s" "inp s \<noteq> []" "0 \<le> uint (curr_brk s) + sint incr"
  shows "\<exists>r t. sbrk incr s = Some (r, t) \<and> newlib_call s t \<and> sbrk_outcome incr s r t"
proof -
  obtain v vs where v: "inp s = v # vs" using assms(2) by (cases "inp s") auto
  consider "sint incr < 0" | "incr = 0" | "0 < sint incr" using signed_eq_0_iff [of incr] by (metis linorder_neqE)
  then show ?thesis
  proof cases
    case 2
    obtain n where "unat (curr_brk s) \<le> 0x1B8000000" by (rule newlib_invE [OF assms(1)])
    then have "curr_brk s \<noteq> - 1" by (auto simp: unsigned_minus_1_eq_mask mask_eq_exp_minus_1)
    with sbrk_zero [OF assms(1)] show ?thesis unfolding 2 by (auto simp: sbrk_outcome_def Let_def)
  qed (use sbrk_negative [OF assms(1) v] sbrk_positive [OF assms(1) v] assms(3) in blast)+
qed

text \<open>
  The hypothesis on the increment is needed: a decrement beyond zero wraps, passes the test
  against the base of the heap and leaves the break outside of it.
\<close>

lemma sbrk_wraps:
  assumes "newlib_pages 0 s" "curr_brk s = NEWLIB_HEAP_BASE" "sint incr = - 0x200000000"
  shows "\<exists>t. sbrk incr s = Some (NEWLIB_HEAP_BASE, t) \<and> 0x1B8000000 < unat (curr_brk t)"
proof -
  obtain fl s1 where lk: "spin_lock Newlib_lock s = (fl, s1)" by fastforce
  note l = newlib_locked [OF lk]
  have "incr = - 0x200000000" 
  proof -
    have "incr = of_int (sint incr)" by simp
    also have "\<dots> = - 0x200000000" unfolding assms(3) by simp
    finally show ?thesis .
  qed
  then have r: "curr_brk s + incr = 0xFFFFFFFF80000000" "incr \<noteq> 0" using assms(2) by (simp_all add: NEWLIB_HEAP_BASE_def)
  have e: "CURR_NEWLIB_HEAP_END s1 = NEWLIB_HEAP_BASE"
    using newlib_pagesD(3) [of 0 s1] assms(1) l(2) by (simp add: page_def)
  have "round_up 0xFFFFFFFF80000000 PAGE_SIZE = 0xFFFFFFFF80000000" by (simp add: round_up_def PAGE_SIZE_def)
  then have sh: "sbrk_shrink 0xFFFFFFFF80000000 s1 = Some s1"
    by (subst sbrk_shrink.simps) (simp add: e NEWLIB_HEAP_BASE_def)
  have r1: "NEWLIB_HEAP_BASE + incr = 0xFFFFFFFF80000000" using r(1) assms(2) by simp
  have c: "\<not> 0xFFFFFFFF80000000 < NEWLIB_HEAP_BASE" by (simp add: NEWLIB_HEAP_BASE_def)
  have "sbrk incr s = Some (NEWLIB_HEAP_BASE, spin_unlock Newlib_lock fl (s1\<lparr>curr_brk := 0xFFFFFFFF80000000\<rparr>))"
    using assms(3) r(2) c by (simp add: sbrk_def lk free_sbrk_def Let_def l(3) r1 sh assms(2))
  moreover have "curr_brk (emit es u) = curr_brk u" for es and u :: "'a newlib_scheme" by (simp add: emit_def)
  then have "curr_brk (spin_unlock Newlib_lock fl (s1\<lparr>curr_brk := 0xFFFFFFFF80000000\<rparr>)) = 0xFFFFFFFF80000000"
    by (simp add: unlock_state)
  ultimately show ?thesis by simp
qed

text \<open>Successive blocks do not overlap; a request is an increment and the core that makes it.\<close>

definition sbrk_block :: "u64 \<times> u64 \<Rightarrow> 'a newlib_scheme \<Rightarrow> u64 option \<times> 'a newlib_scheme" where
  "sbrk_block = (\<lambda>(incr, core) s. case sbrk incr (s\<lparr>inp := [core]\<rparr>) of
     None \<Rightarrow> (None, s) | Some (p, t) \<Rightarrow> (if p = - 1 then None else Some p, t))"

lemma newlib_inv_inp: "newlib_inv (s\<lparr>inp := x\<rparr>) = newlib_inv s"
  by (simp add: newlib_inv_def newlib_pages_def)

lemma sbrk_block_step:
  assumes "newlib_inv s" "0 < sint (fst q)"
  shows "\<exists>r t. sbrk_block q s = (if r = - 1 then None else Some r, t) \<and> newlib_inv t
    \<and> (if r = - 1 then curr_brk t = curr_brk s
       else r = curr_brk s \<and> uint (curr_brk t) = uint (curr_brk s) + sint (fst q))"
proof -
  let ?s = "s\<lparr>inp := [snd q]\<rparr>"
  have i: "newlib_inv ?s" "inp ?s \<noteq> []" using assms(1) by (simp_all add: newlib_inv_inp)
  have "0 \<le> uint (curr_brk ?s) + sint (fst q)" using assms(2) uint_ge_0 [of "curr_brk s"] by simp
  then obtain r t where "sbrk (fst q) ?s = Some (r, t)" "newlib_call ?s t" "sbrk_outcome (fst q) ?s r t"
    using sbrk_step [OF i] by blast
  then show ?thesis
    by (intro exI [of _ r] exI [of _ t])
      (auto simp: sbrk_block_def split_beta newlib_call_def sbrk_outcome_def Let_def split: if_splits)
qed

interpretation newlib_heap: bump_allocator
  "newlib_inv :: 'a newlib_scheme \<Rightarrow> bool" "\<lambda>q. 0 < sint (fst q)" "\<lambda>q. unat (fst q)"
  "\<lambda>s. unat (curr_brk s)" "0x1B8000000" sbrk_block
proof
  fix s :: "'a newlib_scheme" and q :: "u64 \<times> u64" and a :: u64
  assume s: "newlib_inv s"
  show "unat (curr_brk s) \<le> 0x1B8000000" by (rule newlib_invE [OF s])
  assume q: "0 < sint (fst q)"
  obtain r t where st: "sbrk_block q s = (if r = - 1 then None else Some r, t)" "newlib_inv t"
    "if r = - 1 then curr_brk t = curr_brk s else r = curr_brk s \<and> uint (curr_brk t) = uint (curr_brk s) + sint (fst q)"
    using sbrk_block_step [OF s q] by blast
  show "newlib_inv (snd (sbrk_block q s))" using st by simp
  show "unat (curr_brk (snd (sbrk_block q s))) = unat (curr_brk s)" if "fst (sbrk_block q s) = None"
    using that st by (simp split: if_splits)
  show "unat a = unat (curr_brk s) \<and> unat (curr_brk s) + unat (fst q) \<le> unat (curr_brk (snd (sbrk_block q s)))"
    if "fst (sbrk_block q s) = Some a"
  proof -
    have a: "a = curr_brk s" "uint (curr_brk t) = uint (curr_brk s) + sint (fst q)" using that st by (simp_all split: if_splits)
    have ui: "uint v = int (unat v)" for v :: u64 by simp
    have "sint (fst q) < 2 ^ (LENGTH(64) - 1)" by (rule sint_lt)
    then have "sint (fst q) = uint (fst q)"
      unfolding uint_sint using q by (intro take_bit_int_eq_self [symmetric]) simp_all
    then have "unat (curr_brk t) = unat (curr_brk s) + unat (fst q)" using a(2) unfolding ui by linarith
    then show ?thesis using a(1) st(1) by simp
  qed
qed

section \<open>Properties\<close>

definition newlib_small :: "u64 list \<Rightarrow> newlib" where
  "newlib_small vs = screen.extend (screen_off\<lparr>inp := vs\<rparr>)
     \<lparr>curr_brk = NEWLIB_HEAP_BASE, CURR_NEWLIB_HEAP_END = NEWLIB_HEAP_BASE, core_errno = [0, 0, 0, 0]\<rparr>"

lemma newlib_small: "newlib_inv (newlib_small vs)" "inp (newlib_small vs) = vs" "curr_brk (newlib_small vs) = NEWLIB_HEAP_BASE"
proof -
  have f: "mem (newlib_small vs) = mem screen_off" "bitmap (newlib_small vs) = bitmap screen_off"
    "phys_mem_start (newlib_small vs) = phys_mem_start screen_off" "total_frames (newlib_small vs) = total_frames screen_off"
    "l1_table (newlib_small vs) = l1_table screen_off"
    by (simp_all add: newlib_small_def screen.defs)
  show b: "curr_brk (newlib_small vs) = NEWLIB_HEAP_BASE" "inp (newlib_small vs) = vs"
    by (simp_all add: newlib_small_def screen.defs)
  have "newlib_pages 0 (newlib_small vs)"
    by (simp add: newlib_pages_def same_tables [OF f] screen_off page_def) (simp add: newlib_small_def screen.defs)
  then show "newlib_inv (newlib_small vs)" by (rule newlib_invI) (simp_all add: b unat_NEWLIB)
qed



end
