(* ===== verification/Sd.thy ===== *)
theory Sd
  imports Newlib
begin

text \<open>
  The SD card driver (\<open>src/sd/sd.cpp\<close>, \<open>include/sd/sd.h\<close>): the SDHCI registers are the
  environment's, the buffer of a transfer is the function from the offset to the byte at
  \<open>buf[offset]\<close>. An out parameter is a result: \<open>Some r\<close> when the call stores \<open>r\<close> through the pointer.
  The constructor \<open>NoResponse\<close> is \<open>SDResponseType::None\<close>.
\<close>

section \<open>Commands and results\<close>

datatype SDResponseType = NoResponse | R1 | R1b | R2 | R3 | R4 | R6 | R7

datatype SDCommand = CMD0 | CMD2 | CMD3 | CMD5 | CMD6 | CMD7 | CMD8 | CMD9 | CMD10 | CMD11 | CMD12
  | CMD13 | CMD16 | CMD17 | CMD18 | CMD24 | CMD25 | CMD55

datatype SDAppCommand = ACMD6 | ACMD41

datatype SDCommandStatus = Success | Timeout | CrcError | IndexError | NotExpected
  | DataTimeoutError | DataCrcError | DataEndBitError

text \<open>The underlying values of the two enumerations of commands.\<close>

fun command_index :: "SDCommand \<Rightarrow> u8" where
  "command_index CMD0 = 0" | "command_index CMD2 = 2" | "command_index CMD3 = 3"
| "command_index CMD5 = 5" | "command_index CMD6 = 6" | "command_index CMD7 = 7"
| "command_index CMD8 = 8" | "command_index CMD9 = 9" | "command_index CMD10 = 10"
| "command_index CMD11 = 11" | "command_index CMD12 = 12" | "command_index CMD13 = 13"
| "command_index CMD16 = 16" | "command_index CMD17 = 17" | "command_index CMD18 = 18"
| "command_index CMD24 = 24" | "command_index CMD25 = 25" | "command_index CMD55 = 55"

fun app_command_index :: "SDAppCommand \<Rightarrow> u8" where
  "app_command_index ACMD6 = 6" | "app_command_index ACMD41 = 41"

record sd = newlib +
  base_clock :: u64
  cid :: "u32 list"
  rca :: u16
  ccs :: u32
  card_inserted :: u32

section \<open>Waiting with a time limit\<close>

text \<open>\<open>while (!ready) { if (ticks_elapsed_ms(start, ms)) return false; } return true;\<close>\<close>

partial_function (option) wait_timed ::
  "('s io_scheme \<Rightarrow> (bool \<times> 's io_scheme) option) \<Rightarrow> u64 \<Rightarrow> u64 \<Rightarrow> 's io_scheme \<Rightarrow> (bool \<times> 's io_scheme) option" where
  "wait_timed test start ms s = do {
     (r, s) \<leftarrow> test s;
     if r then Some (True, s)
     else do {
       (e, s) \<leftarrow> ticks_elapsed_ms start ms s;
       if e then Some (False, s) else wait_timed test start ms s } }"

declare wait_timed.simps [code]

definition clock_stable :: "'a io_scheme \<Rightarrow> (bool \<times> 'a io_scheme) option" where
  "clock_stable s = do { (v, s) \<leftarrow> mmio_read16 CLOCK_CONTROL_SDIO0 s; Some (drop_bit 1 v AND 1 \<noteq> 0, s) }"

definition reset_cleared :: "u8 \<Rightarrow> 'a io_scheme \<Rightarrow> (bool \<times> 'a io_scheme) option" where
  "reset_cleared bits s = do { (v, s) \<leftarrow> mmio_read8 SOFTWARE_RESET_SDIO0 s; Some (v AND bits = 0, s) }"

definition sdio_wait_clock_stable :: "'a io_scheme \<Rightarrow> (bool \<times> 'a io_scheme) option" where
  "sdio_wait_clock_stable s = do {
     (start, s) \<leftarrow> get_ticks s;
     (ok, s) \<leftarrow> wait_timed clock_stable start 150 s;
     if ok then Some (True, s)
     else do {
       s \<leftarrow> uart_puts (ascii ''[SDIO] error: Internal Clock Stable never asserted after 150ms. CLOCK_CONTROL: '') s;
       (v, s) \<leftarrow> mmio_read16 CLOCK_CONTROL_SDIO0 s;
       s \<leftarrow> uart_put_hex (ucast v) s;
       s \<leftarrow> uart_puts crlf s;
       Some (False, s) } }"

definition sdio_reset_cmd_line :: "'a io_scheme \<Rightarrow> (bool \<times> 'a io_scheme) option" where
  "sdio_reset_cmd_line s = do {
     let s = mmio_write8 SOFTWARE_RESET_SDIO0 (push_bit 1 1) s;
     (start, s) \<leftarrow> get_ticks s;
     (ok, s) \<leftarrow> wait_timed (reset_cleared (push_bit 1 1)) start 100 s;
     if ok then Some (True, s)
     else do {
       s \<leftarrow> uart_puts (ascii ''[SDIO] error: Software Reset For CMD Line never cleared after 100ms. SOFTWARE_RESET: '') s;
       (v, s) \<leftarrow> mmio_read8 SOFTWARE_RESET_SDIO0 s;
       s \<leftarrow> uart_put_hex (ucast v) s;
       s \<leftarrow> uart_puts crlf s;
       Some (False, s) } }"

definition sdio_reset_dat_line :: "'a io_scheme \<Rightarrow> (bool \<times> 'a io_scheme) option" where
  "sdio_reset_dat_line s = do {
     let s = mmio_write8 SOFTWARE_RESET_SDIO0 (push_bit 2 1) s;
     (start, s) \<leftarrow> get_ticks s;
     (ok, s) \<leftarrow> wait_timed (reset_cleared (push_bit 2 1)) start 100 s;
     if ok then Some (True, s)
     else do {
       s \<leftarrow> uart_puts (ascii ''[SDIO] error: Software Reset For DAT Line never cleared after 100ms. SOFTWARE_RESET: '') s;
       (v, s) \<leftarrow> mmio_read8 SOFTWARE_RESET_SDIO0 s;
       s \<leftarrow> uart_put_hex (ucast v) s;
       s \<leftarrow> uart_puts crlf s;
       Some (False, s) } }"

section \<open>The clock\<close>

definition sdio_pinctrl_init :: "'a io_scheme \<Rightarrow> 'a io_scheme option" where
  "sdio_pinctrl_init s = do {
     (pull_reg, s) \<leftarrow> mmio_read PINCTRL_EMMC_PULL_REG s;
     let pull_reg = (pull_reg AND NOT PINCTRL_EMMC_CMD_DAT_MASK) OR PINCTRL_EMMC_CMD_DAT_PULLUP;
     Some (mmio_write PINCTRL_EMMC_PULL_REG pull_reg s) }"

definition sdio_cfg_select_sd_pin_timing :: "'a io_scheme \<Rightarrow> 'a io_scheme option" where
  "sdio_cfg_select_sd_pin_timing s = do {
     (pin_sel, s) \<leftarrow> mmio_read SDIO_CFG_SD_PIN_SEL s;
     let pin_sel = (pin_sel AND NOT SDIO_CFG_SD_PIN_SEL_MASK) OR SDIO_CFG_SD_PIN_SEL_SD;
     Some (mmio_write SDIO_CFG_SD_PIN_SEL pin_sel s) }"

text \<open>A read-modify-write of \<open>CLOCK_CONTROL\<close>, and the divisor field.\<close>

definition update_clock :: "(u16 \<Rightarrow> u16) \<Rightarrow> 'a io_scheme \<Rightarrow> 'a io_scheme option" where
  "update_clock f s = do {
     (init_value, s) \<leftarrow> mmio_read16 CLOCK_CONTROL_SDIO0 s;
     Some (mmio_write16 CLOCK_CONTROL_SDIO0 (f init_value) s) }"

definition clock_divisor :: "u64 \<Rightarrow> u64" where
  "clock_divisor base = (let target_clock = 2 * 400000 in (base + target_clock - 1) div target_clock)"

definition base_clock_mhz :: "u32 \<Rightarrow> u32" where
  "base_clock_mhz capabilities = drop_bit 8 capabilities AND 0xFF"

definition sdio_clock_init :: "'a sd_scheme \<Rightarrow> (bool \<times> 'a sd_scheme) option" where
  "sdio_clock_init s = do {
     let s = mmio_write8 SOFTWARE_RESET_SDIO0 1 s;
     (reset_start, s) \<leftarrow> get_ticks s;
     (ok, s) \<leftarrow> wait_timed (reset_cleared 1) reset_start 100 s;
     if \<not> ok then do {
       s \<leftarrow> uart_puts (ascii ''[SDIO] error: Software Reset For All never cleared after 100ms.'' @ crlf) s;
       Some (False, s) }
     else do {
     s \<leftarrow> sdio_pinctrl_init s;
     s \<leftarrow> sdio_cfg_select_sd_pin_timing s;
     (present, s) \<leftarrow> mmio_read PRESENT_STATE_SDIO0 s;
     let s = s\<lparr>card_inserted := drop_bit 16 present AND 1\<rparr>;
     if card_inserted s = 0 then do {
       s \<leftarrow> uart_puts (ascii ''[SDIO] error: Card Inserted bit reads 0; no card detected (or card-detect logic is wrong for this controller).'' @ crlf) s;
       Some (False, s) }
     else do {
     (capabilities, s) \<leftarrow> mmio_read CAPABILITIES1_SDIO0 s;
     let s = mmio_write8 POWER_CONTROL_SDIO0 0x0F s;
     let s = mmio_write16 NORMAL_INTERRUPT_STATUS_ENABLE_SDIO0 0xFFFF s;
     let s = mmio_write16 ERROR_INTERRUPT_STATUS_ENABLE_SDIO0 0xFFFF s;
     (version, s) \<leftarrow> mmio_read16 HOST_CONTROLLER_VERSION_SDIO0 s;
     let version_val = drop_bit 8 (version AND 0xFF00);
     let mhz = base_clock_mhz capabilities;
     s \<leftarrow> (if version_val < 0x02 \<and> mhz > 0x3F
           then uart_puts (ascii ''[SDIO] warning: BCF may not be supported, or sdio_init implementation is incorrect.'') s
           else Some s);
     (mhz, s) \<leftarrow> (if mhz = 0 then do {
            s \<leftarrow> uart_puts (ascii ''[SDIO] Base Clock Frequency read as 0; using BCM2712'' @ [39] @
                   ascii ''s known fixed 200MHz clk_emmc2 clock.'' @ crlf) s;
            Some (200, s) }
          else Some (mhz, s));
     let s = s\<lparr>base_clock := ucast mhz * 1000000\<rparr>;
     let divisor = clock_divisor (base_clock s);
     s \<leftarrow> update_clock (\<lambda>v. (v AND NOT 0xFF00) OR ucast (push_bit 8 (divisor AND 0xFF))) s;
     s \<leftarrow> update_clock (\<lambda>v. v AND NOT (push_bit 5 1)) s;
     s \<leftarrow> update_clock (\<lambda>v. v OR 1) s;
     (ok, s) \<leftarrow> sdio_wait_clock_stable s;
     if \<not> ok then Some (False, s)
     else do {
     s \<leftarrow> update_clock (\<lambda>v. v OR push_bit 3 1) s;
     (ok, s) \<leftarrow> sdio_wait_clock_stable s;
     if \<not> ok then Some (False, s)
     else do {
     s \<leftarrow> update_clock (\<lambda>v. v OR push_bit 2 1) s;
     Some (True, s) } } } } }"

section \<open>Issuing commands\<close>

definition response_bits :: "SDResponseType \<Rightarrow> u16" where
  "response_bits response_type = (case response_type of
     NoResponse \<Rightarrow> 0
   | R2 \<Rightarrow> push_bit 3 1 OR 0x1
   | R3 \<Rightarrow> 0x2 | R4 \<Rightarrow> 0x2
   | R1 \<Rightarrow> (push_bit 4 1 OR push_bit 3 1) OR 0x2
   | R6 \<Rightarrow> (push_bit 4 1 OR push_bit 3 1) OR 0x2
   | R7 \<Rightarrow> (push_bit 4 1 OR push_bit 3 1) OR 0x2
   | R1b \<Rightarrow> (push_bit 4 1 OR push_bit 3 1) OR 0x3)"

definition command_val :: "u8 \<Rightarrow> SDResponseType \<Rightarrow> u16" where
  "command_val cmd response_type = push_bit 8 (ucast cmd AND 0x3F) OR response_bits response_type"

definition read_status :: "'a io_scheme \<Rightarrow> ((u16 \<times> u16) \<times> 'a io_scheme) option" where
  "read_status s = do {
     (normal_status, s) \<leftarrow> mmio_read16 NORMAL_INTERRUPT_STATUS_SDIO0 s;
     (error_status, s) \<leftarrow> mmio_read16 ERROR_INTERRUPT_STATUS_SDIO0 s;
     Some ((normal_status, error_status), s) }"

text \<open>\<open>do { read both } while ((normal_status & bits) == 0 && error_status == 0)\<close>\<close>

definition wait_status :: "u16 \<Rightarrow> 'a io_scheme \<Rightarrow> ((u16 \<times> u16) \<times> 'a io_scheme) option" where
  "wait_status bits = poll_until read_status (\<lambda>(n, e). \<not> (n AND bits = 0 \<and> e = 0))"

definition set_argument :: "u32 \<Rightarrow> 'a io_scheme \<Rightarrow> 'a io_scheme" where
  "set_argument argument s =
     mmio_write16 ARGUMENT_HIGH_SDIO0 (ucast (drop_bit 16 argument AND 0xFFFF))
       (mmio_write16 ARGUMENT_LOW_SDIO0 (ucast (argument AND 0xFFFF)) s)"

definition command_error :: "u16 \<Rightarrow> SDCommandStatus" where
  "command_error e = (if e AND push_bit 1 1 \<noteq> 0 then CrcError
     else if e AND push_bit 3 1 \<noteq> 0 then IndexError else Timeout)"

text \<open>The command complete part: acknowledge it and fetch the response where one is wanted.\<close>

definition take_response :: "SDResponseType \<Rightarrow> bool \<Rightarrow> 'a io_scheme \<Rightarrow> (u32 option \<times> 'a io_scheme) option" where
  "take_response response_type response_out s = do {
     let s = mmio_write16 NORMAL_INTERRUPT_STATUS_SDIO0 1 s;
     if response_out \<and> response_type \<noteq> NoResponse
     then do { (r, s) \<leftarrow> mmio_read RESPONSE0_SDIO0 s; Some (Some r, s) }
     else Some (None, s) }"

definition issue_command ::
  "u8 \<Rightarrow> u32 \<Rightarrow> SDResponseType \<Rightarrow> bool \<Rightarrow> 'a io_scheme \<Rightarrow> (SDCommandStatus \<times> u32 option \<times> 'a io_scheme) option" where
  "issue_command cmd argument response_type response_out s = do {
     (_, s) \<leftarrow> poll_until (mmio_read PRESENT_STATE_SDIO0) (\<lambda>v. v AND 1 \<noteq> 1) s;
     let s = set_argument argument s;
     let s = mmio_write16 COMMAND_SDIO0 (command_val cmd response_type) s;
     ((normal_status, error_status), s) \<leftarrow> wait_status 1 s;
     if error_status \<noteq> 0 then do {
       let s = mmio_write16 ERROR_INTERRUPT_STATUS_SDIO0 error_status s;
       (_, s) \<leftarrow> sdio_reset_cmd_line s;
       s \<leftarrow> uart_puts (ascii ''[SDIO] command error: cmd='') s;
       s \<leftarrow> uart_put_hex (ucast cmd) s;
       s \<leftarrow> uart_puts (ascii '' ERROR_INTERRUPT_STATUS='') s;
       s \<leftarrow> uart_put_hex (ucast error_status) s;
       s \<leftarrow> uart_puts crlf s;
       Some (command_error error_status, None, s) }
     else do {
       (r, s) \<leftarrow> take_response response_type response_out s;
       Some (Success, r, s) } }"

definition sd_command ::
  "SDCommand \<Rightarrow> u32 \<Rightarrow> SDResponseType \<Rightarrow> bool \<Rightarrow> 'a io_scheme \<Rightarrow> (SDCommandStatus \<times> u32 option \<times> 'a io_scheme) option" where
  "sd_command cmd = issue_command (command_index cmd)"

text \<open>The content of the variable behind an out parameter after the call.\<close>

definition stored :: "u32 \<Rightarrow> u32 option \<Rightarrow> u32" where
  "stored old r = (case r of None \<Rightarrow> old | Some v \<Rightarrow> v)"

definition sd_app_command ::
  "SDAppCommand \<Rightarrow> u32 \<Rightarrow> SDResponseType \<Rightarrow> bool \<Rightarrow> 'a io_scheme \<Rightarrow> (SDCommandStatus \<times> u32 option \<times> 'a io_scheme) option" where
  "sd_app_command cmd argument response_type response_out s = do {
     (status, r, s) \<leftarrow> sd_command CMD55 0 R1 True s;
     if status \<in> {CrcError, IndexError, Timeout} then Some (status, None, s)
     else if drop_bit 5 (stored 0 r) AND 1 = 0 then Some (NotExpected, None, s)
     else issue_command (app_command_index cmd) argument response_type response_out s }"


section \<open>Data transfers\<close>

definition bus_free :: "'a io_scheme \<Rightarrow> (bool \<times> 'a io_scheme) option" where
  "bus_free s = do {
     (v, s) \<leftarrow> mmio_read PRESENT_STATE_SDIO0 s;
     if v AND 1 = 1 then Some (False, s)
     else do { (w, s) \<leftarrow> mmio_read PRESENT_STATE_SDIO0 s; Some (drop_bit 1 w AND 1 \<noteq> 1, s) } }"

definition transfer_mode :: "bool \<Rightarrow> u16 \<Rightarrow> u16 \<Rightarrow> u16" where
  "transfer_mode is_read block_count v =
     (let v = (if is_read then v OR push_bit 4 1 else v AND NOT (push_bit 4 1));
          v = (if block_count > 1 then v OR push_bit 5 1 else v AND NOT (push_bit 5 1));
          v = v AND NOT (push_bit 2 3);
          v = (if block_count > 1 then v OR push_bit 2 1 else v);
          v = v OR push_bit 1 1
      in v AND NOT 1)"

definition data_error :: "u16 \<Rightarrow> SDCommandStatus" where
  "data_error e = (if e AND push_bit 5 1 \<noteq> 0 then DataCrcError
     else if e AND push_bit 6 1 \<noteq> 0 then DataEndBitError else DataTimeoutError)"

text \<open>
  A wait of the data phase: for the buffer at the start of a block, and for the end of the
  transfer. \<open>Some err\<close> makes \<open>_send_data_command\<close> return.
\<close>

definition data_wait :: "u16 \<Rightarrow> 'a io_scheme \<Rightarrow> (SDCommandStatus option \<times> 'a io_scheme) option" where
  "data_wait bits s = do {
     ((normal_status, error_status), s) \<leftarrow> wait_status bits s;
     if error_status \<noteq> 0 then do {
       let s = mmio_write16 ERROR_INTERRUPT_STATUS_SDIO0 error_status s;
       (_, s) \<leftarrow> sdio_reset_dat_line s;
       Some (Some (data_error error_status), s) }
     else Some (None, mmio_write16 NORMAL_INTERRUPT_STATUS_SDIO0 bits s) }"

type_synonym bytes = "u32 \<Rightarrow> u8"

definition put_bytes :: "u32 \<Rightarrow> u32 \<Rightarrow> bytes \<Rightarrow> bytes" where
  "put_bytes offset data buf = buf(
     offset + 0 := ucast (data AND 0xFF),
     offset + 1 := ucast (drop_bit 8 data AND 0xFF),
     offset + 2 := ucast (drop_bit 16 data AND 0xFF),
     offset + 3 := ucast (drop_bit 24 data AND 0xFF))"

definition get_bytes :: "u32 \<Rightarrow> bytes \<Rightarrow> u32" where
  "get_bytes offset buf =
     ((ucast (buf (offset + 0)) OR push_bit 8 (ucast (buf (offset + 1))))
      OR push_bit 16 (ucast (buf (offset + 2)))) OR push_bit 24 (ucast (buf (offset + 3)))"

definition transfer_word :: "bool \<Rightarrow> u32 \<Rightarrow> bytes \<Rightarrow> 'a io_scheme \<Rightarrow> (bytes \<times> 'a io_scheme) option" where
  "transfer_word is_read i buf s = (let offset = i * 4 in
     if is_read then do {
       (data, s) \<leftarrow> mmio_read BUFFER_DATA_0_SDIO0 s;
       Some (put_bytes offset data buf, s) }
     else Some (buf, mmio_write BUFFER_DATA_0_SDIO0 (get_bytes offset buf) s))"

text \<open>The loop over the words \<open>i, i + 1, ...\<close>; the first argument counts the words left.\<close>

fun transfer_loop :: "nat \<Rightarrow> u16 \<Rightarrow> bool \<Rightarrow> u32 \<Rightarrow> bytes \<Rightarrow> 'a io_scheme \<Rightarrow>
    (SDCommandStatus option \<times> bytes \<times> 'a io_scheme) option" where
  "transfer_loop 0 ready_bit is_read i buf s = Some (None, buf, s)"
| "transfer_loop (Suc n) ready_bit is_read i buf s = do {
     (err, s) \<leftarrow> (if i mod 128 = 0 then data_wait ready_bit s else Some (None, s));
     if err \<noteq> None then Some (err, buf, s)
     else do {
       (buf, s) \<leftarrow> transfer_word is_read i buf s;
       transfer_loop n ready_bit is_read (i + 1) buf s } }"

definition send_data_command ::
  "SDCommand \<Rightarrow> u32 \<Rightarrow> SDResponseType \<Rightarrow> u16 \<Rightarrow> bool \<Rightarrow> bytes \<Rightarrow> bool \<Rightarrow> 'a io_scheme \<Rightarrow>
    (SDCommandStatus \<times> u32 option \<times> bytes \<times> 'a io_scheme) option" where
  "send_data_command cmd argument response_type block_count is_read buf response_out s = do {
     (_, s) \<leftarrow> poll_until bus_free (\<lambda>free. free) s;
     (block_size, s) \<leftarrow> mmio_read16 BLOCK_SIZE_SDIO0 s;
     let s = mmio_write16 BLOCK_SIZE_SDIO0 ((block_size AND NOT 0xFFF) OR 0x200) s;
     let s = mmio_write16 BLOCK_COUNT_SDIO0 block_count s;
     let s = set_argument argument s;
     (mode, s) \<leftarrow> mmio_read16 TRANSFER_MODE_SDIO0 s;
     let s = mmio_write16 TRANSFER_MODE_SDIO0 (transfer_mode is_read block_count mode) s;
     let s = mmio_write16 COMMAND_SDIO0 (command_val (command_index cmd) response_type OR push_bit 5 1) s;
     ((normal_status, error_status), s) \<leftarrow> wait_status 1 s;
     if error_status \<noteq> 0 then do {
       let s = mmio_write16 ERROR_INTERRUPT_STATUS_SDIO0 error_status s;
       (_, s) \<leftarrow> sdio_reset_cmd_line s;
       Some (command_error error_status, None, buf, s) }
     else do {
       (r, s) \<leftarrow> take_response response_type response_out s;
       let total_words = (ucast block_count * 128 :: u32);
       let ready_bit = (if is_read then push_bit 5 1 else push_bit 4 1);
       (err, buf, s) \<leftarrow> transfer_loop (unat total_words) ready_bit is_read 0 buf s;
       case err of Some e \<Rightarrow> Some (e, r, buf, s)
       | None \<Rightarrow> do {
           (err, s) \<leftarrow> data_wait (push_bit 1 1) s;
           case err of Some e \<Rightarrow> Some (e, r, buf, s) | None \<Rightarrow> Some (Success, r, buf, s) } } }"

section \<open>Identification\<close>

text \<open>The CID of the result is the content of \<open>cid_out\<close> after the call.\<close>

definition sdio_read_cid :: "u32 list \<Rightarrow> 'a io_scheme \<Rightarrow> (SDCommandStatus \<times> u32 list \<times> 'a io_scheme) option" where
  "sdio_read_cid cid_out s = do {
     (status, r, s) \<leftarrow> sd_command CMD2 0 R2 True s;
     let cid_out = cid_out[0 := stored (cid_out ! 0) r];
     if status \<noteq> Success then Some (status, cid_out, s)
     else do {
       (w1, s) \<leftarrow> mmio_read RESPONSE2_SDIO0 s;
       (w2, s) \<leftarrow> mmio_read RESPONSE4_SDIO0 s;
       (w3, s) \<leftarrow> mmio_read RESPONSE6_SDIO0 s;
       Some (Success, cid_out[1 := w1, 2 := w2, 3 := w3], s) } }"

definition sdio_finish_identification :: "'a sd_scheme \<Rightarrow> (bool \<times> 'a sd_scheme) option" where
  "sdio_finish_identification s = do {
     (status, c, s) \<leftarrow> sdio_read_cid (cid s) s;
     let s = s\<lparr>cid := c\<rparr>;
     if status \<noteq> Success then Some (False, s)
     else do {
     (status, r, s) \<leftarrow> sd_command CMD3 0 R6 True s;
     if status \<noteq> Success then Some (False, s)
     else do {
     let s = s\<lparr>rca := ucast (drop_bit 16 (stored 0 r) AND 0xFFFF)\<rparr>;
     (status, r, s) \<leftarrow> sd_command CMD7 (push_bit 16 (ucast (rca s))) R1b True s;
     if status \<noteq> Success then Some (False, s)
     else do {
     (status, r, s) \<leftarrow> sd_command CMD16 512 R1 True s;
     Some (status = Success, s) } } } }"

text \<open>The first argument counts the attempts left; \<open>f8\<close> is the content of the out parameter.\<close>

fun identify_attempts :: "nat \<Rightarrow> int \<Rightarrow> 'a sd_scheme \<Rightarrow> (bool \<times> int \<times> 'a sd_scheme) option" where
  "identify_attempts 0 f8 s = Some (False, f8, s)"
| "identify_attempts (Suc n) f8 s = do {
     (_, _, s) \<leftarrow> sd_command CMD0 0 NoResponse False s;
     (cmd8_status, r, s) \<leftarrow> sd_command CMD8 0x000001AA R7 True s;
     if cmd8_status = Timeout then Some (True, 0, s)
     else if cmd8_status = CrcError \<or> cmd8_status = IndexError then do {
       (ok, s) \<leftarrow> sdio_clock_init s;
       if \<not> ok then Some (False, f8, s) else identify_attempts n f8 s }
     else let response = stored 0 r;
              voltage_accepted = drop_bit 8 response AND 0xF;
              echoed_pattern = response AND 0xFF
          in Some (voltage_accepted = 0b0001 \<and> echoed_pattern = 0xAA, f8, s) }"

definition sdio_identify_stage1 :: "int \<Rightarrow> 'a sd_scheme \<Rightarrow> (bool \<times> int \<times> 'a sd_scheme) option" where
  "sdio_identify_stage1 = identify_attempts 2"

text \<open>\<open>response\<close> is the content of \<open>*response_out\<close>.\<close>

partial_function (option) acmd41_loop ::
  "u64 \<Rightarrow> u32 \<Rightarrow> u32 \<Rightarrow> 'a io_scheme \<Rightarrow> (bool \<times> u32 \<times> 'a io_scheme) option" where
  "acmd41_loop start_ticks ocr_argument response s = do {
     (e, s) \<leftarrow> ticks_elapsed_ms start_ticks 1000 s;
     if e then Some (False, response, s)
     else do {
       (status, r, s) \<leftarrow> sd_app_command ACMD41 ocr_argument R3 True s;
       let response = stored response r;
       if status \<in> {CrcError, IndexError, Timeout} then Some (False, response, s)
       else if drop_bit 31 response AND 1 = 0 then acmd41_loop start_ticks ocr_argument response s
       else Some (True, response, s) } }"

declare acmd41_loop.simps [code]

definition sdio_acmd41_poll :: "u32 \<Rightarrow> u32 \<Rightarrow> 'a io_scheme \<Rightarrow> (bool \<times> u32 \<times> 'a io_scheme) option" where
  "sdio_acmd41_poll ocr_argument response s = do {
     (start_ticks, s) \<leftarrow> get_ticks s;
     acmd41_loop start_ticks ocr_argument response s }"

definition dat_level :: "'a io_scheme \<Rightarrow> (u32 \<times> 'a io_scheme) option" where
  "dat_level s = do { (v, s) \<leftarrow> mmio_read PRESENT_STATE_SDIO0 s; Some (drop_bit 20 v AND 0xF, s) }"

definition sdio_voltage_switch :: "u32 \<Rightarrow> 'a io_scheme \<Rightarrow> (bool \<times> 'a io_scheme) option" where
  "sdio_voltage_switch s18a s =
     (if s18a = 0 then Some (True, s)
      else do {
      (response, _, s) \<leftarrow> sd_command CMD11 0 R1 False s;
      if response \<noteq> Success then Some (False, s)
      else do {
      s \<leftarrow> update_clock (\<lambda>v. v AND NOT 1) s;
      (level, s) \<leftarrow> dat_level s;
      if level \<noteq> 0b0000 then Some (False, s)
      else do {
      (signal_enable, s) \<leftarrow> mmio_read16 HOST_CONTROL_2_SDIO0 s;
      let signal_enable = (signal_enable AND NOT (push_bit 3 1)) OR push_bit 3 1;
      let s = mmio_write16 HOST_CONTROL_2_SDIO0 signal_enable s;
      s \<leftarrow> delay_ms 5 s;
      (signal_enable, s) \<leftarrow> mmio_read16 HOST_CONTROL_2_SDIO0 s;
      if drop_bit 3 signal_enable AND 1 \<noteq> 1 then Some (False, s)
      else do {
      s \<leftarrow> update_clock (\<lambda>v. v OR 1) s;
      s \<leftarrow> delay_ms 1 s;
      (level, s) \<leftarrow> dat_level s;
      if level \<noteq> 0b1111 then Some (False, s) else Some (True, s) } } } })"

definition sdio_init :: "'a sd_scheme \<Rightarrow> (bool \<times> 'a sd_scheme) option" where
  "sdio_init s = do {
     (_, s) \<leftarrow> sdio_clock_init s;
     (ok, F8, s) \<leftarrow> sdio_identify_stage1 1 s;
     if \<not> ok then Some (False, s)
     else do {
     (sd_response, r, s) \<leftarrow> sd_app_command ACMD41 0x01000000 R3 True s;
     let response = stored 0 r;
     if sd_response = Timeout then Some (False, s)
     else if sd_response = CrcError \<or> sd_response = IndexError then Some (False, s)
     else if F8 = 0 then do {
       (ok, response, s) \<leftarrow> sdio_acmd41_poll 0x40FF8000 response s;
       if \<not> ok then Some (False, s)
       else do {
         s \<leftarrow> uart_puts (ascii ''[sdio_init]: The currently inserted SD card is of the SDSC Ver1.01 or Ver1.10 variant.'' @ crlf) s;
         sdio_finish_identification (s\<lparr>ccs := 0\<rparr>) } }
     else do {
     (ok, response, s) \<leftarrow> sdio_acmd41_poll 0x50FF8000 response s;
     if \<not> ok then Some (False, s)
     else if drop_bit 30 response AND 1 = 0 then do {
       let s = s\<lparr>ccs := 0\<rparr>;
       s \<leftarrow> uart_puts (ascii ''[sdio_init]: The currently inserted SD card is of the SDSC Ver2.00 or Ver3.00 variant.'' @ crlf) s;
       sdio_finish_identification s }
     else do {
     s \<leftarrow> uart_puts (ascii ''[sdio_init]: The currently inserted SD card is of the SDHC/SDXC variant. Undergoing a Signal Voltage Switch Procedure.'' @ crlf) s;
     let s18a = drop_bit 24 response AND 1;
     (switched, s) \<leftarrow> sdio_voltage_switch s18a s;
     (ok, s) \<leftarrow> (if switched then Some (True, s)
       else do {
         s \<leftarrow> uart_puts (ascii ''[sdio_init]: Voltage switch failed; retrying identification with S18R=0.'' @ crlf) s;
         (ok, response, s) \<leftarrow> sdio_acmd41_poll 0x40FF8000 response s;
         Some (ok, s) });
     if \<not> ok then Some (False, s)
     else do {
       s \<leftarrow> uart_puts (ascii ''[sdio_init]: Signal Voltage Switch Procedure complete.'' @ crlf) s;
       sdio_finish_identification (s\<lparr>ccs := 1\<rparr>) } } } } }"

section \<open>Reading and writing blocks\<close>

definition data_error_text :: "SDCommandStatus \<Rightarrow> u8 list" where
  "data_error_text status = (case status of
     Timeout \<Rightarrow> ascii ''Command timed out.''
   | CrcError \<Rightarrow> ascii ''Command CRC error.''
   | IndexError \<Rightarrow> ascii ''Command index error.''
   | DataTimeoutError \<Rightarrow> ascii ''Data timeout.''
   | DataCrcError \<Rightarrow> ascii ''Data CRC error.''
   | DataEndBitError \<Rightarrow> ascii ''Data end bit error.''
   | _ \<Rightarrow> ascii ''Unexpected command status.'')"

definition sdio_report_data_error :: "u8 list \<Rightarrow> SDCommandStatus \<Rightarrow> 'a io_scheme \<Rightarrow> 'a io_scheme option" where
  "sdio_report_data_error who status s = do {
     s \<leftarrow> uart_puts (ascii ''['') s;
     s \<leftarrow> uart_puts who s;
     s \<leftarrow> uart_puts (ascii '']: '') s;
     uart_puts (data_error_text status @ crlf) s }"

definition card_problem :: "u32 \<Rightarrow> u8 list option" where
  "card_problem status =
     (if status AND push_bit 31 1 \<noteq> 0 then Some (ascii ''address out of range.'')
      else if status AND push_bit 30 1 \<noteq> 0 then Some (ascii ''misaligned address.'')
      else if status AND push_bit 29 1 \<noteq> 0 then Some (ascii ''block length error.'')
      else if status AND push_bit 26 1 \<noteq> 0 then Some (ascii ''write-protect violation.'')
      else if status AND push_bit 21 1 \<noteq> 0 then Some (ascii ''card internal ECC failure.'')
      else if status AND push_bit 20 1 \<noteq> 0 then Some (ascii ''internal card controller error.'')
      else if status AND push_bit 19 1 \<noteq> 0 then Some (ascii ''general/unknown card error.'')
      else None)"

definition sdio_check_card_status :: "u8 list \<Rightarrow> u32 \<Rightarrow> 'a io_scheme \<Rightarrow> (bool \<times> 'a io_scheme) option" where
  "sdio_check_card_status who status s = (case card_problem status of
     None \<Rightarrow> Some (True, s)
   | Some problem \<Rightarrow> do {
       s \<leftarrow> uart_puts (ascii ''['') s;
       s \<leftarrow> uart_puts who s;
       s \<leftarrow> uart_puts (ascii '']: Card Status error: '') s;
       s \<leftarrow> uart_puts problem s;
       s \<leftarrow> uart_puts crlf s;
       Some (False, s) })"

definition adj_lba :: "u32 \<Rightarrow> 'a sd_scheme \<Rightarrow> u32" where
  "adj_lba lba s = (if ccs s = 0 then lba * 512 else lba)"

text \<open>One transfer and the checks of its outcome, the same in both branches of both functions.\<close>

definition sdio_transfer :: "u8 list \<Rightarrow> SDCommand \<Rightarrow> bool \<Rightarrow> u32 \<Rightarrow> u32 \<Rightarrow> bytes \<Rightarrow> 'a sd_scheme \<Rightarrow>
    (bool \<times> bytes \<times> 'a sd_scheme) option" where
  "sdio_transfer who cmd is_read lba count buf s = do {
     (status, r, buf, s) \<leftarrow> send_data_command cmd (adj_lba lba s) R1 (ucast count) is_read buf True s;
     if status \<noteq> Success then do { s \<leftarrow> sdio_report_data_error who status s; Some (False, buf, s) }
     else do { (ok, s) \<leftarrow> sdio_check_card_status who (stored 0 r) s; Some (ok, buf, s) } }"

definition sdio_read :: "u32 \<Rightarrow> u32 \<Rightarrow> bytes \<Rightarrow> 'a sd_scheme \<Rightarrow> (bool \<times> bytes \<times> 'a sd_scheme) option" where
  "sdio_read lba count buf s =
     (if count = 1 then sdio_transfer (ascii ''sdio_read'') CMD17 True lba count buf s
      else if count > 1 then sdio_transfer (ascii ''sdio_read'') CMD18 True lba count buf s
      else do {
        s \<leftarrow> uart_puts (ascii ''[sdio_read]: Read failed. Unexpected Parameters.'' @ crlf) s;
        Some (False, buf, s) })"

definition sdio_write :: "u32 \<Rightarrow> u32 \<Rightarrow> bytes \<Rightarrow> 'a sd_scheme \<Rightarrow> (bool \<times> bytes \<times> 'a sd_scheme) option" where
  "sdio_write lba count buf s =
     (if count = 1 then sdio_transfer (ascii ''sdio_write'') CMD24 False lba count buf s
      else if count > 1 then sdio_transfer (ascii ''sdio_write'') CMD25 False lba count buf s
      else do {
        s \<leftarrow> uart_puts (ascii ''[sdio_write]: Write failed. Unexpected Parameters.'' @ crlf) s;
        Some (False, buf, s) })"

end
