(* ===== verification/Sd_Log.thy ===== *)
theory Sd_Log
  imports Sd
begin

text \<open>
  What the SD driver does on the bus. The log of a state keeps the events that matter for a
  transfer: writes of the block count, the argument, the command and the status acknowledgements,
  and every access to the data port. Everything else the driver does is silent.
\<close>

section \<open>The log\<close>

definition sd_event :: "event \<Rightarrow> bool" where
  "sd_event e = (case e of
     Wr16 r _ \<Rightarrow> r = BLOCK_COUNT_SDIO0 \<or> r = ARGUMENT_LOW_SDIO0 \<or> r = ARGUMENT_HIGH_SDIO0
       \<or> r = COMMAND_SDIO0 \<or> r = NORMAL_INTERRUPT_STATUS_SDIO0
   | Rd32 r _ \<Rightarrow> r = BUFFER_DATA_0_SDIO0
   | Wr32 r _ \<Rightarrow> r = BUFFER_DATA_0_SDIO0
   | _ \<Rightarrow> False)"

definition sd_log :: "'a io_scheme \<Rightarrow> event list" where
  "sd_log s = filter sd_event (trace s)"

lemma sd_event_silent [simp]:
  "\<not> sd_event (Rd8 r v8)" "\<not> sd_event (Wr8 r v8)" "\<not> sd_event (Rd16 r v16)" "\<not> sd_event (Mrs x v)"
  "\<not> sd_event (Rd32 PRESENT_STATE_SDIO0 v32)" "\<not> sd_event (Rd32 RESPONSE0_SDIO0 v32)"
  "\<not> sd_event (Rd32 RESPONSE2_SDIO0 v32)" "\<not> sd_event (Rd32 RESPONSE4_SDIO0 v32)"
  "\<not> sd_event (Rd32 RESPONSE6_SDIO0 v32)" "\<not> sd_event (Rd32 CAPABILITIES1_SDIO0 v32)"
  "\<not> sd_event (Rd32 PINCTRL_EMMC_PULL_REG v32)" "\<not> sd_event (Wr32 PINCTRL_EMMC_PULL_REG v32)"
  "\<not> sd_event (Rd32 SDIO_CFG_SD_PIN_SEL v32)" "\<not> sd_event (Wr32 SDIO_CFG_SD_PIN_SEL v32)"
  "\<not> sd_event (Rd32 UART0_FR v32)" "\<not> sd_event (Wr32 UART0_DR v32)"
  "\<not> sd_event (Acquire l)" "\<not> sd_event (Release l)"
  "\<not> sd_event (Wr16 ERROR_INTERRUPT_STATUS_SDIO0 v16)" "\<not> sd_event (Wr16 CLOCK_CONTROL_SDIO0 v16)"
  "\<not> sd_event (Wr16 NORMAL_INTERRUPT_STATUS_ENABLE_SDIO0 v16)"
  "\<not> sd_event (Wr16 ERROR_INTERRUPT_STATUS_ENABLE_SDIO0 v16)"
  "\<not> sd_event (Wr16 HOST_CONTROL_2_SDIO0 v16)" "\<not> sd_event (Wr16 BLOCK_SIZE_SDIO0 v16)"
  "\<not> sd_event (Wr16 TRANSFER_MODE_SDIO0 v16)"
  by (simp_all add: sd_event_def board)

lemma sd_event_logged [simp]:
  "sd_event (Rd32 BUFFER_DATA_0_SDIO0 v32)" "sd_event (Wr32 BUFFER_DATA_0_SDIO0 v32)"
  "sd_event (Wr16 BLOCK_COUNT_SDIO0 v16)" "sd_event (Wr16 ARGUMENT_LOW_SDIO0 v16)"
  "sd_event (Wr16 ARGUMENT_HIGH_SDIO0 v16)" "sd_event (Wr16 COMMAND_SDIO0 v16)"
  "sd_event (Wr16 NORMAL_INTERRUPT_STATUS_SDIO0 v16)"
  by (simp_all add: sd_event_def)

lemma sd_log_emit [simp]: "sd_log (emit es s) = sd_log s @ filter sd_event es"
  by (simp add: sd_log_def)

lemma sd_log_upd [simp]:
  "sd_log (s\<lparr>inp := vs\<rparr>) = sd_log s" "sd_log (s\<lparr>daif := d\<rparr>) = sd_log s"
  "sd_log (t\<lparr>base_clock := b\<rparr>) = sd_log t" "sd_log (t\<lparr>cid := c\<rparr>) = sd_log t" "sd_log (t\<lparr>rca := r\<rparr>) = sd_log t"
  "sd_log (t\<lparr>ccs := k\<rparr>) = sd_log t" "sd_log (t\<lparr>card_inserted := i\<rparr>) = sd_log t"
  by (simp_all add: sd_log_def)

lemma sd_log_write [simp]:
  "sd_log (mmio_write r v s) = sd_log s @ filter sd_event [Wr32 r v]"
  "sd_log (mmio_write16 r v16 s) = sd_log s @ filter sd_event [Wr16 r v16]"
  "sd_log (mmio_write8 r v8 s) = sd_log s"
  by (simp_all add: io_defs)

lemma write_more [simp]:
  "io.more (mmio_write r v s) = io.more s" "io.more (mmio_write16 r v16 s) = io.more s"
  "io.more (mmio_write8 r v8 s) = io.more s"
  by (simp_all add: io_defs)

text \<open>A step that adds \<open>es\<close> to the log and changes nothing but the machine.\<close>

definition logs :: "event list \<Rightarrow> 'a io_scheme \<Rightarrow> 'a io_scheme \<Rightarrow> bool" where
  "logs es s t \<longleftrightarrow> sd_log t = sd_log s @ es \<and> io.more t = io.more s"

abbreviation silent :: "'a io_scheme \<Rightarrow> 'a io_scheme \<Rightarrow> bool" where "silent \<equiv> logs []"

named_theorems quiet "operations that leave the log alone"

lemma logs_read [quiet]:
  "mmio_read r s = Some (v, t) \<Longrightarrow> logs (filter sd_event [Rd32 r v]) s t"
  "mmio_read16 r s = Some (w, t) \<Longrightarrow> silent s t"
  "mmio_read8 r s = Some (b, t) \<Longrightarrow> silent s t"
  "mrs x s = Some (u, t) \<Longrightarrow> silent s t"
  "get_ticks s = Some (u, t) \<Longrightarrow> silent s t"
  by (auto simp: logs_def io_defs get_ticks_def Option.bind_eq_Some_conv split: list.splits)

lemma silent_refl: "silent s s"
  by (simp add: logs_def)

lemma poll_silent:
  assumes "poll_until body stop s = Some (x, t)"
    and "\<And>s x t. body s = Some (x, t) \<Longrightarrow> silent s t"
  shows "silent s t \<and> stop x"
proof -
  have "\<exists>s0. silent s s0 \<and> body s0 = Some (x, t) \<and> stop x"
    by (rule poll_until_inv [OF assms(1)]) (auto simp: logs_def dest!: assms(2))
  then show ?thesis by (auto simp: logs_def dest!: assms(2))
qed

lemma uart_putc_silent: "uart_putc c s = Some t \<Longrightarrow> silent s t"
  by (auto simp: uart_putc_def Let_def Option.bind_eq_Some_conv spin_lock_def spin_unlock_def logs_def
      split: if_splits dest!: poll_silent [where body = "mmio_read UART0_FR"] logs_read)

lemma uart_silent [quiet]:
  "uart_puts bs s = Some t \<Longrightarrow> silent s t"
  "uart_put_hex v s = Some t \<Longrightarrow> silent s t"
proof -
  show puts: "uart_puts bs s = Some t \<Longrightarrow> silent s t" for bs
    by (induction bs arbitrary: s)
       (auto simp: logs_def Option.bind_eq_Some_conv dest!: uart_putc_silent)
  show "uart_put_hex v s = Some t \<Longrightarrow> silent s t"
    unfolding uart_put_hex_text by (rule puts)
qed


section \<open>Commands\<close>

lemma wait_timed_silent:
  assumes "wait_timed test start ms s = Some (r, t)"
    and "\<And>s x t. test s = Some (x, t) \<Longrightarrow> silent s t"
  shows "silent s t"
proof -
  let ?Q = "\<lambda>test start ms s (r, t). (\<forall>s x t. test s = Some (x, t) \<longrightarrow> silent s t) \<longrightarrow> silent s t"
  have "?Q test start ms s (r, t)"
  proof (rule wait_timed.raw_induct [where P = ?Q, OF _ assms(1)])
    fix wait and test :: "'a io_scheme \<Rightarrow> (bool \<times> 'a io_scheme) option" and start ms s y
    assume ih: "\<And>test start ms s y. wait test start ms s = Some y \<Longrightarrow> ?Q test start ms s y"
      and eq: "Option.bind (test s) (\<lambda>(r, s). if r then Some (True, s)
        else Option.bind (ticks_elapsed_ms start ms s) (\<lambda>(e, s). if e then Some (False, s) else wait test start ms s)) = Some y"
    show "?Q test start ms s y"
    proof (cases y; clarify)
      fix r t assume y: "y = (r, t)" and test: "\<forall>s x t. test s = Some (x, t) \<longrightarrow> silent s t"
      have elapsed: "silent s t" if "ticks_elapsed_ms start ms s = Some (e, t)" for e and s t :: "'a io_scheme"
        using that by (auto simp: ticks_elapsed_ms_def Option.bind_eq_Some_conv logs_def dest!: logs_read)
      have waited: "silent s t" if "wait test start ms s = Some (r, t)" for s t
        using ih [OF that] test by simp
      show "silent s t"
        using eq y test by (auto simp: Option.bind_eq_Some_conv split: if_splits dest!: elapsed waited)
          (auto simp: logs_def)
    qed
  qed
  with assms(2) show ?thesis by simp
qed

lemma timed_silent:
  "wait_timed clock_stable start ms s = Some (r, t) \<Longrightarrow> silent s t"
  "wait_timed (reset_cleared b) start ms s = Some (r, t) \<Longrightarrow> silent s t"
  by (erule wait_timed_silent, auto simp: clock_stable_def reset_cleared_def Option.bind_eq_Some_conv dest!: logs_read)+

lemma reset_silent [quiet]:
  "sdio_reset_cmd_line s = Some (r, t) \<Longrightarrow> silent s t"
  "sdio_reset_dat_line s = Some (r, t) \<Longrightarrow> silent s t"
  by (auto simp: sdio_reset_cmd_line_def sdio_reset_dat_line_def Option.bind_eq_Some_conv Let_def logs_def
      split: if_splits dest!: timed_silent logs_read uart_silent)

lemma read_status_silent: "read_status s = Some (x, t) \<Longrightarrow> silent s t"
  by (auto simp: read_status_def Option.bind_eq_Some_conv logs_def dest!: logs_read)

lemma present_silent: "mmio_read PRESENT_STATE_SDIO0 s = Some (x, t) \<Longrightarrow> silent s t"
  by (auto dest!: logs_read)

lemma wait_status_silent:
  assumes "wait_status bits s = Some ((n, e), t)"
  shows "silent s t \<and> (n AND bits \<noteq> 0 \<or> e \<noteq> 0)"
  using poll_silent [OF assms [unfolded wait_status_def] read_status_silent] by auto

definition command_events :: "u32 \<Rightarrow> u16 \<Rightarrow> event list" where
  "command_events argument v =
     [Wr16 ARGUMENT_LOW_SDIO0 (ucast (argument AND 0xFFFF)),
      Wr16 ARGUMENT_HIGH_SDIO0 (ucast (drop_bit 16 argument AND 0xFFFF)), Wr16 COMMAND_SDIO0 v]"

definition ack :: "u16 \<Rightarrow> event" where "ack bits = Wr16 NORMAL_INTERRUPT_STATUS_SDIO0 bits"

lemma sd_event_ack [simp]: "sd_event (ack b)"
  by (simp add: ack_def)

lemma set_argument_log [simp]:
  "sd_log (set_argument a s) = sd_log s @ [Wr16 ARGUMENT_LOW_SDIO0 (ucast (a AND 0xFFFF)),
     Wr16 ARGUMENT_HIGH_SDIO0 (ucast (drop_bit 16 a AND 0xFFFF))]"
  "io.more (set_argument a s) = io.more s"
  by (simp_all add: set_argument_def)

lemma take_response_log:
  "take_response ty out s = Some (r, t) \<Longrightarrow> logs [ack 1] s t"
  by (auto simp: take_response_def Let_def Option.bind_eq_Some_conv logs_def ack_def split: if_splits dest!: logs_read)

definition command_failure :: "SDCommandStatus \<Rightarrow> bool" where
  "command_failure st \<longleftrightarrow> st = CrcError \<or> st = IndexError \<or> st = Timeout"

lemma command_error_failure [simp]: "command_failure (command_error e)"
  by (simp add: command_error_def command_failure_def)

lemma command_failure_simps [simp]: "\<not> command_failure Success" "\<not> command_failure NotExpected"
  by (simp_all add: command_failure_def)

lemma issue_command_log:
  assumes "issue_command cmd a ty out s = Some (st, r, t)"
  shows "st = Success \<and> logs (command_events a (command_val cmd ty) @ [ack 1]) s t
    \<or> command_failure st \<and> r = None \<and> logs (command_events a (command_val cmd ty)) s t"
proof -
  obtain v s1 n e s2 where s1: "poll_until (mmio_read PRESENT_STATE_SDIO0) (\<lambda>v. v AND 1 \<noteq> 1) s = Some (v, s1)"
    and s2: "wait_status 1 (mmio_write16 COMMAND_SDIO0 (command_val cmd ty) (set_argument a s1)) = Some ((n, e), s2)"
    using assms by (auto simp: issue_command_def Let_def Option.bind_eq_Some_conv)
  have "silent s s1" using poll_silent [OF s1 present_silent] by auto
  with wait_status_silent [OF s2] have l: "logs (command_events a (command_val cmd ty)) s s2"
    by (simp add: logs_def command_events_def)
  show ?thesis
  proof (cases "e = 0")
    case True
    then obtain t' where "take_response ty out s2 = Some (r, t)" "st = Success"
      using assms s1 s2 by (auto simp: issue_command_def Let_def Option.bind_eq_Some_conv)
    with take_response_log [OF this(1)] l show ?thesis by (simp add: logs_def)
  next
    case False
    then have "silent s2 t \<and> st = command_error e \<and> r = None"
      using assms s1 s2
      by (auto simp: issue_command_def Let_def Option.bind_eq_Some_conv logs_def dest!: quiet)
    with l show ?thesis by (simp add: logs_def)
  qed
qed

section \<open>Transfers\<close>

text \<open>One access to the data port, the words of a buffer, and the buffer with words stored in it.\<close>

definition access :: "bool \<Rightarrow> u32 \<Rightarrow> event" where
  "access is_read w = (if is_read then Rd32 BUFFER_DATA_0_SDIO0 w else Wr32 BUFFER_DATA_0_SDIO0 w)"

lemma sd_event_access [simp]: "sd_event (access d w)"
  by (simp add: access_def)

fun get_words :: "nat \<Rightarrow> u32 \<Rightarrow> bytes \<Rightarrow> u32 list" where
  "get_words 0 i buf = []"
| "get_words (Suc n) i buf = get_bytes (i * 4) buf # get_words n (i + 1) buf"

fun put_words :: "u32 \<Rightarrow> u32 list \<Rightarrow> bytes \<Rightarrow> bytes" where
  "put_words i [] buf = buf"
| "put_words i (w # ws) buf = put_words (i + 1) ws (put_bytes (i * 4) w buf)"

definition moves :: "bool \<Rightarrow> u32 \<Rightarrow> u32 list \<Rightarrow> bytes \<Rightarrow> bytes \<Rightarrow> bool" where
  "moves is_read i ws buf buf' \<longleftrightarrow>
     (if is_read then buf' = put_words i ws buf else buf' = buf \<and> ws = get_words (length ws) i buf)"

lemma put_words_append: "put_words i (ws @ ws') buf = put_words (i + of_nat (length ws)) ws' (put_words i ws buf)"
  by (induction i ws buf rule: put_words.induct) (simp_all add: algebra_simps)

lemma get_words_append: "get_words (m + n) i buf = get_words m i buf @ get_words n (i + of_nat m) buf"
  by (induction m arbitrary: i) (simp_all add: algebra_simps)

lemma length_get_words [simp]: "length (get_words n i buf) = n"
  by (induction n arbitrary: i) simp_all

lemma moves_Nil [simp]: "moves d i [] buf buf' \<longleftrightarrow> buf' = buf"
  by (simp add: moves_def)

lemma moves_append:
  "moves d i ws b b1 \<Longrightarrow> moves d (i + of_nat (length ws)) ws' b1 b2 \<Longrightarrow> moves d i (ws @ ws') b b2"
  by (cases d) (auto simp: moves_def put_words_append get_words_append)

lemma transfer_word_log:
  assumes "transfer_word d i buf s = Some (buf', t)"
  obtains w where "moves d i [w] buf buf'" "logs [access d w] s t"
proof (cases d)
  case True
  then obtain w where "mmio_read BUFFER_DATA_0_SDIO0 s = Some (w, t)" "buf' = put_bytes (i * 4) w buf"
    using assms by (auto simp: transfer_word_def Let_def Option.bind_eq_Some_conv)
  with logs_read(1) [OF this(1)] True that [of w] show ?thesis by (simp add: moves_def access_def)
next
  case False
  with assms that [of "get_bytes (i * 4) buf"] show ?thesis
    by (auto simp: transfer_word_def Let_def moves_def access_def logs_def)
qed

definition data_failure :: "SDCommandStatus \<Rightarrow> bool" where
  "data_failure st \<longleftrightarrow> st = DataCrcError \<or> st = DataEndBitError \<or> st = DataTimeoutError"

lemma data_wait_log:
  assumes "data_wait bits s = Some (err, t)"
  shows "err = None \<and> logs [ack bits] s t \<or> (\<exists>e. err = Some e \<and> data_failure e) \<and> silent s t"
proof -
  obtain n e s1 where w: "wait_status bits s = Some ((n, e), s1)"
    and rest: "(if e \<noteq> 0 then Option.bind (sdio_reset_dat_line (mmio_write16 ERROR_INTERRUPT_STATUS_SDIO0 e s1))
        (\<lambda>(_, s). Some (Some (data_error e), s))
      else Some (None, mmio_write16 NORMAL_INTERRUPT_STATUS_SDIO0 bits s1)) = Some (err, t)"
    using assms unfolding data_wait_def Let_def by (auto simp: Option.bind_eq_Some_conv)
  have "data_failure (data_error e)" by (simp add: data_error_def data_failure_def)
  with rest wait_status_silent [OF w] show ?thesis
    by (auto simp: Option.bind_eq_Some_conv logs_def ack_def split: if_splits dest!: reset_silent(2))
qed


lemma of_nat_block: "k < 2 ^ 32 \<Longrightarrow> (of_nat k :: u32) mod 128 = 0 \<longleftrightarrow> k mod 128 = 0"
proof -
  assume "k < 2 ^ 32"
  then have "unat ((of_nat k :: u32) mod 128) = k mod 128" by (simp add: unat_mod unat_of_nat_small)
  then show ?thesis by (simp flip: unat_eq_0)
qed

text \<open>The rest of a block: \<open>m\<close> words without a wait.\<close>

lemma block_rest:
  assumes "transfer_loop (m + n) rb d (of_nat k) buf s = Some (err, buf', t)"
    and "(k + m) mod 128 = 0" "m < 128" "k + m < 2 ^ 32"
  shows "\<exists>ws buf1 s1. length ws = m \<and> moves d (of_nat k) ws buf buf1 \<and> logs (map (access d) ws) s s1
    \<and> transfer_loop n rb d (of_nat (k + m)) buf1 s1 = Some (err, buf', t)"
  using assms
proof (induction m arbitrary: k buf s)
  case 0
  then show ?case by (auto intro!: exI [of _ "[]"] exI [of _ buf] exI [of _ s] simp: silent_refl)
next
  case (Suc m)
  have "k mod 128 \<noteq> 0"
    using mod_add_left_eq [of k 128 "Suc m"] Suc.prems(2,3) by (metis add_0 mod_less nat.simps(3))
  then have "(of_nat k :: u32) mod 128 \<noteq> 0" using of_nat_block [of k] Suc.prems(4) by simp
  then obtain b1 s1 where w: "transfer_word d (of_nat k) buf s = Some (b1, s1)"
    and r: "transfer_loop (m + n) rb d (of_nat (Suc k)) b1 s1 = Some (err, buf', t)"
    using Suc.prems(1) by (auto simp: Option.bind_eq_Some_conv add.commute)
  obtain v where v: "moves d (of_nat k) [v] buf b1" "logs [access d v] s s1"
    using transfer_word_log [OF w] .
  obtain ws buf1 s2 where ws: "length ws = m" "moves d (of_nat (Suc k)) ws b1 buf1"
    "logs (map (access d) ws) s1 s2" "transfer_loop n rb d (of_nat (Suc k + m)) buf1 s2 = Some (err, buf', t)"
    using Suc.IH [OF r] Suc.prems by auto
  have "moves d (of_nat k) ([v] @ ws) buf buf1"
    by (rule moves_append [OF v(1)]) (use ws(2) in \<open>simp add: add.commute\<close>)
  with v ws show ?case
    by (intro exI [of _ "v # ws"] exI [of _ buf1] exI [of _ s2]) (simp add: logs_def)
qed

definition block_log :: "bool \<Rightarrow> u16 \<Rightarrow> u32 list \<Rightarrow> event list" where
  "block_log is_read ready_bit ws = ack ready_bit # map (access is_read) ws"

lemma block_start:
  assumes "transfer_loop (Suc m) rb d i buf s = Some (err, buf', t)" "i mod 128 = 0"
  shows "\<exists>er s0. data_wait rb s = Some (er, s0) \<and> (er \<noteq> None \<longrightarrow> err = er \<and> buf' = buf \<and> t = s0)
    \<and> (er = None \<longrightarrow> (\<exists>b1 s1. transfer_word d i buf s0 = Some (b1, s1)
         \<and> transfer_loop m rb d (i + 1) b1 s1 = Some (err, buf', t)))"
  using assms by (auto simp: Option.bind_eq_Some_conv split: if_splits)

lemma one_block:
  assumes "transfer_loop (128 + n) rb d (of_nat (128 * j)) buf s = Some (err, buf', t)" "128 * Suc j < 2 ^ 32"
  shows "(\<exists>e. err = Some e \<and> data_failure e) \<and> buf' = buf \<and> silent s t
    \<or> (\<exists>ws buf1 s1. length ws = 128 \<and> moves d (of_nat (128 * j)) ws buf buf1 \<and> logs (block_log d rb ws) s s1
        \<and> transfer_loop n rb d (of_nat (128 * Suc j)) buf1 s1 = Some (err, buf', t))"
proof -
  have z: "(of_nat (128 * j) :: u32) mod 128 = 0" using of_nat_block [of "128 * j"] assms(2) by simp
  have "128 + n = Suc (127 + n)" by simp
  with block_start [OF _ z] assms(1) obtain er s0 where dw: "data_wait rb s = Some (er, s0)"
    and rest: "er \<noteq> None \<longrightarrow> err = er \<and> buf' = buf \<and> t = s0"
      "er = None \<longrightarrow> (\<exists>b1 s1. transfer_word d (of_nat (128 * j)) buf s0 = Some (b1, s1)
         \<and> transfer_loop (127 + n) rb d (of_nat (128 * j) + 1) b1 s1 = Some (err, buf', t))"
    by metis
  show ?thesis
  proof (cases "er = None")
    case False
    with rest data_wait_log [OF dw] show ?thesis by auto
  next
    case True
    with rest obtain b1 s1 where w: "transfer_word d (of_nat (128 * j)) buf s0 = Some (b1, s1)"
      and r: "transfer_loop (127 + n) rb d (of_nat (Suc (128 * j))) b1 s1 = Some (err, buf', t)"
      by (auto simp: add.commute)
    obtain v where v: "moves d (of_nat (128 * j)) [v] buf b1" "logs [access d v] s0 s1"
      using transfer_word_log [OF w] .
    obtain ws buf1 s2 where ws: "length ws = 127" "moves d (of_nat (Suc (128 * j))) ws b1 buf1"
      "logs (map (access d) ws) s1 s2" "transfer_loop n rb d (of_nat (Suc (128 * j) + 127)) buf1 s2 = Some (err, buf', t)"
      using block_rest [OF r] assms(2) by auto
    have "moves d (of_nat (128 * j)) ([v] @ ws) buf buf1"
      by (rule moves_append [OF v(1)]) (use ws(2) in \<open>simp add: add.commute\<close>)
    moreover have "logs [ack rb] s s0" using True data_wait_log [OF dw] by simp
    moreover have "Suc (128 * j) + 127 = 128 * Suc j" by simp
    ultimately show ?thesis using v ws
      by (intro disjI2 exI [of _ "v # ws"] exI [of _ buf1] exI [of _ s2]) (simp add: logs_def block_log_def)
  qed
qed

definition blocks_log :: "bool \<Rightarrow> u16 \<Rightarrow> u32 list list \<Rightarrow> event list" where
  "blocks_log is_read ready_bit bs = concat (map (block_log is_read ready_bit) bs)"

text \<open>Whole blocks: their words, and whether the transfer ended early.\<close>

lemma transfer_loop_log:
  assumes "transfer_loop (128 * k) rb d (of_nat (128 * j)) buf s = Some (err, buf', t)" "128 * (j + k) < 2 ^ 32"
  shows "\<exists>bs. (\<forall>ws \<in> set bs. length ws = 128) \<and> moves d (of_nat (128 * j)) (concat bs) buf buf'
    \<and> logs (blocks_log d rb bs) s t
    \<and> (case err of None \<Rightarrow> length bs = k | Some e \<Rightarrow> data_failure e \<and> length bs < k)"
  using assms
proof (induction k arbitrary: j buf s)
  case 0
  then show ?case by (auto simp: silent_refl blocks_log_def intro!: exI [of _ "[]"])
next
  case (Suc k)
  have "transfer_loop (128 + 128 * k) rb d (of_nat (128 * j)) buf s = Some (err, buf', t)"
    using Suc.prems(1) by simp
  from one_block [OF this] Suc.prems(2) consider
      (fail) e where "err = Some e" "data_failure e" "buf' = buf" "silent s t"
    | (block) ws buf1 s1 where "length ws = 128" "moves d (of_nat (128 * j)) ws buf buf1"
        "logs (block_log d rb ws) s s1" "transfer_loop (128 * k) rb d (of_nat (128 * Suc j)) buf1 s1 = Some (err, buf', t)"
    by force
  then show ?case
  proof cases
    case fail
    then show ?thesis by (intro exI [of _ "[]"]) (simp add: blocks_log_def)
  next
    case block
    from Suc.IH [OF block(4)] Suc.prems(2) obtain bs where bs: "\<forall>ws \<in> set bs. length ws = 128"
      "moves d (of_nat (128 * Suc j)) (concat bs) buf1 buf'" "logs (blocks_log d rb bs) s1 t"
      "case err of None \<Rightarrow> length bs = k | Some e \<Rightarrow> data_failure e \<and> length bs < k"
      by auto
    have "moves d (of_nat (128 * j)) (ws @ concat bs) buf buf'"
      by (rule moves_append [OF block(2)]) (use bs(2) block(1) in \<open>simp add: add.commute\<close>)
    with block bs show ?thesis
      by (intro exI [of _ "ws # bs"]) (auto simp: logs_def blocks_log_def split: option.splits)
  qed
qed

definition ready_bit :: "bool \<Rightarrow> u16" where
  "ready_bit is_read = (if is_read then push_bit 5 1 else push_bit 4 1)"

definition data_command_events :: "SDCommand \<Rightarrow> u32 \<Rightarrow> SDResponseType \<Rightarrow> u16 \<Rightarrow> event list" where
  "data_command_events cmd a ty n = Wr16 BLOCK_COUNT_SDIO0 n #
     command_events a (command_val (command_index cmd) ty OR push_bit 5 1)"

lemma send_data_command_log:
  assumes "send_data_command cmd a ty n d buf out s = Some (st, r, buf', t)"
  shows "command_failure st \<and> r = None \<and> buf' = buf \<and> logs (data_command_events cmd a ty n) s t
    \<or> (\<exists>bs. (\<forall>ws \<in> set bs. length ws = 128) \<and> moves d 0 (concat bs) buf buf' \<and> length bs \<le> unat n
        \<and> (st = Success \<and> length bs = unat n
            \<and> logs (data_command_events cmd a ty n @ ack 1 # blocks_log d (ready_bit d) bs @ [ack (push_bit 1 1)]) s t
          \<or> data_failure st \<and> logs (data_command_events cmd a ty n @ ack 1 # blocks_log d (ready_bit d) bs) s t))"
proof -
  let ?C = "data_command_events cmd a ty n"
  obtain x s1 bz s2 mode s3 nn e s4 where s1: "poll_until bus_free (\<lambda>free. free) s = Some (x, s1)"
    and s2: "mmio_read16 BLOCK_SIZE_SDIO0 s1 = Some (bz, s2)"
    and s3: "mmio_read16 TRANSFER_MODE_SDIO0 (set_argument a (mmio_write16 BLOCK_COUNT_SDIO0 n
        (mmio_write16 BLOCK_SIZE_SDIO0 ((bz AND NOT 0xFFF) OR 0x200) s2))) = Some (mode, s3)"
    and s4: "wait_status 1 (mmio_write16 COMMAND_SDIO0 (command_val (command_index cmd) ty OR push_bit 5 1)
        (mmio_write16 TRANSFER_MODE_SDIO0 (transfer_mode d n mode) s3)) = Some ((nn, e), s4)"
    and rest: "(if e \<noteq> 0 then Option.bind (sdio_reset_cmd_line (mmio_write16 ERROR_INTERRUPT_STATUS_SDIO0 e s4))
        (\<lambda>(_, s). Some (command_error e, None, buf, s))
      else Option.bind (take_response ty out s4) (\<lambda>(r, s).
        Option.bind (transfer_loop (unat (ucast n * 128 :: u32)) (if d then push_bit 5 1 else push_bit 4 1) d 0 buf s)
          (\<lambda>(err, buf, s). case err of Some e \<Rightarrow> Some (e, r, buf, s)
            | None \<Rightarrow> Option.bind (data_wait (push_bit 1 1) s) (\<lambda>(err, s).
                case err of Some e \<Rightarrow> Some (e, r, buf, s) | None \<Rightarrow> Some (Success, r, buf, s))))) = Some (st, r, buf', t)"
    using assms unfolding send_data_command_def Let_def by (auto simp: Option.bind_eq_Some_conv simp del: One_nat_def)
  have "bus_free s = Some (x, t) \<Longrightarrow> silent s t" for s t :: "'a io_scheme" and x
    by (auto simp: bus_free_def Option.bind_eq_Some_conv logs_def split: if_splits dest!: present_silent)
  with poll_silent [OF s1] have "silent s s1" by blast
  with logs_read(2) [OF s2] logs_read(2) [OF s3] wait_status_silent [OF s4]
  have l: "logs ?C s s4" by (simp add: logs_def data_command_events_def command_events_def)
  show ?thesis
  proof (cases "e = 0")
    case False
    with rest l show ?thesis by (auto simp: Option.bind_eq_Some_conv logs_def dest!: reset_silent(1))
  next
    case True
    with rest obtain r0 s5 err b6 s6 where tr: "take_response ty out s4 = Some (r0, s5)"
      and tl: "transfer_loop (unat (ucast n * 128 :: u32)) (ready_bit d) d 0 buf s5 = Some (err, b6, s6)"
      and fin: "(case err of Some e \<Rightarrow> Some (e, r0, b6, s6)
            | None \<Rightarrow> Option.bind (data_wait (push_bit 1 1) s6) (\<lambda>(err, s).
                case err of Some e \<Rightarrow> Some (e, r0, b6, s) | None \<Rightarrow> Some (Success, r0, b6, s))) = Some (st, r, buf', t)"
      unfolding ready_bit_def by (auto simp: Option.bind_eq_Some_conv)
    have n: "unat n < 65536" using unsigned_less [of n] by simp
    then have "unat (ucast n * 128 :: u32) = 128 * unat n"
      by (simp add: unat_word_ariths unat_ucast_wider)
    with tl have "transfer_loop (128 * unat n) (ready_bit d) d (of_nat (128 * 0)) buf s5 = Some (err, b6, s6)" by simp
    from transfer_loop_log [OF this] n obtain bs where bs: "\<forall>ws \<in> set bs. length ws = 128"
      "moves d 0 (concat bs) buf b6" "logs (blocks_log d (ready_bit d) bs) s5 s6"
      "case err of None \<Rightarrow> length bs = unat n | Some e \<Rightarrow> data_failure e \<and> length bs < unat n" by auto
    have l6: "logs (?C @ ack 1 # blocks_log d (ready_bit d) bs) s s6"
      using l take_response_log [OF tr] bs(3) by (simp add: logs_def)
    show ?thesis
    proof (rule disjI2, intro exI [of _ bs])
      show "(\<forall>ws \<in> set bs. length ws = 128) \<and> moves d 0 (concat bs) buf buf' \<and> length bs \<le> unat n
        \<and> (st = Success \<and> length bs = unat n
            \<and> logs (?C @ ack 1 # blocks_log d (ready_bit d) bs @ [ack (push_bit 1 1)]) s t
          \<or> data_failure st \<and> logs (?C @ ack 1 # blocks_log d (ready_bit d) bs) s t)"
        using fin bs l6
        by (auto simp: Option.bind_eq_Some_conv logs_def split: option.splits dest!: data_wait_log)
    qed
  qed
qed

end
