(* ===== verification/Sd_Transfer.thy ===== *)
theory Sd_Transfer
  imports Sd_Log "HOL-Library.Sublist"
begin

text \<open>
  What \<open>sdio_read\<close> and \<open>sdio_write\<close> do: the bytes of the buffer against the words on the data port, and the
  protocol around them, for every outcome.
\<close>

section \<open>The bytes of a buffer\<close>

definition word_byte :: "u32 \<Rightarrow> nat \<Rightarrow> u8" where
  "word_byte w m = ucast (drop_bit (8 * m) w)"

lemma mask_FF: "(0xFF :: u32) = mask 8" by (simp add: mask_eq_exp_minus_1)

lemma ucast_FF: "ucast (w AND 0xFF :: u32) = (ucast w :: u8)"
  by (rule bit_word_eqI) (auto simp: mask_FF bit_simps)

lemma less_4_cases: "m < 4 \<Longrightarrow> m = 0 \<or> m = 1 \<or> m = 2 \<or> m = (3 :: nat)"
  by linarith

lemma put_bytes_same: "m < 4 \<Longrightarrow> put_bytes p w buf (p + of_nat m) = word_byte w m"
  by (drule less_4_cases) (auto simp: put_bytes_def word_byte_def ucast_FF)

lemma put_bytes_other: "\<forall>m < 4. q \<noteq> p + of_nat m \<Longrightarrow> put_bytes p w buf q = buf q"
  by (simp add: put_bytes_def numeral_eq_Suc less_Suc_eq all_conj_distrib)

lemma get_bytes_byte: "m < 4 \<Longrightarrow> word_byte (get_bytes p buf) m = buf (p + of_nat m)"
proof -
  assume "m < 4"
  then consider "m = 0" | "m = 1" | "m = 2" | "m = 3" by linarith
  then show ?thesis
    by cases (rule bit_word_eqI, auto simp: word_byte_def get_bytes_def bit_simps dest: bit_imp_le_length)+
qed

text \<open>Addresses below \<open>2 ^ 32\<close> as numbers: word \<open>k\<close> of the buffer is at the bytes \<open>4 * k + m\<close>.\<close>

lemma put_words_bytes:
  assumes "4 * (k + length ws) \<le> 2 ^ 32" "b < 2 ^ 32"
  shows "put_words (of_nat k) ws buf (of_nat b) =
    (if 4 * k \<le> b \<and> b < 4 * (k + length ws) then word_byte (ws ! (b div 4 - k)) (b mod 4) else buf (of_nat b))"
  using assms(1)
proof (induction ws arbitrary: k buf)
  case (Cons w ws)
  let ?buf = "put_bytes (of_nat k * 4) w buf"
  have step: "put_words (of_nat k) (w # ws) buf (of_nat b) = put_words (of_nat (Suc k)) ws ?buf (of_nat b)"
    by (simp add: add.commute)
  have ih: "put_words (of_nat (Suc k)) ws ?buf (of_nat b) =
    (if 4 * Suc k \<le> b \<and> b < 4 * (Suc k + length ws) then word_byte (ws ! (b div 4 - Suc k)) (b mod 4) else ?buf (of_nat b))"
    using Cons.prems by (intro Cons.IH) simp
  have addr: "(of_nat k * 4 :: u32) + of_nat m = of_nat (4 * k + m)" for m by (simp add: algebra_simps)
  have small: "4 * k + m < 2 ^ 32" if "m < 4" for m using that Cons.prems by simp
  have eq: "(of_nat b :: u32) = of_nat c \<longleftrightarrow> b = c" if "c < 2 ^ 32" for c
  proof -
    have "unat (of_nat b :: u32) = b" by (rule unat_of_nat_small) (use assms(2) in simp)
    moreover have "unat (of_nat c :: u32) = c" by (rule unat_of_nat_small) (use that in simp)
    ultimately show ?thesis by metis
  qed
  show ?case
  proof (cases "4 * k \<le> b \<and> b < 4 * k + 4")
    case True
    then obtain m where m: "m < 4" "b = 4 * k + m" by (metis le_add_diff_inverse nat_add_left_cancel_less)
    then have "?buf (of_nat b) = word_byte w m"
      using put_bytes_same [OF m(1), of "of_nat k * 4" w buf] by (simp only: addr)
    moreover have "b div 4 = k" "b mod 4 = m" using m by simp_all
    ultimately show ?thesis using m unfolding step ih by simp
  next
    case False
    have "(of_nat b :: u32) \<noteq> of_nat k * 4 + of_nat m" if "m < 4" for m
      using eq [OF small [OF that]] that False unfolding addr by linarith
    then have "?buf (of_nat b) = buf (of_nat b)" by (intro put_bytes_other) blast
    moreover have "ws ! (b div 4 - Suc k) = (w # ws) ! (b div 4 - k)" if "4 * Suc k \<le> b"
    proof -
      have "Suc k \<le> b div 4" using that by simp
      then show ?thesis by (simp add: nth_Cons' Suc_diff_le)
    qed
    ultimately show ?thesis using False unfolding step ih by auto
  qed
qed auto

lemma get_words_nth: "i < n \<Longrightarrow> get_words n k buf ! i = get_bytes ((k + of_nat i) * 4) buf"
proof (induction n arbitrary: i k)
  case (Suc n)
  then show ?case by (cases i) (simp_all add: algebra_simps)
qed simp

lemma get_words_byte:
  assumes "b < 4 * n"
  shows "word_byte (get_words n 0 buf ! (b div 4)) (b mod 4) = buf (of_nat b)"
proof -
  have "b div 4 < n" using assms by simp
  then have "word_byte (get_words n 0 buf ! (b div 4)) (b mod 4) = buf (of_nat (b div 4) * 4 + of_nat (b mod 4))"
    by (simp add: get_words_nth get_bytes_byte)
  also have "(of_nat (b div 4) * 4 + of_nat (b mod 4) :: u32) = of_nat (b div 4 * 4 + b mod 4)"
    by (simp only: of_nat_add of_nat_mult of_nat_numeral)
  finally show ?thesis by simp
qed


section \<open>Reading and writing blocks\<close>

definition transfer_events :: "bool \<Rightarrow> SDCommand \<Rightarrow> u32 \<Rightarrow> u16 \<Rightarrow> u32 list list \<Rightarrow> event list" where
  "transfer_events is_read cmd a n bs =
     data_command_events cmd a R1 n @ ack 1 # blocks_log is_read (ready_bit is_read) bs @ [ack (push_bit 1 1)]"

lemma report_silent:
  "sdio_report_data_error who st s = Some t \<Longrightarrow> silent s t"
  "sdio_check_card_status who w s = Some (ok, t) \<Longrightarrow> silent s t \<and> (ok \<longleftrightarrow> card_problem w = None)"
  by (auto simp: sdio_report_data_error_def sdio_check_card_status_def Option.bind_eq_Some_conv logs_def
      split: option.splits dest!: uart_silent(1))

definition transfer_outcome :: "bool \<Rightarrow> SDCommand \<Rightarrow> u32 \<Rightarrow> u16 \<Rightarrow> bytes \<Rightarrow> 'a sd_scheme \<Rightarrow>
    bool \<Rightarrow> bytes \<Rightarrow> 'a sd_scheme \<Rightarrow> u32 list list \<Rightarrow> bool" where
  "transfer_outcome is_read cmd a n buf s ok buf' t bs \<longleftrightarrow>
     (\<forall>ws \<in> set bs. length ws = 128) \<and> moves is_read 0 (concat bs) buf buf' \<and> length bs \<le> unat n
     \<and> io.more t = io.more s
     \<and> (\<exists>es. sd_log t = sd_log s @ es \<and> prefix es (transfer_events is_read cmd a n bs)
          \<and> (ok \<longrightarrow> length bs = unat n \<and> es = transfer_events is_read cmd a n bs))"

lemma sdio_transfer_outcome:
  assumes "sdio_transfer who cmd d lba count buf s = Some (ok, buf', t)"
  shows "\<exists>bs. transfer_outcome d cmd (adj_lba lba s) (ucast count) buf s ok buf' t bs"
proof -
  obtain st r s1 where c: "send_data_command cmd (adj_lba lba s) R1 (ucast count) d buf True s = Some (st, r, buf', s1)"
    and rest: "silent s1 t" "ok \<longrightarrow> st = Success"
    using assms unfolding sdio_transfer_def
    by (auto simp: Option.bind_eq_Some_conv split: if_splits dest!: report_silent)
  let ?C = "data_command_events cmd (adj_lba lba s) R1 (ucast count)"
  from send_data_command_log [OF c] consider
      (cmd) "command_failure st" "buf' = buf" "logs ?C s s1"
    | (ok) bs where "\<forall>ws \<in> set bs. length ws = 128" "moves d 0 (concat bs) buf buf'" "st = Success"
        "length bs = unat (ucast count :: u16)" "logs (?C @ ack 1 # blocks_log d (ready_bit d) bs @ [ack (push_bit 1 1)]) s s1"
    | (fail) bs where "\<forall>ws \<in> set bs. length ws = 128" "moves d 0 (concat bs) buf buf'" "data_failure st"
        "length bs \<le> unat (ucast count :: u16)" "logs (?C @ ack 1 # blocks_log d (ready_bit d) bs) s s1"
    by blast
  then show ?thesis
  proof cases
    case cmd
    then show ?thesis using rest
      by (intro exI [of _ "[]"]) (auto simp: transfer_outcome_def transfer_events_def logs_def prefix_def)
  next
    case ok
    then show ?thesis using rest
      by (intro exI [of _ bs]) (simp add: transfer_outcome_def transfer_events_def logs_def)
  next
    case fail
    then show ?thesis using rest
      by (intro exI [of _ bs]) (auto simp: transfer_outcome_def transfer_events_def logs_def data_failure_def prefix_def)
  qed
qed


definition read_command :: "u32 \<Rightarrow> SDCommand" where "read_command count = (if count = 1 then CMD17 else CMD18)"
definition write_command :: "u32 \<Rightarrow> SDCommand" where "write_command count = (if count = 1 then CMD24 else CMD25)"

lemma sdio_read_nonzero:
  "count \<noteq> 0 \<Longrightarrow> sdio_read lba count buf s = sdio_transfer (ascii ''sdio_read'') (read_command count) True lba count buf s"
  "count \<noteq> 0 \<Longrightarrow> sdio_write lba count buf s = sdio_transfer (ascii ''sdio_write'') (write_command count) False lba count buf s"
proof -
  have "count > 1" if "count \<noteq> 0" "count \<noteq> 1"
  proof -
    have "unat count \<noteq> unat (1 :: u32)" using that(2) by (metis word_unat_eq_iff)
    moreover have "unat count \<noteq> 0" using that(1) by (simp add: unat_eq_0)
    ultimately show ?thesis unfolding word_less_nat_alt unat_1 by linarith
  qed
  then show "count \<noteq> 0 \<Longrightarrow> sdio_read lba count buf s = sdio_transfer (ascii ''sdio_read'') (read_command count) True lba count buf s"
    "count \<noteq> 0 \<Longrightarrow> sdio_write lba count buf s = sdio_transfer (ascii ''sdio_write'') (write_command count) False lba count buf s"
    by (auto simp: sdio_read_def sdio_write_def read_command_def write_command_def)
qed

lemma unat_count: "unat (ucast (count :: u32) :: u16) = unat count mod 65536"
  by (simp add: unsigned_ucast_eq take_bit_eq_mod)

lemma length_blocks: "\<forall>ws \<in> set bs. length ws = 128 \<Longrightarrow> length (concat bs) = 128 * length bs"
  by (induction bs) auto

text \<open>What a transfer does to the buffer, byte by byte.\<close>

lemma transfer_outcome_bytes:
  assumes "transfer_outcome d cmd a n buf s ok buf' t bs" "b < 2 ^ 32"
  shows "d \<Longrightarrow> buf' (of_nat b) =
      (if b < 512 * length bs then word_byte (concat bs ! (b div 4)) (b mod 4) else buf (of_nat b))"
    and "\<not> d \<Longrightarrow> b < 512 * length bs \<Longrightarrow> word_byte (concat bs ! (b div 4)) (b mod 4) = buf (of_nat b)"
    and "\<not> d \<Longrightarrow> buf' = buf"
proof -
  have l: "length (concat bs) = 128 * length bs" and m: "moves d 0 (concat bs) buf buf'" and n: "length bs \<le> unat n"
    using assms(1) length_blocks by (auto simp: transfer_outcome_def)
  have n': "unat n < 65536" using unsigned_less [of n] by simp
  show "\<not> d \<Longrightarrow> buf' = buf" using m by (simp add: moves_def)
  have "4 * (0 + length (concat bs)) \<le> 2 ^ 32" using l n n' by simp
  from put_words_bytes [OF this assms(2), of buf] show "d \<Longrightarrow> buf' (of_nat b) =
      (if b < 512 * length bs then word_byte (concat bs ! (b div 4)) (b mod 4) else buf (of_nat b))"
    using m l by (simp add: moves_def)
  show "\<not> d \<Longrightarrow> b < 512 * length bs \<Longrightarrow> word_byte (concat bs ! (b div 4)) (b mod 4) = buf (of_nat b)"
    using m l get_words_byte [of b "128 * length bs" buf] by (simp add: moves_def)
qed

text \<open>A card that answers at once: the status says that the command is complete, that the buffer is
  ready and that the transfer is over, and the data port gives the words \<open>vs\<close>.\<close>

lemma poll_now: "body s = Some (x, t) \<Longrightarrow> stop x \<Longrightarrow> poll_until body stop s = Some (x, t)"
  by (subst poll_until.simps) simp

lemma read_ready:
  "inp s = v # vs \<Longrightarrow> mmio_read r s = Some (ucast v, emit [Rd32 r (ucast v)] (s\<lparr>inp := vs\<rparr>))"
  "inp s = v # vs \<Longrightarrow> mmio_read16 r s = Some (ucast v, emit [Rd16 r (ucast v)] (s\<lparr>inp := vs\<rparr>))"
  by (simp_all add: io_defs)

lemma inp_write [simp]:
  "inp (mmio_write r v s) = inp s" "inp (mmio_write16 r w s) = inp s" "inp (mmio_write8 r b s) = inp s"
  "inp (set_argument a s) = inp s"
  by (simp_all add: io_defs set_argument_def)

lemma wait_status_ready:
  assumes "inp s = v # 0 # vs" "ucast v AND bits \<noteq> 0"
  shows "\<exists>t. wait_status bits s = Some ((ucast v, 0), t) \<and> inp t = vs"
proof -
  have "read_status s = Some ((ucast v, 0), emit [Rd16 ERROR_INTERRUPT_STATUS_SDIO0 0]
      ((emit [Rd16 NORMAL_INTERRUPT_STATUS_SDIO0 (ucast v)] (s\<lparr>inp := 0 # vs\<rparr>))\<lparr>inp := vs\<rparr>))"
    using assms(1) by (simp add: read_status_def read_ready)
  from poll_now [where body = read_status, OF this] assms(2) show ?thesis unfolding wait_status_def by simp
qed

lemma transfer_words_ready:
  assumes "inp s = (if d then vs else []) @ rest" "length vs = n" "0 < k" "k + n \<le> 128"
  shows "\<exists>b t. transfer_loop n rb d (of_nat k) buf s = Some (None, b, t) \<and> inp t = rest"
  using assms
proof (induction n arbitrary: k vs s buf)
  case (Suc n)
  then obtain v ws where vs: "vs = v # ws" by (cases vs) auto
  have "k mod 128 \<noteq> 0" using Suc.prems(3,4) by simp
  then have z: "(of_nat k :: u32) mod 128 \<noteq> 0" using of_nat_block [of k] Suc.prems(4) by simp
  obtain b1 s1 where "transfer_word d (of_nat k) buf s = Some (b1, s1)" "inp s1 = (if d then ws else []) @ rest"
    using Suc.prems(1) vs by (cases d) (simp_all add: transfer_word_def read_ready)
  with Suc.IH [of s1 ws "Suc k" b1] Suc.prems z vs show ?case by (simp add: add.commute)
qed simp

lemma transfer_first:
  assumes "data_wait rb s = Some (None, s2)" "transfer_word d 0 buf s2 = Some (b3, s3)"
  shows "transfer_loop (Suc m) rb d 0 buf s = transfer_loop m rb d 1 b3 s3"
  using assms by simp

lemma transfer_block_ready:
  assumes "inp s = v # 0 # (if d then vs else []) @ rest" "length vs = 128" "ucast v AND rb \<noteq> 0"
  shows "\<exists>b t. transfer_loop 128 rb d 0 buf s = Some (None, b, t) \<and> inp t = rest"
proof -
  obtain w ws where vs: "vs = w # ws" "length ws = 127" using assms(2) by (cases vs) auto
  obtain s1 where "wait_status rb s = Some ((ucast v, 0), s1)" "inp s1 = (if d then vs else []) @ rest"
    using wait_status_ready [OF assms(1,3)] by blast
  then obtain s2 where s2: "data_wait rb s = Some (None, s2)" "inp s2 = (if d then vs else []) @ rest"
    by (simp add: data_wait_def)
  obtain b3 s3 where s3: "transfer_word d 0 buf s2 = Some (b3, s3)" "inp s3 = (if d then ws else []) @ rest"
    using s2(2) vs by (cases d) (simp_all add: transfer_word_def read_ready)
  have "transfer_loop 128 rb d 0 buf s = transfer_loop 127 rb d 1 b3 s3"
    using transfer_first [OF s2(1) s3(1), of 127] by simp
  with transfer_words_ready [OF s3(2) vs(2), of 1 rb b3] show ?thesis by simp
qed

lemma send_data_ready:
  assumes "inp s = 0 # 0 # 0 # 0 # 1 # 0 # r # v # 0 # (if d then vs else []) @ [2, 0]" "length vs = 128"
    and "ucast v AND (if d then push_bit 5 1 else push_bit 4 1 :: u16) \<noteq> 0"
  shows "\<exists>b t. send_data_command cmd a R1 1 d buf True s = Some (Success, Some (ucast r), b, t)"
proof -
  let ?rb = "if d then push_bit 5 1 else push_bit 4 1 :: u16"
  define s1 where "s1 = emit [Rd32 PRESENT_STATE_SDIO0 0] ((emit [Rd32 PRESENT_STATE_SDIO0 0] (s\<lparr>inp := tl (inp s)\<rparr>))\<lparr>inp := tl (tl (inp s))\<rparr>)"
  have "bus_free s = Some (True, s1)" using assms(1) by (simp add: bus_free_def read_ready s1_def)
  then have p: "poll_until bus_free (\<lambda>free. free) s = Some (True, s1)" by (rule poll_now) simp
  have i1: "inp s1 = 0 # 0 # 1 # 0 # r # v # 0 # (if d then vs else []) @ [2, 0]" using assms(1) by (simp add: s1_def)
  obtain s2 where s2: "mmio_read16 BLOCK_SIZE_SDIO0 s1 = Some (0, s2)" "inp s2 = tl (inp s1)"
    using i1 by (simp add: read_ready)
  define s3 where "s3 = set_argument a (mmio_write16 BLOCK_COUNT_SDIO0 1 (mmio_write16 BLOCK_SIZE_SDIO0 ((0 AND NOT 0xFFF) OR 0x200) s2))"
  obtain s4 where s4: "mmio_read16 TRANSFER_MODE_SDIO0 s3 = Some (0, s4)" "inp s4 = tl (tl (inp s1))"
    using i1 s2(2) by (simp add: read_ready s3_def)
  define s5 where "s5 = mmio_write16 COMMAND_SDIO0 (command_val (command_index cmd) R1 OR push_bit 5 1)
      (mmio_write16 TRANSFER_MODE_SDIO0 (transfer_mode d 1 0) s4)"
  have i5: "inp s5 = 1 # 0 # r # v # 0 # (if d then vs else []) @ [2, 0]" using i1 s4(2) by (simp add: s5_def)
  obtain s6 where s6: "wait_status 1 s5 = Some ((1, 0), s6)" "inp s6 = r # v # 0 # (if d then vs else []) @ [2, 0]"
    using wait_status_ready [OF i5, of 1] by auto
  obtain s7 where s7: "take_response R1 True s6 = Some (Some (ucast r), s7)" "inp s7 = v # 0 # (if d then vs else []) @ [2, 0]"
    using s6(2) by (simp add: take_response_def read_ready)
  obtain b s8 where s8: "transfer_loop 128 ?rb d 0 buf s7 = Some (None, b, s8)" "inp s8 = [2, 0]"
    using transfer_block_ready [OF s7(2) assms(2,3)] by blast
  obtain s9 where "wait_status (push_bit 1 1) s8 = Some ((2, 0), s9)"
    using wait_status_ready [of s8 2 "[]" "push_bit 1 1"] s8(2) by auto
  then have s9: "data_wait (push_bit 1 1) s8 = Some (None, mmio_write16 NORMAL_INTERRUPT_STATUS_SDIO0 (push_bit 1 1) s9)"
    by (simp add: data_wait_def)
  have "unat (ucast (1 :: u16) * 128 :: u32) = 128" by simp
  then show ?thesis
    unfolding send_data_command_def Let_def p
    using s2(1) s4(1) s6(1) s7(1) s8(1) s9 by (simp add: s3_def s5_def)
qed

definition sd_small :: "u64 list \<Rightarrow> sd" where
  "sd_small vs = newlib.extend (newlib_small vs)
     \<lparr>base_clock = 200000000, cid = [0, 0, 0, 0], rca = 0x1234, ccs = 1, card_inserted = 1\<rparr>"

lemma sd_small [simp]: "inp (sd_small vs) = vs"
  by (simp add: sd_small_def newlib_small_def newlib.defs screen.defs)

text \<open>The answers of the environment to the transfer of one block.\<close>

definition one_block_inputs :: "bool \<Rightarrow> u64 list" where
  "one_block_inputs d = [0, 0, 0, 0, 1, 0, 0x900, 0x30, 0] @ (if d then map of_nat [0..<128] else []) @ [2, 0]"

lemma sdio_transfer_ready:
  "\<exists>buf' t. sdio_transfer who cmd d lba 1 buf (sd_small (one_block_inputs d)) = Some (True, buf', t)"
proof -
  let ?s = "sd_small (one_block_inputs d)"
  have "\<exists>b t. send_data_command cmd (adj_lba lba ?s) R1 1 d buf True ?s = Some (Success, Some (ucast (0x900 :: u64)), b, t)"
    by (rule send_data_ready [where v = "0x30" and vs = "map of_nat [0..<128]"])
       (simp_all add: one_block_inputs_def)
  then show ?thesis
    by (auto simp: sdio_transfer_def sdio_check_card_status_def card_problem_def stored_def)
qed

section \<open>Properties\<close>





end
