(* ===== verification/Sd_Init.thy ===== *)
theory Sd_Init
  imports Sd_Transfer
begin

text \<open>
  The initialisation of the card: the order of the commands \<open>sdio_init\<close> sends, as a state machine of the
  card, and the divisor of the SD clock.
\<close>

section \<open>The identification flow\<close>

text \<open>
  The phases of the card and the commands each one takes: reset (CMD0), interface condition (CMD8), the
  ACMD41 handshake with its CMD55 prefix, the optional voltage switch (CMD11), and identification (CMD2,
  CMD3, CMD7, CMD16). The driver leaves \<open>App\<close> without ACMD41 when the answer to CMD55 lacks the APP_CMD bit:
  it then looks at the response of an earlier ACMD41.
\<close>

datatype phase = Unknown | Idle | Checked | App | Asked | Switching | Identified | Addressed | Selected | Transfer

fun flow :: "phase \<Rightarrow> u16 \<Rightarrow> phase option" where
  "flow Unknown c = (if c = 0 then Some Idle else None)"
| "flow Idle c = (if c = 8 then Some Checked else None)"
| "flow Checked c = (if c = 0 then Some Idle else if c = 55 then Some App else None)"
| "flow App c = (if c = 41 then Some Asked else if c = 55 then Some App else if c = 11 then Some Switching
     else if c = 2 then Some Identified else None)"
| "flow Asked c = (if c = 55 then Some App else if c = 11 then Some Switching
     else if c = 2 then Some Identified else None)"
| "flow Switching c = (if c = 55 then Some App else if c = 2 then Some Identified else None)"
| "flow Identified c = (if c = 3 then Some Addressed else None)"
| "flow Addressed c = (if c = 7 then Some Selected else None)"
| "flow Selected c = (if c = 16 then Some Transfer else None)"
| "flow Transfer c = None"

text \<open>The commands of a log, as writes of the command register with the index in bits 13 to 8.\<close>

fun flow_log :: "phase \<Rightarrow> event list \<Rightarrow> phase option" where
  "flow_log p [] = Some p"
| "flow_log p (e # es) = (case e of
     Wr16 r v \<Rightarrow> if r = COMMAND_SDIO0 then (case flow p (drop_bit 8 v) of None \<Rightarrow> None | Some q \<Rightarrow> flow_log q es)
       else flow_log p es
   | _ \<Rightarrow> flow_log p es)"

lemma flow_log_append:
  "flow_log p (es @ es') = Option.bind (flow_log p es) (\<lambda>q. flow_log q es')"
  by (induction es arbitrary: p) (auto split: event.splits option.splits)

definition at :: "'b io_scheme \<Rightarrow> phase \<Rightarrow> 'a io_scheme \<Rightarrow> bool" where
  "at s0 p s \<longleftrightarrow> (\<exists>es. sd_log s = sd_log s0 @ es \<and> flow_log Unknown es = Some p)"

lemma at_start: "at s Unknown s"
  by (simp add: at_def)

lemma at_log: "sd_log t = sd_log s \<Longrightarrow> at s0 p t = at s0 p s"
  by (simp add: at_def)

lemma at_silent: "silent s t \<Longrightarrow> at s0 p t = at s0 p s"
  by (rule at_log) (simp add: logs_def)

lemma command_registers:
  "ARGUMENT_LOW_SDIO0 \<noteq> COMMAND_SDIO0" "ARGUMENT_HIGH_SDIO0 \<noteq> COMMAND_SDIO0"
  "NORMAL_INTERRUPT_STATUS_SDIO0 \<noteq> COMMAND_SDIO0"
  by (simp_all add: board)

lemma flow_command:
  "flow p (drop_bit 8 v) = Some q \<Longrightarrow> flow_log p (command_events a v @ rs) = flow_log q rs"
  "flow_log p [ack b] = Some p"
  by (simp_all add: command_events_def ack_def command_registers)

lemma at_command:
  assumes "issue_command idx a ty out s = Some (st, r, t)" "at s0 p s"
    and "flow p (drop_bit 8 (command_val idx ty)) = Some q"
  shows "at s0 q t"
proof -
  let ?c = "command_events a (command_val idx ty)"
  obtain es where es: "sd_log s = sd_log s0 @ es" "flow_log Unknown es = Some p" using assms(2) unfolding at_def by blast
  obtain rs where rs: "sd_log t = sd_log s @ ?c @ rs" "rs = [] \<or> rs = [ack 1]"
    using issue_command_log [OF assms(1)] unfolding logs_def by force
  have "flow_log q rs = Some q" using rs(2) flow_command(2) [of q 1] by (elim disjE) simp_all
  then have "flow_log Unknown (es @ ?c @ rs) = Some q"
    unfolding flow_log_append [of Unknown es] es(2) by (simp only: Option.bind.simps flow_command(1) [OF assms(3)])
  moreover have "sd_log t = sd_log s0 @ (es @ ?c @ rs)" using es(1) rs(1) by simp
  ultimately show ?thesis unfolding at_def by blast
qed

text \<open>The commands of the initialisation, with the index each one puts in the command register.\<close>

lemma command_codes [simp]:
  "drop_bit 8 (command_val 0 ty) = 0" "drop_bit 8 (command_val 8 ty) = 8" "drop_bit 8 (command_val 55 ty) = 55"
  "drop_bit 8 (command_val 41 ty) = 41" "drop_bit 8 (command_val 11 ty) = 11" "drop_bit 8 (command_val 2 ty) = 2"
  "drop_bit 8 (command_val 3 ty) = 3" "drop_bit 8 (command_val 7 ty) = 7" "drop_bit 8 (command_val 16 ty) = 16"
  by (cases ty; simp add: command_val_def response_bits_def)+

lemma at_sd_command:
  assumes "sd_command cmd a ty out s = Some (st, r, t)" "at s0 p s"
    and "flow p (drop_bit 8 (command_val (command_index cmd) ty)) = Some q"
  shows "at s0 q t"
  using assms by (simp add: sd_command_def) (rule at_command)

text \<open>The phases in which an ACMD41 may be sent, and those it leads to.\<close>

definition asking :: "phase \<Rightarrow> bool" where
  "asking p \<longleftrightarrow> p = Checked \<or> p = App \<or> p = Asked \<or> p = Switching"

lemma at_app_command:
  assumes "sd_app_command ACMD41 a ty out s = Some (st, r, t)" "at s0 p s" "asking p"
  shows "at s0 App t \<or> at s0 Asked t"
proof -
  obtain st1 r1 s1 where c: "sd_command CMD55 0 R1 True s = Some (st1, r1, s1)"
    and rest: "t = s1 \<or> issue_command 41 a ty out s1 = Some (st, r, t)"
    using assms(1) by (auto simp: sd_app_command_def Option.bind_eq_Some_conv split: if_splits)
  have "at s0 App s1"
    by (rule at_sd_command [OF c assms(2)]) (use assms(3) in \<open>auto simp: asking_def\<close>)
  with rest at_command [of 41 a ty out s1 st r t s0 App Asked] show ?thesis by auto
qed


section \<open>The steps of the initialisation\<close>

lemma update_clock_silent: "update_clock f s = Some t \<Longrightarrow> silent s t"
  by (auto simp: update_clock_def Option.bind_eq_Some_conv logs_def dest!: logs_read)

lemma wait_clock_silent: "sdio_wait_clock_stable s = Some (r, t) \<Longrightarrow> silent s t"
  by (auto simp: sdio_wait_clock_stable_def Option.bind_eq_Some_conv logs_def
      split: if_splits dest!: timed_silent logs_read uart_silent)

lemma pins_silent:
  "sdio_pinctrl_init s = Some t \<Longrightarrow> silent s t" "sdio_cfg_select_sd_pin_timing s = Some t \<Longrightarrow> silent s t"
  by (auto simp: sdio_pinctrl_init_def sdio_cfg_select_sd_pin_timing_def Option.bind_eq_Some_conv logs_def Let_def
      dest!: logs_read)

text \<open>A do-block whose every step keeps the log: the rules of a simple weakest-precondition calculus.\<close>

definition keeps :: "event list \<Rightarrow> (bool \<times> 'a io_scheme) option \<Rightarrow> bool" where
  "keeps l r \<longleftrightarrow> (\<forall>x t. r = Some (x, t) \<longrightarrow> sd_log t = l)"

lemma keepsI: "sd_log t = l \<Longrightarrow> keeps l (Some (x, t))"
  by (simp add: keeps_def)

lemma keeps_pair:
  assumes "\<And>x t. m = Some (x, t) \<Longrightarrow> sd_log t = l" "\<And>x t. sd_log t = l \<Longrightarrow> keeps l (f x t)"
  shows "keeps l (Option.bind m (\<lambda>(x, t). f x t))"
  using assms by (cases m) (auto simp: keeps_def)

lemma keeps_state:
  assumes "\<And>t. m = Some t \<Longrightarrow> sd_log t = l" "\<And>t. sd_log t = l \<Longrightarrow> keeps l (f t)"
  shows "keeps l (Option.bind m f)"
  using assms by (cases m) (auto simp: keeps_def)

lemma keeps_if: "keeps l a \<Longrightarrow> keeps l b \<Longrightarrow> keeps l (if c then a else b)"
  by simp

lemmas log_steps = logs_read timed_silent uart_silent update_clock_silent wait_clock_silent pins_silent

lemma clock_init_log:
  assumes "sdio_clock_init s = Some (ok, t)"
  shows "sd_log t = sd_log s"
proof -
  have "keeps (sd_log s) (sdio_clock_init s)"
    unfolding sdio_clock_init_def Let_def
    by (intro keeps_pair keeps_state keeps_if keepsI;
        auto simp: logs_def Option.bind_eq_Some_conv split: if_splits dest!: log_steps)
  with assms show ?thesis by (simp add: keeps_def)
qed

lemma identify_flow:
  assumes "identify_attempts n f8 s = Some (ok, f8', t)" "at s0 p s" "p = Unknown \<or> p = Checked"
  shows "(\<exists>q. at s0 q t) \<and> (ok \<longrightarrow> at s0 Checked t)"
  using assms
proof (induction n arbitrary: s p)
  case 0
  then show ?case by auto
next
  case (Suc n)
  obtain st0 r0 s1 st8 r8 s2 where c0: "sd_command CMD0 0 NoResponse False s = Some (st0, r0, s1)"
    and c8: "sd_command CMD8 0x000001AA R7 True s1 = Some (st8, r8, s2)"
    and fin: "(if st8 = Timeout then Some (True, 0, s2)
      else if st8 = CrcError \<or> st8 = IndexError then Option.bind (sdio_clock_init s2) (\<lambda>(ok, s).
        if \<not> ok then Some (False, f8, s) else identify_attempts n f8 s)
      else Some (drop_bit 8 (stored 0 r8) AND 0xF = 0b0001 \<and> stored 0 r8 AND 0xFF = 0xAA, f8, s2)) = Some (ok, f8', t)"
    using Suc.prems(1) unfolding identify_attempts.simps Let_def by (auto simp: Option.bind_eq_Some_conv)
  have rest: "t = s2 \<or> (\<exists>ok3 s3. sdio_clock_init s2 = Some (ok3, s3) \<and>
        (\<not> ok \<and> t = s3 \<or> identify_attempts n f8 s3 = Some (ok, f8', t)))"
    using fin by (auto simp: Option.bind_eq_Some_conv split: if_splits)
  have "at s0 Idle s1" by (rule at_sd_command [OF c0 Suc.prems(2)]) (use Suc.prems(3) in auto)
  then have 2: "at s0 Checked s2" by (rule at_sd_command [OF c8]) simp
  show ?case using rest
  proof (elim disjE exE conjE)
    fix ok3 s3 assume k: "sdio_clock_init s2 = Some (ok3, s3)"
    have 3: "at s0 Checked s3" using 2 unfolding at_def clock_init_log [OF k] .
    then show ?thesis if "\<not> ok" "t = s3" using that by auto
    show ?thesis if "identify_attempts n f8 s3 = Some (ok, f8', t)" using Suc.IH [OF that 3] by simp
  qed (use 2 in auto)
qed

lemma acmd41_flow:
  assumes "acmd41_loop st ocr resp s = Some (ok, resp', t)" "at s0 p s" "asking p"
  shows "\<exists>q. asking q \<and> at s0 q t \<and> (ok \<longrightarrow> q = App \<or> q = Asked)"
proof -
  let ?Q = "\<lambda>st ocr resp s (ok, resp', t). \<forall>p. at s0 p s \<longrightarrow> asking p \<longrightarrow>
    (\<exists>q. asking q \<and> at s0 q t \<and> (ok \<longrightarrow> q = App \<or> q = Asked))"
  have "?Q st ocr resp s (ok, resp', t)"
  proof (rule acmd41_loop.raw_induct [where P = ?Q, OF _ assms(1)])
    fix loop st ocr resp and s :: "'a io_scheme" and y
    assume ih: "\<And>st ocr resp s y. loop st ocr resp s = Some y \<Longrightarrow> ?Q st ocr resp s y"
      and eq: "Option.bind (ticks_elapsed_ms st 1000 s) (\<lambda>(e, s). if e then Some (False, resp, s)
        else Option.bind (sd_app_command ACMD41 ocr R3 True s) (\<lambda>(status, r, s).
          let resp = stored resp r in
          if status \<in> {CrcError, IndexError, Timeout} then Some (False, resp, s)
          else if drop_bit 31 resp AND 1 = 0 then loop st ocr resp s else Some (True, resp, s))) = Some y"
    show "?Q st ocr resp s y"
    proof (cases y; clarify)
      fix ok resp' t p assume y: "y = (ok, resp', t)" and p: "at s0 p s" "asking p"
      obtain e s1 where t1: "ticks_elapsed_ms st 1000 s = Some (e, s1)"
        and rest: "(if e then Some (False, resp, s1) else Option.bind (sd_app_command ACMD41 ocr R3 True s1) (\<lambda>(status, r, s).
          let resp = stored resp r in
          if status \<in> {CrcError, IndexError, Timeout} then Some (False, resp, s)
          else if drop_bit 31 resp AND 1 = 0 then loop st ocr resp s else Some (True, resp, s))) = Some y"
        using eq by (auto simp: Option.bind_eq_Some_conv)
      have "silent s s1"
        using t1 by (auto simp: ticks_elapsed_ms_def Option.bind_eq_Some_conv logs_def dest!: logs_read)
      then have p1: "at s0 p s1" using p(1) at_silent by blast
      show "\<exists>q. asking q \<and> at s0 q t \<and> (ok \<longrightarrow> q = App \<or> q = Asked)"
      proof (cases e)
        case True
        with rest y p1 p(2) show ?thesis by auto
      next
        case False
        then obtain status r s2 where c: "sd_app_command ACMD41 ocr R3 True s1 = Some (status, r, s2)"
          and rest2: "t = s2 \<or> loop st ocr (stored resp r) s2 = Some (ok, resp', t)"
          using rest y by (auto simp: Option.bind_eq_Some_conv Let_def split: if_splits)
        obtain q where q: "at s0 q s2" "asking q" "q = App \<or> q = Asked"
          using at_app_command [OF c p1 p(2)] by (auto simp: asking_def)
        from rest2 show ?thesis
        proof
          assume "loop st ocr (stored resp r) s2 = Some (ok, resp', t)"
          from ih [OF this] q show ?thesis by blast
        qed (use q in blast)
      qed
    qed
  qed
  with assms(2,3) show ?thesis by blast
qed

lemma poll_flow:
  assumes "sdio_acmd41_poll ocr resp s = Some (ok, resp', t)" "at s0 p s" "asking p"
  shows "\<exists>q. asking q \<and> at s0 q t \<and> (ok \<longrightarrow> q = App \<or> q = Asked)"
proof -
  obtain x s1 where g: "get_ticks s = Some (x, s1)" "acmd41_loop x ocr resp s1 = Some (ok, resp', t)"
    using assms(1) by (auto simp: sdio_acmd41_poll_def Option.bind_eq_Some_conv)
  have "at s0 p s1" using logs_read(5) [OF g(1)] at_silent assms(2) by blast
  from acmd41_flow [OF g(2) this assms(3)] show ?thesis .
qed


lemma delay_silent: "delay_ms n s = Some t \<Longrightarrow> silent s t"
proof -
  assume "delay_ms n s = Some t"
  then obtain f s1 x where m: "mrs CNTFRQ_EL0 s = Some (f, s1)"
    "poll_until (mrs CNTPCT_EL0) (\<lambda>d. \<not> (d - f \<le> f div 1000 * n)) s1 = Some (x, t)"
    by (auto simp: delay_ms_def Let_def Option.bind_eq_Some_conv)
  from logs_read(4) [OF m(1)] poll_silent [OF m(2) logs_read(4)] show ?thesis by (simp add: logs_def)
qed

lemma dat_level_silent: "dat_level s = Some (v, t) \<Longrightarrow> silent s t"
  by (auto simp: dat_level_def Option.bind_eq_Some_conv dest!: present_silent)

definition settled :: "phase \<Rightarrow> bool" where
  "settled p \<longleftrightarrow> p = App \<or> p = Asked \<or> p = Switching"

lemma settled_asking: "settled p \<Longrightarrow> asking p" "asking p \<Longrightarrow> p \<noteq> Checked \<Longrightarrow> settled p"
  by (auto simp: settled_def asking_def)

text \<open>After CMD11 the rest of the voltage switch is silent.\<close>

lemma voltage_flow:
  assumes "sdio_voltage_switch v s = Some (ok, t)" "at s0 p s" "p = App \<or> p = Asked"
  shows "\<exists>q. settled q \<and> at s0 q t"
proof (cases "v = 0")
  case True
  with assms show ?thesis by (auto simp: sdio_voltage_switch_def settled_def)
next
  case False
  obtain st r s1 where c: "sd_command CMD11 0 R1 False s = Some (st, r, s1)"
    using assms(1) False by (auto simp: sdio_voltage_switch_def Option.bind_eq_Some_conv)
  have 1: "at s0 Switching s1" by (rule at_sd_command [OF c assms(2)]) (use assms(3) in auto)
  let ?rest = "if st \<noteq> Success then Some (False, s1)
      else Option.bind (update_clock (\<lambda>v. v AND NOT 1) s1) (\<lambda>s. Option.bind (dat_level s) (\<lambda>(level, s).
      if level \<noteq> 0 then Some (False, s)
      else Option.bind (mmio_read16 HOST_CONTROL_2_SDIO0 s) (\<lambda>(signal_enable, s).
      Option.bind (delay_ms 5 (mmio_write16 HOST_CONTROL_2_SDIO0 ((signal_enable AND NOT (push_bit 3 1)) OR push_bit 3 1) s)) (\<lambda>s.
      Option.bind (mmio_read16 HOST_CONTROL_2_SDIO0 s) (\<lambda>(signal_enable, s).
      if drop_bit 3 signal_enable AND 1 \<noteq> 1 then Some (False, s)
      else Option.bind (update_clock (\<lambda>v. v OR 1) s) (\<lambda>s. Option.bind (delay_ms 1 s) (\<lambda>s.
      Option.bind (dat_level s) (\<lambda>(level, s). if level \<noteq> 15 then Some (False, s) else Some (True, s)))))))))"
  have rest: "?rest = Some (ok, t)"
    using assms(1) False c unfolding sdio_voltage_switch_def Let_def by simp
  have "keeps (sd_log s1) ?rest"
    by (intro keeps_pair keeps_state keeps_if keepsI;
        auto simp: logs_def dest!: log_steps update_clock_silent dat_level_silent delay_silent)
  with rest have "sd_log t = sd_log s1" by (simp add: keeps_def)
  with 1 show ?thesis unfolding at_def settled_def by auto
qed

lemma sd_more: "io.more t = io.more s \<Longrightarrow> rca t = rca s \<and> ccs t = ccs s"
  for s t :: "'a sd_scheme"
  by (cases s; cases t; simp)

lemma sd_command_success:
  "sd_command cmd a ty out s = Some (Success, r, t) \<Longrightarrow>
    sd_log t = sd_log s @ command_events a (command_val (command_index cmd) ty) @ [ack 1]"
  unfolding sd_command_def by (drule issue_command_log) (simp add: logs_def)

lemma sd_command_more: "sd_command cmd a ty out s = Some (st, r, t) \<Longrightarrow> io.more t = io.more s"
  unfolding sd_command_def by (drule issue_command_log) (auto simp: logs_def)

text \<open>The last two commands of a successful initialisation: select the card, set the block length.\<close>

definition selection_events :: "u16 \<Rightarrow> event list" where
  "selection_events addr =
     command_events (push_bit 16 (ucast addr)) (command_val 7 R1b) @ [ack 1] @
     command_events 512 (command_val 16 R1) @ [ack 1]"

lemma read_cid_flow:
  assumes "sdio_read_cid c s = Some (st, c', t)" "at s0 p s" "settled p"
  shows "at s0 Identified t \<and> io.more t = io.more s"
proof -
  obtain st1 r s1 where c: "sd_command CMD2 0 R2 True s = Some (st1, r, s1)" and rest: "silent s1 t"
    using assms(1) unfolding sdio_read_cid_def Let_def
    by (auto simp: Option.bind_eq_Some_conv logs_def split: if_splits dest!: logs_read)
  have "at s0 Identified s1" by (rule at_sd_command [OF c assms(2)]) (use assms(3) in \<open>auto simp: settled_def\<close>)
  with sd_command_more [OF c] rest show ?thesis by (simp add: logs_def at_def)
qed

lemma finish_flow:
  assumes "sdio_finish_identification s = Some (ok, t)" "at s0 p s" "settled p"
  shows "(\<exists>q. at s0 q t) \<and> ccs t = ccs s
    \<and> (ok \<longrightarrow> at s0 Transfer t \<and> (\<exists>l. sd_log t = l @ selection_events (rca t)))"
proof -
  obtain st c s1 where k: "sdio_read_cid (cid s) s = Some (st, c, s1)"
    and rest: "(if st \<noteq> Success then Some (False, s1\<lparr>cid := c\<rparr>)
     else Option.bind (sd_command CMD3 0 R6 True (s1\<lparr>cid := c\<rparr>)) (\<lambda>(status, r, s).
     if status \<noteq> Success then Some (False, s)
     else Option.bind (sd_command CMD7 (push_bit 16 (ucast (rca (s\<lparr>rca := ucast (drop_bit 16 (stored 0 r) AND 0xFFFF)\<rparr>)))) R1b True
            (s\<lparr>rca := ucast (drop_bit 16 (stored 0 r) AND 0xFFFF)\<rparr>)) (\<lambda>(status, r, s).
     if status \<noteq> Success then Some (False, s)
     else Option.bind (sd_command CMD16 512 R1 True s) (\<lambda>(status, r, s). Some (status = Success, s))))) = Some (ok, t)"
    using assms(1) unfolding sdio_finish_identification_def Let_def by (auto simp: Option.bind_eq_Some_conv)
  have 1: "at s0 Identified (s1\<lparr>cid := c\<rparr>)" "ccs s1 = ccs s"
    using read_cid_flow [OF k assms(2,3)] sd_more by (auto simp: at_def)
  show ?thesis
  proof (cases "st = Success")
    case False
    then show ?thesis using rest 1 by auto
  next
    case True
    with rest obtain st3 r3 s3 where c3: "sd_command CMD3 0 R6 True (s1\<lparr>cid := c\<rparr>) = Some (st3, r3, s3)"
      and rest3: "if st3 \<noteq> Success then \<not> ok \<and> t = s3 else
        (\<exists>a st7 r7 s7. sd_command CMD7 (push_bit 16 (ucast a)) R1b True (s3\<lparr>rca := a\<rparr>) = Some (st7, r7, s7) \<and>
          (if st7 \<noteq> Success then \<not> ok \<and> t = s7 else
            (\<exists>st16 r16. sd_command CMD16 512 R1 True s7 = Some (st16, r16, t) \<and> ok = (st16 = Success))))"
      by (fastforce simp: Option.bind_eq_Some_conv split: if_splits)
    have 3: "at s0 Addressed s3" by (rule at_sd_command [OF c3 1(1)]) simp
    have k3: "ccs s3 = ccs s" using sd_more [OF sd_command_more [OF c3]] 1(2) by simp
    show ?thesis
    proof (cases "st3 = Success")
      case False
      then show ?thesis using rest3 3 k3 by auto
    next
      case True
      with rest3 obtain a st7 r7 s7 where c7: "sd_command CMD7 (push_bit 16 (ucast a)) R1b True (s3\<lparr>rca := a\<rparr>) = Some (st7, r7, s7)"
        and rest7: "if st7 \<noteq> Success then \<not> ok \<and> t = s7 else
            (\<exists>st16 r16. sd_command CMD16 512 R1 True s7 = Some (st16, r16, t) \<and> ok = (st16 = Success))"
        by auto
      have "at s0 Addressed (s3\<lparr>rca := a\<rparr>)" using 3 by (simp add: at_def)
      then have 7: "at s0 Selected s7" by (rule at_sd_command [OF c7]) simp
      have k7: "ccs s7 = ccs s" "rca s7 = a" using sd_more [OF sd_command_more [OF c7]] k3 by simp_all
      show ?thesis
      proof (cases "st7 = Success")
        case False
        then show ?thesis using rest7 7 k7 by auto
      next
        case True
        with rest7 obtain st16 r16 where c16: "sd_command CMD16 512 R1 True s7 = Some (st16, r16, t)" "ok = (st16 = Success)"
          by auto
        have 16: "at s0 Transfer t" by (rule at_sd_command [OF c16(1) 7]) simp
        have k: "ccs t = ccs s" "rca t = a" using sd_more [OF sd_command_more [OF c16(1)]] k7 by simp_all
        have "sd_log t = sd_log s3 @ selection_events (rca t)" if ok
          using that c16 True sd_command_success [of CMD7 _ R1b True _ r7 s7] c7
            sd_command_success [of CMD16 512 R1 True s7 r16 t]
          by (simp add: selection_events_def k(2))
        with 16 k show ?thesis by auto
      qed
    qed
  qed
qed


text \<open>The outcome of the initialisation, and the parts of \<open>sdio_init\<close> that lead to it.\<close>

definition init_outcome :: "'b io_scheme \<Rightarrow> (bool \<times> 'a sd_scheme) option \<Rightarrow> bool" where
  "init_outcome s0 r \<longleftrightarrow> (\<forall>ok t. r = Some (ok, t) \<longrightarrow> (\<exists>q. at s0 q t) \<and>
     (ok \<longrightarrow> at s0 Transfer t \<and> (ccs t = 0 \<or> ccs t = 1) \<and> (\<exists>l. sd_log t = l @ selection_events (rca t))))"

lemma init_outcome_simps [simp]:
  "init_outcome s0 (Some (False, t)) \<longleftrightarrow> (\<exists>q. at s0 q t)"
  "init_outcome s0 None"
  by (auto simp: init_outcome_def)

lemma init_outcome_bind:
  "(\<And>t. m = Some t \<Longrightarrow> init_outcome s0 (f t)) \<Longrightarrow> init_outcome s0 (Option.bind m f)"
  "(\<And>x t. m' = Some (x, t) \<Longrightarrow> init_outcome s0 (g x t)) \<Longrightarrow> init_outcome s0 (Option.bind m' (\<lambda>(x, t). g x t))"
  "(\<And>x y t. m'' = Some (x, y, t) \<Longrightarrow> init_outcome s0 (h x y t)) \<Longrightarrow> init_outcome s0 (Option.bind m'' (\<lambda>(x, y, t). h x y t))"
proof -
  show "(\<And>t. m = Some t \<Longrightarrow> init_outcome s0 (f t)) \<Longrightarrow> init_outcome s0 (Option.bind m f)"
    by (cases m) auto
  show "(\<And>x t. m' = Some (x, t) \<Longrightarrow> init_outcome s0 (g x t)) \<Longrightarrow> init_outcome s0 (Option.bind m' (\<lambda>(x, t). g x t))"
    by (cases m') auto
  show "(\<And>x y t. m'' = Some (x, y, t) \<Longrightarrow> init_outcome s0 (h x y t)) \<Longrightarrow> init_outcome s0 (Option.bind m'' (\<lambda>(x, y, t). h x y t))"
    by (cases m'') auto
qed

lemma init_outcome_if:
  "(c \<Longrightarrow> init_outcome s0 a) \<Longrightarrow> (\<not> c \<Longrightarrow> init_outcome s0 b) \<Longrightarrow> init_outcome s0 (if c then a else b)"
  by simp

lemma init_outcome_stop: "at s0 q t \<Longrightarrow> init_outcome s0 (Some (False, t))"
  by auto

lemma outcome_finish:
  assumes "at s0 p s" "settled p" "ccs s = 0 \<or> ccs s = 1"
  shows "init_outcome s0 (sdio_finish_identification s)"
  unfolding init_outcome_def using finish_flow assms by fastforce

lemma outcome_message:
  assumes "at s0 p s" "\<And>t. at s0 p t \<Longrightarrow> io.more t = io.more s \<Longrightarrow> init_outcome s0 (f t)"
  shows "init_outcome s0 (Option.bind (uart_puts msg s) f)"
proof (rule init_outcome_bind(1))
  fix t assume "uart_puts msg s = Some t"
  then have "silent s t" by (rule uart_silent(1))
  with assms show "init_outcome s0 (f t)" by (simp add: at_def logs_def)
qed

lemma outcome_poll:
  assumes "at s0 p s" "asking p" "\<And>q resp t. at s0 q t \<Longrightarrow> q = App \<or> q = Asked \<Longrightarrow> init_outcome s0 (f resp t)"
  shows "init_outcome s0 (Option.bind (sdio_acmd41_poll ocr resp s)
    (\<lambda>(ok, resp, s). if \<not> ok then Some (False, s) else f resp s))"
proof (rule init_outcome_bind(3))
  fix ok resp' t assume "sdio_acmd41_poll ocr resp s = Some (ok, resp', t)"
  from poll_flow [OF this assms(1,2)] obtain q where "asking q" "at s0 q t" "ok \<longrightarrow> q = App \<or> q = Asked" by blast
  then show "init_outcome s0 (if \<not> ok then Some (False, t) else f resp' t)"
    using assms(3) by auto
qed

lemma ccs_at [simp]: "at s0 p (s\<lparr>ccs := c\<rparr>) = at s0 p s"
  by (simp add: at_def)

lemma outcome_asked:
  assumes "at s0 p s" "asking p" "\<And>q r st t. at s0 q t \<Longrightarrow> q = App \<or> q = Asked \<Longrightarrow> init_outcome s0 (f st r t)"
  shows "init_outcome s0 (Option.bind (sd_app_command ACMD41 a ty out s) (\<lambda>(st, r, t). f st r t))"
proof (rule init_outcome_bind(3))
  fix st r t assume "sd_app_command ACMD41 a ty out s = Some (st, r, t)"
  from at_app_command [OF this assms(1,2)] assms(3) show "init_outcome s0 (f st r t)" by blast
qed


lemma outcome_complete:
  assumes "at s0 p s" "settled p" "c = 0 \<or> c = 1"
  shows "init_outcome s0 (Option.bind (uart_puts msg s) (\<lambda>s. sdio_finish_identification (s\<lparr>ccs := c\<rparr>)))"
  by (rule outcome_message [OF assms(1)], rule outcome_finish [of s0 p]) (use assms(2,3) in simp_all)

lemma outcome_complete_early:
  assumes "at s0 p s" "settled p" "ccs s = 0"
  shows "init_outcome s0 (Option.bind (uart_puts msg s) sdio_finish_identification)"
proof (rule outcome_message [OF assms(1)])
  fix t assume "at s0 p t" "io.more t = io.more s"
  then show "init_outcome s0 (sdio_finish_identification t)"
    using outcome_finish [of s0 p t] assms(2,3) sd_more [of t s] by simp
qed

text \<open>The switch, its retry, and the end of the initialisation.\<close>

lemma outcome_switch:
  assumes "at s0 p s" "p = App \<or> p = Asked"
  shows "init_outcome s0 (Option.bind (sdio_voltage_switch v s) (\<lambda>(switched, s).
    Option.bind (if switched then Some (True, s)
      else Option.bind (uart_puts msg s) (\<lambda>s. Option.bind (sdio_acmd41_poll ocr resp s)
        (\<lambda>(ok, resp, s). Some (ok, s))))
    (\<lambda>(ok, s). if \<not> ok then Some (False, s)
      else Option.bind (uart_puts msg2 s) (\<lambda>s. sdio_finish_identification (s\<lparr>ccs := 1\<rparr>)))))"
proof (rule init_outcome_bind(2), rule init_outcome_bind(2))
  fix switched s1 ok s3
  assume v: "sdio_voltage_switch v s = Some (switched, s1)"
    and r: "(if switched then Some (True, s1)
      else Option.bind (uart_puts msg s1) (\<lambda>s. Option.bind (sdio_acmd41_poll ocr resp s)
        (\<lambda>(ok, resp, s). Some (ok, s)))) = Some (ok, s3)"
  from voltage_flow [OF v assms] obtain q where q: "settled q" "at s0 q s1" by blast
  have "\<exists>q. asking q \<and> at s0 q s3 \<and> (ok \<longrightarrow> settled q)"
  proof (cases switched)
    case True
    with r q settled_asking(1) show ?thesis by auto
  next
    case False
    with r obtain s2 resp' where u: "uart_puts msg s1 = Some s2" "sdio_acmd41_poll ocr resp s2 = Some (ok, resp', s3)"
      by (auto simp: Option.bind_eq_Some_conv)
    have "at s0 q s2" using q(2) uart_silent(1) [OF u(1)] by (simp add: at_def logs_def)
    from poll_flow [OF u(2) this settled_asking(1) [OF q(1)]] show ?thesis by (auto simp: settled_def)
  qed
  then show "init_outcome s0 (if \<not> ok then Some (False, s3)
      else Option.bind (uart_puts msg2 s3) (\<lambda>s. sdio_finish_identification (s\<lparr>ccs := 1\<rparr>)))"
    by (auto intro: outcome_complete)
qed

text \<open>\<open>sdio_init\<close> after the first stage of the identification.\<close>

lemma stage1_flow:
  assumes "sdio_clock_init s = Some (b, s1)" "sdio_identify_stage1 f s1 = Some (ok, f', s2)"
  shows "(\<exists>q. at s q s2) \<and> (ok \<longrightarrow> at s Checked s2)"
proof -
  have "at s Unknown s1" using clock_init_log [OF assms(1)] by (simp add: at_def)
  then show ?thesis using identify_flow [OF assms(2) [unfolded sdio_identify_stage1_def]] by blast
qed

lemma answered: "q = App \<or> q = Asked \<Longrightarrow> asking q \<and> settled q"
  by (auto simp: asking_def settled_def)

lemma sdio_init_outcome: "init_outcome s (sdio_init s)"
  unfolding sdio_init_def Let_def
  apply (rule init_outcome_bind(2), rule init_outcome_bind(3))
  subgoal for b s1 ok F8 s2
    apply (drule (1) stage1_flow, elim conjE exE)
    apply (rule init_outcome_if, erule init_outcome_stop)
    apply (rule outcome_asked [where p = Checked], blast, simp add: asking_def)
    subgoal for _ q r st s3
      apply (frule answered, elim conjE)
      apply (rule init_outcome_if, erule init_outcome_stop)+
      apply (rule init_outcome_if)
       apply (rule outcome_poll [of _ q], assumption, assumption)
       apply (drule answered, rule outcome_complete, assumption, blast, blast)
      apply (rule outcome_poll [of _ q], assumption, assumption)
      subgoal for q' resp s4
        apply (frule answered [of q'], rule init_outcome_if)
         apply (rule outcome_complete_early [of _ q'], simp, blast, simp)
        apply (rule outcome_message, assumption, rule outcome_switch, assumption, assumption)
        done
      done
    done
  done

section \<open>The clock\<close>

text \<open>The divisor field for a base clock of \<open>m\<close> MHz, for the 255 values the field of CAPABILITIES can have.\<close>

lemma divisor_table:
  "list_all (\<lambda>m. let base = of_nat m * 1000000 :: u64; d = clock_divisor base AND 0xFF
     in (d \<noteq> 0 \<and> base \<le> 400000 * (2 * d)) = (m \<le> 204)) [1..<256]"
  by code_simp

definition reported_mhz :: "u32 \<Rightarrow> u32" where
  "reported_mhz capabilities = (if base_clock_mhz capabilities = 0 then 200 else base_clock_mhz capabilities)"

section \<open>A card\<close>

text \<open>The answers of a standard-capacity card of version 2.00 to the whole initialisation, and the state
  of a kernel that has just started.\<close>

definition card_inputs :: "u64 list" where
  "card_inputs = [0, 0, 0, 0, 0x10000, 0xC800, 0x400, 0, 0, 0, 0, 2, 0, 0, 2, 0] @
     [0, 1, 0] @ [0, 1, 0, 0x1AA] @ [0, 1, 0, 0x20] @ [0, 1, 0, 0] @
     [0, 54000000, 0] @ [0, 1, 0, 0x20] @ [0, 1, 0, 0x80FF8000] @ replicate 88 0 @
     [0, 1, 0, 7, 8, 9, 10] @ [0, 1, 0, 0x12340000] @ [0, 1, 0, 0] @ [0, 1, 0, 0]"

definition sd_bare :: "u64 list \<Rightarrow> sd" where
  "sd_bare vs = \<lparr>inp = vs, trace = [], daif = 0, MMU_ACTIVE = False, mem = (\<lambda>_. 0), bitmap = 0, phys_mem_start = 0,
     total_frames = 0, l1_table = 0, bump_ptr = 0, heap_end = 0, dma_bump_ptr = 0, time = 0, freq = 0,
     framebuffer_base = 0, framebuffer_size = 0, framebuffer_pitch = 0, framebuffer_width = 0, framebuffer_height = 0,
     fb = (\<lambda>_. 0), term_buffer = (\<lambda>_. 0), term_rows = 135, term_cols = 240, cursor_row = 0, cursor_col = 0,
     curr_brk = 0, CURR_NEWLIB_HEAP_END = 0, core_errno = [0, 0, 0, 0],
     base_clock = 0, cid = [0, 0, 0, 0], rca = 0, ccs = 0, card_inserted = 0\<rparr>"

lemma init_run: "map_option fst (sdio_init (sd_bare card_inputs)) = Some True"
  by code_simp

section \<open>Properties\<close>



text \<open>the identification clock. The eight divisor bits that \<open>sdio_clock_init\<close> writes keep the SD clock at or
  below 400 kHz exactly for base clocks up to 204 MHz (the board has 200): above, the divisor does not
  fit in the field, and the low bits that are left give a clock that is too fast.\<close>

theorem sd_clock_limit:
  "let base = ucast (reported_mhz cap) * 1000000; d = clock_divisor base AND 0xFF
   in d \<noteq> 0 \<and> base \<le> 400000 * (2 * d) \<longleftrightarrow> reported_mhz cap \<le> 204"
proof -
  let ?m = "unat (reported_mhz cap)"
  have "unat (base_clock_mhz cap) < 256"
    using unat_and_mask [of "drop_bit 8 cap" 8] by (simp add: base_clock_mhz_def mask_FF)
  then have m: "?m \<in> set [1..<256]"
    by (auto simp: reported_mhz_def unat_gt_0 Suc_le_eq)
  have e: "of_nat ?m = (ucast (reported_mhz cap) :: u64)" by simp
  have l: "?m \<le> 204 \<longleftrightarrow> reported_mhz cap \<le> 204" by (simp add: word_le_nat_alt)
  from divisor_table m have "let base = of_nat ?m * 1000000 :: u64; d = clock_divisor base AND 0xFF
     in (d \<noteq> 0 \<and> base \<le> 400000 * (2 * d)) = (?m \<le> 204)"
    unfolding list_all_iff by (rule bspec)
  then show ?thesis unfolding e l .
qed

end
