(* ===== verification/Diskio.thy ===== *)
theory Diskio
  imports Sd_Init
begin

text \<open>
  The glue between FatFs and the card (\<open>src/kernel/fatfs_retarget/diskio.c\<close>, with the codes of
  \<open>lib/include/lib/fatfs/diskio.h\<close>), and the interface FatFs sees: a locale of block devices.
\<close>

section \<open>Operations\<close>

datatype DRESULT = RES_OK | RES_ERROR | RES_WRPRT | RES_NOTRDY | RES_PARERR

definition STA_NOINIT :: u8 where "STA_NOINIT = 0x01"
definition STA_NODISK :: u8 where "STA_NODISK = 0x02"
definition STA_PROTECT :: u8 where "STA_PROTECT = 0x04"
definition CTRL_SYNC :: u8 where "CTRL_SYNC = 0"
definition DEV_SD :: u8 where "DEV_SD = 0"

record disk = sd +
  init_status :: u8

definition disk_status :: "u8 \<Rightarrow> 'a disk_scheme \<Rightarrow> u8 \<times> 'a disk_scheme" where
  "disk_status pdrv s =
     (if pdrv \<noteq> DEV_SD then (STA_NOINIT, s)
      else let s = (if card_inserted s = 0 then s\<lparr>init_status := STA_NOINIT OR STA_NODISK\<rparr> else s)
           in (init_status s, s))"

definition disk_initialize :: "u8 \<Rightarrow> 'a disk_scheme \<Rightarrow> (u8 \<times> 'a disk_scheme) option" where
  "disk_initialize pdrv s =
     (if pdrv \<noteq> DEV_SD then Some (STA_NOINIT, s)
      else do {
        (init_ok, s) \<leftarrow> sdio_init s;
        let s = s\<lparr>init_status :=
          (if init_ok then 0 else if card_inserted s = 0 then STA_NOINIT OR STA_NODISK else STA_NOINIT)\<rparr>;
        Some (init_status s, s) })"

definition disk_read :: "u8 \<Rightarrow> bytes \<Rightarrow> u32 \<Rightarrow> u32 \<Rightarrow> 'a sd_scheme \<Rightarrow> (DRESULT \<times> bytes \<times> 'a sd_scheme) option" where
  "disk_read pdrv buff sector count s =
     (if pdrv \<noteq> DEV_SD then Some (RES_PARERR, buff, s)
      else do {
        (ok, buff, s) \<leftarrow> sdio_read sector count buff s;
        Some (if \<not> ok then RES_ERROR else RES_OK, buff, s) })"

definition disk_write :: "u8 \<Rightarrow> bytes \<Rightarrow> u32 \<Rightarrow> u32 \<Rightarrow> 'a sd_scheme \<Rightarrow> (DRESULT \<times> bytes \<times> 'a sd_scheme) option" where
  "disk_write pdrv buff sector count s =
     (if pdrv \<noteq> DEV_SD then Some (RES_PARERR, buff, s)
      else do {
        (ok, buff, s) \<leftarrow> sdio_write sector count buff s;
        Some (if \<not> ok then RES_ERROR else RES_OK, buff, s) })"

definition disk_ioctl :: "u8 \<Rightarrow> u8 \<Rightarrow> DRESULT" where
  "disk_ioctl pdrv cmd =
     (if pdrv \<noteq> DEV_SD then RES_PARERR else if cmd \<noteq> CTRL_SYNC then RES_PARERR else RES_OK)"

section \<open>Lemmas\<close>

text \<open>
  The status is 0 exactly after a successful initialisation that saw a card. \<open>card_inserted\<close> is written by
  \<open>_sdio_clock_init\<close> alone, so transfers do not notice that a card has been taken out.
\<close>

lemma disk_status_ready:
  "fst (disk_status DEV_SD s) = 0 \<longleftrightarrow> card_inserted s \<noteq> 0 \<and> init_status s = 0"
  by (simp add: disk_status_def STA_NOINIT_def STA_NODISK_def)

lemma disk_initialize_ready:
  assumes "disk_initialize DEV_SD s = Some (st, t)"
  shows "init_status t = st \<and> (\<exists>ok u. sdio_init s = Some (ok, u) \<and> (st = 0 \<longleftrightarrow> ok))"
  using assms by (auto simp: disk_initialize_def Option.bind_eq_Some_conv Let_def STA_NOINIT_def STA_NODISK_def)

lemma transfer_keeps_card:
  assumes "sdio_read k n b s = Some (ok, b', t) \<or> sdio_write k n b s = Some (ok, b', t)"
  shows "card_inserted t = card_inserted s"
proof (cases "n = 0")
  case True
  with assms have "silent s t"
    by (auto simp: sdio_read_def sdio_write_def Option.bind_eq_Some_conv dest: uart_silent(1))
  then have "io.more t = io.more s" by (simp add: logs_def)
  then show ?thesis by (cases s; cases t; simp)
next
  case False
  with assms obtain who cmd d where "sdio_transfer who cmd d k n b s = Some (ok, b', t)"
    by (auto simp: sdio_read_nonzero)
  from sdio_transfer_outcome [OF this] have "io.more t = io.more s" by (auto simp: transfer_outcome_def)
  then show ?thesis by (cases s; cases t; simp)
qed

lemma disk_transfer_keeps_card:
  "disk_read d b k n s = Some (r, b', t) \<Longrightarrow> card_inserted t = card_inserted s"
  "disk_write d b k n s = Some (r, b', t) \<Longrightarrow> card_inserted t = card_inserted s"
  by (auto simp: disk_read_def disk_write_def Option.bind_eq_Some_conv split: if_splits dest: transfer_keeps_card [OF disjI1] transfer_keeps_card [OF disjI2])

end
