(* ===== verification/Card.thy ===== *)
theory Card
  imports Diskio
begin

text \<open>
  The medium behind the disk port. An SD card is not code of the repository; its documented behaviour is
  replayed on the log of the driver: a single-block write command followed by 128 words stores them at
  the address of the command, and a card is honest as long as each word it gave after a single-block read
  command is the word stored there. The locale \<open>block_device\<close> states what the layers above need, and the
  disk functions satisfy it for every honest card.
\<close>

section \<open>The card\<close>

datatype data_phase = Idle | Reading nat | Writing "u32 list"

record card =
  medium :: "u32 \<Rightarrow> nat \<Rightarrow> u32"
  low :: u16
  high :: u16
  phase :: data_phase
  truthful :: bool

definition card_address :: "card \<Rightarrow> u32" where
  "card_address c = ucast (low c) OR push_bit 16 (ucast (high c))"

definition command_phase :: "u16 \<Rightarrow> data_phase" where
  "command_phase v =
     (if drop_bit 8 v AND 0x3F = 17 then Reading 0 else if drop_bit 8 v AND 0x3F = 24 then Writing [] else Idle)"

definition card_gives :: "u32 \<Rightarrow> card \<Rightarrow> card" where
  "card_gives w c = (case phase c of
     Reading n \<Rightarrow> c\<lparr>phase := Reading (Suc n), truthful := (truthful c \<and> w = medium c (card_address c) n)\<rparr>
   | _ \<Rightarrow> c)"

definition card_takes :: "u32 \<Rightarrow> card \<Rightarrow> card" where
  "card_takes w c = (case phase c of
     Writing ws \<Rightarrow>
       if length ws = 127 then c\<lparr>medium := (medium c)(card_address c := (!) (ws @ [w])), phase := Idle\<rparr>
       else c\<lparr>phase := Writing (ws @ [w])\<rparr>
   | _ \<Rightarrow> c)"

definition card_step :: "event \<Rightarrow> card \<Rightarrow> card" where
  "card_step e c = (case e of
     Wr16 r v \<Rightarrow>
       if r = ARGUMENT_LOW_SDIO0 then c\<lparr>low := v\<rparr>
       else if r = ARGUMENT_HIGH_SDIO0 then c\<lparr>high := v\<rparr>
       else if r = COMMAND_SDIO0 then c\<lparr>phase := command_phase v\<rparr> else c
   | Rd32 r w \<Rightarrow> if r = BUFFER_DATA_0_SDIO0 then card_gives w c else c
   | Wr32 r w \<Rightarrow> if r = BUFFER_DATA_0_SDIO0 then card_takes w c else c
   | _ \<Rightarrow> c)"

abbreviation replay :: "event list \<Rightarrow> card \<Rightarrow> card" where "replay \<equiv> fold card_step"

definition fresh_card :: "(u32 \<Rightarrow> nat \<Rightarrow> u32) \<Rightarrow> card" where
  "fresh_card m = \<lparr>medium = m, low = 0, high = 0, phase = Idle, truthful = True\<rparr>"

definition card_of :: "(u32 \<Rightarrow> nat \<Rightarrow> u32) \<Rightarrow> 'a io_scheme \<Rightarrow> card" where
  "card_of m s = replay (sd_log s) (fresh_card m)"

definition honest :: "(u32 \<Rightarrow> nat \<Rightarrow> u32) \<Rightarrow> 'a io_scheme \<Rightarrow> bool" where
  "honest m s \<longleftrightarrow> truthful (card_of m s)"

text \<open>The bytes of a sector, and the sectors whose addresses do not wrap: all on a high-capacity card.\<close>

definition content :: "(u32 \<Rightarrow> nat \<Rightarrow> u32) \<Rightarrow> 'a sd_scheme \<Rightarrow> u32 \<Rightarrow> nat \<Rightarrow> u8" where
  "content m s k i = word_byte (medium (card_of m s) (adj_lba k s) (i div 4)) (i mod 4)"

definition sector :: "'a sd_scheme \<Rightarrow> u32 \<Rightarrow> bool" where
  "sector s k \<longleftrightarrow> ccs s \<noteq> 0 \<or> k < 0x800000"

section \<open>Replaying transfers\<close>

lemma card_address_argument:
  "card_address (c\<lparr>low := ucast (a AND 0xFFFF), high := ucast (drop_bit 16 a AND 0xFFFF)\<rparr>) = a"
proof -
  have m: "(0xFFFF :: u32) = mask 16" by (simp add: mask_eq_exp_minus_1)
  show ?thesis unfolding card_address_def m
    by (rule bit_word_eqI) (auto simp: bit_simps)
qed

lemma truthful_step: "truthful (card_step e c) \<Longrightarrow> truthful c"
  by (auto simp: card_step_def card_gives_def card_takes_def split: event.splits data_phase.splits if_splits)

lemma truthful_replay: "truthful (replay es c) \<Longrightarrow> truthful c"
proof (induction es arbitrary: c)
  case (Cons e es)
  then have "truthful (card_step e c)" by simp
  then show ?case by (rule truthful_step)
qed simp

text \<open>Outside the data phase the medium stays, in it only the sector of the command changes.\<close>

definition data_event :: "event \<Rightarrow> bool" where
  "data_event e \<longleftrightarrow> (\<exists>w. e = Rd32 BUFFER_DATA_0_SDIO0 w) \<or> (\<exists>w. e = Wr32 BUFFER_DATA_0_SDIO0 w)
     \<or> (\<exists>v. e = Wr16 NORMAL_INTERRUPT_STATUS_SDIO0 v)"

definition quiet_event :: "event \<Rightarrow> bool" where
  "quiet_event e \<longleftrightarrow> (\<exists>r v. e = Wr16 r v)"

lemma replay_quiet: "list_all quiet_event es \<Longrightarrow> medium (replay es c) = medium c \<and> (truthful (replay es c) \<longleftrightarrow> truthful c)"
proof (induction es arbitrary: c)
  case (Cons e es)
  have "medium (card_step e c) = medium c \<and> (truthful (card_step e c) \<longleftrightarrow> truthful c)"
    using Cons.prems by (auto simp: quiet_event_def card_step_def split: if_splits)
  with Cons show ?case by simp
qed simp

lemma sd_registers: "NORMAL_INTERRUPT_STATUS_SDIO0 \<noteq> ARGUMENT_LOW_SDIO0" "NORMAL_INTERRUPT_STATUS_SDIO0 \<noteq> ARGUMENT_HIGH_SDIO0"
    "NORMAL_INTERRUPT_STATUS_SDIO0 \<noteq> COMMAND_SDIO0" "ARGUMENT_HIGH_SDIO0 \<noteq> ARGUMENT_LOW_SDIO0"
    "COMMAND_SDIO0 \<noteq> ARGUMENT_LOW_SDIO0" "COMMAND_SDIO0 \<noteq> ARGUMENT_HIGH_SDIO0"
    "BLOCK_COUNT_SDIO0 \<noteq> ARGUMENT_LOW_SDIO0" "BLOCK_COUNT_SDIO0 \<noteq> ARGUMENT_HIGH_SDIO0" "BLOCK_COUNT_SDIO0 \<noteq> COMMAND_SDIO0"
  by (simp_all add: board)

lemma replay_data:
  assumes "list_all data_event es"
  shows "card_address (replay es c) = card_address c \<and> (\<forall>a. a \<noteq> card_address c \<longrightarrow> medium (replay es c) a = medium c a)
    \<and> ((\<forall>ws. phase c \<noteq> Writing ws) \<longrightarrow> medium (replay es c) = medium c \<and> (\<forall>ws. phase (replay es c) \<noteq> Writing ws))"
  using assms
proof (induction es arbitrary: c)
  case (Cons e es)
  have e: "card_address (card_step e c) = card_address c \<and> (\<forall>a. a \<noteq> card_address c \<longrightarrow> medium (card_step e c) a = medium c a)
    \<and> ((\<forall>ws. phase c \<noteq> Writing ws) \<longrightarrow> medium (card_step e c) = medium c \<and> (\<forall>ws. phase (card_step e c) \<noteq> Writing ws))"
    using Cons.prems sd_registers
    by (auto simp: data_event_def card_step_def card_gives_def card_takes_def card_address_def split: data_phase.splits)
  have "list_all data_event es" using Cons.prems by simp
  from Cons.IH [OF this, of "card_step e c"] e show ?case by auto
qed simp

lemma replay_gives:
  assumes "phase c = Reading n"
  shows "medium (replay (map (access True) ws) c) = medium c
    \<and> (truthful (replay (map (access True) ws) c) \<longleftrightarrow> truthful c \<and> (\<forall>i < length ws. ws ! i = medium c (card_address c) (n + i)))"
  using assms
proof (induction ws arbitrary: n c)
  case (Cons w ws)
  let ?c = "card_step (access True w) c"
  have c: "?c = c\<lparr>phase := Reading (Suc n), truthful := (truthful c \<and> w = medium c (card_address c) n)\<rparr>"
    using Cons.prems by (simp add: access_def card_step_def card_gives_def)
  have "phase ?c = Reading (Suc n)" "medium ?c = medium c" "card_address ?c = card_address c"
    "truthful ?c \<longleftrightarrow> truthful c \<and> w = medium c (card_address c) n"
    by (simp_all add: c card_address_def)
  with Cons.IH [of ?c "Suc n"] show ?case by (auto simp: All_less_Suc2)
qed simp

lemma replay_takes:
  assumes "phase c = Writing vs" "length vs + length ws = 128" "ws \<noteq> []"
  shows "medium (replay (map (access False) ws) c) = (medium c)(card_address c := (!) (vs @ ws))"
  using assms
proof (induction ws arbitrary: vs c)
  case (Cons w ws)
  show ?case
  proof (cases "ws = []")
    case True
    then show ?thesis using Cons.prems by (simp add: access_def card_step_def card_takes_def)
  next
    case False
    let ?c = "card_step (access False w) c"
    have "length vs \<noteq> 127" using Cons.prems(2) False by (cases ws) auto
    then have c: "?c = c\<lparr>phase := Writing (vs @ [w])\<rparr>"
      using Cons.prems by (simp add: access_def card_step_def card_takes_def)
    have "phase ?c = Writing (vs @ [w])" "medium ?c = medium c" "card_address ?c = card_address c"
      by (simp_all add: c card_address_def)
    with Cons.IH [of ?c "vs @ [w]"] Cons.prems(2) False show ?thesis by simp
  qed
qed simp

lemma replay_ack: "card_step (ack b) c = c"
  using sd_registers by (simp add: ack_def card_step_def)

lemma replay_command:
  "replay (data_command_events cmd a R1 n) c = c\<lparr>low := ucast (a AND 0xFFFF), high := ucast (drop_bit 16 a AND 0xFFFF),
     phase := command_phase (command_val (command_index cmd) R1 OR push_bit 5 1)\<rparr>"
  using sd_registers by (simp add: data_command_events_def command_events_def card_step_def)

lemma command_phases:
  "command_phase (command_val (command_index CMD17) R1 OR push_bit 5 1) = Reading 0"
  "command_phase (command_val (command_index CMD24) R1 OR push_bit 5 1) = Writing []"
  "command_phase (command_val 17 R1 OR 32) = Reading 0"
  "command_phase (command_val 24 R1 OR 32) = Writing []"
  by code_simp+

lemma data_events: "list_all data_event (ack 1 # blocks_log d rb bs @ [ack b])"
  by (auto simp: list_all_iff data_event_def ack_def blocks_log_def block_log_def access_def)

lemma command_quiet: "list_all quiet_event (data_command_events cmd a ty n)"
  by (simp add: quiet_event_def data_command_events_def command_events_def)

lemma replay_transfer_prefix:
  assumes "prefix es (transfer_events d cmd a n bs)"
  shows "\<forall>x. x \<noteq> a \<longrightarrow> medium (replay es c) x = medium c x"
    and "cmd = CMD17 \<Longrightarrow> medium (replay es c) = medium c"
proof -
  let ?C = "data_command_events cmd a R1 n" and ?D = "ack 1 # blocks_log d (ready_bit d) bs @ [ack (push_bit 1 1)]"
  from assms have p: "prefix es (?C @ ?D)" by (simp add: transfer_events_def)
  let ?c = "replay ?C c"
  have c: "medium ?c = medium c" "card_address ?c = a" "cmd = CMD17 \<longrightarrow> phase ?c = Reading 0"
    using card_address_argument [where c = c and a = a] command_phases(1)
    unfolding replay_command by (auto simp: card_address_def simp del: command_index.simps)
  consider "prefix es ?C" | ds where "es = ?C @ ds" "prefix ds ?D"
    using p by (auto simp: prefix_append)
  then have "(\<forall>x. x \<noteq> a \<longrightarrow> medium (replay es c) x = medium c x) \<and> (cmd = CMD17 \<longrightarrow> medium (replay es c) = medium c)"
  proof cases
    case 1
    then obtain zs where "?C = es @ zs" by (auto elim: prefixE)
    then have "list_all quiet_event es" using command_quiet [of cmd a R1 n] by simp
    with replay_quiet show ?thesis by simp
  next
    case 2
    then obtain zs where "?D = ds @ zs" by (auto elim: prefixE)
    then have "list_all data_event ds" using data_events [of d "ready_bit d" bs "push_bit 1 1"] by simp
    from replay_data [OF this, of ?c] c show ?thesis by (auto simp: 2(1))
  qed
  then show "\<forall>x. x \<noteq> a \<longrightarrow> medium (replay es c) x = medium c x"
    and "cmd = CMD17 \<Longrightarrow> medium (replay es c) = medium c" by blast+
qed

lemma replay_read:
  assumes "length ws = 128" "truthful (replay (transfer_events True CMD17 a n [ws]) c)" "i < 128"
  shows "ws ! i = medium c a i"
proof -
  let ?c = "replay (data_command_events CMD17 a R1 n) c"
  have c: "phase ?c = Reading 0" "medium ?c = medium c" "card_address ?c = a"
    using card_address_argument [where c = c and a = a] by (simp_all add: replay_command command_phases card_address_def)
  have "truthful (replay (map (access True) ws) ?c)"
    using assms(2) by (simp add: transfer_events_def blocks_log_def block_log_def replay_ack)
  with replay_gives [OF c(1)] assms show ?thesis by (simp add: c)
qed

lemma replay_write:
  assumes "length ws = 128"
  shows "medium (replay (transfer_events False CMD24 a n [ws]) c) = (medium c)(a := (!) ws)"
proof -
  let ?c = "replay (data_command_events CMD24 a R1 n) c"
  have c: "phase ?c = Writing []" "medium ?c = medium c" "card_address ?c = a"
    using card_address_argument [where c = c and a = a] by (simp_all add: replay_command command_phases card_address_def)
  have "ws \<noteq> []" using assms by auto
  with replay_takes [OF c(1)] assms c show ?thesis
    by (simp add: transfer_events_def blocks_log_def block_log_def replay_ack)
qed

section \<open>The disk port as a block device\<close>

text \<open>
  Reading and writing one sector, as the layer above sees it: \<open>trusted t\<close> says that the medium kept its
  promise up to \<open>t\<close>, \<open>bytes_of\<close> is what it holds, \<open>valid\<close> are its sectors.
\<close>

locale block_device =
  fixes rd wr :: "bytes \<Rightarrow> u32 \<Rightarrow> 's \<Rightarrow> (DRESULT \<times> bytes \<times> 's) option"
    and trusted :: "'s \<Rightarrow> bool"
    and bytes_of :: "'s \<Rightarrow> u32 \<Rightarrow> nat \<Rightarrow> u8"
    and valid :: "'s \<Rightarrow> u32 \<Rightarrow> bool"
  assumes rd: "rd buf k s = Some (r, buf', t) \<Longrightarrow> trusted t \<Longrightarrow>
      trusted s \<and> valid t = valid s \<and> bytes_of t = bytes_of s
      \<and> (r = RES_OK \<longrightarrow> (\<forall>i < 512. buf' (of_nat i) = bytes_of s k i))"
    and wr: "wr buf k s = Some (r, buf', t) \<Longrightarrow> trusted t \<Longrightarrow>
      trusted s \<and> valid t = valid s \<and> buf' = buf
      \<and> (\<forall>j i. valid s j \<and> valid s k \<and> j \<noteq> k \<longrightarrow> bytes_of t j i = bytes_of s j i)
      \<and> (r = RES_OK \<longrightarrow> (\<forall>i < 512. bytes_of t k i = buf (of_nat i)))"
begin

lemma read_back:
  assumes "wr buf k s = Some (RES_OK, buf1, t)" "rd buf2 k t = Some (RES_OK, buf3, u)" "trusted u" "i < 512"
  shows "buf3 (of_nat i) = buf (of_nat i)"
  using wr [OF assms(1)] rd [OF assms(2,3)] assms(4) by auto

text \<open>What was written to one sector stays when another is written.\<close>

lemma write_keeps:
  assumes "wr buf k s = Some (RES_OK, buf1, t)" "wr buf2 j t = Some (r, buf3, u)" "trusted u" "valid s j" "valid s k" "j \<noteq> k" "i < 512"
  shows "bytes_of u k i = buf (of_nat i)"
proof -
  note b = wr [OF assms(2,3)]
  with wr [OF assms(1)] have a: "valid t = valid s" "bytes_of t k i = buf (of_nat i)" using assms(7) by auto
  with b assms(4-6) show ?thesis by metis
qed

end

text \<open>One sector, as FatFs calls the disk port for its window.\<close>

abbreviation sector_read :: "bytes \<Rightarrow> u32 \<Rightarrow> 'a sd_scheme \<Rightarrow> (DRESULT \<times> bytes \<times> 'a sd_scheme) option" where
  "sector_read buf k s \<equiv> disk_read DEV_SD buf k 1 s"

abbreviation sector_write :: "bytes \<Rightarrow> u32 \<Rightarrow> 'a sd_scheme \<Rightarrow> (DRESULT \<times> bytes \<times> 'a sd_scheme) option" where
  "sector_write buf k s \<equiv> disk_write DEV_SD buf k 1 s"

lemma card_of_log: "sd_log t = sd_log s @ es \<Longrightarrow> card_of m t = replay es (card_of m s)"
  by (simp add: card_of_def)

lemma same_ccs: "io.more t = io.more s \<Longrightarrow> ccs t = ccs s" for s t :: "'a sd_scheme"
  by (cases s; cases t; simp)

lemma sector_read_law:
  assumes "sector_read buf k s = Some (r, buf', t)" "honest m t"
  shows "honest m s \<and> sector t = sector s \<and> content m t = content m s
    \<and> (r = RES_OK \<longrightarrow> (\<forall>i < 512. buf' (of_nat i) = content m s k i))"
proof -
  obtain ok where r: "sdio_transfer (ascii ''sdio_read'') CMD17 True k 1 buf s = Some (ok, buf', t)" "r = RES_OK \<longrightarrow> ok"
    using assms(1) by (auto simp: disk_read_def sdio_read_def Option.bind_eq_Some_conv split: if_splits)
  from sdio_transfer_outcome [OF r(1)] obtain bs where
    bs: "transfer_outcome True CMD17 (adj_lba k s) (ucast (1 :: u32)) buf s ok buf' t bs" by blast
  then obtain es where es: "sd_log t = sd_log s @ es" "prefix es (transfer_events True CMD17 (adj_lba k s) (ucast (1 :: u32)) bs)"
    and ok: "ok \<longrightarrow> length bs = 1 \<and> es = transfer_events True CMD17 (adj_lba k s) (ucast (1 :: u32)) bs"
    and len: "\<forall>ws\<in>set bs. length ws = 128" and more: "ccs t = ccs s"
    by (auto simp: transfer_outcome_def dest: same_ccs)
  have card: "card_of m t = replay es (card_of m s)" by (rule card_of_log) (rule es)
  have "honest m s" using assms(2) truthful_replay unfolding honest_def card by blast
  moreover have med: "medium (card_of m t) = medium (card_of m s)"
    unfolding card by (rule replay_transfer_prefix(2) [OF es(2)]) simp
  then have "content m t = content m s" by (simp add: content_def adj_lba_def more fun_eq_iff)
  moreover have "buf' (of_nat i) = content m s k i" if "ok" "i < 512" for i
  proof -
    from ok that len obtain ws where ws: "bs = [ws]" "length ws = 128" by (auto simp: length_Suc_conv)
    have "ws ! j = medium (card_of m s) (adj_lba k s) j" if "j < 128" for j
      using replay_read [OF ws(2) _ that] assms(2) ok \<open>ok\<close> unfolding honest_def card ws(1) by blast
    moreover have "i div 4 < 128" using that by simp
    ultimately show ?thesis using transfer_outcome_bytes(1) [OF bs, of i] that ws by (simp add: content_def)
  qed
  ultimately show ?thesis using r(2) more by (simp add: sector_def fun_eq_iff)
qed

lemma sector_write_law:
  assumes "sector_write buf k s = Some (r, buf', t)" "honest m t"
  shows "honest m s \<and> sector t = sector s \<and> buf' = buf
    \<and> (\<forall>j i. sector s j \<and> sector s k \<and> j \<noteq> k \<longrightarrow> content m t j i = content m s j i)
    \<and> (r = RES_OK \<longrightarrow> (\<forall>i < 512. content m t k i = buf (of_nat i)))"
proof -
  obtain ok where r: "sdio_transfer (ascii ''sdio_write'') CMD24 False k 1 buf s = Some (ok, buf', t)" "r = RES_OK \<longrightarrow> ok"
    using assms(1) by (auto simp: disk_write_def sdio_write_def Option.bind_eq_Some_conv split: if_splits)
  from sdio_transfer_outcome [OF r(1)] obtain bs where
    bs: "transfer_outcome False CMD24 (adj_lba k s) (ucast (1 :: u32)) buf s ok buf' t bs" by blast
  then obtain es where es: "sd_log t = sd_log s @ es" "prefix es (transfer_events False CMD24 (adj_lba k s) (ucast (1 :: u32)) bs)"
    and ok: "ok \<longrightarrow> length bs = 1 \<and> es = transfer_events False CMD24 (adj_lba k s) (ucast (1 :: u32)) bs"
    and len: "\<forall>ws\<in>set bs. length ws = 128" and more: "ccs t = ccs s"
    by (auto simp: transfer_outcome_def dest: same_ccs)
  have card: "card_of m t = replay es (card_of m s)" by (rule card_of_log) (rule es)
  have "honest m s" using assms(2) truthful_replay unfolding honest_def card by blast
  moreover have "buf' = buf" using bs by (simp add: transfer_outcome_def moves_def)
  moreover have "content m t j i = content m s j i" if "sector s j" "sector s k" "j \<noteq> k" for i j
  proof -
    have "adj_lba j s \<noteq> adj_lba k s"
    proof (cases "ccs s = 0")
      case False
      with that show ?thesis by (simp add: adj_lba_def)
    next
      case True
      with that have l: "unat j < 0x800000" "unat k < 0x800000" by (simp_all add: sector_def word_less_nat_alt)
      then have "unat (j * 512) = unat j * 512" "unat (k * 512) = unat k * 512"
        by (simp_all add: unat_mult_lem [THEN iffD1])
      then show ?thesis using True that(3) by (auto simp: adj_lba_def word_unat_eq_iff)
    qed
    with replay_transfer_prefix(1) [OF es(2)] show ?thesis by (simp add: content_def card adj_lba_def more)
  qed
  moreover have "content m t k i = buf (of_nat i)" if "ok" "i < 512" for i
  proof -
    from ok that len obtain ws where ws: "bs = [ws]" "length ws = 128" by (auto simp: length_Suc_conv)
    have "medium (card_of m t) (adj_lba k s) = (!) ws"
      using replay_write [OF ws(2)] ok that unfolding card ws(1) by simp
    then show ?thesis using transfer_outcome_bytes(2) [OF bs, of i] that ws by (simp add: content_def adj_lba_def more)
  qed
  ultimately show ?thesis using r(2) more by (simp add: sector_def fun_eq_iff)
qed

interpretation sd_card: block_device sector_read sector_write "honest m" "content m" sector for m
proof
  fix buf buf' k r and s t :: "'a sd_scheme"
  show "sector_read buf k s = Some (r, buf', t) \<Longrightarrow> honest m t \<Longrightarrow>
      honest m s \<and> sector t = sector s \<and> content m t = content m s
      \<and> (r = RES_OK \<longrightarrow> (\<forall>i < 512. buf' (of_nat i) = content m s k i))"
    by (rule sector_read_law)
  show "sector_write buf k s = Some (r, buf', t) \<Longrightarrow> honest m t \<Longrightarrow>
      honest m s \<and> sector t = sector s \<and> buf' = buf
      \<and> (\<forall>j i. sector s j \<and> sector s k \<and> j \<noteq> k \<longrightarrow> content m t j i = content m s j i)
      \<and> (r = RES_OK \<longrightarrow> (\<forall>i < 512. content m t k i = buf (of_nat i)))"
    by (rule sector_write_law)
qed

end
