(* ===== verification/File_Api.thy ===== *)
theory File_Api
  imports Prelude
begin

text \<open>
  What the kernel calls of FatFs (\<open>lib/include/lib/fatfs/ff.h\<close>): the result codes, and the file functions
  as a record of functions on the state of the machine. Paths and names are texts without their zero
  byte, a buffer filled by a call is the list of the bytes that were transferred, a result \<open>None\<close> is a call
  that never returns. The shell and the start-up code are stated for every such record; the layer of FatFs
  that keeps the allocation table is modelled in the theories \<open>Fat\<close> and after.
\<close>

datatype FRESULT = FR_OK | FR_DISK_ERR | FR_INT_ERR | FR_NOT_READY | FR_NO_FILE | FR_NO_PATH
  | FR_INVALID_NAME | FR_DENIED | FR_EXIST | FR_INVALID_OBJECT | FR_WRITE_PROTECTED | FR_INVALID_DRIVE
  | FR_NOT_ENABLED | FR_NO_FILESYSTEM | FR_MKFS_ABORTED | FR_TIMEOUT | FR_LOCKED | FR_NOT_ENOUGH_CORE
  | FR_TOO_MANY_OPEN_FILES | FR_INVALID_PARAMETER

definition FA_READ :: u8 where "FA_READ = 0x01"
definition FA_WRITE :: u8 where "FA_WRITE = 0x02"
definition FA_CREATE_NEW :: u8 where "FA_CREATE_NEW = 0x04"
definition FA_CREATE_ALWAYS :: u8 where "FA_CREATE_ALWAYS = 0x08"
definition AM_DIR :: u8 where "AM_DIR = 0x10"

record FILINFO =
  fattrib :: u8
  fname :: "u8 list"

record ('d, 'f, 's) file_api =
  f_mount :: "u8 list \<Rightarrow> u8 \<Rightarrow> 's \<Rightarrow> (FRESULT \<times> 's) option"
  f_getcwd :: "u32 \<Rightarrow> 's \<Rightarrow> (FRESULT \<times> u8 list \<times> 's) option"
  f_chdir :: "u8 list \<Rightarrow> 's \<Rightarrow> (FRESULT \<times> 's) option"
  f_mkdir :: "u8 list \<Rightarrow> 's \<Rightarrow> (FRESULT \<times> 's) option"
  f_unlink :: "u8 list \<Rightarrow> 's \<Rightarrow> (FRESULT \<times> 's) option"
  f_opendir :: "u8 list \<Rightarrow> 's \<Rightarrow> (FRESULT \<times> 'd \<times> 's) option"
  f_readdir :: "'d \<Rightarrow> 's \<Rightarrow> (FRESULT \<times> FILINFO \<times> 'd \<times> 's) option"
  f_closedir :: "'d \<Rightarrow> 's \<Rightarrow> (FRESULT \<times> 's) option"
  f_open :: "u8 list \<Rightarrow> u8 \<Rightarrow> 's \<Rightarrow> (FRESULT \<times> 'f \<times> 's) option"
  f_read :: "'f \<Rightarrow> u32 \<Rightarrow> 's \<Rightarrow> (FRESULT \<times> u8 list \<times> 'f \<times> 's) option"
  f_write :: "'f \<Rightarrow> u8 list \<Rightarrow> 's \<Rightarrow> (FRESULT \<times> u32 \<times> 'f \<times> 's) option"
  f_close :: "'f \<Rightarrow> 's \<Rightarrow> (FRESULT \<times> 's) option"

end
