(* ===== verification/Fat.thy ===== *)
theory Fat
  imports Card File_Api
begin

text \<open>
  The allocation table of FatFs (\<open>lib/src/fatfs/ff.c\<close>, lines 618 to 1632, as \<open>ffconf.h\<close> configures it:
  writable, no exFAT, no TRIM, sectors of 512 bytes, one volume): loads and stores of multi-byte words,
  the one-sector window on the disk, and the functions that read, change, remove and create chains of
  clusters. The object that the functions take is represented by its file system, which is all they use
  of it; the functions return the file system changed. Its number of the logical drive and its pointer to
  the buffer for long names are left out: no function here uses them.
\<close>

section \<open>The file system object\<close>

record FATFS =
  fs_type :: u8
  pdrv :: u8
  n_fats :: u8
  wflag :: u8
  fsi_flag :: u8
  id :: u16
  n_rootdir :: u16
  csize :: u16
  last_clst :: u32
  free_clst :: u32
  cdir :: u32
  n_fatent :: u32
  fsize :: u32
  winsect :: u32
  volbase :: u32
  fatbase :: u32
  dirbase :: u32
  database :: u32
  win :: bytes

definition FS_FAT12 :: u8 where "FS_FAT12 = 1"
definition FS_FAT16 :: u8 where "FS_FAT16 = 2"
definition FS_FAT32 :: u8 where "FS_FAT32 = 3"
definition SS :: u32 where "SS = 512"

section \<open>Words in a sector\<close>

definition ld_16 :: "bytes \<Rightarrow> u32 \<Rightarrow> u16" where
  "ld_16 m p = (let rv = ucast (m (p + 1)); rv = push_bit 8 rv OR ucast (m p) in rv)"

definition ld_32 :: "bytes \<Rightarrow> u32 \<Rightarrow> u32" where
  "ld_32 m p =
     (let rv = ucast (m (p + 3));
          rv = push_bit 8 rv OR ucast (m (p + 2));
          rv = push_bit 8 rv OR ucast (m (p + 1));
          rv = push_bit 8 rv OR ucast (m p)
      in rv)"

definition st_16 :: "bytes \<Rightarrow> u32 \<Rightarrow> u16 \<Rightarrow> bytes" where
  "st_16 m p v =
     (let m = m(p := ucast v); v = drop_bit 8 v
      in m(p + 1 := ucast v))"

definition st_32 :: "bytes \<Rightarrow> u32 \<Rightarrow> u32 \<Rightarrow> bytes" where
  "st_32 m p v =
     (let m = m(p := ucast v); v = drop_bit 8 v;
          m = m(p + 1 := ucast v); v = drop_bit 8 v;
          m = m(p + 2 := ucast v); v = drop_bit 8 v
      in m(p + 3 := ucast v))"

section \<open>The window\<close>

definition sync_window :: "FATFS \<Rightarrow> 'a sd_scheme \<Rightarrow> (FRESULT \<times> FATFS \<times> 'a sd_scheme) option" where
  "sync_window fs s =
     (if wflag fs \<noteq> 0 then do {
        (r, w, s) \<leftarrow> disk_write (pdrv fs) (win fs) (winsect fs) 1 s;
        let fs = fs\<lparr>win := w\<rparr>;
        if r = RES_OK then do {
          let fs = fs\<lparr>wflag := 0\<rparr>;
          if winsect fs - fatbase fs < fsize fs then
            if n_fats fs = 2 then do {
              (_, w, s) \<leftarrow> disk_write (pdrv fs) (win fs) (winsect fs + fsize fs) 1 s;
              Some (FR_OK, fs\<lparr>win := w\<rparr>, s) }
            else Some (FR_OK, fs, s)
          else Some (FR_OK, fs, s) }
        else Some (FR_DISK_ERR, fs, s) }
      else Some (FR_OK, fs, s))"

definition move_window :: "FATFS \<Rightarrow> u32 \<Rightarrow> 'a sd_scheme \<Rightarrow> (FRESULT \<times> FATFS \<times> 'a sd_scheme) option" where
  "move_window fs sect s =
     (if sect \<noteq> winsect fs then do {
        (res, fs, s) \<leftarrow> sync_window fs s;
        if res = FR_OK then do {
          (r, w, s) \<leftarrow> disk_read (pdrv fs) (win fs) sect 1 s;
          let fs = fs\<lparr>win := w\<rparr>;
          Some (if r \<noteq> RES_OK then (FR_DISK_ERR, fs\<lparr>winsect := 0 - 1\<rparr>, s) else (FR_OK, fs\<lparr>winsect := sect\<rparr>, s)) }
        else Some (res, fs, s) }
      else Some (FR_OK, fs, s))"

definition FSI_LeadSig :: u32 where "FSI_LeadSig = 0"
definition FSI_StrucSig :: u32 where "FSI_StrucSig = 484"
definition FSI_Free_Count :: u32 where "FSI_Free_Count = 488"
definition FSI_Nxt_Free :: u32 where "FSI_Nxt_Free = 492"
definition FSI_TrailSig :: u32 where "FSI_TrailSig = 508"

text \<open>\<open>memset\<close> of the whole array \<open>win\<close>.\<close>

definition fsinfo_sector :: "FATFS \<Rightarrow> bytes" where
  "fsinfo_sector fs =
     (let w = (\<lambda>p. if p < SS then 0 else win fs p);
          w = st_32 w FSI_LeadSig 0x41615252;
          w = st_32 w FSI_StrucSig 0x61417272;
          w = st_32 w FSI_Free_Count (free_clst fs);
          w = st_32 w FSI_Nxt_Free (last_clst fs)
      in st_32 w FSI_TrailSig 0xAA550000)"

definition sync_fs :: "FATFS \<Rightarrow> 'a sd_scheme \<Rightarrow> (FRESULT \<times> FATFS \<times> 'a sd_scheme) option" where
  "sync_fs fs s = do {
     (res, fs, s) \<leftarrow> sync_window fs s;
     if res \<noteq> FR_OK then Some (res, fs, s)
     else do {
       (fs, s) \<leftarrow>
         (if fsi_flag fs = 1 then do {
            let fs = fs\<lparr>fsi_flag := 0\<rparr>;
            if fs_type fs = FS_FAT32 then do {
              let fs = fs\<lparr>win := fsinfo_sector fs, winsect := volbase fs + 1\<rparr>;
              (_, w, s) \<leftarrow> disk_write (pdrv fs) (win fs) (winsect fs) 1 s;
              Some (fs\<lparr>win := w\<rparr>, s) }
            else Some (fs, s) }
          else Some (fs, s));
       Some (if disk_ioctl (pdrv fs) CTRL_SYNC \<noteq> RES_OK then FR_DISK_ERR else res, fs, s) } }"

definition clst2sect :: "FATFS \<Rightarrow> u32 \<Rightarrow> u32" where
  "clst2sect fs clst =
     (let clst = clst - 2
      in if clst \<ge> n_fatent fs - 2 then 0 else database fs + ucast (csize fs) * clst)"

section \<open>Entries of the table\<close>

definition get_fat :: "FATFS \<Rightarrow> u32 \<Rightarrow> 'a sd_scheme \<Rightarrow> (u32 \<times> FATFS \<times> 'a sd_scheme) option" where
  "get_fat fs clst s =
     (if clst < 2 \<or> clst \<ge> n_fatent fs then Some (1, fs, s)
      else if fs_type fs = FS_FAT12 then do {
        let bc = clst;
        let bc = bc + bc div 2;
        (res, fs, s) \<leftarrow> move_window fs (fatbase fs + bc div SS) s;
        if res \<noteq> FR_OK then Some (0xFFFFFFFF, fs, s)
        else do {
        let wc = (ucast (win fs (bc mod SS)) :: u32);
        let bc = bc + 1;
        (res, fs, s) \<leftarrow> move_window fs (fatbase fs + bc div SS) s;
        if res \<noteq> FR_OK then Some (0xFFFFFFFF, fs, s)
        else do {
        let wc = wc OR push_bit 8 (ucast (win fs (bc mod SS)));
        Some (if clst AND 1 \<noteq> 0 then drop_bit 4 wc else wc AND 0xFFF, fs, s) } } }
      else if fs_type fs = FS_FAT16 then do {
        (res, fs, s) \<leftarrow> move_window fs (fatbase fs + clst div (SS div 2)) s;
        if res \<noteq> FR_OK then Some (0xFFFFFFFF, fs, s)
        else Some (ucast (ld_16 (win fs) (clst * 2 mod SS)), fs, s) }
      else if fs_type fs = FS_FAT32 then do {
        (res, fs, s) \<leftarrow> move_window fs (fatbase fs + clst div (SS div 4)) s;
        if res \<noteq> FR_OK then Some (0xFFFFFFFF, fs, s)
        else Some (ld_32 (win fs) (clst * 4 mod SS) AND 0x0FFFFFFF, fs, s) }
      else Some (1, fs, s))"

text \<open>\<open>set_win p b\<close> stores a byte in the window and marks it dirty.\<close>

definition set_win :: "u32 \<Rightarrow> u8 \<Rightarrow> FATFS \<Rightarrow> FATFS" where
  "set_win p b fs = fs\<lparr>win := (win fs)(p := b), wflag := 1\<rparr>"

definition put_fat :: "FATFS \<Rightarrow> u32 \<Rightarrow> u32 \<Rightarrow> 'a sd_scheme \<Rightarrow> (FRESULT \<times> FATFS \<times> 'a sd_scheme) option" where
  "put_fat fs clst val s =
     (if clst \<ge> 2 \<and> clst < n_fatent fs then
        if fs_type fs = FS_FAT12 then do {
          let bc = clst;
          let bc = bc + bc div 2;
          (res, fs, s) \<leftarrow> move_window fs (fatbase fs + bc div SS) s;
          if res \<noteq> FR_OK then Some (res, fs, s)
          else do {
          let p = bc mod SS;
          let fs = set_win p (if clst AND 1 \<noteq> 0 then (win fs p AND 0x0F) OR push_bit 4 (ucast val) else ucast val) fs;
          let bc = bc + 1;
          (res, fs, s) \<leftarrow> move_window fs (fatbase fs + bc div SS) s;
          if res \<noteq> FR_OK then Some (res, fs, s)
          else do {
          let p = bc mod SS;
          let fs = set_win p (if clst AND 1 \<noteq> 0 then ucast (drop_bit 4 val)
                              else (win fs p AND 0xF0) OR (ucast (drop_bit 8 val) AND 0x0F)) fs;
          Some (res, fs, s) } } }
        else if fs_type fs = FS_FAT16 then do {
          (res, fs, s) \<leftarrow> move_window fs (fatbase fs + clst div (SS div 2)) s;
          if res \<noteq> FR_OK then Some (res, fs, s)
          else Some (res, fs\<lparr>win := st_16 (win fs) (clst * 2 mod SS) (ucast val), wflag := 1\<rparr>, s) }
        else if fs_type fs = FS_FAT32 then do {
          (res, fs, s) \<leftarrow> move_window fs (fatbase fs + clst div (SS div 4)) s;
          if res \<noteq> FR_OK then Some (res, fs, s)
          else do {
          let val = (val AND 0x0FFFFFFF) OR (ld_32 (win fs) (clst * 4 mod SS) AND 0xF0000000);
          Some (res, fs\<lparr>win := st_32 (win fs) (clst * 4 mod SS) val, wflag := 1\<rparr>, s) } }
        else Some (FR_INT_ERR, fs, s)
      else Some (FR_INT_ERR, fs, s))"

section \<open>Chains\<close>

text \<open>The update of the count of free clusters after one was freed or taken.\<close>

definition one_freed :: "FATFS \<Rightarrow> FATFS" where
  "one_freed fs = (if free_clst fs < n_fatent fs - 2
     then fs\<lparr>free_clst := free_clst fs + 1, fsi_flag := fsi_flag fs OR 1\<rparr> else fs)"

definition one_taken :: "FATFS \<Rightarrow> FATFS" where
  "one_taken fs = (if free_clst fs > 0 \<and> free_clst fs \<le> n_fatent fs - 2
     then fs\<lparr>free_clst := free_clst fs - 1, fsi_flag := fsi_flag fs OR 1\<rparr> else fs)"

partial_function (option) remove_loop :: "FATFS \<Rightarrow> u32 \<Rightarrow> 'a sd_scheme \<Rightarrow> (FRESULT \<times> FATFS \<times> 'a sd_scheme) option" where
  "remove_loop fs clst s = do {
     (nxt, fs, s) \<leftarrow> get_fat fs clst s;
     if nxt = 0 then Some (FR_OK, fs, s)
     else if nxt = 1 then Some (FR_INT_ERR, fs, s)
     else if nxt = 0xFFFFFFFF then Some (FR_DISK_ERR, fs, s)
     else do {
     (res, fs, s) \<leftarrow> put_fat fs clst 0 s;
     if res \<noteq> FR_OK then Some (res, fs, s)
     else do {
     let fs = one_freed fs;
     if nxt < n_fatent fs then remove_loop fs nxt s else Some (FR_OK, fs, s) } } }"

declare remove_loop.simps [code]

definition remove_chain :: "FATFS \<Rightarrow> u32 \<Rightarrow> u32 \<Rightarrow> 'a sd_scheme \<Rightarrow> (FRESULT \<times> FATFS \<times> 'a sd_scheme) option" where
  "remove_chain fs clst pclst s =
     (if clst < 2 \<or> clst \<ge> n_fatent fs then Some (FR_INT_ERR, fs, s)
      else if pclst \<noteq> 0 then do {
        (res, fs, s) \<leftarrow> put_fat fs pclst 0xFFFFFFFF s;
        if res \<noteq> FR_OK then Some (res, fs, s) else remove_loop fs clst s }
      else remove_loop fs clst s)"

text \<open>The search of \<open>create_chain\<close> from the cluster after \<open>ncl\<close>: the free cluster, or \<open>Inl\<close> what
  \<open>create_chain\<close> returns at once.\<close>

partial_function (option) find_free :: "FATFS \<Rightarrow> u32 \<Rightarrow> u32 \<Rightarrow> 'a sd_scheme \<Rightarrow> ((u32 + u32) \<times> FATFS \<times> 'a sd_scheme) option" where
  "find_free fs scl ncl s =
     (let ncl = ncl + 1;
          wrap = ncl \<ge> n_fatent fs;
          ncl = (if wrap then 2 else ncl)
      in if wrap \<and> ncl > scl then Some (Inl 0, fs, s)
         else do {
           (cs, fs, s) \<leftarrow> get_fat fs ncl s;
           if cs = 0 then Some (Inr ncl, fs, s)
           else if cs = 1 \<or> cs = 0xFFFFFFFF then Some (Inl cs, fs, s)
           else if ncl = scl then Some (Inl 0, fs, s)
           else find_free fs scl ncl s })"

declare find_free.simps [code]

definition next_cluster :: "FATFS \<Rightarrow> u32 \<Rightarrow> u32 \<Rightarrow> 'a sd_scheme \<Rightarrow> ((u32 + u32) \<times> FATFS \<times> 'a sd_scheme) option" where
  "next_cluster fs clst scl s =
     (if scl = clst then do {
        let ncl = scl + 1;
        let ncl = (if ncl \<ge> n_fatent fs then 2 else ncl);
        (cs, fs, s) \<leftarrow> get_fat fs ncl s;
        if cs = 1 \<or> cs = 0xFFFFFFFF then Some (Inl cs, fs, s)
        else if cs \<noteq> 0 then
          (let cs = last_clst fs;
               scl = (if cs \<ge> 2 \<and> cs < n_fatent fs then cs else scl)
           in find_free fs scl scl s)
        else Some (Inr ncl, fs, s) }
      else find_free fs scl scl s)"

text \<open>The last part of \<open>create_chain\<close>: the new cluster ends the chain and is linked to it.\<close>

definition link_cluster :: "FATFS \<Rightarrow> u32 \<Rightarrow> u32 \<Rightarrow> 'a sd_scheme \<Rightarrow> (u32 \<times> FATFS \<times> 'a sd_scheme) option" where
  "link_cluster fs clst ncl s = do {
     (res, fs, s) \<leftarrow> put_fat fs ncl 0xFFFFFFFF s;
     (res, fs, s) \<leftarrow> (if res = FR_OK \<and> clst \<noteq> 0 then put_fat fs clst ncl s else Some (res, fs, s));
     if res = FR_OK then Some (ncl, one_taken (fs\<lparr>last_clst := ncl\<rparr>), s)
     else Some (if res = FR_DISK_ERR then 0xFFFFFFFF else 1, fs, s) }"

definition take_cluster :: "FATFS \<Rightarrow> u32 \<Rightarrow> u32 \<Rightarrow> 'a sd_scheme \<Rightarrow> (u32 \<times> FATFS \<times> 'a sd_scheme) option" where
  "take_cluster fs clst scl s =
     (if free_clst fs = 0 then Some (0, fs, s)
      else do {
        (r, fs, s) \<leftarrow> next_cluster fs clst scl s;
        case r of Inl v \<Rightarrow> Some (v, fs, s) | Inr ncl \<Rightarrow> link_cluster fs clst ncl s })"

definition create_chain :: "FATFS \<Rightarrow> u32 \<Rightarrow> 'a sd_scheme \<Rightarrow> (u32 \<times> FATFS \<times> 'a sd_scheme) option" where
  "create_chain fs clst s =
     (if clst = 0 then
        (let scl = last_clst fs;
             scl = (if scl = 0 \<or> scl \<ge> n_fatent fs then 1 else scl)
         in take_cluster fs clst scl s)
      else do {
        (cs, fs, s) \<leftarrow> get_fat fs clst s;
        if cs < 2 then Some (1, fs, s)
        else if cs = 0xFFFFFFFF then Some (cs, fs, s)
        else if cs < n_fatent fs then Some (cs, fs, s)
        else take_cluster fs clst clst s })"

end
