(* ===== verification/Fat_Window.thy ===== *)
theory Fat_Window
  imports Fat
begin

text \<open>
  The volume behind the one-sector window of FatFs: what a sector holds when the window is taken into
  account, what moving the window keeps of it, and the bytes of the allocation table. The medium is an
  honest card, seen through the laws of \<open>block_device\<close>.
\<close>

section \<open>The volume behind the window\<close>

text \<open>A sector is what the window holds, if it is the one in the window, and what the disk holds otherwise.\<close>

definition view :: "(u32 \<Rightarrow> nat \<Rightarrow> u32) \<Rightarrow> FATFS \<Rightarrow> 'a sd_scheme \<Rightarrow> u32 \<Rightarrow> nat \<Rightarrow> u8" where
  "view m fs s k i = (if k = winsect fs then win fs (of_nat i) else content m s k i)"

definition in_fat :: "FATFS \<Rightarrow> u32 \<Rightarrow> bool" where
  "in_fat fs k \<longleftrightarrow> k - fatbase fs < fsize fs"

definition in_copy :: "FATFS \<Rightarrow> u32 \<Rightarrow> bool" where
  "in_copy fs k \<longleftrightarrow> n_fats fs = 2 \<and> k - (fatbase fs + fsize fs) < fsize fs"

text \<open>
  A mounted volume: its tables lie below the last sector number, which the driver uses for an invalid
  window, in sectors of the card; they hold all entries, of which there are no more than the type allows;
  a clean window holds the sector it names.
\<close>

text \<open>An entry starts at each multiple of \<open>stride\<close> bits and has \<open>width\<close> bits; the others are reserved.\<close>

definition stride :: "FATFS \<Rightarrow> nat" where
  "stride fs = (if fs_type fs = FS_FAT12 then 12 else if fs_type fs = FS_FAT16 then 16 else 32)"

definition width :: "FATFS \<Rightarrow> nat" where
  "width fs = (if fs_type fs = FS_FAT12 then 12 else if fs_type fs = FS_FAT16 then 16 else 28)"

definition type_fits :: "FATFS \<Rightarrow> bool" where
  "type_fits fs \<longleftrightarrow>
     (fs_type fs = FS_FAT12 \<and> n_fatent fs \<le> 0xFF7 \<or> fs_type fs = FS_FAT16 \<and> n_fatent fs \<le> 0xFFF7
      \<or> fs_type fs = FS_FAT32 \<and> n_fatent fs \<le> 0x0FFFFFF7)
     \<and> stride fs * unat (n_fatent fs) \<le> 4096 * unat (fsize fs)"

definition geometry :: "FATFS \<Rightarrow> 'a sd_scheme \<Rightarrow> bool" where
  "geometry fs s \<longleftrightarrow> pdrv fs = DEV_SD \<and> type_fits fs \<and> (n_fats fs = 1 \<or> n_fats fs = 2)
     \<and> unat (fatbase fs) + unat (n_fats fs) * unat (fsize fs) < 2 ^ 32
     \<and> (\<forall>k. unat k < unat (fatbase fs) + unat (n_fats fs) * unat (fsize fs) \<longrightarrow> sector s k)"

definition coherent :: "(u32 \<Rightarrow> nat \<Rightarrow> u32) \<Rightarrow> FATFS \<Rightarrow> 'a sd_scheme \<Rightarrow> bool" where
  "coherent m fs s \<longleftrightarrow>
     (if wflag fs = 0 then winsect fs \<noteq> - 1 \<longrightarrow> (\<forall>i < 512. win fs (of_nat i) = content m s (winsect fs) i)
      else sector s (winsect fs) \<and> winsect fs \<noteq> - 1)"

definition mounted :: "(u32 \<Rightarrow> nat \<Rightarrow> u32) \<Rightarrow> FATFS \<Rightarrow> 'a sd_scheme \<Rightarrow> bool" where
  "mounted m fs s \<longleftrightarrow> geometry fs s \<and> coherent m fs s"

definition same_volume :: "FATFS \<Rightarrow> FATFS \<Rightarrow> bool" where
  "same_volume fs fs' \<longleftrightarrow> fs' = fs\<lparr>win := win fs', winsect := winsect fs', wflag := wflag fs'\<rparr>"

lemma same_volumeD:
  assumes "same_volume fs fs'"
  shows "fs_type fs' = fs_type fs" "pdrv fs' = pdrv fs" "n_fats fs' = n_fats fs" "fsi_flag fs' = fsi_flag fs"
    "csize fs' = csize fs" "last_clst fs' = last_clst fs" "free_clst fs' = free_clst fs" "n_fatent fs' = n_fatent fs"
    "fsize fs' = fsize fs" "fatbase fs' = fatbase fs"
    "volbase fs' = volbase fs" "dirbase fs' = dirbase fs" "database fs' = database fs"
  using assms by (cases fs; cases fs'; simp add: same_volume_def)+

lemma same_volume_regions:
  assumes "same_volume fs fs'"
  shows "in_fat fs' = in_fat fs" "in_copy fs' = in_copy fs" "type_fits fs' = type_fits fs"
    "stride fs' = stride fs" "width fs' = width fs"
  using same_volumeD [OF assms] by (auto simp: in_fat_def in_copy_def type_fits_def stride_def width_def fun_eq_iff)

lemma same_volume_refl [simp]: "same_volume fs fs"
  by (simp add: same_volume_def)

lemma same_volume_upd [simp]:
  "same_volume fs (fs'\<lparr>win := w\<rparr>) = same_volume fs fs'"
  "same_volume fs (fs'\<lparr>winsect := k\<rparr>) = same_volume fs fs'"
  "same_volume fs (fs'\<lparr>wflag := f\<rparr>) = same_volume fs fs'"
  by (cases fs; cases fs'; simp add: same_volume_def)+

lemma same_volume_trans: "same_volume fs fs' \<Longrightarrow> same_volume fs' fs'' \<Longrightarrow> same_volume fs fs''"
  by (cases fs; cases fs'; cases fs''; simp add: same_volume_def)

lemma same_geometry: "same_volume fs fs' \<Longrightarrow> sector t = sector s \<Longrightarrow> geometry fs' t = geometry fs s"
  by (simp add: geometry_def same_volumeD same_volume_regions)

text \<open>Where the tables lie.\<close>

lemma table_sum:
  fixes b n :: u32
  assumes "unat b + unat n < 2 ^ 32" and "k - b < n"
  shows "unat k = unat b + unat (k - b)" "unat (k - b) < unat n"
proof -
  show l: "unat (k - b) < unat n" using assms(2) by (simp add: word_less_nat_alt)
  have "unat (b + (k - b)) = unat b + unat (k - b)"
    by (rule unat_add_lem [THEN iffD1]) (use l assms(1) in simp)
  then show "unat k = unat b + unat (k - b)" by simp
qed

lemma geometry_fat:
  assumes "geometry fs s" and "in_fat fs k"
  shows "sector s k" "k \<noteq> - 1" "\<not> in_copy fs k" "in_copy fs (k + fsize fs) \<longleftrightarrow> n_fats fs = 2"
    "n_fats fs = 2 \<Longrightarrow> sector s (k + fsize fs)" "k + fsize fs \<noteq> k"
proof -
  have g: "unat (fatbase fs) + unat (n_fats fs) * unat (fsize fs) < 2 ^ 32"
    "\<And>k. unat k < unat (fatbase fs) + unat (n_fats fs) * unat (fsize fs) \<Longrightarrow> sector s k" "n_fats fs = 1 \<or> n_fats fs = 2"
    using assms(1) by (auto simp: geometry_def)
  have one: "unat (fsize fs) \<le> unat (n_fats fs) * unat (fsize fs)" using g(3) by auto
  note k = table_sum [of "fatbase fs" "fsize fs" k, OF _ assms(2) [unfolded in_fat_def]]
  have b1: "unat (fatbase fs) + unat (fsize fs) < 2 ^ 32" using g(1) one by linarith
  have k1: "unat k = unat (fatbase fs) + unat (k - fatbase fs)" "unat (k - fatbase fs) < unat (fsize fs)"
    using k [OF b1] by auto
  show "sector s k" using k1 one by (intro g(2)) linarith
  have two: "unat (n_fats fs) * unat (fsize fs) = 2 * unat (fsize fs)" if "n_fats fs = 2" using that by simp
  show "sector s (k + fsize fs)" if n: "n_fats fs = 2"
  proof -
    have "unat (k + fsize fs) = unat k + unat (fsize fs)"
      by (rule unat_add_lem [THEN iffD1]) (use k1 g(1) two [OF n] in simp)
    then show ?thesis using k1 two [OF n] by (intro g(2)) linarith
  qed
  have "k + fsize fs - (fatbase fs + fsize fs) = k - fatbase fs" by simp
  then show "in_copy fs (k + fsize fs) \<longleftrightarrow> n_fats fs = 2" using assms(2) by (simp add: in_copy_def in_fat_def)
  have "fsize fs \<noteq> 0" using k1(2) by auto
  then show "k + fsize fs \<noteq> k" by simp
  have m: "unat (- 1 :: u32) = 2 ^ 32 - 1" by (simp add: unsigned_minus_1_eq_mask mask_eq_exp_minus_1)
  show "k \<noteq> - 1"
  proof
    assume "k = - 1"
    with m k1 b1 show False by simp
  qed
  show "\<not> in_copy fs k"
  proof
    assume "in_copy fs k"
    then have n: "n_fats fs = 2" and c: "k - (fatbase fs + fsize fs) < fsize fs" by (simp_all add: in_copy_def)
    have b: "unat (fatbase fs + fsize fs) = unat (fatbase fs) + unat (fsize fs)"
      by (rule unat_add_lem [THEN iffD1]) (use b1 in simp)
    have "unat k = unat (fatbase fs + fsize fs) + unat (k - (fatbase fs + fsize fs))"
      by (rule table_sum(1) [OF _ c]) (use b g(1) two [OF n] in linarith)
    with b k1 show False by linarith
  qed
qed

section \<open>The window\<close>

text \<open>What the functions of this file keep of a volume: its geometry, and its sectors outside the copy of the
  table, when no entry is written.\<close>

definition preserves :: "(u32 \<Rightarrow> nat \<Rightarrow> u32) \<Rightarrow> (u32 \<Rightarrow> bool) \<Rightarrow> FATFS \<Rightarrow> 'a sd_scheme \<Rightarrow> FATFS \<Rightarrow> 'a sd_scheme \<Rightarrow> bool" where
  "preserves m X fs s fs' t \<longleftrightarrow> sector t = sector s \<and> mounted m fs' t \<and>
     fs_type fs' = fs_type fs \<and> n_fats fs' = n_fats fs \<and> n_fatent fs' = n_fatent fs \<and> fsize fs' = fsize fs \<and> fatbase fs' = fatbase fs
     \<and> (\<forall>k i. sector s k \<and> k \<noteq> - 1 \<and> \<not> X k \<and> i < 512 \<longrightarrow> view m fs' t k i = view m fs s k i)"

lemma preserves_refl: "mounted m fs s \<Longrightarrow> preserves m X fs s fs s"
  by (simp add: preserves_def)

lemma preserves_trans: "preserves m X fs s fs' t \<Longrightarrow> preserves m X fs' t fs'' u \<Longrightarrow> preserves m X fs s fs'' u"
  by (simp add: preserves_def)

lemma sync_window_honest: "sync_window fs s = Some (r, fs', t) \<Longrightarrow> honest m t \<Longrightarrow> pdrv fs = DEV_SD \<Longrightarrow> honest m s"
  unfolding sync_window_def Let_def
  by (auto simp: Option.bind_eq_Some_conv split: if_splits dest!: sd_card.wr)

lemma preservesI:
  assumes "mounted m fs s" "same_volume fs fs'" "sector t = sector s" "coherent m fs' t"
    and "\<And>k i. sector s k \<Longrightarrow> k \<noteq> - 1 \<Longrightarrow> \<not> X k \<Longrightarrow> i < 512 \<Longrightarrow> view m fs' t k i = view m fs s k i"
  shows "preserves m X fs s fs' t"
  using assms same_geometry [OF assms(2,3)]
  by (auto simp: preserves_def mounted_def same_volumeD [OF assms(2)])

lemma preserves_write:
  assumes "sector_write (win fs) (winsect fs) s = Some (r, w, u)" "honest m u" "mounted m fs s" "wflag fs \<noteq> 0"
  shows "preserves m X fs s (fs\<lparr>win := w, wflag := if r = RES_OK then 0 else wflag fs\<rparr>) u" (is "preserves m X fs s ?f u")
proof (rule preservesI)
  note w = sd_card.wr [OF assms(1,2)]
  have c: "sector s (winsect fs)" "winsect fs \<noteq> - 1" using assms(3,4) by (auto simp: mounted_def coherent_def)
  show "sector u = sector s" using w by simp
  show "coherent m ?f u" using w c assms(4) by (cases "r = RES_OK") (simp_all add: coherent_def)
  fix k i assume "sector s k" "i < (512 :: nat)"
  then show "view m ?f u k i = view m fs s k i"
    using w c by (cases "k = winsect fs") (simp_all add: view_def)
qed (use assms in simp_all)

lemma preserves_copy:
  assumes "sector_write (win fs) k s = Some (r, w, u)" "honest m u" "mounted m fs s" "wflag fs = 0"
    and "sector s k" "k \<noteq> winsect fs" "X k" and "winsect fs \<noteq> - 1 \<Longrightarrow> sector s (winsect fs)"
  shows "preserves m X fs s (fs\<lparr>win := w\<rparr>) u" (is "preserves m X fs s ?f u")
proof (rule preservesI)
  note w = sd_card.wr [OF assms(1,2)]
  then have keep: "content m u j i = content m s j i" if "sector s j" "j \<noteq> k" for j i
    using that assms(5) by blast
  show "sector u = sector s" using w by simp
  have "coherent m fs s" using assms(3) by (simp add: mounted_def)
  then show "coherent m ?f u" using w assms(4,6,8) keep [of "winsect fs"] by (auto simp: coherent_def)
  fix j i assume "sector s j" "\<not> X j" "i < (512 :: nat)"
  then show "view m ?f u j i = view m fs s j i"
    using w keep [of j i] assms(7) by (auto simp: view_def)
qed (use assms in simp_all)

lemma sync_window_law:
  assumes r: "sync_window fs s = Some (r, fs', t)" "honest m t" "mounted m fs s"
  shows "preserves m (in_copy fs) fs s fs' t \<and> same_volume fs fs' \<and> (r = FR_OK \<longrightarrow> wflag fs' = 0) \<and> (r = FR_OK \<or> r = FR_DISK_ERR)"
proof (cases "wflag fs = 0")
  case True
  with r show ?thesis by (simp add: sync_window_def preserves_refl)
next
  case False
  have g: "geometry fs s" and c: "sector s (winsect fs)" "winsect fs \<noteq> - 1"
    using r(3) False by (auto simp: mounted_def coherent_def)
  have p: "pdrv fs = DEV_SD" using g by (simp add: geometry_def)
  from r(1) False obtain r1 w u where w: "sector_write (win fs) (winsect fs) s = Some (r1, w, u)"
    by (auto simp: sync_window_def Let_def p Option.bind_eq_Some_conv)
  note r1 = r(1) [unfolded sync_window_def Let_def p w]
  have law: "preserves m (in_copy fs) fs s (fs\<lparr>win := w, wflag := if r1 = RES_OK then 0 else wflag fs\<rparr>) u" if "honest m u"
    using preserves_write [OF w that r(3) False] .
  show ?thesis
  proof (cases "r1 = RES_OK \<and> in_fat fs (winsect fs) \<and> n_fats fs = 2")
    case False
    then have "t = u" "fs' = fs\<lparr>win := w, wflag := if r1 = RES_OK then 0 else wflag fs\<rparr>" "r = (if r1 = RES_OK then FR_OK else FR_DISK_ERR)"
      using r1 \<open>wflag fs \<noteq> 0\<close> by (auto simp: in_fat_def split: if_splits)
    with law r(2) show ?thesis by simp
  next
    case True
    then obtain r2 v where v: "sector_write w (winsect fs + fsize fs) u = Some (r2, v, t)"
      and e: "fs' = fs\<lparr>wflag := 0, win := v\<rparr>" "r = FR_OK"
      using r1 \<open>wflag fs \<noteq> 0\<close> by (auto simp: in_fat_def Option.bind_eq_Some_conv p)
    note k = geometry_fat [OF g, of "winsect fs"]
    note v' = sd_card.wr [OF v r(2)]
    with law have u: "preserves m (in_copy fs) fs s (fs\<lparr>win := w, wflag := 0\<rparr>) u" using True by simp
    have "preserves m (in_copy fs) (fs\<lparr>win := w, wflag := 0\<rparr>) u ((fs\<lparr>win := w, wflag := 0\<rparr>)\<lparr>win := v\<rparr>) t" (is "preserves m _ ?f _ _ _")
    proof (rule preserves_copy)
      show "sector_write (win ?f) (winsect fs + fsize fs) u = Some (r2, v, t)" using v by simp
      show "mounted m ?f u" using u by (simp add: preserves_def)
      have s: "sector u = sector s" using u by (simp add: preserves_def)
      show "sector u (winsect fs + fsize fs)" "winsect fs + fsize fs \<noteq> winsect ?f" "in_copy fs (winsect fs + fsize fs)"
        using k True s by simp_all
      show "sector u (winsect ?f)" using c s by simp
    qed (use r(2) in simp_all)
    then have "preserves m (in_copy fs) (fs\<lparr>win := w, wflag := 0\<rparr>) u fs' t" by (simp add: e)
    with u preserves_trans e show ?thesis by auto
  qed
qed

lemma move_window_honest:
  assumes r: "move_window fs k s = Some (r, fs', t)" "honest m t" "pdrv fs = DEV_SD"
  shows "honest m s"
proof (cases "k = winsect fs")
  case True
  with r show ?thesis by (simp add: move_window_def)
next
  case False
  with r(1) obtain r1 fs1 u where u: "sync_window fs s = Some (r1, fs1, u)"
    by (auto simp: move_window_def Option.bind_eq_Some_conv)
  have p: "pdrv fs1 = DEV_SD" if "r1 = FR_OK"
    using u that r(3) by (auto simp: sync_window_def Let_def Option.bind_eq_Some_conv split: if_splits)
  have "honest m u"
  proof (cases "r1 = FR_OK")
    case True
    with r(1) u False p obtain r2 w where "sector_read (win fs1) k u = Some (r2, w, t)"
      by (auto simp: move_window_def Let_def Option.bind_eq_Some_conv split: if_splits)
    with sd_card.rd r(2) show ?thesis by blast
  qed (use r u False in \<open>simp add: move_window_def\<close>)
  with sync_window_honest [OF u] r(3) show ?thesis by simp
qed

text \<open>Moving the window keeps the volume; if it fails, the window holds no sector or is as dirty as before.\<close>

lemma move_window_law:
  assumes r: "move_window fs k s = Some (r, fs', t)" "honest m t" "mounted m fs s"
  shows "preserves m (in_copy fs) fs s fs' t \<and> same_volume fs fs' \<and> (r = FR_OK \<longrightarrow> winsect fs' = k) \<and> (r = FR_OK \<or> r = FR_DISK_ERR)"
proof (cases "k = winsect fs")
  case True
  with r show ?thesis by (simp add: move_window_def preserves_refl)
next
  case False
  with r(1) obtain r1 fs1 u where u: "sync_window fs s = Some (r1, fs1, u)"
    by (auto simp: move_window_def Option.bind_eq_Some_conv)
  have p: "pdrv fs = DEV_SD" using r(3) by (simp add: mounted_def geometry_def)
  have p1: "pdrv fs1 = DEV_SD" if "r1 = FR_OK"
    using u that p by (auto simp: sync_window_def Let_def Option.bind_eq_Some_conv split: if_splits)
  show ?thesis
  proof (cases "r1 = FR_OK")
    case F: False
    with r(1) u False have "r = r1" "fs' = fs1" "t = u" by (simp_all add: move_window_def)
    with sync_window_law [OF u] r F show ?thesis by simp
  next
    case T: True
    with r(1) u False p1 obtain r2 w where w: "sector_read (win fs1) k u = Some (r2, w, t)"
      and f: "fs' = fs1\<lparr>win := w, winsect := if r2 = RES_OK then k else - 1\<rparr>" "r = (if r2 = RES_OK then FR_OK else FR_DISK_ERR)"
      by (auto simp: move_window_def Let_def Option.bind_eq_Some_conv split: if_splits)
    note w' = sd_card.rd [OF w r(2)]
    then have "honest m u" by simp
    from sync_window_law [OF u this r(3)] T have s: "preserves m (in_copy fs) fs s fs1 u" "same_volume fs fs1" "wflag fs1 = 0" by simp_all
    have c: "content m u j i = view m fs1 u j i" if "j \<noteq> - 1" "i < 512" for j i
      using s(1,3) that by (auto simp: preserves_def mounted_def coherent_def view_def)
    have "preserves m (in_copy fs) fs1 u fs' t"
    proof (rule preservesI)
      show "mounted m fs1 u" using s(1) by (simp add: preserves_def)
      show "same_volume fs1 fs'" by (simp add: f)
      show "sector t = sector u" using w' by simp
      show "coherent m fs' t" using w' s(3) by (simp add: coherent_def f)
      fix j :: u32 and i assume "j \<noteq> - 1" "i < (512 :: nat)"
      with c w' show "view m fs' t j i = view m fs1 u j i" by (auto simp: view_def f)
    qed
    with s preserves_trans show ?thesis by (auto simp: f)
  qed
qed

section \<open>The bytes of the table\<close>

definition tbyte :: "(u32 \<Rightarrow> nat \<Rightarrow> u32) \<Rightarrow> FATFS \<Rightarrow> 'a sd_scheme \<Rightarrow> nat \<Rightarrow> u8" where
  "tbyte m fs s n = view m fs s (fatbase fs + of_nat (n div 512)) (n mod 512)"

lemma in_fat_byte:
  assumes "n < 512 * unat (fsize fs)"
  shows "in_fat fs (fatbase fs + of_nat (n div 512))"
proof -
  have n: "n div 512 < unat (fsize fs)" using assms by (simp add: div_less_iff_less_mult mult.commute)
  have "unat (fsize fs) < 2 ^ LENGTH(32)" by (rule unsigned_less)
  with n have "n div 512 < 2 ^ LENGTH(32)" by linarith
  then have "unat (of_nat (n div 512) :: u32) = n div 512" by (rule unat_of_nat_small)
  with n show ?thesis by (simp add: in_fat_def word_less_nat_alt)
qed

lemma preserves_tbyte:
  assumes "preserves m (in_copy fs) fs s fs' t" "mounted m fs s" "n < 512 * unat (fsize fs)"
  shows "tbyte m fs' t n = tbyte m fs s n"
proof -
  have g: "geometry fs s" using assms(2) by (simp add: mounted_def)
  note k = geometry_fat [OF g in_fat_byte [OF assms(3)]]
  show ?thesis using assms(1) k by (simp add: tbyte_def preserves_def)
qed

text \<open>A byte of the table in the window, and the bytes after the window changed.\<close>

lemma window_byte: "winsect fs = fatbase fs + of_nat (n div 512) \<Longrightarrow> win fs (of_nat (n mod 512)) = tbyte m fs s n"
  by (simp add: tbyte_def view_def)

lemma window_write:
  assumes "mounted m fs s" "winsect fs = fatbase fs + of_nat (n div 512)" "n < 512 * unat (fsize fs)"
  shows "preserves m (in_fat fs) fs s (fs\<lparr>win := w, wflag := 1\<rparr>) s"
    and "k < 512 * unat (fsize fs) \<Longrightarrow> tbyte m (fs\<lparr>win := w, wflag := 1\<rparr>) s k
      = (if k div 512 = n div 512 then w (of_nat (k mod 512)) else tbyte m fs s k)"
proof -
  have g: "geometry fs s" using assms(1) by (simp add: mounted_def)
  note f = in_fat_byte [OF assms(3)]
  show "preserves m (in_fat fs) fs s (fs\<lparr>win := w, wflag := 1\<rparr>) s"
    using geometry_fat [OF g f] f assms(1,2) by (intro preservesI) (auto simp: coherent_def view_def)
  assume k: "k < 512 * unat (fsize fs)"
  have q: "k div 512 < 2 ^ LENGTH(32)" "n div 512 < 2 ^ LENGTH(32)"
  proof -
    have "unat (fsize fs) < 2 ^ LENGTH(32)" by (rule unsigned_less)
    moreover have "k div 512 < unat (fsize fs)" "n div 512 < unat (fsize fs)"
      using k assms(3) by (simp_all add: div_less_iff_less_mult mult.commute)
    ultimately show "k div 512 < 2 ^ LENGTH(32)" "n div 512 < 2 ^ LENGTH(32)" by linarith+
  qed
  have "(of_nat (k div 512) :: u32) = of_nat (n div 512) \<longleftrightarrow> k div 512 = n div 512"
    using unat_of_nat_small [OF q(1)] unat_of_nat_small [OF q(2)] by metis
  then show "tbyte m (fs\<lparr>win := w, wflag := 1\<rparr>) s k = (if k div 512 = n div 512 then w (of_nat (k mod 512)) else tbyte m fs s k)"
    using assms(2) by (simp add: tbyte_def view_def)
qed

text \<open>Words in the window, bit by bit.\<close>

lemma byte_bit_range: "8 \<le> n \<Longrightarrow> \<not> bit (x :: u8) n"
  using bit_imp_le_length [of x n] by auto

lemma shift_in_bit:
  fixes x :: "'a::len word" and b :: u8
  shows "j < 8 \<Longrightarrow> bit (push_bit 8 x OR ucast b) j \<longleftrightarrow> j < LENGTH('a) \<and> bit b j"
    and "8 \<le> n \<Longrightarrow> bit (push_bit 8 x OR ucast b) n \<longleftrightarrow> n < LENGTH('a) \<and> bit x (n - 8)"
  using byte_bit_range [of n b] by (auto simp: bit_push_bit_iff bit_or_iff bit_unsigned_iff)

lemma ucast_byte_bit:
  fixes b :: u8
  shows "j < 8 \<Longrightarrow> bit (ucast b :: 'a::len word) j \<longleftrightarrow> j < LENGTH('a) \<and> bit b j" and "8 \<le> n \<Longrightarrow> \<not> bit (ucast b :: 'a::len word) n"
  using byte_bit_range [of n b] by (auto simp: bit_unsigned_iff)

lemma ld_16_bit:
  assumes j: "j < 8"
  shows "bit (ld_16 m p) (8 * q + j) \<longleftrightarrow> q < 2 \<and> bit (m (p + of_nat q)) j"
proof -
  consider "q = 0" | "q = 1" | r where "q = Suc (Suc r)" by (cases q) (auto, metis not0_implies_Suc)
  then show ?thesis
    by cases (use j in \<open>simp_all add: ld_16_def shift_in_bit ucast_byte_bit\<close>)
qed

lemma ld_32_bit:
  assumes j: "j < 8"
  shows "bit (ld_32 m p) (8 * q + j) \<longleftrightarrow> q < 4 \<and> bit (m (p + of_nat q)) j"
proof -
  consider "q = 0" | "q = 1" | "q = 2" | "q = 3" | r where "q = Suc (Suc (Suc (Suc r)))" 
    by (metis One_nat_def Suc_1 nat.exhaust numeral_3_eq_3)
  then show ?thesis
    by cases (use j in \<open>simp_all add: ld_32_def shift_in_bit ucast_byte_bit del: push_bit_or push_bit_push_bit\<close>)
qed

lemma less_2_cases: "j < 2 \<Longrightarrow> j = 0 \<or> j = (1 :: nat)" by linarith

lemma st_16_same: "j < 2 \<Longrightarrow> st_16 m p v (p + of_nat j) = ucast (drop_bit (8 * j) v)"
  by (drule less_2_cases) (auto simp: st_16_def)

lemma st_16_other: "q \<noteq> p \<Longrightarrow> q \<noteq> p + 1 \<Longrightarrow> st_16 m p v q = m q"
  by (simp add: st_16_def)

lemma st_32_same: "j < 4 \<Longrightarrow> st_32 m p v (p + of_nat j) = ucast (drop_bit (8 * j) v)"
  by (drule less_4_cases) (auto simp: st_32_def)

lemma st_32_other: "q \<noteq> p \<Longrightarrow> q \<noteq> p + 1 \<Longrightarrow> q \<noteq> p + 2 \<Longrightarrow> q \<noteq> p + 3 \<Longrightarrow> st_32 m p v q = m q"
  by (simp add: st_32_def)

text \<open>Where the code looks for a byte of an entry of \<open>k\<close> bytes, of which there are \<open>q\<close> in a sector.\<close>

lemma entry_index:
  fixes c :: u32
  assumes "k * q = 512" "j < k" "k * unat c < 2 ^ 32"
  shows "c div of_nat q = of_nat ((k * unat c + j) div 512)"
    and "c * of_nat k mod SS + of_nat j = of_nat ((k * unat c + j) mod 512)"
proof -
  have q0: "q \<noteq> 0" "k \<noteq> 0" "q \<le> 512" "k \<le> 512"
  proof -
    show z: "q \<noteq> 0" "k \<noteq> 0" using assms(1) by (auto intro!: gr0I)
    have "q dvd 512" "k dvd 512" using assms(1) by (metis dvd_triv_right, metis dvd_triv_left)
    then show "q \<le> 512" "k \<le> 512" by (auto dest: dvd_imp_le)
  qed
  have "(k * unat c + j) div (k * q) = unat c div q" "(k * unat c + j) mod (k * q) = k * (unat c mod q) + j"
    using assms(2) by (simp_all add: div_mult2_eq mod_mult2_eq)
  then have n: "(k * unat c + j) div 512 = unat c div q" "(k * unat c + j) mod 512 = k * (unat c mod q) + j"
    by (simp_all add: assms(1))
  have uq: "unat (of_nat q :: u32) = q" by (rule unat_of_nat_small) (use q0 in simp)
  show "c div of_nat q = of_nat ((k * unat c + j) div 512)" by (simp add: n word_arith_nat_div uq)
  have uk: "unat (of_nat k :: u32) = k" by (rule unat_of_nat_small) (use q0 in simp)
  have "unat (c * of_nat k) = unat c * unat (of_nat k :: u32)"
    by (rule unat_mult_lem [THEN iffD1]) (use assms(3) uk in \<open>simp add: mult.commute\<close>)
  then have uc: "unat (c * of_nat k) = k * unat c" by (simp add: uk mult.commute)
  have "(k * unat c) mod 512 = k * (unat c mod q)" using assms(1) by (metis mult_mod_right)
  then have "c * of_nat k mod SS = of_nat (k * (unat c mod q))" by (simp add: SS_def word_arith_nat_mod uc)
  then show "c * of_nat k mod SS + of_nat j = of_nat ((k * unat c + j) mod 512)" by (simp add: n)
qed

end
