(* ===== verification/Fat_Table.thy ===== *)
theory Fat_Table
  imports Fat_Window
begin

text \<open>
  The allocation table as an array of entries of 12, 16 or 32 bits, packed without gaps: reading an entry
  gives its bits, writing one changes these bits and no other, and nothing of the volume outside the
  tables changes.
\<close>

section \<open>Entries as bits of the table\<close>

definition fat_bit :: "(u32 \<Rightarrow> nat \<Rightarrow> u32) \<Rightarrow> FATFS \<Rightarrow> 'a sd_scheme \<Rightarrow> nat \<Rightarrow> bool" where
  "fat_bit m fs s n = bit (tbyte m fs s (n div 8)) (n mod 8)"

definition entry :: "(u32 \<Rightarrow> nat \<Rightarrow> u32) \<Rightarrow> FATFS \<Rightarrow> 'a sd_scheme \<Rightarrow> nat \<Rightarrow> u32" where
  "entry m fs s c = horner_sum of_bool 2 (map (\<lambda>i. fat_bit m fs s (stride fs * c + i)) [0..<width fs])"

lemma fat_bit_at: "j < 8 \<Longrightarrow> fat_bit m fs s (8 * n + j) = bit (tbyte m fs s n) j"
  by (simp add: fat_bit_def)

lemma entry_bit: "bit (entry m fs s c) i \<longleftrightarrow> i < width fs \<and> fat_bit m fs s (stride fs * c + i)"
  by (auto simp: entry_def bit_horner_sum_bit_word_iff width_def split: if_splits)

lemma bit_position:
  obtains q j where "i = 8 * q + j" "j < (8 :: nat)"
  by (rule that [of "i div 8" "i mod 8"]) simp_all

lemma fat_types: "FS_FAT12 \<noteq> FS_FAT16" "FS_FAT12 \<noteq> FS_FAT32" "FS_FAT16 \<noteq> FS_FAT32"
  by (simp_all add: FS_FAT12_def FS_FAT16_def FS_FAT32_def)

lemma FRESULT_neq [simp]: "FR_DISK_ERR \<noteq> FR_OK" "FR_INT_ERR \<noteq> FR_OK" by simp_all

text \<open>Every entry lies in the table.\<close>

lemma mounted_type:
  assumes "mounted m fs s"
  obtains (FAT12) "fs_type fs = FS_FAT12" "unat (n_fatent fs) \<le> 0xFF7" "stride fs = 12" "width fs = 12"
  | (FAT16) "fs_type fs = FS_FAT16" "unat (n_fatent fs) \<le> 0xFFF7" "stride fs = 16" "width fs = 16"
  | (FAT32) "fs_type fs = FS_FAT32" "unat (n_fatent fs) \<le> 0x0FFFFFF7" "stride fs = 32" "width fs = 28"
  using assms fat_types
  by (fastforce simp: mounted_def geometry_def type_fits_def stride_def width_def word_le_nat_alt)

lemma mounted_fits:
  assumes "mounted m fs s" "c < unat (n_fatent fs)"
  shows "stride fs * c + stride fs \<le> 4096 * unat (fsize fs)"
proof -
  have "stride fs * Suc c \<le> stride fs * unat (n_fatent fs)" by (rule mult_le_mono2) (use assms(2) in simp)
  with assms(1) show ?thesis by (simp add: mounted_def geometry_def type_fits_def)
qed

section \<open>Steps of the window\<close>

lemma window_volume:
  "sync_window fs s = Some (r, fs', t) \<Longrightarrow> same_volume fs fs'"
  "move_window fs k s = Some (r, fs', t) \<Longrightarrow> same_volume fs fs'"
proof -
  show s: "sync_window fs s = Some (r, fs', t) \<Longrightarrow> same_volume fs fs'" for fs s r fs' t
    by (auto simp: sync_window_def Let_def Option.bind_eq_Some_conv split: if_splits)
  show "move_window fs k s = Some (r, fs', t) \<Longrightarrow> same_volume fs fs'"
    by (auto simp: move_window_def Let_def Option.bind_eq_Some_conv split: if_splits dest: s)
qed

lemma window_device: "move_window fs k s = Some (r, fs', t) \<Longrightarrow> pdrv fs' = pdrv fs"
  by (drule window_volume(2)) (rule same_volumeD(2))

text \<open>After a move to the sector of byte \<open>n\<close> of the table, the window shows the byte.\<close>

lemma move_to_byte:
  assumes "move_window fs (fatbase fs + of_nat (n div 512)) s = Some (FR_OK, fs', t)" "honest m t" "mounted m fs s"
    and "n < 512 * unat (fsize fs)"
  shows "win fs' (of_nat (n mod 512)) = tbyte m fs s n"
    and "k div 512 = n div 512 \<Longrightarrow> win fs' (of_nat (k mod 512)) = tbyte m fs s k"
proof -
  note w = move_window_law [OF assms(1-3)]
  have "winsect fs' = fatbase fs' + of_nat (n div 512)" using w same_volumeD(10) [of fs fs'] by simp
  note b = this preserves_tbyte [OF conjunct1 [OF w] assms(3)]
  show *: "win fs' (of_nat (k mod 512)) = tbyte m fs s k" if "k div 512 = n div 512" for k
  proof -
    have "k div 512 < unat (fsize fs)" using assms(4) that by (simp add: div_less_iff_less_mult mult.commute)
    then have "k < 512 * unat (fsize fs)" by (simp add: div_less_iff_less_mult mult.commute)
    with b window_byte [of fs' k m t] that show ?thesis by simp
  qed
  from * show "win fs' (of_nat (n mod 512)) = tbyte m fs s n" by simp
qed

lemma same_sector: "k * q = 512 \<Longrightarrow> j < k \<Longrightarrow> (k * n + j) div 512 = k * n div (512 :: nat)"
  by (metis add.right_neutral add_lessD1 div_less div_mult2_eq div_mult_self4 gr_implies_not0 not_less_zero nonzero_mult_div_cancel_left)

lemma sector_index:
  fixes x :: u32
  shows "x div SS = of_nat (unat x div 512)" and "x mod SS = of_nat (unat x mod 512)"
  by (simp_all add: SS_def word_arith_nat_div word_arith_nat_mod)

text \<open>The two bytes of an entry of 12 bits.\<close>

lemma entry_12_index:
  fixes c :: u32
  assumes "unat c < 0xFF7"
  shows "(c + c div 2) div SS = of_nat (12 * unat c div 8 div 512)" "(c + c div 2) mod SS = of_nat (12 * unat c div 8 mod 512)"
    and "(c + c div 2 + 1) div SS = of_nat ((12 * unat c div 8 + 1) div 512)"
      "(c + c div 2 + 1) mod SS = of_nat ((12 * unat c div 8 + 1) mod 512)"
proof -
  let ?B = "12 * unat c div 8"
  have d: "unat (c div 2) = unat c div 2" by (simp add: unat_div)
  have "unat (c + c div 2) = unat c + unat (c div 2)"
    by (rule unat_add_lem [THEN iffD1]) (use assms d in simp)
  then have u: "unat (c + c div 2) = ?B" using d by linarith
  have b: "?B < 6200" using assms by linarith
  have "unat (c + c div 2 + 1) = unat (c + c div 2) + unat (1 :: u32)"
    by (rule unat_add_lem [THEN iffD1]) (use u b in simp)
  then have u1: "unat (c + c div 2 + 1) = ?B + 1" using u by simp
  show "(c + c div 2) div SS = of_nat (?B div 512)" "(c + c div 2) mod SS = of_nat (?B mod 512)"
    by (simp_all only: sector_index u)
  show "(c + c div 2 + 1) div SS = of_nat ((?B + 1) div 512)" "(c + c div 2 + 1) mod SS = of_nat ((?B + 1) mod 512)"
    by (simp_all only: sector_index u1)
qed

lemma odd_cluster: "c AND 1 \<noteq> 0 \<longleftrightarrow> odd (unat c)" for c :: u32
  by (simp add: and_one_eq odd_iff_mod_2_eq_one word_unat_eq_iff unat_mod)

lemma entry_12_start: "12 * n = 8 * (12 * n div 8) + (if odd n then 4 else (0 :: nat))"
  by presburger

section \<open>Reading an entry\<close>

lemma get_fat_volume: "get_fat fs c s = Some (v, fs', t) \<Longrightarrow> same_volume fs fs'"
  unfolding get_fat_def Let_def
  by (auto simp: Option.bind_eq_Some_conv split: if_splits dest!: window_volume(2) intro: same_volume_trans)

text \<open>The moves behind the calls, for clusters in range.\<close>

lemma some_triple:
  assumes "Option.bind x f = Some y"
  obtains r g u where "x = Some (r, g, u)" "f (r, g, u) = Some y"
  using assms by (cases x) auto

lemma get_fat_split:
  assumes r: "get_fat fs c s = Some (v, fs', t)" "2 \<le> c" "c < n_fatent fs"
  shows "fs_type fs = FS_FAT16 \<Longrightarrow> \<exists>res. move_window fs (fatbase fs + c div (SS div 2)) s = Some (res, fs', t)
      \<and> v = (if res = FR_OK then ucast (ld_16 (win fs') (c * 2 mod SS)) else 0xFFFFFFFF)"
    and "fs_type fs = FS_FAT32 \<Longrightarrow> \<exists>res. move_window fs (fatbase fs + c div (SS div 4)) s = Some (res, fs', t)
      \<and> v = (if res = FR_OK then ld_32 (win fs') (c * 4 mod SS) AND 0x0FFFFFFF else 0xFFFFFFFF)"
    and "fs_type fs = FS_FAT12 \<Longrightarrow> \<exists>res g u. move_window fs (fatbase fs + (c + c div 2) div SS) s = Some (res, g, u) \<and>
      (if res = FR_OK then \<exists>res'. move_window g (fatbase g + (c + c div 2 + 1) div SS) u = Some (res', fs', t)
         \<and> v = (if res' = FR_OK
             then (let wc = ucast (win g ((c + c div 2) mod SS)) OR push_bit 8 (ucast (win fs' ((c + c div 2 + 1) mod SS)))
               in if c AND 1 \<noteq> 0 then drop_bit 4 wc else wc AND 0xFFF)
             else 0xFFFFFFFF)
       else fs' = g \<and> t = u \<and> v = 0xFFFFFFFF)"
proof -
  note G = r(1) [unfolded get_fat_def Let_def]
  have c: "\<not> (c < 2 \<or> n_fatent fs \<le> c)" using r(2,3) by (simp add: not_less not_le)
  show "\<exists>res. move_window fs (fatbase fs + c div (SS div 2)) s = Some (res, fs', t)
      \<and> v = (if res = FR_OK then ucast (ld_16 (win fs') (c * 2 mod SS)) else 0xFFFFFFFF)" if "fs_type fs = FS_FAT16"
    by (rule some_triple [OF G [unfolded that if_not_P [OF c] if_not_P [OF fat_types(1) [symmetric]] if_P [OF refl]]])
      (auto split: if_splits)
  show "\<exists>res. move_window fs (fatbase fs + c div (SS div 4)) s = Some (res, fs', t)
      \<and> v = (if res = FR_OK then ld_32 (win fs') (c * 4 mod SS) AND 0x0FFFFFFF else 0xFFFFFFFF)" if "fs_type fs = FS_FAT32"
    by (rule some_triple [OF G [unfolded that if_not_P [OF c] if_not_P [OF fat_types(2) [symmetric]] if_not_P [OF fat_types(3) [symmetric]] if_P [OF refl]]])
      (auto split: if_splits)
  show "\<exists>res g u. move_window fs (fatbase fs + (c + c div 2) div SS) s = Some (res, g, u) \<and>
      (if res = FR_OK then \<exists>res'. move_window g (fatbase g + (c + c div 2 + 1) div SS) u = Some (res', fs', t)
         \<and> v = (if res' = FR_OK
             then (let wc = ucast (win g ((c + c div 2) mod SS)) OR push_bit 8 (ucast (win fs' ((c + c div 2 + 1) mod SS)))
               in if c AND 1 \<noteq> 0 then drop_bit 4 wc else wc AND 0xFFF)
             else 0xFFFFFFFF)
       else fs' = g \<and> t = u \<and> v = 0xFFFFFFFF)" if "fs_type fs = FS_FAT12"
  proof (rule some_triple [OF G [unfolded that if_not_P [OF c] if_P [OF refl]]])
    fix res g u
    assume mv: "move_window fs (fatbase fs + (c + c div 2) div SS) s = Some (res, g, u)"
      and rest: "(case (res, g, u) of (res, fs, s) \<Rightarrow>
        if res \<noteq> FR_OK then Some (0xFFFFFFFF, fs, s)
        else Option.bind (move_window fs (fatbase fs + (c + c div 2 + 1) div SS) s)
          (\<lambda>(res, gs, s). if res \<noteq> FR_OK then Some (0xFFFFFFFF, gs, s)
            else Some (if c AND 1 \<noteq> 0 then drop_bit 4 (ucast (win fs ((c + c div 2) mod SS)) OR push_bit 8 (ucast (win gs ((c + c div 2 + 1) mod SS))))
               else (ucast (win fs ((c + c div 2) mod SS)) OR push_bit 8 (ucast (win gs ((c + c div 2 + 1) mod SS)))) AND 0xFFF, gs, s))) = Some (v, fs', t)"
    show ?thesis
    proof (cases "res = FR_OK")
      case True
      with rest obtain res' gs w where "move_window g (fatbase g + (c + c div 2 + 1) div SS) u = Some (res', gs, w)"
        by (auto simp: Option.bind_eq_Some_conv)
      with rest True mv show ?thesis by (cases "res' = FR_OK") (auto simp: Let_def split: if_splits)
    qed (use mv rest in simp)
  qed
qed

lemma get_fat_outside: "c < 2 \<or> n_fatent fs \<le> c \<Longrightarrow> get_fat fs c s = Some (1, fs, s)"
  by (simp add: get_fat_def)

lemma get_fat_honest:
  assumes r: "get_fat fs c s = Some (v, fs', t)" "honest m t" "pdrv fs = DEV_SD"
  shows "honest m s"
proof (cases "c < 2 \<or> n_fatent fs \<le> c")
  case True
  with r get_fat_outside [of c fs s] show ?thesis by simp
next
  case False
  then have c: "2 \<le> c" "c < n_fatent fs" by (simp_all add: not_less not_le)
  note mv = get_fat_split [OF r(1) c]
  consider "fs_type fs = FS_FAT16" | "fs_type fs = FS_FAT32" | "fs_type fs = FS_FAT12"
    | "fs_type fs \<noteq> FS_FAT16" "fs_type fs \<noteq> FS_FAT32" "fs_type fs \<noteq> FS_FAT12" by blast
  then show ?thesis
  proof cases
    case 1
    with mv(1) move_window_honest r show ?thesis by blast
  next
    case 2
    with mv(2) move_window_honest r show ?thesis by blast
  next
    case 3
    from mv(3) [OF this] obtain res g u where g: "move_window fs (fatbase fs + (c + c div 2) div SS) s = Some (res, g, u)"
      and "t = u \<or> (\<exists>k res'. move_window g k u = Some (res', fs', t))" by metis
    then have "honest m u" using move_window_honest window_device [OF g] r by metis
    with move_window_honest [OF g] r show ?thesis by blast
  next
    case 4
    with r False show ?thesis by (simp add: get_fat_def)
  qed
qed

lemma get_fat_16:
  assumes r: "get_fat fs c s = Some (v, fs', t)" "honest m t" "mounted m fs s" "2 \<le> c" "c < n_fatent fs"
    and ty: "fs_type fs = FS_FAT16" "unat (n_fatent fs) \<le> 0xFFF7" "stride fs = 16" "width fs = 16"
  shows "preserves m (in_copy fs) fs s fs' t \<and> (v = 0xFFFFFFFF \<or> v = entry m fs s (unat c))"
proof -
  let ?C = "unat c"
  have c: "?C < unat (n_fatent fs)" using r(5) by (simp add: word_less_nat_alt)
  have n: "2 * ?C < 512 * unat (fsize fs)" using mounted_fits [OF r(3) c, unfolded ty] by linarith
  have ix: "c div (SS div 2) = of_nat ((2 * ?C + q) div 512)" "c * 2 mod SS + of_nat q = of_nat ((2 * ?C + q) mod 512)" if "q < 2" for q
  proof -
    have "2 * ?C < 2 ^ 32" using c ty(2) by simp
    from entry_index [OF _ that this, of 256] show "c div (SS div 2) = of_nat ((2 * ?C + q) div 512)"
      "c * 2 mod SS + of_nat q = of_nat ((2 * ?C + q) mod 512)" by (simp_all add: SS_def)
  qed
  obtain res where mv: "move_window fs (fatbase fs + of_nat ((2 * ?C) div 512)) s = Some (res, fs', t)"
    and v: "v = (if res = FR_OK then ucast (ld_16 (win fs') (c * 2 mod SS)) else 0xFFFFFFFF)"
    using get_fat_split(1) [OF r(1,4,5) ty(1)] ix(1) [of 0] by auto
  have "v = entry m fs s ?C" if ok: "res = FR_OK"
  proof (rule bit_word_eqI)
    fix i assume "i < LENGTH(32)"
    obtain q j where i: "i = 8 * q + j" "j < 8" by (rule bit_position)
    have b: "win fs' (c * 2 mod SS + of_nat q) = tbyte m fs s (2 * ?C + q)" if "q < 2"
    proof -
      have "(2 * ?C + q) div 512 = 2 * ?C div 512" by (rule same_sector [of _ 256]) (use that in simp_all)
      with move_to_byte(2) [OF mv [unfolded ok] r(2,3) n, of "2 * ?C + q"] ix(2) [OF that] show ?thesis by simp
    qed
    have e: "16 * ?C + i = 8 * (2 * ?C + q) + j" using i by simp
    show "bit v i = bit (entry m fs s ?C) i"
      unfolding entry_bit ty e fat_bit_at [OF i(2)] using i b ld_16_bit [OF i(2)] by (auto simp: v ok bit_unsigned_iff)
  qed
  with move_window_law [OF mv r(2,3)] v show ?thesis by auto
qed

lemma get_fat_32:
  assumes r: "get_fat fs c s = Some (v, fs', t)" "honest m t" "mounted m fs s" "2 \<le> c" "c < n_fatent fs"
    and ty: "fs_type fs = FS_FAT32" "unat (n_fatent fs) \<le> 0x0FFFFFF7" "stride fs = 32" "width fs = 28"
  shows "preserves m (in_copy fs) fs s fs' t \<and> (v = 0xFFFFFFFF \<or> v = entry m fs s (unat c))"
proof -
  let ?C = "unat c"
  have c: "?C < unat (n_fatent fs)" using r(5) by (simp add: word_less_nat_alt)
  have n: "4 * ?C < 512 * unat (fsize fs)" using mounted_fits [OF r(3) c, unfolded ty] by linarith
  have ix: "c div (SS div 4) = of_nat ((4 * ?C + q) div 512)" "c * 4 mod SS + of_nat q = of_nat ((4 * ?C + q) mod 512)" if "q < 4" for q
  proof -
    have "4 * ?C < 2 ^ 32" using c ty(2) by simp
    from entry_index [OF _ that this, of 128] show "c div (SS div 4) = of_nat ((4 * ?C + q) div 512)"
      "c * 4 mod SS + of_nat q = of_nat ((4 * ?C + q) mod 512)" by (simp_all add: SS_def)
  qed
  obtain res where mv: "move_window fs (fatbase fs + of_nat ((4 * ?C) div 512)) s = Some (res, fs', t)"
    and v: "v = (if res = FR_OK then ld_32 (win fs') (c * 4 mod SS) AND mask 28 else 0xFFFFFFFF)"
    using get_fat_split(2) [OF r(1,4,5) ty(1)] ix(1) [of 0] by (auto simp: mask_eq_exp_minus_1)
  have "v = entry m fs s ?C" if ok: "res = FR_OK"
  proof (rule bit_word_eqI)
    fix i assume "i < LENGTH(32)"
    obtain q j where i: "i = 8 * q + j" "j < 8" by (rule bit_position)
    have b: "win fs' (c * 4 mod SS + of_nat q) = tbyte m fs s (4 * ?C + q)" if "q < 4"
    proof -
      have "(4 * ?C + q) div 512 = 4 * ?C div 512" by (rule same_sector [of _ 128]) (use that in simp_all)
      with move_to_byte(2) [OF mv [unfolded ok] r(2,3) n, of "4 * ?C + q"] ix(2) [OF that] show ?thesis by simp
    qed
    have e: "32 * ?C + i = 8 * (4 * ?C + q) + j" using i by simp
    show "bit v i = bit (entry m fs s ?C) i"
      unfolding entry_bit ty e fat_bit_at [OF i(2)] using i b ld_32_bit [OF i(2)] by (auto simp: v ok bit_and_iff bit_mask_iff)
  qed
  with move_window_law [OF mv r(2,3)] v show ?thesis by auto
qed

text \<open>Two bytes as one word.\<close>

lemma two_bytes_bit:
  fixes a b :: u8
  assumes "j < 8"
  shows "bit (ucast a OR push_bit 8 (ucast b) :: u32) (8 * q + j) \<longleftrightarrow> (q = 0 \<and> bit a j) \<or> (q = 1 \<and> bit b j)"
proof -
  have e: "(ucast a OR push_bit 8 (ucast b) :: u32) = push_bit 8 (ucast b) OR ucast a" by (rule or.commute)
  consider "q = 0" | "q = 1" | r where "q = Suc (Suc r)" by (cases q) (auto, metis not0_implies_Suc)
  then show ?thesis unfolding e by cases (use assms in \<open>simp_all add: shift_in_bit ucast_byte_bit\<close>)
qed

lemma get_fat_12:
  assumes r: "get_fat fs c s = Some (v, fs', t)" "honest m t" "mounted m fs s" "2 \<le> c" "c < n_fatent fs"
    and ty: "fs_type fs = FS_FAT12" "unat (n_fatent fs) \<le> 0xFF7" "stride fs = 12" "width fs = 12"
  shows "preserves m (in_copy fs) fs s fs' t \<and> (v = 0xFFFFFFFF \<or> v = entry m fs s (unat c))"
proof -
  let ?C = "unat c" and ?B = "12 * unat c div 8"
  have c: "?C < unat (n_fatent fs)" using r(5) by (simp add: word_less_nat_alt)
  have n: "?B < 512 * unat (fsize fs)" "?B + 1 < 512 * unat (fsize fs)"
    using mounted_fits [OF r(3) c, unfolded ty] by linarith+
  have "?C < 0xFF7" using c ty(2) by linarith
  note ix = entry_12_index [OF this]
  from get_fat_split(3) [OF r(1,4,5) ty(1)] obtain res g u where
    g: "move_window fs (fatbase fs + of_nat (?B div 512)) s = Some (res, g, u)"
    and rest: "if res = FR_OK then \<exists>res'. move_window g (fatbase g + of_nat ((?B + 1) div 512)) u = Some (res', fs', t)
         \<and> v = (if res' = FR_OK
             then (let wc = ucast (win g (of_nat (?B mod 512))) OR push_bit 8 (ucast (win fs' (of_nat ((?B + 1) mod 512))))
               in if c AND 1 \<noteq> 0 then drop_bit 4 wc else wc AND 0xFFF)
             else 0xFFFFFFFF)
       else fs' = g \<and> t = u \<and> v = 0xFFFFFFFF" unfolding ix by metis
  show ?thesis
  proof (cases "res = FR_OK")
    case False
    with rest move_window_law [OF g _ r(3)] r(2) show ?thesis by simp
  next
    case ok: True
    with rest obtain res' where h: "move_window g (fatbase g + of_nat ((?B + 1) div 512)) u = Some (res', fs', t)"
      and v: "v = (if res' = FR_OK
             then (let wc = ucast (win g (of_nat (?B mod 512))) OR push_bit 8 (ucast (win fs' (of_nat ((?B + 1) mod 512))))
               in if c AND 1 \<noteq> 0 then drop_bit 4 wc else wc AND 0xFFF)
             else 0xFFFFFFFF)" by auto
    have p: "pdrv fs = DEV_SD" using r(3) by (simp add: mounted_def geometry_def)
    have hu: "honest m u" using move_window_honest [OF h r(2)] window_device [OF g] p by simp
    note lg = move_window_law [OF g hu r(3)]
    then have kg: "preserves m (in_copy fs) fs s g u" "mounted m g u" "in_copy g = in_copy fs" "fsize g = fsize fs"
      using same_volumeD(9) same_volume_regions(2) by (auto simp: preserves_def)
    note lh = move_window_law [OF h r(2) kg(2)]
    then have keep: "preserves m (in_copy fs) fs s fs' t" using kg preserves_trans by metis
    have "v = entry m fs s ?C" if ok': "res' = FR_OK"
    proof -
      let ?wc = "ucast (win g (of_nat (?B mod 512))) OR push_bit 8 (ucast (win fs' (of_nat ((?B + 1) mod 512)))) :: u32"
      have b: "win g (of_nat (?B mod 512)) = tbyte m fs s ?B" by (rule move_to_byte(1) [OF g [unfolded ok] hu r(3) n(1)])
      have "win fs' (of_nat ((?B + 1) mod 512)) = tbyte m g u (?B + 1)"
        by (rule move_to_byte(1) [OF h [unfolded ok'] r(2) kg(2)]) (use n kg in simp)
      then have b': "win fs' (of_nat ((?B + 1) mod 512)) = tbyte m fs s (?B + 1)"
        using preserves_tbyte [OF kg(1) r(3) n(2)] by simp
      have w: "bit ?wc i \<longleftrightarrow> fat_bit m fs s (8 * ?B + i)" if i16: "i < 16" for i
      proof -
        obtain q j where i: "i = 8 * q + j" "j < 8" by (rule bit_position)
        then have q: "q = 0 \<or> q = 1" using i16 by linarith
        have e: "8 * ?B + i = 8 * (?B + q) + j" using i by simp
        show ?thesis unfolding e fat_bit_at [OF i(2)] unfolding i(1) two_bytes_bit [OF i(2)] b b' using q by auto
      qed
      have hi: "\<not> bit ?wc i" if i16: "16 \<le> i" for i
      proof -
        obtain q j where i: "i = 8 * q + j" "j < 8" by (rule bit_position)
        then have "q \<noteq> 0 \<and> q \<noteq> 1" using i16 by auto
        then show ?thesis unfolding i(1) two_bytes_bit [OF i(2)] by simp
      qed
      have m: "(0xFFF :: u32) = mask 12" by (simp add: mask_eq_exp_minus_1)
      have v': "v = (if odd ?C then drop_bit 4 ?wc else ?wc AND mask 12)"
        using v ok' odd_cluster [of c] by (simp add: Let_def m del: drop_bit_or)
      show ?thesis
      proof (rule bit_word_eqI)
        fix i assume "i < LENGTH(32)"
        have e: "12 * ?C + i = 8 * ?B + ((if odd ?C then 4 else 0) + i)" using entry_12_start [of ?C] by linarith
        show "bit v i = bit (entry m fs s ?C) i" unfolding entry_bit ty e
          using w [of "4 + i"] w [of i] hi [of "4 + i"]
          by (cases "odd ?C"; cases "i < 12") (simp_all add: v' bit_drop_bit_eq bit_and_iff bit_mask_iff del: drop_bit_or)
      qed
    qed
    with keep v show ?thesis by auto
  qed
qed

text \<open>Reading gives the entry, or the value that says the disk failed, and changes nothing.\<close>

lemma get_fat_law:
  assumes r: "get_fat fs c s = Some (v, fs', t)" "honest m t" "mounted m fs s"
  shows "preserves m (in_copy fs) fs s fs' t \<and> same_volume fs fs'
    \<and> (v = (if 2 \<le> c \<and> c < n_fatent fs then entry m fs s (unat c) else 1) \<or> v = 0xFFFFFFFF)"
proof (cases "2 \<le> c \<and> c < n_fatent fs")
  case False
  then have "c < 2 \<or> n_fatent fs \<le> c" by (auto simp: not_less not_le)
  with r get_fat_outside [of c fs s] False show ?thesis by (auto simp: preserves_refl)
next
  case True
  then have c: "2 \<le> c" "c < n_fatent fs" by simp_all
  from r(3) show ?thesis
    by (cases rule: mounted_type)
      (use get_fat_12 [OF r c] get_fat_16 [OF r c] get_fat_32 [OF r c] get_fat_volume [OF r(1)] True in auto)
qed

section \<open>Writing an entry\<close>

definition in_tables :: "FATFS \<Rightarrow> u32 \<Rightarrow> bool" where
  "in_tables fs k \<longleftrightarrow> in_fat fs k \<or> in_copy fs k"

lemma preserves_mono: "preserves m X fs s fs' t \<Longrightarrow> (\<And>k. X k \<Longrightarrow> Y k) \<Longrightarrow> preserves m Y fs s fs' t"
  by (auto simp: preserves_def)

lemma preserves_tables:
  "preserves m (in_copy fs) fs s fs' t \<Longrightarrow> preserves m (in_tables fs) fs s fs' t"
  "preserves m (in_fat fs) fs s fs' t \<Longrightarrow> preserves m (in_tables fs) fs s fs' t"
  by (auto simp: in_tables_def elim: preserves_mono)

lemma window_store:
  assumes "mounted m f s" "winsect f = fatbase f + of_nat (n div 512)" "n < 512 * unat (fsize f)"
    and sec: "\<And>q. q < len \<Longrightarrow> (n + q) div 512 = n div 512"
    and new: "\<And>q. q < len \<Longrightarrow> w (of_nat ((n + q) mod 512)) = b q"
    and old: "\<And>x. (\<And>q. q < len \<Longrightarrow> x \<noteq> of_nat ((n + q) mod 512)) \<Longrightarrow> w x = win f x"
    and k: "k < 512 * unat (fsize f)"
  shows "tbyte m (f\<lparr>win := w, wflag := 1\<rparr>) s k = (if n \<le> k \<and> k < n + len then b (k - n) else tbyte m f s k)"
proof (cases "k div 512 = n div 512")
  case False
  have "k - n < len" "n + (k - n) = k" if "n \<le> k \<and> k < n + len" using that by linarith+
  with False sec [of "k - n"] have "\<not> (n \<le> k \<and> k < n + len)" by metis
  with False window_write(2) [OF assms(1-3) k] show ?thesis by auto
next
  case same: True
  show ?thesis
  proof (cases "n \<le> k \<and> k < n + len")
    case True
    then have "w (of_nat (k mod 512)) = b (k - n)" using new [of "k - n"] by auto
    with True same window_write(2) [OF assms(1-3) k] show ?thesis by simp
  next
    case False
    have "(of_nat (k mod 512) :: u32) \<noteq> of_nat ((n + q) mod 512)" if q: "q < len" for q
    proof
      assume "(of_nat (k mod 512) :: u32) = of_nat ((n + q) mod 512)"
      then have "unat (of_nat (k mod 512) :: u32) = unat (of_nat ((n + q) mod 512) :: u32)" by simp
      moreover have "unat (of_nat (a mod 512) :: u32) = a mod 512" for a
      proof (rule unat_of_nat_small)
        have "a mod 512 < 512" by simp
        then show "a mod 512 < 2 ^ LENGTH(32)" by (rule less_trans) simp
      qed
      ultimately have "k mod 512 = (n + q) mod 512" by simp
      then have "k = n + q" using same sec [OF q] by (metis div_mult_mod_eq)
      with False q show False by simp
    qed
    with old have "w (of_nat (k mod 512)) = win f (of_nat (k mod 512))" by simp
    with same window_write(2) [OF assms(1-3) k] window_byte [of f k m s] assms(2) False show ?thesis by auto
  qed
qed

text \<open>The calls behind \<open>put_fat\<close>, for clusters in range.\<close>

lemma put_fat_split:
  assumes r: "put_fat fs c val s = Some (r, fs', t)" "2 \<le> c" "c < n_fatent fs"
  shows "fs_type fs = FS_FAT16 \<Longrightarrow> \<exists>g. move_window fs (fatbase fs + c div (SS div 2)) s = Some (r, g, t)
      \<and> fs' = (if r = FR_OK then g\<lparr>win := st_16 (win g) (c * 2 mod SS) (ucast val), wflag := 1\<rparr> else g)"
    and "fs_type fs = FS_FAT32 \<Longrightarrow> \<exists>g. move_window fs (fatbase fs + c div (SS div 4)) s = Some (r, g, t)
      \<and> fs' = (if r = FR_OK then g\<lparr>win := st_32 (win g) (c * 4 mod SS)
          ((val AND 0x0FFFFFFF) OR (ld_32 (win g) (c * 4 mod SS) AND 0xF0000000)), wflag := 1\<rparr> else g)"
    and "fs_type fs = FS_FAT12 \<Longrightarrow> \<exists>res g u. move_window fs (fatbase fs + (c + c div 2) div SS) s = Some (res, g, u) \<and>
      (if res = FR_OK then
         \<exists>h. move_window (set_win ((c + c div 2) mod SS) (if c AND 1 \<noteq> 0 then (win g ((c + c div 2) mod SS) AND 0x0F) OR push_bit 4 (ucast val) else ucast val) g)
            (fatbase g + (c + c div 2 + 1) div SS) u = Some (r, h, t)
         \<and> fs' = (if r = FR_OK then set_win ((c + c div 2 + 1) mod SS) (if c AND 1 \<noteq> 0 then ucast (drop_bit 4 val)
                  else (win h ((c + c div 2 + 1) mod SS) AND 0xF0) OR (ucast (drop_bit 8 val) AND 0x0F)) h else h)
       else fs' = g \<and> t = u \<and> r = res)"
proof -
  note G = r(1) [unfolded put_fat_def Let_def]
  have c: "2 \<le> c \<and> c < n_fatent fs" using r(2,3) by simp
  show "\<exists>g. move_window fs (fatbase fs + c div (SS div 2)) s = Some (r, g, t)
      \<and> fs' = (if r = FR_OK then g\<lparr>win := st_16 (win g) (c * 2 mod SS) (ucast val), wflag := 1\<rparr> else g)" if "fs_type fs = FS_FAT16"
    by (rule some_triple [OF G [unfolded that if_P [OF c] if_not_P [OF fat_types(1) [symmetric]] if_P [OF refl]]])
      (auto split: if_splits)
  show "\<exists>g. move_window fs (fatbase fs + c div (SS div 4)) s = Some (r, g, t)
      \<and> fs' = (if r = FR_OK then g\<lparr>win := st_32 (win g) (c * 4 mod SS)
          ((val AND 0x0FFFFFFF) OR (ld_32 (win g) (c * 4 mod SS) AND 0xF0000000)), wflag := 1\<rparr> else g)" if "fs_type fs = FS_FAT32"
    by (rule some_triple [OF G [unfolded that if_P [OF c] if_not_P [OF fat_types(2) [symmetric]] if_not_P [OF fat_types(3) [symmetric]] if_P [OF refl]]])
      (auto split: if_splits)
  show "\<exists>res g u. move_window fs (fatbase fs + (c + c div 2) div SS) s = Some (res, g, u) \<and>
      (if res = FR_OK then
         \<exists>h. move_window (set_win ((c + c div 2) mod SS) (if c AND 1 \<noteq> 0 then (win g ((c + c div 2) mod SS) AND 0x0F) OR push_bit 4 (ucast val) else ucast val) g)
            (fatbase g + (c + c div 2 + 1) div SS) u = Some (r, h, t)
         \<and> fs' = (if r = FR_OK then set_win ((c + c div 2 + 1) mod SS) (if c AND 1 \<noteq> 0 then ucast (drop_bit 4 val)
                  else (win h ((c + c div 2 + 1) mod SS) AND 0xF0) OR (ucast (drop_bit 8 val) AND 0x0F)) h else h)
       else fs' = g \<and> t = u \<and> r = res)" if "fs_type fs = FS_FAT12"
  proof -
    have fb: "fatbase (set_win p x g) = fatbase g" for p x g by (simp add: set_win_def)
    show ?thesis
    proof (rule some_triple [OF G [unfolded that if_P [OF c] if_P [OF refl]]])
      fix res g u
      assume mv: "move_window fs (fatbase fs + (c + c div 2) div SS) s = Some (res, g, u)"
        and rest: "(case (res, g, u) of (res, fs, s) \<Rightarrow>
          if res \<noteq> FR_OK then Some (res, fs, s)
          else Option.bind (move_window (set_win ((c + c div 2) mod SS) (if c AND 1 \<noteq> 0 then (win fs ((c + c div 2) mod SS) AND 0x0F) OR push_bit 4 (ucast val) else ucast val) fs)
              (fatbase (set_win ((c + c div 2) mod SS) (if c AND 1 \<noteq> 0 then (win fs ((c + c div 2) mod SS) AND 0x0F) OR push_bit 4 (ucast val) else ucast val) fs)
                + (c + c div 2 + 1) div SS) s)
            (\<lambda>(res, fs, s). if res \<noteq> FR_OK then Some (res, fs, s)
              else Some (res, set_win ((c + c div 2 + 1) mod SS) (if c AND 1 \<noteq> 0 then ucast (drop_bit 4 val)
                  else (win fs ((c + c div 2 + 1) mod SS) AND 0xF0) OR (ucast (drop_bit 8 val) AND 0x0F)) fs, s))) = Some (r, fs', t)"
      show ?thesis
      proof (cases "res = FR_OK")
        case True
        from rest [unfolded prod.case fb] True show ?thesis
          by (auto simp: mv Option.bind_eq_Some_conv simp del: ucast_drop_bit_eq split: if_splits)
      qed (use mv rest in simp)
    qed
  qed
qed

lemma put_fat_outside: "c < 2 \<or> n_fatent fs \<le> c \<Longrightarrow> put_fat fs c val s = Some (FR_INT_ERR, fs, s)"
  by (auto simp: put_fat_def)

lemma set_win_volume [simp]: "same_volume fs (set_win p x g) = same_volume fs g" "pdrv (set_win p x g) = pdrv g"
  by (simp_all add: set_win_def)

lemma put_fat_volume:
  assumes r: "put_fat fs c val s = Some (r, fs', t)"
  shows "same_volume fs fs'"
proof (cases "c < 2 \<or> n_fatent fs \<le> c")
  case True
  with r put_fat_outside [of c fs val s] show ?thesis by simp
next
  case False
  then have c: "2 \<le> c" "c < n_fatent fs" by (simp_all add: not_less not_le)
  note mv = put_fat_split [OF r(1) c]
  consider "fs_type fs = FS_FAT16" | "fs_type fs = FS_FAT32" | "fs_type fs = FS_FAT12"
    | "fs_type fs \<noteq> FS_FAT16" "fs_type fs \<noteq> FS_FAT32" "fs_type fs \<noteq> FS_FAT12" by blast
  then show ?thesis
  proof cases
    case 1
    from mv(1) [OF this] window_volume(2) show ?thesis by (auto simp del: ucast_drop_bit_eq)
  next
    case 2
    from mv(2) [OF this] window_volume(2) show ?thesis by (auto simp del: ucast_drop_bit_eq)
  next
    case 3
    from mv(3) [OF this] obtain res g u where g: "move_window fs (fatbase fs + (c + c div 2) div SS) s = Some (res, g, u)"
      and rest: "fs' = g \<or> (\<exists>p x k h p' x'. move_window (set_win p x g) k u = Some (r, h, t) \<and> (fs' = h \<or> fs' = set_win p' x' h))" by metis
    from rest show ?thesis
    proof (elim disjE exE conjE)
      fix p x k h p' x'
      assume h: "move_window (set_win p x g) k u = Some (r, h, t)" and f: "fs' = set_win p' x' h"
      have "same_volume fs (set_win p x g)" using window_volume(2) [OF g] by simp
      with window_volume(2) [OF h] f show ?thesis by (simp add: same_volume_trans [of fs "set_win p x g"])
    next
      fix p x k h p' x'
      assume h: "move_window (set_win p x g) k u = Some (r, h, t)" and f: "fs' = h"
      have "same_volume fs (set_win p x g)" using window_volume(2) [OF g] by simp
      with window_volume(2) [OF h] f show ?thesis by (simp add: same_volume_trans [of fs "set_win p x g"])
    qed (use window_volume(2) [OF g] in simp)
  next
    case 4
    with r False show ?thesis by (simp add: put_fat_def split: if_splits)
  qed
qed

lemma put_fat_honest:
  assumes r: "put_fat fs c val s = Some (r, fs', t)" "honest m t" "pdrv fs = DEV_SD"
  shows "honest m s"
proof (cases "c < 2 \<or> n_fatent fs \<le> c")
  case True
  with r put_fat_outside [of c fs val s] show ?thesis by simp
next
  case False
  then have c: "2 \<le> c" "c < n_fatent fs" by (simp_all add: not_less not_le)
  note mv = put_fat_split [OF r(1) c]
  consider "fs_type fs = FS_FAT16" | "fs_type fs = FS_FAT32" | "fs_type fs = FS_FAT12"
    | "fs_type fs \<noteq> FS_FAT16" "fs_type fs \<noteq> FS_FAT32" "fs_type fs \<noteq> FS_FAT12" by blast
  then show ?thesis
  proof cases
    case 1
    with mv(1) move_window_honest r show ?thesis by blast
  next
    case 2
    with mv(2) move_window_honest r show ?thesis by blast
  next
    case 3
    from mv(3) [OF this] obtain res g u where g: "move_window fs (fatbase fs + (c + c div 2) div SS) s = Some (res, g, u)"
      and "t = u \<or> (\<exists>p x k h. move_window (set_win p x g) k u = Some (r, h, t))" by metis
    then have "honest m u" using move_window_honest window_device [OF g] r set_win_volume(2) by metis
    with move_window_honest [OF g] r show ?thesis by blast
  next
    case 4
    with r False show ?thesis by (simp add: put_fat_def split: if_splits)
  qed
qed

text \<open>The bits of an entry replaced by those of a value.\<close>

definition stores :: "(u32 \<Rightarrow> nat \<Rightarrow> u32) \<Rightarrow> FATFS \<Rightarrow> 'a sd_scheme \<Rightarrow> nat \<Rightarrow> u32 \<Rightarrow> FATFS \<Rightarrow> 'a sd_scheme \<Rightarrow> bool" where
  "stores m fs s c val fs' t \<longleftrightarrow> (\<forall>n < 4096 * unat (fsize fs). fat_bit m fs' t n =
     (if stride fs * c \<le> n \<and> n < stride fs * c + width fs then bit val (n - stride fs * c) else fat_bit m fs s n))"

lemma storesI:
  assumes "\<And>k j. k < 512 * unat (fsize fs) \<Longrightarrow> j < 8 \<Longrightarrow> bit (tbyte m fs' t k) j =
     (if stride fs * c \<le> 8 * k + j \<and> 8 * k + j < stride fs * c + width fs then bit val (8 * k + j - stride fs * c) else bit (tbyte m fs s k) j)"
  shows "stores m fs s c val fs' t"
  unfolding stores_def
proof (intro allI impI)
  fix n assume n: "n < 4096 * unat (fsize fs)"
  obtain k j where k: "n = 8 * k + j" "j < 8" by (rule bit_position)
  have "k < 512 * unat (fsize fs)" using n k by linarith
  from assms [OF this k(2)] show "fat_bit m fs' t n =
     (if stride fs * c \<le> n \<and> n < stride fs * c + width fs then bit val (n - stride fs * c) else fat_bit m fs s n)"
    unfolding k(1) fat_bit_at [OF k(2)] .
qed

text \<open>The window moved and some bytes in it stored.\<close>

lemma moved_store:
  assumes mv: "move_window fs (fatbase fs + of_nat (n div 512)) s = Some (FR_OK, g, t)" "honest m t" "mounted m fs s"
    and n: "n < 512 * unat (fsize fs)"
    and sec: "\<forall>q < len. (n + q) div 512 = n div 512"
    and new: "\<forall>q < len. w (of_nat ((n + q) mod 512)) = b q"
    and old: "\<forall>x. (\<forall>q < len. x \<noteq> of_nat ((n + q) mod 512)) \<longrightarrow> w x = win g x"
  shows "preserves m (in_tables fs) fs s (g\<lparr>win := w, wflag := 1\<rparr>) t"
    and "k < 512 * unat (fsize fs) \<Longrightarrow> tbyte m (g\<lparr>win := w, wflag := 1\<rparr>) t k
      = (if n \<le> k \<and> k < n + len then b (k - n) else tbyte m fs s k)"
proof -
  note law = move_window_law [OF mv]
  have g: "preserves m (in_copy fs) fs s g t" "mounted m g t" "fsize g = fsize fs" "fatbase g = fatbase fs" "in_tables g = in_tables fs"
    using law same_volumeD(9,10) same_volume_regions(1,2) by (auto simp: preserves_def in_tables_def fun_eq_iff)
  have ws: "winsect g = fatbase g + of_nat (n div 512)" using law g by simp
  have n': "n < 512 * unat (fsize g)" using n g by simp
  have "preserves m (in_tables fs) g t (g\<lparr>win := w, wflag := 1\<rparr>) t"
    using preserves_tables(2) [OF window_write(1) [OF g(2) ws n', where w = w]] g by simp
  then show "preserves m (in_tables fs) fs s (g\<lparr>win := w, wflag := 1\<rparr>) t"
    using preserves_trans [OF preserves_tables(1) [OF g(1)]] by simp
  assume k: "k < 512 * unat (fsize fs)"
  then have k': "k < 512 * unat (fsize g)" using g by simp
  show "tbyte m (g\<lparr>win := w, wflag := 1\<rparr>) t k = (if n \<le> k \<and> k < n + len then b (k - n) else tbyte m fs s k)"
    using window_store [OF g(2) ws n', where len = len and w = w and b = b, OF _ _ _ k'] sec new old preserves_tbyte [OF g(1) mv(3) k] by presburger
qed

lemma put_fat_16:
  assumes r: "put_fat fs c val s = Some (r, fs', t)" "honest m t" "mounted m fs s" "2 \<le> c" "c < n_fatent fs"
    and ty: "fs_type fs = FS_FAT16" "unat (n_fatent fs) \<le> 0xFFF7" "stride fs = 16" "width fs = 16"
  shows "preserves m (in_tables fs) fs s fs' t \<and> (r = FR_OK \<or> r = FR_DISK_ERR)
    \<and> (r = FR_OK \<longrightarrow> stores m fs s (unat c) val fs' t)"
proof -
  let ?C = "unat c" and ?b = "\<lambda>q. ucast (drop_bit (8 * q) (ucast val :: u16)) :: u8"
  have c: "?C < unat (n_fatent fs)" using r(5) by (simp add: word_less_nat_alt)
  have n: "2 * ?C < 512 * unat (fsize fs)" using mounted_fits [OF r(3) c, unfolded ty] by linarith
  have ix: "c div (SS div 2) = of_nat ((2 * ?C + q) div 512)" "c * 2 mod SS + of_nat q = of_nat ((2 * ?C + q) mod 512)" if "q < 2" for q
  proof -
    have "2 * ?C < 2 ^ 32" using c ty(2) by simp
    from entry_index [OF _ that this, of 256] show "c div (SS div 2) = of_nat ((2 * ?C + q) div 512)"
      "c * 2 mod SS + of_nat q = of_nat ((2 * ?C + q) mod 512)" by (simp_all add: SS_def)
  qed
  obtain g where mv: "move_window fs (fatbase fs + of_nat ((2 * ?C) div 512)) s = Some (r, g, t)"
    and f: "fs' = (if r = FR_OK then g\<lparr>win := st_16 (win g) (c * 2 mod SS) (ucast val), wflag := 1\<rparr> else g)"
    using put_fat_split(1) [OF r(1,4,5) ty(1)] ix(1) [of 0] by auto
  show ?thesis
  proof (cases "r = FR_OK")
    case False
    with move_window_law [OF mv r(2,3)] f preserves_tables(1) show ?thesis by auto
  next
    case ok: True
    let ?w = "st_16 (win g) (c * 2 mod SS) (ucast val)"
    have f': "fs' = g\<lparr>win := ?w, wflag := 1\<rparr>" using f ok by simp
    have sec: "\<forall>q < 2. (2 * ?C + q) div 512 = 2 * ?C div 512" using same_sector [of 2 256] by simp
    have new: "\<forall>q < 2. ?w (of_nat ((2 * ?C + q) mod 512)) = ?b q" using ix(2) st_16_same by metis
    have old: "\<forall>x. (\<forall>q < 2. x \<noteq> of_nat ((2 * ?C + q) mod 512)) \<longrightarrow> ?w x = win g x"
    proof (intro allI impI)
      fix x :: u32 assume x: "\<forall>q < 2. x \<noteq> of_nat ((2 * ?C + q) mod 512)"
      show "?w x = win g x" by (rule st_16_other) (use x [rule_format, of 0] x [rule_format, of 1] ix(2) [of 0] ix(2) [of 1] in simp_all)
    qed
    note S = moved_store [OF mv [unfolded ok] r(2,3) n sec new old, folded f']
    have "stores m fs s ?C val fs' t"
    proof (rule storesI)
      fix k j assume k: "k < 512 * unat (fsize fs)" "j < (8 :: nat)"
      have iff: "16 * ?C \<le> 8 * k + j \<and> 8 * k + j < 16 * ?C + 16 \<longleftrightarrow> 2 * ?C \<le> k \<and> k < 2 * ?C + 2" using k(2) by linarith
      have "bit (?b (k - 2 * ?C)) j \<longleftrightarrow> bit val (8 * k + j - 16 * ?C)" if "2 * ?C \<le> k \<and> k < 2 * ?C + 2"
      proof -
        have e: "8 * (k - 2 * ?C) + j = 8 * k + j - 16 * ?C" "8 * (k - 2 * ?C) + j < 16" using that k(2) by linarith+
        show ?thesis using e k(2) by (simp add: bit_unsigned_iff bit_drop_bit_eq)
      qed
      then show "bit (tbyte m fs' t k) j = (if stride fs * ?C \<le> 8 * k + j \<and> 8 * k + j < stride fs * ?C + width fs
          then bit val (8 * k + j - stride fs * ?C) else bit (tbyte m fs s k) j)"
        unfolding ty iff S(2) [OF k(1)] by simp
    qed
    with S(1) ok show ?thesis by simp
  qed
qed

lemma put_fat_32:
  assumes r: "put_fat fs c val s = Some (r, fs', t)" "honest m t" "mounted m fs s" "2 \<le> c" "c < n_fatent fs"
    and ty: "fs_type fs = FS_FAT32" "unat (n_fatent fs) \<le> 0x0FFFFFF7" "stride fs = 32" "width fs = 28"
  shows "preserves m (in_tables fs) fs s fs' t \<and> (r = FR_OK \<or> r = FR_DISK_ERR)
    \<and> (r = FR_OK \<longrightarrow> stores m fs s (unat c) val fs' t)"
proof -
  let ?C = "unat c"
  have c: "?C < unat (n_fatent fs)" using r(5) by (simp add: word_less_nat_alt)
  have n: "4 * ?C < 512 * unat (fsize fs)" using mounted_fits [OF r(3) c, unfolded ty] by linarith
  have ix: "c div (SS div 4) = of_nat ((4 * ?C + q) div 512)" "c * 4 mod SS + of_nat q = of_nat ((4 * ?C + q) mod 512)" if "q < 4" for q
  proof -
    have "4 * ?C < 2 ^ 32" using c ty(2) by simp
    from entry_index [OF _ that this, of 128] show "c div (SS div 4) = of_nat ((4 * ?C + q) div 512)"
      "c * 4 mod SS + of_nat q = of_nat ((4 * ?C + q) mod 512)" by (simp_all add: SS_def)
  qed
  have masks: "(0x0FFFFFFF :: u32) = mask 28" "(0xF0000000 :: u32) = NOT (mask 28)" by (simp_all add: mask_eq_exp_minus_1)
  obtain g where mv: "move_window fs (fatbase fs + of_nat ((4 * ?C) div 512)) s = Some (r, g, t)"
    and f: "fs' = (if r = FR_OK then g\<lparr>win := st_32 (win g) (c * 4 mod SS)
          ((val AND mask 28) OR (ld_32 (win g) (c * 4 mod SS) AND NOT (mask 28))), wflag := 1\<rparr> else g)"
    using put_fat_split(2) [OF r(1,4,5) ty(1), unfolded masks] ix(1) [of 0] by auto
  show ?thesis
  proof (cases "r = FR_OK")
    case False
    with move_window_law [OF mv r(2,3)] f preserves_tables(1) show ?thesis by auto
  next
    case ok: True
    let ?v = "(val AND mask 28) OR (ld_32 (win g) (c * 4 mod SS) AND NOT (mask 28))"
    let ?w = "st_32 (win g) (c * 4 mod SS) ?v" and ?b = "\<lambda>q. ucast (drop_bit (8 * q) ?v) :: u8"
    have f': "fs' = g\<lparr>win := ?w, wflag := 1\<rparr>" using f ok by simp
    have sec: "\<forall>q < 4. (4 * ?C + q) div 512 = 4 * ?C div 512" using same_sector [of 4 128] by simp
    have new: "\<forall>q < 4. ?w (of_nat ((4 * ?C + q) mod 512)) = ?b q" using ix(2) st_32_same by metis
    have old: "\<forall>x. (\<forall>q < 4. x \<noteq> of_nat ((4 * ?C + q) mod 512)) \<longrightarrow> ?w x = win g x"
    proof (intro allI impI)
      fix x :: u32 assume x: "\<forall>q < 4. x \<noteq> of_nat ((4 * ?C + q) mod 512)"
      show "?w x = win g x"
        by (rule st_32_other) (use x [rule_format, of 0] x [rule_format, of 1] x [rule_format, of 2] x [rule_format, of 3]
          ix(2) [of 0] ix(2) [of 1] ix(2) [of 2] ix(2) [of 3] in simp_all)
    qed
    note S = moved_store [OF mv [unfolded ok] r(2,3) n sec new old, folded f']
    have b: "win g (c * 4 mod SS + of_nat q) = tbyte m fs s (4 * ?C + q)" if "q < 4" for q
      using move_to_byte(2) [OF mv [unfolded ok] r(2,3) n, of "4 * ?C + q"] ix(2) [OF that] sec that by simp
    have "stores m fs s ?C val fs' t"
    proof (rule storesI)
      fix k j assume k: "k < 512 * unat (fsize fs)" "j < (8 :: nat)"
      show "bit (tbyte m fs' t k) j = (if stride fs * ?C \<le> 8 * k + j \<and> 8 * k + j < stride fs * ?C + width fs
          then bit val (8 * k + j - stride fs * ?C) else bit (tbyte m fs s k) j)"
      proof (cases "4 * ?C \<le> k \<and> k < 4 * ?C + 4")
        case False
        then have "\<not> (32 * ?C \<le> 8 * k + j \<and> 8 * k + j < 32 * ?C + 28)" using k(2) by linarith
        with False show ?thesis unfolding ty S(2) [OF k(1)] by (simp only: if_False)
      next
        case True
        define q where "q = k - 4 * ?C"
        have q: "k = 4 * ?C + q" "q < 4" using True by (auto simp: q_def)
        have e: "8 * k + j - 32 * ?C = 8 * q + j" "32 * ?C \<le> 8 * k + j" "8 * k + j < 32 * ?C + 28 \<longleftrightarrow> 8 * q + j < 28" "8 * q + j < 32"
          using q k(2) by linarith+
        have "bit (?b q) j \<longleftrightarrow> bit ?v (8 * q + j)" using k(2) by (simp add: bit_unsigned_iff bit_drop_bit_eq del: drop_bit_or drop_bit_and ucast_drop_bit_eq)
        also have "\<dots> \<longleftrightarrow> (if 8 * q + j < 28 then bit val (8 * q + j) else bit (tbyte m fs s k) j)"
          using e(4) ld_32_bit [OF k(2), of "win g" "c * 4 mod SS" q] b [OF q(2)] q
          by (simp add: bit_or_iff bit_and_iff bit_mask_iff bit_not_iff)
        finally show ?thesis unfolding ty S(2) [OF k(1)] e using True e(2) by (simp add: q_def)
      qed
    qed
    with S(1) ok show ?thesis by simp
  qed
qed

lemma moved_byte:
  assumes mv: "move_window fs (fatbase fs + of_nat (n div 512)) s = Some (FR_OK, g, t)" "honest m t" "mounted m fs s"
    and n: "n < 512 * unat (fsize fs)"
  shows "preserves m (in_tables fs) fs s (set_win (of_nat (n mod 512)) x g) t"
    and "k < 512 * unat (fsize fs) \<Longrightarrow> tbyte m (set_win (of_nat (n mod 512)) x g) t k = (if k = n then x else tbyte m fs s k)"
proof -
  let ?w = "(win g)(of_nat (n mod 512) := x)"
  have S: "preserves m (in_tables fs) fs s (g\<lparr>win := ?w, wflag := 1\<rparr>) t"
    "\<And>k. k < 512 * unat (fsize fs) \<Longrightarrow> tbyte m (g\<lparr>win := ?w, wflag := 1\<rparr>) t k = (if n \<le> k \<and> k < n + 1 then x else tbyte m fs s k)"
    using moved_store [OF mv n, of 1 ?w "\<lambda>_. x"] by simp_all
  show "preserves m (in_tables fs) fs s (set_win (of_nat (n mod 512)) x g) t" using S(1) by (simp add: set_win_def)
  show "k < 512 * unat (fsize fs) \<Longrightarrow> tbyte m (set_win (of_nat (n mod 512)) x g) t k = (if k = n then x else tbyte m fs s k)"
    using S(2) [of k] by (auto simp: set_win_def)
qed

lemma nibble_masks: "(0x0F :: u8) = mask 4" "(0xF0 :: u8) = NOT (mask 4)"
  by (simp_all add: mask_eq_exp_minus_1)

lemma second_byte:
  fixes a b j :: nat
  assumes "j < 8"
  shows "a = 8 * b + 4 \<Longrightarrow> a \<le> 8 * (b + 1) + j \<and> 8 * (b + 1) + j < a + 12 \<and> 8 * (b + 1) + j - a = 4 + j"
    and "a = 8 * b \<Longrightarrow> a \<le> 8 * (b + 1) + j \<and> (8 * (b + 1) + j < a + 12 \<longleftrightarrow> j < 4) \<and> 8 * (b + 1) + j - a = 8 + j"
  using assms by auto

lemma put_fat_12:
  assumes r: "put_fat fs c val s = Some (r, fs', t)" "honest m t" "mounted m fs s" "2 \<le> c" "c < n_fatent fs"
    and ty: "fs_type fs = FS_FAT12" "unat (n_fatent fs) \<le> 0xFF7" "stride fs = 12" "width fs = 12"
  shows "preserves m (in_tables fs) fs s fs' t \<and> (r = FR_OK \<or> r = FR_DISK_ERR)
    \<and> (r = FR_OK \<longrightarrow> stores m fs s (unat c) val fs' t)"
proof -
  let ?C = "unat c" and ?B = "12 * unat c div 8"
  have c: "?C < unat (n_fatent fs)" using r(5) by (simp add: word_less_nat_alt)
  have n: "?B < 512 * unat (fsize fs)" "?B + 1 < 512 * unat (fsize fs)"
    using mounted_fits [OF r(3) c, unfolded ty] by linarith+
  have "?C < 0xFF7" using c ty(2) by linarith
  note ix = entry_12_index [OF this]
  define x where "x g = (if odd ?C then (win g (of_nat (?B mod 512)) AND mask 4) OR push_bit 4 (ucast val) else ucast val)" for g :: FATFS
  define y where "y h = (if odd ?C then ucast (drop_bit 4 val)
      else (win h (of_nat ((?B + 1) mod 512)) AND NOT (mask 4)) OR (ucast (drop_bit 8 val) AND mask 4))" for h :: FATFS
  from put_fat_split(3) [OF r(1,4,5) ty(1)] obtain res g u where
    g: "move_window fs (fatbase fs + of_nat (?B div 512)) s = Some (res, g, u)"
    and rest: "if res = FR_OK then
       \<exists>h. move_window (set_win (of_nat (?B mod 512)) (x g) g) (fatbase g + of_nat ((?B + 1) div 512)) u = Some (r, h, t)
         \<and> fs' = (if r = FR_OK then set_win (of_nat ((?B + 1) mod 512)) (y h) h else h)
       else fs' = g \<and> t = u \<and> r = res" unfolding ix odd_cluster nibble_masks x_def [symmetric] y_def [symmetric] by metis
  show ?thesis
  proof (cases "res = FR_OK")
    case False
    with rest move_window_law [OF g _ r(3)] r(2) preserves_tables(1) show ?thesis by auto
  next
    case ok: True
    let ?g = "set_win (of_nat (?B mod 512)) (x g) g"
    from ok rest obtain h where h: "move_window ?g (fatbase g + of_nat ((?B + 1) div 512)) u = Some (r, h, t)"
      and f: "fs' = (if r = FR_OK then set_win (of_nat ((?B + 1) mod 512)) (y h) h else h)" by auto
    have p: "pdrv fs = DEV_SD" using r(3) by (simp add: mounted_def geometry_def)
    have hu: "honest m u" using move_window_honest [OF h r(2)] window_device [OF g] p by simp
    have sg: "same_volume fs ?g" using window_volume(2) [OF g] by simp
    note sg' = same_volumeD(9,10) [OF sg] same_volume_regions [OF sg]
    note G = moved_byte [OF g [unfolded ok] hu r(3) n(1)]
    have mg: "mounted m ?g u" using G(1) by (simp add: preserves_def)
    have it: "in_tables ?g = in_tables fs" using sg' by (simp add: in_tables_def fun_eq_iff)
    have h': "move_window ?g (fatbase ?g + of_nat ((?B + 1) div 512)) u = Some (r, h, t)" using h by (simp add: set_win_def)
    show ?thesis
    proof (cases "r = FR_OK")
      case False
      with move_window_law [OF h' r(2) mg] f preserves_tables(1) [of m ?g u h t] it preserves_trans [OF G(1)] show ?thesis by auto
    next
      case ok': True
      have n2: "?B + 1 < 512 * unat (fsize ?g)" using n(2) sg' by simp
      note H = moved_byte [OF h' [unfolded ok'] r(2) mg n2, where x = "y h"]
      have f': "fs' = set_win (of_nat ((?B + 1) mod 512)) (y h) h" using f ok' by simp
      have bg: "win g (of_nat (?B mod 512)) = tbyte m fs s ?B" by (rule move_to_byte(1) [OF g [unfolded ok] hu r(3) n(1)])
      have bh: "win h (of_nat ((?B + 1) mod 512)) = tbyte m fs s (?B + 1)"
        using move_to_byte(1) [OF h' [unfolded ok'] r(2) mg n2] G(2) [of "?B + 1"] n(2) by simp
      have byte: "tbyte m fs' t k = (if k = ?B + 1 then y h else if k = ?B then x g else tbyte m fs s k)" if "k < 512 * unat (fsize fs)" for k
        using H(2) [of k] G(2) [of k] that sg' by (simp add: f')
      have "stores m fs s ?C val fs' t"
      proof (rule storesI)
        fix k j assume k: "k < 512 * unat (fsize fs)" "j < (8 :: nat)"
        have odd: "12 * ?C = 8 * ?B + 4" if "odd ?C" using entry_12_start [of ?C] unfolding if_P [OF that] .
        have even: "12 * ?C = 8 * ?B" if "even ?C" using entry_12_start [of ?C] that by (metis Nat.add_0_right)
        have l: "\<not> bit (z :: u8) (4 + j)" if "4 \<le> j" for z using byte_bit_range [of "4 + j" z] that by simp
        consider "k = ?B" | "k = ?B + 1" | "k \<noteq> ?B" "k \<noteq> ?B + 1" by blast
        then show "bit (tbyte m fs' t k) j = (if stride fs * ?C \<le> 8 * k + j \<and> 8 * k + j < stride fs * ?C + width fs
            then bit val (8 * k + j - stride fs * ?C) else bit (tbyte m fs s k) j)"
        proof cases
          case 1
          show ?thesis
          proof (cases "odd ?C")
            case True
            have e: "12 * ?C \<le> 8 * k + j \<longleftrightarrow> 4 \<le> j" "8 * k + j < 12 * ?C + 12" "8 * k + j - 12 * ?C = j - 4"
              using odd [OF True] k(2) unfolding 1 by linarith+
            show ?thesis unfolding ty byte [OF k(1)] e using e(2) 1 True k(2) bg less_imp_diff_less [OF k(2), of 4]
              by (simp add: x_def bit_or_iff bit_and_iff bit_mask_iff bit_push_bit_iff bit_unsigned_iff not_le)
          next
            case False
            then have C: "12 * ?C = 8 * ?B" using even by blast
            have e: "12 * ?C \<le> 8 * k + j" "8 * k + j < 12 * ?C + 12" "8 * k + j - 12 * ?C = j" using C k(2) unfolding 1 by linarith+
            show ?thesis unfolding ty byte [OF k(1)] e(3) using e(1,2) 1 False k(2) by (simp add: x_def bit_unsigned_iff)
          qed
        next
          case 2
          show ?thesis
          proof (cases "odd ?C")
            case True
            have e: "12 * ?C \<le> 8 * k + j" "8 * k + j < 12 * ?C + 12" "8 * k + j - 12 * ?C = 4 + j" using second_byte(1) [OF k(2) odd [OF True]] unfolding 2 by blast+
            show ?thesis unfolding ty byte [OF k(1)] e(3) using e(1,2) 2 True k(2)
              by (simp add: y_def bit_unsigned_iff bit_drop_bit_eq del: ucast_drop_bit_eq)
          next
            case False
            then have C: "12 * ?C = 8 * ?B" using even by blast
            have e: "12 * ?C \<le> 8 * k + j" "8 * k + j < 12 * ?C + 12 \<longleftrightarrow> j < 4" "8 * k + j - 12 * ?C = 8 + j" using second_byte(2) [OF k(2) C] unfolding 2 by blast+
            show ?thesis unfolding ty byte [OF k(1)] e(2,3) using e(1) 2 False k(2) bh
              by (simp add: y_def bit_or_iff bit_and_iff bit_not_iff bit_mask_iff bit_unsigned_iff bit_drop_bit_eq del: ucast_drop_bit_eq)
          qed
        next
          case 3
          then have "\<not> (12 * ?C \<le> 8 * k + j \<and> 8 * k + j < 12 * ?C + 12)" using odd even k(2) by (cases "odd ?C"; linarith)
          with 3 show ?thesis unfolding ty byte [OF k(1)] by (simp only: if_False)
        qed
      qed
      moreover have "preserves m (in_tables fs) fs s fs' t"
        using preserves_trans [OF G(1)] H(1) it by (simp add: f')
      ultimately show ?thesis using ok' by simp
    qed
  qed
qed

section \<open>The table as an array\<close>

lemma put_fat_bits:
  assumes r: "put_fat fs c val s = Some (r, fs', t)" "honest m t" "mounted m fs s" "2 \<le> c" "c < n_fatent fs"
  shows "preserves m (in_tables fs) fs s fs' t \<and> (r = FR_OK \<or> r = FR_DISK_ERR)
    \<and> (r = FR_OK \<longrightarrow> stores m fs s (unat c) val fs' t)"
  using r(3)
  by (cases rule: mounted_type)
    (use put_fat_12 [OF r] put_fat_16 [OF r] put_fat_32 [OF r] in blast)+

lemma entry_eqI:
  assumes "stride fs' = stride fs" "width fs' = width fs"
    and "\<And>i. i < width fs \<Longrightarrow> fat_bit m fs' t (stride fs * c + i) = fat_bit m fs s (stride fs * c + i)"
  shows "entry m fs' t c = entry m fs s c"
  by (rule bit_word_eqI) (use assms in \<open>auto simp: entry_bit\<close>)

lemma same_widths: "preserves m X fs s fs' t \<Longrightarrow> stride fs' = stride fs \<and> width fs' = width fs"
  by (simp add: preserves_def stride_def width_def)

lemma width_stride: "width fs \<le> stride fs" "width fs \<le> 28"
  by (simp_all add: width_def stride_def)

lemma entry_bits_in:
  assumes "mounted m fs s" "c < unat (n_fatent fs)" "i < width fs"
  shows "stride fs * c + i < 4096 * unat (fsize fs)"
  using mounted_fits [OF assms(1,2)] assms(3) width_stride(1) [of fs] by linarith

lemma preserves_entry:
  assumes "preserves m (in_copy fs) fs s fs' t" "mounted m fs s" "c < unat (n_fatent fs)"
  shows "entry m fs' t c = entry m fs s c"
proof (rule entry_eqI)
  fix i assume i: "i < width fs"
  then have "(stride fs * c + i) div 8 < 512 * unat (fsize fs)" using entry_bits_in [OF assms(2,3)] by fastforce
  then show "fat_bit m fs' t (stride fs * c + i) = fat_bit m fs s (stride fs * c + i)"
    unfolding fat_bit_def by (simp only: preserves_tbyte [OF assms(1,2)])
qed (use same_widths [OF assms(1)] in simp_all)

lemma stores_entry:
  assumes st: "stores m fs s c val fs' t" and p: "preserves m X fs s fs' t" and mo: "mounted m fs s"
    and d: "d < unat (n_fatent fs)"
  shows "entry m fs' t d = (if d = c then val AND mask (width fs) else entry m fs s d)"
proof (cases "d = c")
  case True
  have "entry m fs' t c = val AND mask (width fs)"
  proof (rule bit_word_eqI)
    fix i assume "i < LENGTH(32)"
    have "fat_bit m fs' t (stride fs * c + i) = bit val i" if "i < width fs"
      using st entry_bits_in [OF mo d that] that by (simp add: stores_def True)
    then show "bit (entry m fs' t c) i = bit (val AND mask (width fs)) i"
      using same_widths [OF p] width_stride(2) [of fs] by (auto simp: entry_bit bit_and_iff bit_mask_iff)
  qed
  with True show ?thesis by simp
next
  case False
  have "entry m fs' t d = entry m fs s d"
  proof (rule entry_eqI)
    fix i assume i: "i < width fs"
    have "\<not> (stride fs * c \<le> stride fs * d + i \<and> stride fs * d + i < stride fs * c + width fs)"
    proof
      assume a: "stride fs * c \<le> stride fs * d + i \<and> stride fs * d + i < stride fs * c + width fs"
      show False
      proof (cases "d < c")
        case True
        then have "stride fs * Suc d \<le> stride fs * c" by (intro mult_le_mono2) simp
        then have "stride fs * d + stride fs \<le> stride fs * c" by simp
        with a i width_stride(1) [of fs] show False by linarith
      next
        case False
        then have "stride fs * Suc c \<le> stride fs * d" using \<open>d \<noteq> c\<close> by (intro mult_le_mono2) simp
        then have "stride fs * c + stride fs \<le> stride fs * d" by simp
        with a i width_stride(1) [of fs] show False by linarith
      qed
    qed
    then show "fat_bit m fs' t (stride fs * d + i) = fat_bit m fs s (stride fs * d + i)"
      using st entry_bits_in [OF mo d i] by (auto simp: stores_def)
  qed (use same_widths [OF p] in simp_all)
  with False show ?thesis by simp
qed

text \<open>Writing changes one entry of the array, to the low bits of the value, and no sector outside the tables.\<close>

lemma put_fat_law:
  assumes r: "put_fat fs c val s = Some (r, fs', t)" "honest m t" "mounted m fs s"
  shows "preserves m (in_tables fs) fs s fs' t \<and> same_volume fs fs'
    \<and> (r = FR_OK \<longrightarrow> 2 \<le> c \<and> c < n_fatent fs \<and> (\<forall>d < unat (n_fatent fs). entry m fs' t d = (if d = unat c then val AND mask (width fs) else entry m fs s d)))"
proof (cases "2 \<le> c \<and> c < n_fatent fs")
  case False
  then have "c < 2 \<or> n_fatent fs \<le> c" by (auto simp: not_less not_le)
  with r put_fat_outside [of c fs val s] show ?thesis by (auto simp: preserves_refl)
next
  case True
  then have "2 \<le> c" "c < n_fatent fs" by simp_all
  note p = put_fat_bits [OF r this]
  with True put_fat_volume [OF r(1)] stores_entry [OF _ _ r(3), of "unat c" val fs' t "in_tables fs"] show ?thesis by blast
qed

lemma entry_le_mask: "entry m fs s c AND mask (width fs) = entry m fs s c"
  by (rule bit_word_eqI) (auto simp: entry_bit bit_and_iff bit_mask_iff)

lemma entry_not_error: "entry m fs s c \<noteq> 0xFFFFFFFF"
proof
  assume e: "entry m fs s c = 0xFFFFFFFF"
  have "bit (0xFFFFFFFF :: u32) 31" by simp
  with e have "31 < width fs" using entry_bit by metis
  with width_stride(2) [of fs] show False by simp
qed

end
