(* ===== verification/Fat_Chain.thy ===== *)
theory Fat_Chain
  imports Fat_Table
begin

text \<open>
  Chains of clusters in the allocation table: removing a chain frees its clusters and no other, a new
  cluster is a free one and is linked where it was asked for, and the count of free clusters stays right.
\<close>

section \<open>The table and its chains\<close>

definition fat_entry :: "(u32 \<Rightarrow> nat \<Rightarrow> u32) \<Rightarrow> FATFS \<Rightarrow> 'a sd_scheme \<Rightarrow> u32 \<Rightarrow> u32" where
  "fat_entry m fs s c = entry m fs s (unat c)"

definition in_range :: "FATFS \<Rightarrow> u32 \<Rightarrow> bool" where
  "in_range fs c \<longleftrightarrow> 2 \<le> c \<and> c < n_fatent fs"

definition free_clusters :: "(u32 \<Rightarrow> nat \<Rightarrow> u32) \<Rightarrow> FATFS \<Rightarrow> 'a sd_scheme \<Rightarrow> u32 set" where
  "free_clusters m fs s = {c. in_range fs c \<and> fat_entry m fs s c = 0}"

text \<open>The count in the file system object is that of the table.\<close>

definition counted :: "(u32 \<Rightarrow> nat \<Rightarrow> u32) \<Rightarrow> FATFS \<Rightarrow> 'a sd_scheme \<Rightarrow> bool" where
  "counted m fs s \<longleftrightarrow> unat (free_clst fs) = card (free_clusters m fs s)"

fun chain :: "(u32 \<Rightarrow> u32) \<Rightarrow> u32 \<Rightarrow> u32 list \<Rightarrow> bool" where
  "chain f n [] = False"
| "chain f n [c] \<longleftrightarrow> 2 \<le> c \<and> c < n \<and> n \<le> f c"
| "chain f n (c # d # cs) \<longleftrightarrow> 2 \<le> c \<and> c < n \<and> f c = d \<and> chain f n (d # cs)"

lemma chain_range: "chain f n cs \<Longrightarrow> c \<in> set cs \<Longrightarrow> 2 \<le> c \<and> c < n"
  by (induction f n cs rule: chain.induct) auto

lemma chain_cong: "chain f n cs \<Longrightarrow> (\<And>c. c \<in> set cs \<Longrightarrow> g c = f c) \<Longrightarrow> chain g n cs"
  by (induction f n cs rule: chain.induct) auto

lemma chain_unique: "chain f n (c # xs) \<Longrightarrow> chain f n (c # ys) \<Longrightarrow> xs = ys"
proof (induction xs arbitrary: c ys)
  case Nil
  then show ?case by (cases ys) (auto dest: chain_range)
next
  case (Cons d xs)
  then have "d < n" using chain_range [of f n "d # xs" d] by simp
  with Cons show ?case by (cases ys) auto
qed

lemma chain_suffix: "chain f n (xs @ c # ys) \<Longrightarrow> chain f n (c # ys)"
proof (induction xs)
  case (Cons x xs)
  then have "chain f n (xs @ c # ys)" by (cases xs) auto
  with Cons show ?case by simp
qed simp

lemma chain_head_fresh: "chain f n (c # cs) \<Longrightarrow> c \<notin> set cs"
proof
  assume c: "chain f n (c # cs)" and "c \<in> set cs"
  then obtain xs ys where cs: "cs = xs @ c # ys" by (auto simp: in_set_conv_decomp)
  with c have "chain f n (c # ys)" using chain_suffix [of f n "c # xs" c ys] by simp
  with c have "cs = ys" by (rule chain_unique)
  with cs show False by simp
qed

lemma chain_nonzero: "chain f n cs \<Longrightarrow> c \<in> set cs \<Longrightarrow> f c \<noteq> 0 \<and> f c \<noteq> 1"
proof (induction f n cs rule: chain.induct)
  case (2 f n d)
  then have "2 \<le> f c" by auto
  then show ?case by (auto simp: word_le_nat_alt)
next
  case (3 f n d e cs)
  show ?case
  proof (cases "c = d")
    case True
    have "2 \<le> e" using 3 chain_range [of f n "e # cs" e] by simp
    then show ?thesis using 3 True by (auto simp: word_le_nat_alt)
  qed (use 3 in auto)
qed simp

section \<open>Effects on the table\<close>

text \<open>The bookkeeping fields do not matter to the volume.\<close>

lemma info_volume:
  "mounted m (fs\<lparr>free_clst := n, fsi_flag := f\<rparr>) s = mounted m fs s"
  "mounted m (fs\<lparr>last_clst := l\<rparr>) s = mounted m fs s"
  "fat_entry m (fs\<lparr>free_clst := n, fsi_flag := f\<rparr>) s c = fat_entry m fs s c"
  "fat_entry m (fs\<lparr>last_clst := l\<rparr>) s c = fat_entry m fs s c"
  "preserves m X gs u (fs\<lparr>free_clst := n, fsi_flag := f\<rparr>) s = preserves m X gs u fs s"
  "preserves m X gs u (fs\<lparr>last_clst := l\<rparr>) s = preserves m X gs u fs s"
  by (simp_all add: mounted_def geometry_def type_fits_def coherent_def stride_def width_def preserves_def view_def
      fat_entry_def entry_def fat_bit_def tbyte_def)

lemma get_fat_entry:
  assumes r: "get_fat fs c s = Some (v, fs', t)" "honest m t" "mounted m fs s"
  shows "preserves m (in_copy fs) fs s fs' t" "same_volume fs fs'"
    "v \<noteq> 0xFFFFFFFF \<Longrightarrow> v = (if in_range fs c then fat_entry m fs s c else 1)"
    "d < n_fatent fs \<Longrightarrow> fat_entry m fs' t d = fat_entry m fs s d"
  using get_fat_law [OF r] preserves_entry [OF _ r(3)]
  by (auto simp: in_range_def fat_entry_def word_less_nat_alt split: if_splits)

lemma put_fat_entry:
  assumes r: "put_fat fs c v s = Some (FR_OK, fs', t)" "honest m t" "mounted m fs s"
  shows "preserves m (in_tables fs) fs s fs' t" "same_volume fs fs'" "in_range fs c"
    "d < n_fatent fs \<Longrightarrow> fat_entry m fs' t d = (if d = c then v AND mask (width fs) else fat_entry m fs s d)"
proof -
  note L = put_fat_law [OF r]
  then show "preserves m (in_tables fs) fs s fs' t" "same_volume fs fs'" "in_range fs c" by (simp_all add: in_range_def)
  assume d: "d < n_fatent fs"
  then have "unat d < unat (n_fatent fs)" by (simp add: word_less_nat_alt)
  with L have "entry m fs' t (unat d) = (if unat d = unat c then v AND mask (width fs) else entry m fs s (unat d))" by blast
  then show "fat_entry m fs' t d = (if d = c then v AND mask (width fs) else fat_entry m fs s d)"
    by (simp add: fat_entry_def word_unat_eq_iff)
qed

lemma in_range_same: "same_volume fs fs' \<Longrightarrow> in_range fs' = in_range fs"
  by (simp add: in_range_def same_volumeD fun_eq_iff)

lemma in_copy_tables: "preserves m (in_copy fs) fs s fs' t \<Longrightarrow> preserves m (in_tables fs) fs s fs' t"
  by (rule preserves_tables)

lemma in_tables_same: "preserves m X fs s fs' t \<Longrightarrow> in_tables fs' = in_tables fs"
  by (simp add: preserves_def in_tables_def in_fat_def in_copy_def fun_eq_iff)

lemma in_range_preserved: "preserves m X fs s fs' t \<Longrightarrow> in_range fs' = in_range fs \<and> n_fatent fs' = n_fatent fs"
  by (simp add: preserves_def in_range_def fun_eq_iff)

lemma preserves_mounted: "preserves m X fs s fs' t \<Longrightarrow> mounted m fs' t"
  by (simp add: preserves_def)

section \<open>Removing a chain\<close>

lemma one_freed_volume:
  "mounted m (one_freed fs) s = mounted m fs s" "fat_entry m (one_freed fs) s c = fat_entry m fs s c"
  "preserves m X gs u (one_freed fs) s = preserves m X gs u fs s"
  "pdrv (one_freed fs) = pdrv fs" "n_fatent (one_freed fs) = n_fatent fs"
  by (simp_all add: one_freed_def info_volume)

text \<open>Whatever the result, the loop leaves a mounted volume and touches nothing but the tables.\<close>

lemma remove_loop_keeps:
  assumes "remove_loop fs c s = Some (r, fs', t)" "honest m t" "pdrv fs = DEV_SD"
  shows "honest m s \<and> (mounted m fs s \<longrightarrow> preserves m (in_tables fs) fs s fs' t)"
proof -
  let ?Q = "\<lambda>fs c s (r :: FRESULT, fs' :: FATFS, t). honest m t \<longrightarrow> pdrv fs = DEV_SD \<longrightarrow>
    honest m s \<and> (mounted m fs s \<longrightarrow> preserves m (in_tables fs) fs s fs' t)"
  have "?Q fs c s (r, fs', t)"
  proof (rule remove_loop.raw_induct [where P = ?Q, OF _ assms(1)])
    fix rem :: "FATFS \<Rightarrow> u32 \<Rightarrow> 'a sd_scheme \<Rightarrow> (FRESULT \<times> FATFS \<times> 'a sd_scheme) option"
    fix fs :: FATFS and c and s :: "'a sd_scheme" and y
    assume ih: "\<And>fs c s y. rem fs c s = Some y \<Longrightarrow> ?Q fs c s y"
      and eq: "Option.bind (get_fat fs c s) (\<lambda>(nxt, fs, s).
         if nxt = 0 then Some (FR_OK, fs, s) else if nxt = 1 then Some (FR_INT_ERR, fs, s)
         else if nxt = 0xFFFFFFFF then Some (FR_DISK_ERR, fs, s)
         else Option.bind (put_fat fs c 0 s) (\<lambda>(res, fs, s).
           if res \<noteq> FR_OK then Some (res, fs, s)
           else let fs = one_freed fs in if nxt < n_fatent fs then rem fs nxt s else Some (FR_OK, fs, s))) = Some y"
    obtain r fs' t where y: "y = (r, fs', t)" by (cases y)
    show "?Q fs c s y" unfolding y prod.case
    proof (intro impI)
      assume t: "honest m t" and p: "pdrv fs = DEV_SD"
      obtain nxt g u where g: "get_fat fs c s = Some (nxt, g, u)" using eq by (auto simp: Option.bind_eq_Some_conv)
      have pg: "pdrv g = DEV_SD" using get_fat_volume [OF g] p by (simp add: same_volumeD)
      have u: "honest m u \<and> (mounted m g u \<longrightarrow> preserves m (in_tables g) g u fs' t)"
      proof (cases "nxt = 0 \<or> nxt = 1 \<or> nxt = 0xFFFFFFFF")
        case True
        with eq g y have "fs' = g" "t = u" by (auto split: if_splits)
        with t show ?thesis by (simp add: preserves_refl)
      next
        case False
        with eq [unfolded Let_def] g y obtain res h w where h: "put_fat g c 0 u = Some (res, h, w)"
          and rest: "(if res \<noteq> FR_OK then Some (res, h, w)
            else if nxt < n_fatent (one_freed h) then rem (one_freed h) nxt w else Some (FR_OK, one_freed h, w)) = Some (r, fs', t)"
          by (auto simp: Option.bind_eq_Some_conv)
        have ph: "pdrv (one_freed h) = DEV_SD" using put_fat_volume [OF h] pg by (simp add: same_volumeD one_freed_volume)
        from rest consider "fs' = h \<or> fs' = one_freed h" "t = w" | "rem (one_freed h) nxt w = Some (r, fs', t)"
          by (auto split: if_splits)
        then have w: "honest m w \<and> (mounted m h w \<longrightarrow> preserves m (in_tables h) h w fs' t)"
        proof cases
          case 1
          with t show ?thesis by (auto simp: preserves_refl one_freed_volume)
        next
          case 2
          have "preserves m (in_tables h) h w fs' t" if mo: "mounted m h w" and e: "preserves m (in_tables (one_freed h)) (one_freed h) w fs' t"
          proof -
            have "in_tables (one_freed h) = in_tables h" by (simp add: one_freed_def in_tables_def in_fat_def in_copy_def fun_eq_iff)
            moreover have "preserves m (in_tables h) h w (one_freed h) w" using mo by (simp add: one_freed_volume preserves_refl)
            ultimately show ?thesis using e preserves_trans by metis
          qed
          with ih [OF 2] t ph show ?thesis by (simp add: one_freed_volume)
        qed
        have "honest m u" using put_fat_honest [OF h _ pg] w by blast
        moreover have "preserves m (in_tables g) g u fs' t" if mo: "mounted m g u"
        proof -
          have P: "preserves m (in_tables g) g u h w" using put_fat_law [OF h _ mo] w by blast
          with w preserves_mounted [OF P] in_tables_same [OF P] preserves_trans show ?thesis by metis
        qed
        ultimately show ?thesis by blast
      qed
      then have hs: "honest m s" using get_fat_honest [OF g _ p] by blast
      have "preserves m (in_tables fs) fs s fs' t" if mo: "mounted m fs s"
      proof -
        have P: "preserves m (in_tables fs) fs s g u" using preserves_tables(1) get_fat_entry(1) [OF g _ mo] u by blast
        with u preserves_mounted [OF P] in_tables_same [OF P] preserves_trans show ?thesis by metis
      qed
      with hs show "honest m s \<and> (mounted m fs s \<longrightarrow> preserves m (in_tables fs) fs s fs' t)" by blast
    qed
  qed
  with assms show ?thesis by simp
qed

lemmas remove_loop_honest = conjunct1 [OF remove_loop_keeps]

lemma remove_chain_keeps:
  assumes r: "remove_chain fs c p s = Some (r, fs', t)" "honest m t" "mounted m fs s"
  shows "preserves m (in_tables fs) fs s fs' t"
proof -
  have pd: "pdrv fs = DEV_SD" using r(3) by (simp add: mounted_def geometry_def)
  from r(1) consider "fs' = fs" "t = s" | "remove_loop fs c s = Some (r, fs', t)"
    | r1 h w where "put_fat fs p 0xFFFFFFFF s = Some (r1, h, w)" "fs' = h \<and> t = w \<or> remove_loop h c w = Some (r, fs', t)"
    by (auto simp: remove_chain_def Option.bind_eq_Some_conv split: if_splits)
  then show ?thesis
  proof cases
    case 1
    with r(3) show ?thesis by (simp add: preserves_refl)
  next
    case 2
    from remove_loop_keeps [OF this r(2) pd] r(3) show ?thesis by blast
  next
    case 3
    have ph: "pdrv h = DEV_SD" using put_fat_volume [OF 3(1)] pd by (simp add: same_volumeD)
    have w: "honest m w \<and> (mounted m h w \<longrightarrow> preserves m (in_tables h) h w fs' t)"
      using 3(2) r(2) remove_loop_keeps [OF _ r(2) ph] by (auto simp: preserves_refl)
    then have P: "preserves m (in_tables fs) fs s h w" using put_fat_law [OF 3(1) _ r(3)] by blast
    with w preserves_mounted [OF P] in_tables_same [OF P] preserves_trans show ?thesis by metis
  qed
qed

text \<open>Counting the clusters.\<close>

lemma card_clusters: "finite {c. in_range fs c}" "card {c. in_range fs c} = unat (n_fatent fs) - 2"
proof -
  have e: "unat ` {c. in_range fs c} = {2..<unat (n_fatent fs)}"
  proof (intro equalityI subsetI)
    fix k assume k: "k \<in> {2..<unat (n_fatent fs)}"
    have "unat (n_fatent fs) < 2 ^ LENGTH(32)" by (rule unsigned_less)
    with k have "k < 2 ^ LENGTH(32)" by simp
    then have u: "unat (of_nat k :: u32) = k" by (rule unat_of_nat_small)
    with k have "in_range fs (of_nat k)" by (simp add: in_range_def word_less_nat_alt word_le_nat_alt)
    with u show "k \<in> unat ` {c. in_range fs c}" by (metis imageI mem_Collect_eq)
  qed (auto simp: in_range_def word_less_nat_alt word_le_nat_alt)
  have inj: "inj_on unat {c. in_range fs c}" by (rule inj_onI) (simp add: word_unat_eq_iff)
  show "finite {c. in_range fs c}" by (rule finite_imageD [OF _ inj]) (simp add: e)
  show "card {c. in_range fs c} = unat (n_fatent fs) - 2" using card_image [OF inj] e by simp
qed

lemma free_clusters_finite: "finite (free_clusters m fs s)"
  by (rule finite_subset [OF _ card_clusters(1) [of fs]]) (auto simp: free_clusters_def)

lemma used_cluster:
  assumes "in_range fs c" "fat_entry m fs s c \<noteq> 0"
  shows "card (free_clusters m fs s) < unat (n_fatent fs - 2)"
proof -
  have "free_clusters m fs s \<subset> {c. in_range fs c}" using assms by (auto simp: free_clusters_def)
  then have "card (free_clusters m fs s) < unat (n_fatent fs) - 2"
    using psubset_card_mono [OF card_clusters(1)] card_clusters(2) by metis
  moreover have "2 \<le> n_fatent fs" using assms(1) by (auto simp: in_range_def word_le_nat_alt word_less_nat_alt)
  then have "unat (n_fatent fs - 2) = unat (n_fatent fs) - 2" by (simp add: unat_sub)
  ultimately show ?thesis by simp
qed

lemma counted_freed:
  assumes c: "counted m fs s" "in_range fs c" "fat_entry m fs s c \<noteq> 0"
    and h: "same_volume fs h" "\<And>d. d < n_fatent fs \<Longrightarrow> fat_entry m h w d = (if d = c then 0 else fat_entry m fs s d)"
  shows "counted m (one_freed h) w"
proof -
  have r: "in_range (one_freed h) = in_range fs" "free_clst h = free_clst fs" "n_fatent h = n_fatent fs"
    using in_range_same [OF h(1)] same_volumeD(7,8) [OF h(1)] by (simp_all add: in_range_def one_freed_volume fun_eq_iff)
  have "free_clusters m (one_freed h) w = insert c (free_clusters m fs s)"
    using h(2) c(2) by (auto simp: free_clusters_def one_freed_volume r) (auto simp: in_range_def)
  then have "card (free_clusters m (one_freed h) w) = Suc (card (free_clusters m fs s))"
    using c(3) free_clusters_finite [of m fs s] by (simp add: free_clusters_def)
  moreover have lt: "free_clst fs < n_fatent fs - 2"
    using used_cluster [OF c(2,3)] c(1) by (simp add: counted_def word_less_nat_alt)
  have "unat (n_fatent fs - 2) < 2 ^ LENGTH(32)" by (rule unsigned_less)
  then have "unat (free_clst fs) + unat (1 :: u32) < 2 ^ LENGTH(32)" using lt by (simp add: word_less_nat_alt)
  then have "unat (free_clst fs + 1) = unat (free_clst fs) + unat (1 :: u32)" by (rule unat_add_lem [THEN iffD1])
  then have "unat (free_clst (one_freed h)) = Suc (unat (free_clst fs))"
    using lt r by (simp add: one_freed_def)
  ultimately show ?thesis using c(1) by (simp add: counted_def)
qed

lemma remove_step:
  assumes r: "remove_loop fs c s = Some (FR_OK, fs', t)" "honest m t" "mounted m fs s"
    and c: "in_range fs c" "fat_entry m fs s c \<noteq> 0"
  shows "\<exists>k w. honest m w \<and> preserves m (in_tables fs) fs s k w
    \<and> (\<forall>d. d < n_fatent fs \<longrightarrow> fat_entry m k w d = (if d = c then 0 else fat_entry m fs s d))
    \<and> (counted m fs s \<longrightarrow> counted m k w)
    \<and> (if fat_entry m fs s c < n_fatent fs then remove_loop k (fat_entry m fs s c) w = Some (FR_OK, fs', t) else fs' = k \<and> t = w)"
proof -
  have p: "pdrv fs = DEV_SD" using r(3) by (simp add: mounted_def geometry_def)
  note R = r(1) [unfolded remove_loop.simps [of fs c s] Let_def]
  obtain nxt g u where g: "get_fat fs c s = Some (nxt, g, u)"
    and rest: "nxt = 0 \<and> t = u \<or> (nxt \<noteq> 0 \<and> nxt \<noteq> 0xFFFFFFFF \<and> (\<exists>h w. put_fat g c 0 u = Some (FR_OK, h, w) \<and>
      (if nxt < n_fatent (one_freed h) then remove_loop (one_freed h) nxt w = Some (FR_OK, fs', t) else fs' = one_freed h \<and> t = w)))"
    using R by (fastforce simp: Option.bind_eq_Some_conv split: if_splits)
  have pg: "pdrv g = DEV_SD" using get_fat_volume [OF g] p by (simp add: same_volumeD)
  have hw: "honest m w" if h: "put_fat g c 0 u = Some (FR_OK, h, w)"
    and o: "if nxt < n_fatent (one_freed h) then remove_loop (one_freed h) nxt w = Some (FR_OK, fs', t) else fs' = one_freed h \<and> t = w" for h w
  proof -
    have "pdrv (one_freed h) = DEV_SD" using put_fat_volume [OF h] pg by (simp add: same_volumeD one_freed_volume)
    with o r(2) remove_loop_honest show ?thesis by (metis (no_types, lifting))
  qed
  have hu: "honest m u" using rest
  proof (elim disjE conjE exE)
    assume "t = u" with r(2) show ?thesis by simp
  next
    fix h w assume "put_fat g c 0 u = Some (FR_OK, h, w)"
      "if nxt < n_fatent (one_freed h) then remove_loop (one_freed h) nxt w = Some (FR_OK, fs', t) else fs' = one_freed h \<and> t = w"
    with hw put_fat_honest pg show ?thesis by blast
  qed
  note G = get_fat_entry [OF g hu r(3)]
  have e: "nxt = fat_entry m fs s c" "nxt \<noteq> 0" using G(3) rest c by (auto simp: fat_entry_def entry_not_error)
  with rest obtain h w where h: "put_fat g c 0 u = Some (FR_OK, h, w)"
    and o: "if nxt < n_fatent (one_freed h) then remove_loop (one_freed h) nxt w = Some (FR_OK, fs', t) else fs' = one_freed h \<and> t = w" by blast
  note hw = hw [OF h o]
  note H = put_fat_entry [OF h hw preserves_mounted [OF G(1)]]
  have ng: "n_fatent g = n_fatent fs" "n_fatent h = n_fatent fs" using same_volumeD(8) [OF G(2)] same_volumeD(8) [OF H(2)] by simp_all
  have sv: "same_volume fs h" by (rule same_volume_trans [OF G(2) H(2)])
  have ent: "fat_entry m h w d = (if d = c then 0 else fat_entry m fs s d)" if "d < n_fatent fs" for d
    using H(4) [of d] G(4) [of d] that ng by simp
  have "preserves m (in_tables fs) g u h w" using H(1) in_tables_same [OF G(1)] by simp
  then have "preserves m (in_tables fs) fs s (one_freed h) w"
    using preserves_trans [OF preserves_tables(1) [OF G(1)]] by (simp add: one_freed_volume)
  moreover have "counted m fs s \<longrightarrow> counted m (one_freed h) w" using counted_freed [OF _ c sv ent] by blast
  ultimately show ?thesis
    using hw ent o [unfolded e(1)] ng by (intro exI [of _ "one_freed h"] exI [of _ w]) (simp add: one_freed_volume)
qed

lemma remove_loop_law:
  assumes "remove_loop fs c s = Some (FR_OK, fs', t)" "honest m t" "mounted m fs s"
    and "chain (fat_entry m fs s) (n_fatent fs) (c # cs)"
  shows "preserves m (in_tables fs) fs s fs' t
    \<and> (\<forall>d. d < n_fatent fs \<longrightarrow> fat_entry m fs' t d = (if d \<in> set (c # cs) then 0 else fat_entry m fs s d))
    \<and> (counted m fs s \<longrightarrow> counted m fs' t)"
  using assms
proof (induction cs arbitrary: fs c s)
  case Nil
  then have c: "in_range fs c" "fat_entry m fs s c \<noteq> 0" "\<not> fat_entry m fs s c < n_fatent fs"
    using chain_nonzero [OF Nil(4), of c] by (auto simp: in_range_def not_less)
  from remove_step [OF Nil(1-3) c(1,2)] c(3) show ?case by auto
next
  case (Cons d cs)
  then have c: "in_range fs c" "fat_entry m fs s c \<noteq> 0" "fat_entry m fs s c = d" "chain (fat_entry m fs s) (n_fatent fs) (d # cs)"
    using chain_nonzero [OF Cons.prems(4), of c] by (auto simp: in_range_def)
  have d: "d < n_fatent fs" using chain_range [OF c(4), of d] by simp
  from remove_step [OF Cons.prems(1-3) c(1,2)] c(3) d obtain k w where
    w: "honest m w" "preserves m (in_tables fs) fs s k w" "counted m fs s \<longrightarrow> counted m k w"
      "remove_loop k d w = Some (FR_OK, fs', t)"
    and e: "\<And>d. d < n_fatent fs \<Longrightarrow> fat_entry m k w d = (if d = c then 0 else fat_entry m fs s d)" by auto
  have n: "n_fatent k = n_fatent fs" "in_tables k = in_tables fs"
    using in_range_preserved [OF w(2)] in_tables_same [OF w(2)] by simp_all
  have "chain (fat_entry m k w) (n_fatent k) (d # cs)" unfolding n
  proof (rule chain_cong [OF c(4)])
    fix x assume x: "x \<in> set (d # cs)"
    then have "x \<noteq> c" "x < n_fatent fs"
      using chain_head_fresh [OF Cons.prems(4)] chain_range [OF c(4) x] by auto
    then show "fat_entry m k w x = fat_entry m fs s x" by (simp add: e)
  qed
  note IH = Cons.IH [OF w(4) Cons.prems(2) preserves_mounted [OF w(2)] this, unfolded n]
  then have "fat_entry m fs' t x = (if x \<in> set (c # d # cs) then 0 else fat_entry m fs s x)" if "x < n_fatent fs" for x
    using e [OF that] that by auto
  with IH w(2,3) preserves_trans show ?case by blast
qed

text \<open>Ending the chain at \<open>pclst\<close>: the end mark is not below the number of entries, nor 0.\<close>

lemma end_mark:
  assumes "mounted m fs s"
  shows "n_fatent fs \<le> 0xFFFFFFFF AND mask (width fs)"
  using assms by (cases rule: mounted_type) (simp_all add: word_le_nat_alt mask_eq_exp_minus_1)

lemma counted_used:
  assumes c: "counted m fs s" and h: "same_volume fs h"
    and e: "\<And>d. d < n_fatent fs \<Longrightarrow> fat_entry m h w d = (if d = c then v else fat_entry m fs s d)"
    and z: "fat_entry m fs s c \<noteq> 0" "v \<noteq> 0"
  shows "counted m h w"
proof -
  have "free_clusters m h w = free_clusters m fs s"
    using e z in_range_same [OF h] by (auto simp: free_clusters_def in_range_def split: if_splits)
  with c same_volumeD(7) [OF h] show ?thesis by (simp add: counted_def)
qed

lemma remove_chain_law:
  assumes r: "remove_chain fs c p s = Some (FR_OK, fs', t)" "honest m t" "mounted m fs s"
    and ch: "chain (fat_entry m fs s) (n_fatent fs) (c # cs)" "p \<notin> set (c # cs)"
  shows "preserves m (in_tables fs) fs s fs' t
    \<and> (\<forall>d. d < n_fatent fs \<longrightarrow> fat_entry m fs' t d =
        (if d \<in> set (c # cs) then 0 else if d = p \<and> p \<noteq> 0 then mask (width fs) else fat_entry m fs s d))
    \<and> (counted m fs s \<and> (p = 0 \<or> fat_entry m fs s p \<noteq> 0) \<longrightarrow> counted m fs' t)"
proof -
  have c: "2 \<le> c" "c < n_fatent fs" using chain_range [OF ch(1), of c] by simp_all
  then have nc: "\<not> (c < 2 \<or> n_fatent fs \<le> c)" by (simp add: not_less not_le)
  have pd: "pdrv fs = DEV_SD" using r(3) by (simp add: mounted_def geometry_def)
  show ?thesis
  proof (cases "p = 0")
    case True
    with r(1) nc have "remove_loop fs c s = Some (FR_OK, fs', t)" by (simp add: remove_chain_def)
    from remove_loop_law [OF this r(2,3) ch(1)] True show ?thesis by auto
  next
    case False
    with r(1) nc obtain h w where h: "put_fat fs p 0xFFFFFFFF s = Some (FR_OK, h, w)"
      and l: "remove_loop h c w = Some (FR_OK, fs', t)"
      by (auto simp: remove_chain_def Option.bind_eq_Some_conv split: if_splits)
    have ph: "pdrv h = DEV_SD" using put_fat_volume [OF h] pd by (simp add: same_volumeD)
    note H = put_fat_entry [OF h remove_loop_honest [OF l r(2) ph] r(3)]
    have n: "n_fatent h = n_fatent fs" "in_tables h = in_tables fs"
      using in_range_preserved [OF H(1)] in_tables_same [OF H(1)] by simp_all
    have v: "0xFFFFFFFF AND mask (width fs) = (mask (width fs) :: u32)"
    proof -
      have "(0xFFFFFFFF :: u32) = - 1" by simp
      then show ?thesis by (simp only: and.left_neutral)
    qed
    have e: "fat_entry m h w d = (if d = p then mask (width fs) else fat_entry m fs s d)" if "d < n_fatent fs" for d
      using H(4) [OF that] unfolding v .
    have "chain (fat_entry m h w) (n_fatent h) (c # cs)" unfolding n
    proof (rule chain_cong [OF ch(1)])
      fix x assume x: "x \<in> set (c # cs)"
      with ch(2) chain_range [OF ch(1) x] show "fat_entry m h w x = fat_entry m fs s x" using e by auto
    qed
    note L = remove_loop_law [OF l r(2) preserves_mounted [OF H(1)] this, unfolded n]
    have "mask (width fs) \<noteq> (0 :: u32)" by (simp add: width_def)
    then have "counted m h w" if "counted m fs s" "fat_entry m fs s p \<noteq> 0"
      using counted_used [OF that(1) H(2) e that(2)] by simp
    with L preserves_trans [OF H(1)] e False show ?thesis by auto
  qed
qed

section \<open>Finding a free cluster\<close>

text \<open>The entries from the one after \<open>scl\<close>, round to \<open>ncl\<close>, are in use.\<close>

definition searched :: "(u32 \<Rightarrow> nat \<Rightarrow> u32) \<Rightarrow> FATFS \<Rightarrow> 'a sd_scheme \<Rightarrow> u32 \<Rightarrow> u32 \<Rightarrow> bool" where
  "searched m fs s scl ncl \<longleftrightarrow> ncl < n_fatent fs \<and> 1 \<le> ncl \<and>
     (if scl \<le> ncl then (\<forall>d. scl < d \<and> d \<le> ncl \<longrightarrow> fat_entry m fs s d \<noteq> 0)
      else (\<forall>d < n_fatent fs. scl < d \<or> 2 \<le> d \<and> d \<le> ncl \<longrightarrow> fat_entry m fs s d \<noteq> 0))"

lemma unat_succ:
  fixes a n :: u32
  assumes "a < n"
  shows "unat (a + 1) = unat a + 1"
proof -
  have "unat a + unat (1 :: u32) < 2 ^ LENGTH(32)"
  proof -
    have "unat n < 2 ^ LENGTH(32)" by (rule unsigned_less)
    with assms show ?thesis by (simp add: word_less_nat_alt)
  qed
  then show ?thesis using unat_add_lem [THEN iffD1] by fastforce
qed

lemma searched_step:
  assumes se: "searched m fs s scl ncl" and k: "\<not> n_fatent fs \<le> ncl + 1" and e: "fat_entry m fs s (ncl + 1) \<noteq> 0"
  shows "ncl + 1 \<noteq> scl \<Longrightarrow> searched m fs s scl (ncl + 1)" and "ncl + 1 = scl \<Longrightarrow> free_clusters m fs s = {}"
proof -
  have n: "ncl < n_fatent fs" using se by (simp add: searched_def)
  note u = unat_succ [OF n]
  have split: "d \<le> ncl + 1 \<longleftrightarrow> d \<le> ncl \<or> d = ncl + 1" for d :: u32
    using u by (auto simp: word_le_nat_alt word_unat_eq_iff)
  have kn: "ncl + 1 < n_fatent fs" using k by (simp only: not_le)
  have le: "scl \<le> ncl + 1 \<longleftrightarrow> scl \<le> ncl \<or> scl = ncl + 1" by (rule split)
  have one: "1 \<le> ncl + 1" using u by (simp add: word_le_nat_alt)
  show "searched m fs s scl (ncl + 1)" if "ncl + 1 \<noteq> scl"
  proof (cases "scl \<le> ncl")
    case True
    with se have "\<forall>d. scl < d \<and> d \<le> ncl \<longrightarrow> fat_entry m fs s d \<noteq> 0" unfolding searched_def by simp
    with True e one kn show ?thesis unfolding searched_def le split by auto
  next
    case False
    with se have "\<forall>d < n_fatent fs. scl < d \<or> 2 \<le> d \<and> d \<le> ncl \<longrightarrow> fat_entry m fs s d \<noteq> 0" unfolding searched_def by simp
    moreover have "\<not> scl \<le> ncl + 1" unfolding le using False that by simp
    ultimately show ?thesis using e one kn unfolding searched_def split by auto
  qed
  show "free_clusters m fs s = {}" if s: "ncl + 1 = scl"
  proof -
    have "\<not> scl \<le> ncl" using u s by (auto simp: word_le_nat_alt)
    then have q: "\<forall>d < n_fatent fs. scl < d \<or> 2 \<le> d \<and> d \<le> ncl \<longrightarrow> fat_entry m fs s d \<noteq> 0"
      using se unfolding searched_def by simp
    then have a: "fat_entry m fs s d \<noteq> 0" if "d < n_fatent fs" "scl < d \<or> 2 \<le> d \<and> d \<le> ncl" for d
      using that by blast
    have "fat_entry m fs s d \<noteq> 0" if "in_range fs d" for d
    proof (cases "scl < d")
      case False
      then have "d \<le> ncl \<or> d = ncl + 1" using s split by (simp add: not_less)
      with a [of d] that e show ?thesis by (auto simp: in_range_def)
    qed (use a that in \<open>simp add: in_range_def\<close>)
    then show ?thesis by (auto simp: free_clusters_def)
  qed
qed

lemma searched_wrap:
  assumes se: "searched m fs s scl ncl" and k: "n_fatent fs \<le> ncl + 1" and sc: "scl < n_fatent fs"
  shows "scl < 2 \<Longrightarrow> free_clusters m fs s = {}"
    and "fat_entry m fs s 2 \<noteq> 0 \<Longrightarrow> 2 = scl \<Longrightarrow> free_clusters m fs s = {}"
    and "fat_entry m fs s 2 \<noteq> 0 \<Longrightarrow> 2 < scl \<Longrightarrow> searched m fs s scl 2"
proof -
  have n: "ncl < n_fatent fs" using se by (simp add: searched_def)
  have last: "d \<le> ncl \<longleftrightarrow> d < n_fatent fs" for d
    using unat_succ [OF n] n k by (auto simp: word_le_nat_alt word_less_nat_alt)
  then have a: "fat_entry m fs s d \<noteq> 0" if "scl < d" "d < n_fatent fs" for d
    using se sc that by (simp add: searched_def)
  have two: "d = 2 \<or> 2 < d" if "2 \<le> d" for d :: u32 using that by auto
  show "free_clusters m fs s = {}" if "scl < 2" using a that by (auto simp: free_clusters_def in_range_def)
  show "free_clusters m fs s = {}" if "fat_entry m fs s 2 \<noteq> 0" "2 = scl"
    using a that two by (auto simp: free_clusters_def in_range_def)
  show "searched m fs s scl 2" if "fat_entry m fs s 2 \<noteq> 0" "2 < scl"
  proof -
    have "\<not> scl \<le> 2" "2 < n_fatent fs" "\<And>d :: u32. 2 \<le> d \<and> d \<le> 2 \<longleftrightarrow> d = 2" using that(2) sc by auto
    then show ?thesis using a that(1) by (auto simp: searched_def)
  qed
qed

definition found :: "(u32 \<Rightarrow> nat \<Rightarrow> u32) \<Rightarrow> FATFS \<Rightarrow> 'a sd_scheme \<Rightarrow> u32 + u32 \<Rightarrow> bool" where
  "found m fs s r = (case r of Inr k \<Rightarrow> k \<in> free_clusters m fs s
     | Inl v \<Rightarrow> v = 1 \<or> v = 0xFFFFFFFF \<or> v = 0 \<and> free_clusters m fs s = {})"

lemma same_entries:
  assumes "preserves m (in_copy fs) fs s g u" "same_volume fs g"
    and "\<And>d. d < n_fatent fs \<Longrightarrow> fat_entry m g u d = fat_entry m fs s d"
  shows "searched m g u scl ncl = searched m fs s scl ncl" "free_clusters m g u = free_clusters m fs s"
    "found m g u r = found m fs s r"
proof -
  have n: "n_fatent g = n_fatent fs" using assms(2) by (rule same_volumeD)
  show f: "free_clusters m g u = free_clusters m fs s"
    using assms(3) in_range_same [OF assms(2)] by (auto simp: free_clusters_def in_range_def)
  show "found m g u r = found m fs s r" by (simp add: found_def f split: sum.splits)
  show "searched m g u scl ncl = searched m fs s scl ncl"
  proof (cases "ncl < n_fatent fs")
    case True
    have "d \<le> ncl \<Longrightarrow> fat_entry m g u d = fat_entry m fs s d" for d using assms(3) [OF le_less_trans [OF _ True]] .
    with assms(3) show ?thesis by (simp add: searched_def n cong: conj_cong imp_cong)
  qed (simp add: searched_def n)
qed

lemma find_free_law:
  assumes "find_free fs scl ncl s = Some (r, fs', t)" "honest m t" "pdrv fs = DEV_SD"
  shows "honest m s \<and> (mounted m fs s \<and> scl < n_fatent fs \<and> searched m fs s scl ncl \<longrightarrow>
    preserves m (in_copy fs) fs s fs' t \<and> same_volume fs fs' \<and> found m fs s r)"
proof -
  let ?Q = "\<lambda>fs scl ncl s (r :: u32 + u32, fs' :: FATFS, t). honest m t \<longrightarrow> pdrv fs = DEV_SD \<longrightarrow>
    honest m s \<and> (mounted m fs s \<and> scl < n_fatent fs \<and> searched m fs s scl ncl \<longrightarrow>
      preserves m (in_copy fs) fs s fs' t \<and> same_volume fs fs' \<and> found m fs s r)"
  have "?Q fs scl ncl s (r, fs', t)"
  proof (rule find_free.raw_induct [where P = ?Q, OF _ assms(1)])
    fix find :: "FATFS \<Rightarrow> u32 \<Rightarrow> u32 \<Rightarrow> 'a sd_scheme \<Rightarrow> ((u32 + u32) \<times> FATFS \<times> 'a sd_scheme) option"
    fix fs :: FATFS and scl ncl and s :: "'a sd_scheme" and y
    assume ih: "\<And>fs scl ncl s y. find fs scl ncl s = Some y \<Longrightarrow> ?Q fs scl ncl s y"
      and eq: "(let ncl = ncl + 1; wrap = n_fatent fs \<le> ncl; ncl = (if wrap then 2 else ncl)
        in if wrap \<and> scl < ncl then Some (Inl 0, fs, s)
           else Option.bind (get_fat fs ncl s) (\<lambda>(cs, fs, s).
             if cs = 0 then Some (Inr ncl, fs, s)
             else if cs = 1 \<or> cs = 0xFFFFFFFF then Some (Inl cs, fs, s)
             else if ncl = scl then Some (Inl 0, fs, s) else find fs scl ncl s)) = Some y"
    obtain r fs' t where y: "y = (r, fs', t)" by (cases y)
    define k where "k = (if n_fatent fs \<le> ncl + 1 then 2 else ncl + 1)"
    show "?Q fs scl ncl s y" unfolding y prod.case
    proof (intro impI)
      assume t: "honest m t" and p: "pdrv fs = DEV_SD"
      from eq [unfolded Let_def, folded k_def] y consider
          (full) "n_fatent fs \<le> ncl + 1" "scl < 2" "r = Inl 0" "fs' = fs" "t = s"
        | (probe) cs u g where "n_fatent fs \<le> ncl + 1 \<longrightarrow> \<not> scl < 2" "get_fat fs k s = Some (cs, g, u)"
            "(if cs = 0 then Some (Inr k, g, u) else if cs = 1 \<or> cs = 0xFFFFFFFF then Some (Inl cs, g, u)
             else if k = scl then Some (Inl 0, g, u) else find g scl k u) = Some (r, fs', t)"
        by (auto simp: Option.bind_eq_Some_conv k_def split: if_split_asm)
      then show "honest m s \<and> (mounted m fs s \<and> scl < n_fatent fs \<and> searched m fs s scl ncl \<longrightarrow>
          preserves m (in_copy fs) fs s fs' t \<and> same_volume fs fs' \<and> found m fs s r)"
      proof cases
        case full
        with t show ?thesis using searched_wrap(1) [of m fs s scl ncl] by (auto simp: found_def preserves_refl)
      next
        case probe
        have pg: "pdrv g = DEV_SD" using get_fat_volume [OF probe(2)] p by (simp add: same_volumeD)
        have hu: "honest m u" using probe(3) t ih [of g scl k u "(r, fs', t)"] pg by (auto split: if_splits)
        show ?thesis
        proof (rule conjI; (rule impI)?)
          show "honest m s" by (rule get_fat_honest [OF probe(2) hu p])
          assume "mounted m fs s \<and> scl < n_fatent fs \<and> searched m fs s scl ncl"
          then have mo: "mounted m fs s" and sc: "scl < n_fatent fs" and se: "searched m fs s scl ncl" by simp_all
          note G = get_fat_entry [OF probe(2) hu mo]
          note S = same_entries [OF G(1,2,4)] and V = G(3) [symmetric]
          show "preserves m (in_copy fs) fs s fs' t \<and> same_volume fs fs' \<and> found m fs s r"
          proof (cases "cs = 0 \<or> cs = 1 \<or> cs = 0xFFFFFFFF")
            case True
            with probe(3) have e: "fs' = g" "t = u" "r = (if cs = 0 then Inr k else Inl cs)" by (auto split: if_splits)
            have "found m fs s r" using True V e(3) by (cases "cs = 0") (auto simp: found_def free_clusters_def split: if_splits)
            with G(1,2) e show ?thesis by simp
          next
            case False
            then have cs: "in_range fs k" "fat_entry m fs s k \<noteq> 0" using V by (auto split: if_splits)
            show ?thesis
            proof (cases "k = scl")
              case True
              with probe(3) False have e: "fs' = g" "t = u" "r = Inl 0" by (auto split: if_splits)
              have "free_clusters m fs s = {}"
              proof (cases "n_fatent fs \<le> ncl + 1")
                case wrap: True
                then have "k = 2" by (simp add: k_def)
                with searched_wrap(2) [OF se wrap sc] cs(2) True show ?thesis by metis
              next
                case False
                then have "k = ncl + 1" by (simp add: k_def)
                with searched_step(2) [OF se False] cs(2) True show ?thesis by metis
              qed
              with G(1,2) e show ?thesis by (simp add: found_def)
            next
              case nx: False
              with probe(3) False have f: "find g scl k u = Some (r, fs', t)" by (auto split: if_splits)
              have "searched m fs s scl k"
              proof (cases "n_fatent fs \<le> ncl + 1")
                case True
                then have "k = 2" "2 < scl" using probe(1) nx by (auto simp: k_def)
                with searched_wrap(3) [OF se True sc] cs(2) show ?thesis by simp
              next
                case False
                then have "k = ncl + 1" by (simp add: k_def)
                with searched_step(1) [OF se False] cs(2) nx show ?thesis by simp
              qed
              then have "preserves m (in_copy g) g u fs' t \<and> same_volume g fs' \<and> found m g u r"
                using ih [OF f] t pg preserves_mounted [OF G(1)] sc S(1) same_volumeD(8) [OF G(2)] by simp
              then show ?thesis
                using preserves_trans [OF G(1)] same_volume_trans [OF G(2)] same_volume_regions(2) [OF G(2)] S(3) by simp
            qed
          qed
        qed
      qed
    qed
  qed
  with assms show ?thesis by simp
qed

lemma find_free_device: "find_free fs scl ncl s = Some (r, fs', t) \<Longrightarrow> pdrv fs' = pdrv fs"
proof -
  let ?Q = "\<lambda>fs scl ncl s (r :: u32 + u32, fs' :: FATFS, t). pdrv fs' = pdrv fs"
  assume r: "find_free fs scl ncl s = Some (r, fs', t)"
  have "?Q fs scl ncl s (r, fs', t)"
  proof (rule find_free.raw_induct [where P = ?Q, OF _ r])
    fix find :: "FATFS \<Rightarrow> u32 \<Rightarrow> u32 \<Rightarrow> 'a sd_scheme \<Rightarrow> ((u32 + u32) \<times> FATFS \<times> 'a sd_scheme) option"
    fix fs :: FATFS and scl ncl and s :: "'a sd_scheme" and y
    assume ih: "\<And>fs scl ncl s y. find fs scl ncl s = Some y \<Longrightarrow> ?Q fs scl ncl s y"
      and eq: "(let ncl = ncl + 1; wrap = n_fatent fs \<le> ncl; ncl = (if wrap then 2 else ncl)
        in if wrap \<and> scl < ncl then Some (Inl 0, fs, s)
           else Option.bind (get_fat fs ncl s) (\<lambda>(cs, fs, s).
             if cs = 0 then Some (Inr ncl, fs, s)
             else if cs = 1 \<or> cs = 0xFFFFFFFF then Some (Inl cs, fs, s)
             else if ncl = scl then Some (Inl 0, fs, s) else find fs scl ncl s)) = Some y"
    define k where "k = (if n_fatent fs \<le> ncl + 1 then 2 else ncl + 1)"
    have dev: "pdrv g = pdrv fs" if "get_fat fs k s = Some (cs, g, u)" for k cs g u
      by (rule same_volumeD(2) [OF get_fat_volume [OF that]])
    have rest: "pdrv fs' = pdrv fs" if "find fs scl ncl s = Some (r, fs', t)" for fs scl ncl s r fs' t
      using ih [OF that] by simp
    from eq [unfolded Let_def, folded k_def] show "?Q fs scl ncl s y"
      by (auto simp: Option.bind_eq_Some_conv split: if_split_asm dest!: dev rest)
  qed
  then show ?thesis by simp
qed

lemma next_cluster_device: "next_cluster fs clst scl s = Some (r, fs', t) \<Longrightarrow> pdrv fs' = pdrv fs"
proof -
  assume r: "next_cluster fs clst scl s = Some (r, fs', t)"
  have dev: "pdrv g = pdrv h" if "get_fat h k s = Some (cs, g, u)" for cs g u h k and s :: "'a sd_scheme"
    by (rule same_volumeD(2) [OF get_fat_volume [OF that]])
  show ?thesis
  proof (cases "scl = clst")
    case True
    from r [unfolded next_cluster_def Let_def if_P [OF True]] show ?thesis
      by (auto simp: Option.bind_eq_Some_conv split: if_split_asm dest!: dev find_free_device)
  qed (use r find_free_device in \<open>simp add: next_cluster_def\<close>)
qed

lemma searched_start: "1 \<le> scl \<Longrightarrow> scl < n_fatent fs \<Longrightarrow> searched m fs s scl scl"
  by (auto simp: searched_def)

lemma next_cluster_law:
  assumes r: "next_cluster fs clst scl s = Some (r, fs', t)" "honest m t" "pdrv fs = DEV_SD"
  shows "honest m s" and "mounted m fs s \<Longrightarrow> 1 \<le> scl \<Longrightarrow> scl < n_fatent fs \<Longrightarrow>
    preserves m (in_copy fs) fs s fs' t \<and> same_volume fs fs' \<and> found m fs s r"
proof -
  have "honest m s \<and> (mounted m fs s \<and> 1 \<le> scl \<and> scl < n_fatent fs \<longrightarrow>
    preserves m (in_copy fs) fs s fs' t \<and> same_volume fs fs' \<and> found m fs s r)"
  proof (cases "scl = clst")
    case False
    with r(1) have "find_free fs scl scl s = Some (r, fs', t)" by (simp add: next_cluster_def)
    from find_free_law [OF this r(2,3)] searched_start show ?thesis by blast
  next
    case eq: True
    define k where "k = (if n_fatent fs \<le> scl + 1 then 2 else scl + 1)"
    from r(1) [unfolded next_cluster_def Let_def if_P [OF eq], folded k_def] obtain cs g u where
      g: "get_fat fs k s = Some (cs, g, u)" by (auto simp: Option.bind_eq_Some_conv)
    define sc where "sc = (if 2 \<le> last_clst g \<and> last_clst g < n_fatent g then last_clst g else scl)"
    have rest: "if cs = 1 \<or> cs = 0xFFFFFFFF then r = Inl cs \<and> fs' = g \<and> t = u
      else if cs = 0 then r = Inr k \<and> fs' = g \<and> t = u else find_free g sc sc u = Some (r, fs', t)"
      using r(1) [unfolded next_cluster_def Let_def if_P [OF eq], folded k_def] by (auto simp: g sc_def split: if_split_asm)
    have pg: "pdrv g = DEV_SD" using get_fat_volume [OF g] r(3) by (simp add: same_volumeD)
    have hu: "honest m u" using rest r(2) find_free_law [of g sc sc u r fs' t m] pg by (auto split: if_split_asm)
    have hs: "honest m s" by (rule get_fat_honest [OF g hu r(3)])
    have "preserves m (in_copy fs) fs s fs' t \<and> same_volume fs fs' \<and> found m fs s r"
      if mo: "mounted m fs s" and sl: "1 \<le> scl" "scl < n_fatent fs"
    proof -
      note G = get_fat_entry [OF g hu mo]
      note S = same_entries [OF G(1,2,4)]
      consider "cs = 1 \<or> cs = 0xFFFFFFFF" | "cs = 0" | "cs \<noteq> 1" "cs \<noteq> 0xFFFFFFFF" "cs \<noteq> 0" by blast
      then show ?thesis
      proof cases
        case 1
        with rest have "r = Inl cs" "fs' = g" "t = u" by simp_all
        with 1 G(1,2) show ?thesis by (auto simp: found_def)
      next
        case 2
        with rest have e: "r = Inr k" "fs' = g" "t = u" by simp_all
        have "k \<in> free_clusters m fs s" using G(3) 2 by (auto simp: free_clusters_def split: if_split_asm)
        with e G(1,2) show ?thesis by (simp add: found_def)
      next
        case 3
        with rest have f: "find_free g sc sc u = Some (r, fs', t)" by simp
        have n: "n_fatent g = n_fatent fs" using G(2) by (rule same_volumeD)
        have "1 \<le> sc" "sc < n_fatent g" using sl n by (auto simp: sc_def word_le_nat_alt)
        with find_free_law [OF f r(2) pg] preserves_mounted [OF G(1)] searched_start
        have "preserves m (in_copy g) g u fs' t \<and> same_volume g fs' \<and> found m g u r" by blast
        then show ?thesis
          using preserves_trans [OF G(1)] same_volume_trans [OF G(2)] same_volume_regions(2) [OF G(2)] S(3) by simp
      qed
    qed
    with hs show ?thesis by blast
  qed
  then show "honest m s" and "mounted m fs s \<Longrightarrow> 1 \<le> scl \<Longrightarrow> scl < n_fatent fs \<Longrightarrow>
    preserves m (in_copy fs) fs s fs' t \<and> same_volume fs fs' \<and> found m fs s r" by blast+
qed

section \<open>Linking a new cluster\<close>

lemma one_taken_volume:
  "fat_entry m (one_taken (fs\<lparr>last_clst := l\<rparr>)) s c = fat_entry m fs s c"
  "preserves m X gs u (one_taken (fs\<lparr>last_clst := l\<rparr>)) s = preserves m X gs u fs s"
  "n_fatent (one_taken (fs\<lparr>last_clst := l\<rparr>)) = n_fatent fs" "last_clst (one_taken (fs\<lparr>last_clst := l\<rparr>)) = l"
  using info_volume [where fs = "fs\<lparr>last_clst := l\<rparr>"] by (simp_all add: one_taken_def info_volume)

lemma cluster_masked:
  assumes "mounted m fs s" "c < n_fatent fs"
  shows "c AND mask (width fs) = c"
  by (rule less_mask_eq) (use assms in \<open>cases rule: mounted_type, simp_all add: word_less_nat_alt\<close>)

lemma counted_taken:
  assumes c: "counted m fs s" "k \<in> free_clusters m fs s" and h: "same_volume fs h"
    and f: "free_clusters m h w = free_clusters m fs s - {k}"
  shows "counted m (one_taken (h\<lparr>last_clst := l\<rparr>)) w"
proof -
  let ?F = "free_clusters m fs s"
  have "free_clusters m (one_taken (h\<lparr>last_clst := l\<rparr>)) w = ?F - {k}"
    using f by (simp add: free_clusters_def in_range_def one_taken_volume)
  moreover have "card (?F - {k}) = card ?F - 1" "0 < card ?F"
    using c(2) free_clusters_finite [of m fs s] by (auto simp: card_gt_0_iff)
  moreover have "card ?F \<le> unat (n_fatent fs - 2)"
  proof -
    have "?F \<subseteq> {c. in_range fs c}" by (auto simp: free_clusters_def)
    then have "card ?F \<le> unat (n_fatent fs) - 2" using card_mono [OF card_clusters(1)] card_clusters(2) by metis
    moreover have "2 \<le> n_fatent fs" using c(2) by (auto simp: free_clusters_def in_range_def word_le_nat_alt word_less_nat_alt)
    then have "unat (n_fatent fs - 2) = unat (n_fatent fs) - 2" by (simp add: unat_sub)
    ultimately show ?thesis by simp
  qed
  moreover have "unat (free_clst fs) = card ?F" using c(1) by (simp add: counted_def)
  moreover have e: "free_clst h = free_clst fs" "n_fatent h = n_fatent fs" using same_volumeD(7,8) [OF h] by simp_all
  ultimately have "free_clst fs > 0" "free_clst fs \<le> n_fatent fs - 2" "free_clst (one_taken (h\<lparr>last_clst := l\<rparr>)) = free_clst fs - 1"
    by (simp_all add: one_taken_def word_less_nat_alt word_le_nat_alt)
  moreover have "unat (free_clst fs - 1) = unat (free_clst fs) - 1"
    using \<open>free_clst fs > 0\<close> by (simp add: unat_minus_one word_gt_0)
  ultimately show ?thesis using \<open>unat (free_clst fs) = card ?F\<close> \<open>card (?F - {k}) = card ?F - 1\<close>
      \<open>free_clusters m (one_taken (h\<lparr>last_clst := l\<rparr>)) w = ?F - {k}\<close> by (simp add: counted_def)
qed

text \<open>What \<open>create_chain\<close> promises of a new cluster \<open>k\<close> after \<open>c\<close>, where 0 is no cluster.\<close>

definition linked :: "(u32 \<Rightarrow> nat \<Rightarrow> u32) \<Rightarrow> FATFS \<Rightarrow> 'a sd_scheme \<Rightarrow> u32 \<Rightarrow> u32 \<Rightarrow> FATFS \<Rightarrow> 'a sd_scheme \<Rightarrow> bool" where
  "linked m fs s c k fs' t \<longleftrightarrow> k \<in> free_clusters m fs s \<and> last_clst fs' = k
     \<and> (\<forall>d < n_fatent fs. fat_entry m fs' t d =
          (if d = k then mask (width fs) else if d = c \<and> c \<noteq> 0 then k else fat_entry m fs s d))
     \<and> (counted m fs s \<longrightarrow> counted m fs' t)"

lemma end_mask: "0xFFFFFFFF AND mask n = (mask n :: u32)"
proof -
  have "(0xFFFFFFFF :: u32) = - 1" by simp
  then show ?thesis by (simp only: and.left_neutral)
qed

lemma link_cluster_law:
  assumes r: "link_cluster fs c k s = Some (v, fs', t)" "honest m t" "mounted m fs s"
    and k: "k \<in> free_clusters m fs s" and c: "c \<noteq> 0 \<Longrightarrow> fat_entry m fs s c \<noteq> 0"
  shows "preserves m (in_tables fs) fs s fs' t \<and> (v = 1 \<or> v = 0xFFFFFFFF \<or> v = k \<and> linked m fs s c k fs' t)"
proof -
  have p: "pdrv fs = DEV_SD" using r(3) by (simp add: mounted_def geometry_def)
  from r(1) obtain r1 g u where g: "put_fat fs k 0xFFFFFFFF s = Some (r1, g, u)"
    and rest: "Option.bind (if r1 = FR_OK \<and> c \<noteq> 0 then put_fat g c k u else Some (r1, g, u)) (\<lambda>(res, fs, s).
      if res = FR_OK then Some (k, one_taken (fs\<lparr>last_clst := k\<rparr>), s)
      else Some (if res = FR_DISK_ERR then 0xFFFFFFFF else 1, fs, s)) = Some (v, fs', t)"
    unfolding link_cluster_def by (rule some_triple) simp
  from rest obtain r2 h where h: "(if r1 = FR_OK \<and> c \<noteq> 0 then put_fat g c k u else Some (r1, g, u)) = Some (r2, h, t)"
    and e: "if r2 = FR_OK then v = k \<and> fs' = one_taken (h\<lparr>last_clst := k\<rparr>) else (v = 1 \<or> v = 0xFFFFFFFF) \<and> fs' = h"
    by (rule some_triple) (auto split: if_split_asm)
  have pg: "pdrv g = DEV_SD" using put_fat_volume [OF g] p by (simp add: same_volumeD)
  have hu: "honest m u" using h r(2) put_fat_honest [OF _ r(2) pg] by (auto split: if_split_asm)
  note P = put_fat_law [OF g hu r(3)]
  have mg: "mounted m g u" using P preserves_mounted by blast
  have itg: "in_tables g = in_tables fs" using P in_tables_same by blast
  have keep: "preserves m (in_tables fs) fs s h t"
  proof (cases "r1 = FR_OK \<and> c \<noteq> 0")
    case True
    with h have "put_fat g c k u = Some (r2, h, t)" by simp
    from put_fat_law [OF this r(2) mg] P itg preserves_trans show ?thesis by metis
  qed (use h P in \<open>auto split: if_split_asm\<close>)
  show ?thesis
  proof (cases "r2 = FR_OK")
    case False
    with e keep show ?thesis by auto
  next
    case ok: True
    with e have f: "v = k" "fs' = one_taken (h\<lparr>last_clst := k\<rparr>)" by simp_all
    have ok1: "r1 = FR_OK" using h ok by (auto split: if_split_asm)
    note G = put_fat_entry [OF g [unfolded ok1] hu r(3), unfolded end_mask]
    have ng: "n_fatent g = n_fatent fs" "width g = width fs" using G(2) same_volumeD(8) same_volume_regions(5) by blast+
    have kn: "k < n_fatent fs" "fat_entry m fs s k = 0" using k by (simp_all add: free_clusters_def in_range_def)
    have ck: "c \<noteq> 0 \<Longrightarrow> c \<noteq> k" using c kn by auto
    have H: "same_volume g h \<and> (\<forall>d < n_fatent fs. fat_entry m h t d = (if d = c \<and> c \<noteq> 0 then k else fat_entry m g u d))"
    proof (cases "c = 0")
      case True
      with h ok1 show ?thesis by simp
    next
      case False
      with h ok1 ok have pt: "put_fat g c k u = Some (FR_OK, h, t)" by simp
      from put_fat_entry [OF pt r(2) mg] cluster_masked [OF mg, of k] ng kn False show ?thesis by auto
    qed
    have sv: "same_volume fs h" using same_volume_trans G(2) H by blast
    have ent: "fat_entry m h t d = (if d = k then mask (width fs) else if d = c \<and> c \<noteq> 0 then k else fat_entry m fs s d)"
      if "d < n_fatent fs" for d using H G(4) [OF that] that ck by auto
    have k2: "2 \<le> k" using k by (simp add: free_clusters_def in_range_def)
    then have nz: "k \<noteq> 0" by auto
    have wz: "(mask (width fs) :: u32) \<noteq> 0" by (simp add: width_def)
    have cz: "fat_entry m fs s c = 0 \<Longrightarrow> c = 0" using c by blast
    have "free_clusters m h t = free_clusters m fs s - {k}"
      using ent in_range_same [OF sv] cz nz wz by (auto simp: free_clusters_def in_range_def split: if_split_asm)
    then have "counted m fs s \<longrightarrow> counted m fs' t" unfolding f using counted_taken [OF _ k sv] by blast
    with ent k have "linked m fs s c k fs' t" by (simp add: linked_def f one_taken_volume)
    with keep f show ?thesis by (simp add: one_taken_volume)
  qed
qed

lemma link_cluster_honest:
  assumes r: "link_cluster fs c k s = Some (v, fs', t)" "honest m t" "pdrv fs = DEV_SD"
  shows "honest m s"
proof -
  from r(1) obtain r1 g u where g: "put_fat fs k 0xFFFFFFFF s = Some (r1, g, u)"
    and o: "t = u \<or> (\<exists>r2 h. put_fat g c k u = Some (r2, h, t))"
    by (auto simp: link_cluster_def Option.bind_eq_Some_conv split: if_split_asm)
  have "pdrv g = DEV_SD" using put_fat_volume [OF g] r(3) by (simp add: same_volumeD)
  with o r(2) put_fat_honest have "honest m u" by blast
  with put_fat_honest [OF g _ r(3)] show ?thesis by blast
qed

lemma linked_same:
  assumes "preserves m (in_copy fs) fs s g u" "same_volume fs g"
    and "\<And>d. d < n_fatent fs \<Longrightarrow> fat_entry m g u d = fat_entry m fs s d"
    and "linked m g u c k fs' t"
  shows "linked m fs s c k fs' t"
proof -
  have "width g = width fs" "n_fatent g = n_fatent fs" "free_clst g = free_clst fs"
    using assms(2) same_volumeD(7,8) same_volume_regions(5) by blast+
  with same_entries(2) [OF assms(1-3)] assms(3,4) show ?thesis by (auto simp: linked_def counted_def)
qed

lemma take_cluster_law:
  assumes r: "take_cluster fs c scl s = Some (v, fs', t)" "honest m t" "pdrv fs = DEV_SD"
  shows "honest m s" and "mounted m fs s \<Longrightarrow> 1 \<le> scl \<Longrightarrow> scl < n_fatent fs \<Longrightarrow> (c \<noteq> 0 \<Longrightarrow> c < n_fatent fs \<and> fat_entry m fs s c \<noteq> 0) \<Longrightarrow>
    preserves m (in_tables fs) fs s fs' t \<and> (v = 1 \<or> v = 0xFFFFFFFF
      \<or> v = 0 \<and> (counted m fs s \<longrightarrow> free_clusters m fs s = {}) \<or> linked m fs s c v fs' t)"
proof -
  have "honest m s \<and> (mounted m fs s \<and> 1 \<le> scl \<and> scl < n_fatent fs \<and> (c \<noteq> 0 \<longrightarrow> c < n_fatent fs \<and> fat_entry m fs s c \<noteq> 0) \<longrightarrow>
    preserves m (in_tables fs) fs s fs' t \<and> (v = 1 \<or> v = 0xFFFFFFFF
      \<or> v = 0 \<and> (counted m fs s \<longrightarrow> free_clusters m fs s = {}) \<or> linked m fs s c v fs' t))"
  proof (cases "free_clst fs = 0")
    case True
    with r have "v = 0" "fs' = fs" "t = s" by (simp_all add: take_cluster_def)
    moreover have "counted m fs s \<longrightarrow> free_clusters m fs s = {}"
      using True free_clusters_finite [of m fs s] by (simp add: counted_def)
    ultimately show ?thesis using r(2) by (simp add: preserves_refl)
  next
    case False
    with r(1) obtain q g u where q: "next_cluster fs c scl s = Some (q, g, u)"
      and rest: "(case q of Inl w \<Rightarrow> Some (w, g, u) | Inr ncl \<Rightarrow> link_cluster g c ncl u) = Some (v, fs', t)"
      by (auto simp: take_cluster_def Option.bind_eq_Some_conv)
    have pg: "pdrv g = DEV_SD" using next_cluster_device [OF q] r(3) by simp
    have hu: "honest m u" using rest r(2) link_cluster_honest [OF _ r(2) pg] by (auto split: sum.splits)
    have "preserves m (in_tables fs) fs s fs' t \<and> (v = 1 \<or> v = 0xFFFFFFFF
      \<or> v = 0 \<and> (counted m fs s \<longrightarrow> free_clusters m fs s = {}) \<or> linked m fs s c v fs' t)"
      if mo: "mounted m fs s" and sl: "1 \<le> scl" "scl < n_fatent fs" and c: "c \<noteq> 0 \<longrightarrow> c < n_fatent fs \<and> fat_entry m fs s c \<noteq> 0"
    proof -
      from next_cluster_law(2) [OF q hu r(3) mo sl] have Q: "preserves m (in_copy fs) fs s g u" "same_volume fs g" "found m fs s q"
        by simp_all
      have ent: "fat_entry m g u d = fat_entry m fs s d" if "d < n_fatent fs" for d
        using preserves_entry [OF Q(1) mo, of "unat d"] that by (simp add: fat_entry_def word_less_nat_alt)
      note S = same_entries [OF Q(1,2) ent]
      show ?thesis
      proof (cases q)
        case (Inl w)
        with rest have "v = w" "fs' = g" "t = u" by simp_all
        with Inl Q(3) preserves_tables(1) [OF Q(1)] show ?thesis by (auto simp: found_def)
      next
        case (Inr k)
        with rest have l: "link_cluster g c k u = Some (v, fs', t)" by simp
        have k: "k \<in> free_clusters m g u" using Q(3) Inr S(2) by (simp add: found_def)
        have c': "c \<noteq> 0 \<Longrightarrow> fat_entry m g u c \<noteq> 0" using c ent by auto
        note L = link_cluster_law [OF l r(2) preserves_mounted [OF Q(1)] k c']
        have "preserves m (in_tables fs) fs s fs' t"
          using preserves_trans [OF preserves_tables(1) [OF Q(1)]] L in_tables_same [OF Q(1)] by metis
        with L linked_same [OF Q(1,2) ent] show ?thesis by blast
      qed
    qed
    moreover have "honest m s" by (rule next_cluster_law(1) [OF q hu r(3)])
    ultimately show ?thesis by blast
  qed
  then show "honest m s" and "mounted m fs s \<Longrightarrow> 1 \<le> scl \<Longrightarrow> scl < n_fatent fs \<Longrightarrow> (c \<noteq> 0 \<Longrightarrow> c < n_fatent fs \<and> fat_entry m fs s c \<noteq> 0) \<Longrightarrow>
    preserves m (in_tables fs) fs s fs' t \<and> (v = 1 \<or> v = 0xFFFFFFFF
      \<or> v = 0 \<and> (counted m fs s \<longrightarrow> free_clusters m fs s = {}) \<or> linked m fs s c v fs' t)" by blast+
qed

lemma linked_range: "linked m fs s c k fs' t \<Longrightarrow> in_range fs k \<and> fat_entry m fs s k = 0"
  by (simp add: linked_def free_clusters_def)

lemma create_chain_law:
  assumes r: "create_chain fs c s = Some (v, fs', t)" "honest m t" "mounted m fs s" "3 \<le> n_fatent fs"
  shows "preserves m (in_tables fs) fs s fs' t \<and> (v = 1 \<or> v = 0xFFFFFFFF
      \<or> v = 0 \<and> (counted m fs s \<longrightarrow> free_clusters m fs s = {})
      \<or> c \<noteq> 0 \<and> in_range fs c \<and> v = fat_entry m fs s c \<and> in_range fs v \<and> preserves m (in_copy fs) fs s fs' t
      \<or> (c = 0 \<or> n_fatent fs \<le> fat_entry m fs s c) \<and> linked m fs s c v fs' t)"
proof (cases "c = 0")
  case True
  define scl where "scl = (if last_clst fs = 0 \<or> n_fatent fs \<le> last_clst fs then 1 else last_clst fs)"
  have "take_cluster fs c scl s = Some (v, fs', t)" using r(1) unfolding create_chain_def Let_def if_P [OF True] scl_def .
  then have "take_cluster fs 0 scl s = Some (v, fs', t)" using True by simp
  moreover have "1 \<le> scl" "scl < n_fatent fs" using r(4) by (auto simp: scl_def word_le_nat_alt word_less_nat_alt unat_gt_0 intro: Suc_leI)
  moreover have "pdrv fs = DEV_SD" using r(3) by (simp add: mounted_def geometry_def)
  ultimately show ?thesis using take_cluster_law(2) [of fs 0 scl s v fs' t m] r(2,3) True by blast
next
  case False
  have p: "pdrv fs = DEV_SD" using r(3) by (simp add: mounted_def geometry_def)
  from r(1) False obtain cs g u where g: "get_fat fs c s = Some (cs, g, u)"
    and rest: "if cs < 2 then v = 1 \<and> fs' = g \<and> t = u
      else if cs = 0xFFFFFFFF then v = cs \<and> fs' = g \<and> t = u
      else if cs < n_fatent g then v = cs \<and> fs' = g \<and> t = u
      else take_cluster g c c u = Some (v, fs', t)"
    by (auto simp: create_chain_def Option.bind_eq_Some_conv split: if_split_asm)
  have pg: "pdrv g = DEV_SD" using get_fat_volume [OF g] p by (simp add: same_volumeD)
  have hu: "honest m u" using rest r(2) take_cluster_law(1) [OF _ r(2) pg] by (auto split: if_split_asm)
  note G = get_fat_entry [OF g hu r(3)]
  have ng: "n_fatent g = n_fatent fs" using G(2) by (rule same_volumeD)
  have PT: "preserves m (in_tables fs) fs s g u" by (rule preserves_tables(1) [OF G(1)])
  consider "cs < 2" | "cs = 0xFFFFFFFF" | "2 \<le> cs" "cs \<noteq> 0xFFFFFFFF" "cs < n_fatent fs" | "2 \<le> cs" "cs \<noteq> 0xFFFFFFFF" "n_fatent fs \<le> cs"
    by (metis not_le)
  then show ?thesis
  proof cases
    case 1
    with rest PT show ?thesis by simp
  next
    case 2
    have "\<not> (0xFFFFFFFF :: u32) < 2" by simp
    with rest PT 2 show ?thesis by simp
  next
    case 3
    then have "\<not> cs < 2" by simp
    with 3 rest ng have e: "v = cs" "fs' = g" "t = u" by simp_all
    have "cs \<noteq> 1" using 3(1) by (auto simp: word_le_nat_alt)
    with G(3) [OF 3(2)] have "in_range fs c" "cs = fat_entry m fs s c" by (auto split: if_split_asm)
    with e 3 False G(1) PT show ?thesis by (simp add: in_range_def)
  next
    case 4
    then have "\<not> cs < 2" "\<not> cs < n_fatent g" using ng by simp_all
    with 4 rest have tk: "take_cluster g c c u = Some (v, fs', t)" by simp
    have "cs \<noteq> 1" using 4(1) by (auto simp: word_le_nat_alt)
    with G(3) [OF 4(2)] have c: "in_range fs c" "cs = fat_entry m fs s c" by (auto split: if_split_asm)
    have "1 \<le> c" "c < n_fatent g" using c(1) ng by (auto simp: in_range_def word_le_nat_alt)
    moreover have "fat_entry m g u c \<noteq> 0" using G(4) [of c] c 4(1) by (auto simp: in_range_def)
    ultimately have T: "preserves m (in_tables g) g u fs' t \<and> (v = 1 \<or> v = 0xFFFFFFFF
      \<or> v = 0 \<and> (counted m g u \<longrightarrow> free_clusters m g u = {}) \<or> linked m g u c v fs' t)"
      using take_cluster_law(2) [OF tk r(2) pg preserves_mounted [OF G(1)]] by blast
    have "counted m g u = counted m fs s" "free_clusters m g u = free_clusters m fs s"
      using same_entries(2) [OF G(1,2,4)] same_volumeD(7) [OF G(2)] by (simp_all add: counted_def)
    moreover have "preserves m (in_tables fs) fs s fs' t"
      using preserves_trans [OF PT] T in_tables_same [OF G(1)] by metis
    ultimately show ?thesis using T linked_same [OF G(1,2,4)] c(2) 4(3) by metis
  qed
qed

end
