(* ===== verification/Fat_Volume.thy ===== *)
theory Fat_Volume
  imports Fat_Chain
begin

text \<open>
  The properties of the table layer of FatFs on an honest card, with a small FAT16 volume on which they
  are applied.
\<close>

section \<open>A small volume\<close>

text \<open>Six entries in one sector, which is in the window: clusters 2 and 3 form a chain, 4 and 5 are free.\<close>

definition small_table :: bytes where
  "small_table p = (if p = 4 then 3 else if p = 6 \<or> p = 7 then 0xFF else 0)"

definition small_volume :: FATFS where
  "small_volume = \<lparr>fs_type = FS_FAT16, pdrv = DEV_SD, n_fats = 1, wflag = 1, fsi_flag = 0, id = 1, n_rootdir = 16, csize = 1, last_clst = 0,
     free_clst = 2, cdir = 0, n_fatent = 6, fsize = 1, winsect = 5, volbase = 0, fatbase = 5, dirbase = 6, database = 7,
     win = small_table\<rparr>"

abbreviation no_medium :: "u32 \<Rightarrow> nat \<Rightarrow> u32" where "no_medium \<equiv> \<lambda>_ _. 0"

lemma honest_bare: "honest m (sd_bare vs)"
  by (simp add: honest_def card_of_def sd_log_def sd_bare_def fresh_card_def)

lemma small_mounted: "mounted m small_volume (sd_bare vs)"
proof -
  have sec: "sector (sd_bare vs) k" if "unat k < 7" for k
    using that by (simp add: sector_def word_less_nat_alt)
  have "geometry small_volume (sd_bare vs)"
    using sec by (auto simp: geometry_def small_volume_def type_fits_def stride_def FS_FAT12_def FS_FAT16_def)
  moreover have "coherent m small_volume (sd_bare vs)"
    using sec [of 5] by (simp add: coherent_def small_volume_def)
  ultimately show ?thesis by (simp add: mounted_def)
qed

lemma small_get:
  "get_fat small_volume 2 s = Some (3, small_volume, s)" "get_fat small_volume 3 s = Some (0xFFFF, small_volume, s)"
  "get_fat small_volume 4 s = Some (0, small_volume, s)" "get_fat small_volume 5 s = Some (0, small_volume, s)"
  by (simp_all add: get_fat_def small_volume_def FS_FAT12_def FS_FAT16_def move_window_def SS_def ld_16_def small_table_def)

lemma small_entries:
  "fat_entry m small_volume (sd_bare vs) 2 = 3" "fat_entry m small_volume (sd_bare vs) 3 = 0xFFFF"
  "fat_entry m small_volume (sd_bare vs) 4 = 0" "fat_entry m small_volume (sd_bare vs) 5 = 0"
  using get_fat_entry(3) [OF small_get(1) honest_bare [of m vs] small_mounted [of m vs]] get_fat_entry(3) [OF small_get(2) honest_bare [of m vs] small_mounted [of m vs]]
    get_fat_entry(3) [OF small_get(3) honest_bare [of m vs] small_mounted [of m vs]] get_fat_entry(3) [OF small_get(4) honest_bare [of m vs] small_mounted [of m vs]]
  by (simp_all add: in_range_def small_volume_def)

lemma small_runs:
  "map_option (\<lambda>(r, f, s). (r, trace s)) (put_fat small_volume 4 7 (sd_bare [])) = Some (FR_OK, [])"
  "map_option (\<lambda>(r, f, s). (r, trace s)) (remove_chain small_volume 2 0 (sd_bare [])) = Some (FR_OK, [])"
  "map_option (\<lambda>(r, f, s). (r, trace s)) (create_chain small_volume 3 (sd_bare [])) = Some (4, [])"
  by code_simp+

lemma small_run:
  obtains "\<exists>f s. put_fat small_volume 4 7 (sd_bare []) = Some (FR_OK, f, s) \<and> (\<forall>m. honest m s)"
    "\<exists>f s. remove_chain small_volume 2 0 (sd_bare []) = Some (FR_OK, f, s) \<and> (\<forall>m. honest m s)"
    "\<exists>f s. create_chain small_volume 3 (sd_bare []) = Some (4, f, s) \<and> (\<forall>m. honest m s)"
proof -
  have h: "honest m s" if "trace s = []" for m and s :: "'b io_scheme"
    using that by (simp add: honest_def card_of_def sd_log_def fresh_card_def)
  show thesis using small_runs h by (intro that) fastforce+
qed

section \<open>Properties\<close>

text \<open>C33: \<open>get_fat\<close> returns the entry of the cluster, the 12, 16 or 28 bits of the table at its place, 1 for a
  cluster that has none, or 0xFFFFFFFF, which is no entry, when the disk fails; the table and every other
  sector but the second copy of the table hold what they held, whatever the window had to write back.\<close>

theorem get_fat_correct:
  assumes "get_fat fs c s = Some (v, fs', t)" and "honest m t" and "mounted m fs s"
  shows "preserves m (in_copy fs) fs s fs' t \<and> (\<forall>d < n_fatent fs. fat_entry m fs' t d = fat_entry m fs s d)
    \<and> (v = 0xFFFFFFFF \<or> v = (if in_range fs c then fat_entry m fs s c else 1))"
  using get_fat_entry [OF assms] by blast

theorem get_fat_correct_witness:
  "fat_entry no_medium small_volume (sd_bare []) 2 = 3"
  using get_fat_correct [OF small_get(1) honest_bare [of no_medium "[]"] small_mounted]
  by (simp add: in_range_def small_volume_def)

text \<open>C9: \<open>put_fat\<close> stores the low bits of the value in the bits of the entry and changes no other bit of the
  table, neither those of its neighbours, which share a byte with it on FAT12, nor the reserved bits of
  FAT32, and no sector outside the tables. It fails only for a cluster without entry or with the disk.\<close>

theorem put_fat_correct:
  assumes "put_fat fs c val s = Some (r, fs', t)" and "honest m t" and "mounted m fs s"
  shows "preserves m (in_tables fs) fs s fs' t
    \<and> (r = FR_OK \<longrightarrow> in_range fs c \<and> (\<forall>n < 4096 * unat (fsize fs). fat_bit m fs' t n =
         (if stride fs * unat c \<le> n \<and> n < stride fs * unat c + width fs then bit val (n - stride fs * unat c)
          else fat_bit m fs s n)))
    \<and> (r = FR_OK \<longrightarrow> (\<forall>d < n_fatent fs. fat_entry m fs' t d = (if d = c then val AND mask (width fs) else fat_entry m fs s d)))
    \<and> (r \<noteq> FR_OK \<longrightarrow> (if in_range fs c then r = FR_DISK_ERR else r = FR_INT_ERR \<and> fs' = fs \<and> t = s))"
proof (cases "in_range fs c")
  case True
  then have c: "2 \<le> c" "c < n_fatent fs" by (simp_all add: in_range_def)
  have "\<forall>d < n_fatent fs. fat_entry m fs' t d = (if d = c then val AND mask (width fs) else fat_entry m fs s d)" if "r = FR_OK"
    using put_fat_entry(4) [OF assms(1) [unfolded that] assms(2,3)] by blast
  with put_fat_bits [OF assms c] True show ?thesis by (cases "r = FR_OK") (simp_all add: stores_def)
next
  case False
  then have "c < 2 \<or> n_fatent fs \<le> c" by (auto simp: in_range_def not_less not_le)
  with assms put_fat_outside [of c fs val s] False show ?thesis by (simp add: preserves_refl)
qed

theorem put_fat_correct_witness:
  "\<exists>f s. put_fat small_volume 4 7 (sd_bare []) = Some (FR_OK, f, s) \<and> fat_entry no_medium f s 4 = 7 \<and> fat_entry no_medium f s 3 = 0xFFFF"
proof -
  obtain f s where r: "put_fat small_volume 4 7 (sd_bare []) = Some (FR_OK, f, s)" "honest no_medium s" using small_run by blast
  from put_fat_correct [OF r small_mounted] have
    "fat_entry no_medium f s d = (if d = 4 then 7 AND mask 16 else fat_entry no_medium small_volume (sd_bare []) d)" if "d < 6" for d
    using that by (simp add: small_volume_def width_def FS_FAT12_def FS_FAT16_def)
  from this [of 4] this [of 3] small_entries r show ?thesis by (auto simp: mask_eq_exp_minus_1)
qed

text \<open>C8: A successful \<open>remove_chain\<close> frees exactly the clusters of the chain that starts at its cluster, ends
  the chain before it at \<open>pclst\<close> if there is one, changes no other entry and no sector outside the tables,
  and the count of free clusters in the file system object stays that of the table.\<close>

theorem remove_chain_correct:
  assumes "remove_chain fs c p s = Some (FR_OK, fs', t)" and "honest m t" and "mounted m fs s"
    and "chain (fat_entry m fs s) (n_fatent fs) (c # cs)" and "p \<notin> set (c # cs)"
  shows "preserves m (in_tables fs) fs s fs' t
    \<and> (\<forall>d. d < n_fatent fs \<longrightarrow> fat_entry m fs' t d =
        (if d \<in> set (c # cs) then 0 else if d = p \<and> p \<noteq> 0 then mask (width fs) else fat_entry m fs s d))
    \<and> (counted m fs s \<and> (p = 0 \<or> fat_entry m fs s p \<noteq> 0) \<longrightarrow> counted m fs' t)"
  by (rule remove_chain_law [OF assms])

theorem remove_chain_correct_witness:
  "\<exists>f s. remove_chain small_volume 2 0 (sd_bare []) = Some (FR_OK, f, s) \<and> (\<forall>d \<in> {2, 3, 4, 5}. fat_entry no_medium f s d = 0)"
proof -
  obtain f s where r: "remove_chain small_volume 2 0 (sd_bare []) = Some (FR_OK, f, s)" "honest no_medium s" using small_run by blast
  have "chain (fat_entry no_medium small_volume (sd_bare [])) (n_fatent small_volume) [2, 3]"
    by (simp add: small_entries) (simp add: small_volume_def)
  from remove_chain_correct [OF r small_mounted this] have
    "fat_entry no_medium f s d = (if d \<in> {2, 3} then 0 else fat_entry no_medium small_volume (sd_bare []) d)" if "d < 6" for d
    using that by (simp add: small_volume_def)
  from this [of 2] this [of 3] this [of 4] this [of 5] small_entries r show ?thesis by auto
qed

text \<open>C7: What \<open>create_chain\<close> returns. A cluster after \<open>c\<close> that exists already, with nothing changed; or a new
  cluster, which was free, is now the end of the chain, is linked after \<open>c\<close> unless \<open>c\<close> is 0, is the
  only other entry changed, and is taken off the count; or 0, only when no cluster is free; or one of the
  two error values. In no case a sector outside the tables changes.\<close>

theorem create_chain_correct:
  assumes "create_chain fs c s = Some (v, fs', t)" and "honest m t" and "mounted m fs s" and "3 \<le> n_fatent fs" and "counted m fs s"
  shows "preserves m (in_tables fs) fs s fs' t \<and> (v = 1 \<or> v = 0xFFFFFFFF
      \<or> v = 0 \<and> free_clusters m fs s = {}
      \<or> in_range fs c \<and> in_range fs v \<and> v = fat_entry m fs s c \<and> preserves m (in_copy fs) fs s fs' t
      \<or> (c = 0 \<or> n_fatent fs \<le> fat_entry m fs s c) \<and> v \<in> free_clusters m fs s \<and> last_clst fs' = v \<and> counted m fs' t
        \<and> (\<forall>d < n_fatent fs. fat_entry m fs' t d =
             (if d = v then mask (width fs) else if d = c \<and> c \<noteq> 0 then v else fat_entry m fs s d)))"
  using create_chain_law [OF assms(1-4)] assms(5) by (auto simp: linked_def)

theorem create_chain_correct_witness:
  "\<exists>f s. create_chain small_volume 3 (sd_bare []) = Some (4, f, s)
    \<and> fat_entry no_medium f s 3 = 4 \<and> fat_entry no_medium f s 4 = 0xFFFF \<and> fat_entry no_medium f s 2 = 3 \<and> free_clst f = 1"
proof -
  obtain f s where r: "create_chain small_volume 3 (sd_bare []) = Some (4, f, s)" "honest no_medium s" using small_run by blast
  have n: "n_fatent small_volume = 6" "width small_volume = 16"
    by (simp_all add: small_volume_def width_def FS_FAT12_def FS_FAT16_def)
  have range: "in_range small_volume c \<longleftrightarrow> c = 2 \<or> c = 3 \<or> c = 4 \<or> c = 5" for c
    by (auto simp: in_range_def n word_le_nat_alt word_less_nat_alt word_unat_eq_iff)
  have "free_clusters no_medium small_volume (sd_bare []) = {4, 5}"
    using range small_entries by (auto simp: free_clusters_def)
  then have "counted no_medium small_volume (sd_bare [])" by (simp add: counted_def) (simp add: small_volume_def)
  from create_chain_correct [OF r small_mounted _ this] n small_entries have
    P: "preserves no_medium (in_tables small_volume) small_volume (sd_bare []) f s" and C: "counted no_medium f s"
    and E: "\<And>d. d < 6 \<Longrightarrow> fat_entry no_medium f s d = (if d = 4 then mask 16 else if d = 3 then 4 else fat_entry no_medium small_volume (sd_bare []) d)"
    by (auto simp: range)
  have e: "fat_entry no_medium f s 2 = 3" "fat_entry no_medium f s 3 = 4" "fat_entry no_medium f s 4 = 0xFFFF" "fat_entry no_medium f s 5 = 0"
    using E [of 2] E [of 3] E [of 4] E [of 5] small_entries by (simp_all add: mask_eq_exp_minus_1)
  have "free_clusters no_medium f s = {5}"
    using e range in_range_preserved [OF P] by (auto simp: free_clusters_def)
  with C have "unat (free_clst f) = unat (1 :: u32)" by (simp add: counted_def)
  then have "free_clst f = 1" by (simp only: word_unat_eq_iff)
  with r e show ?thesis by blast
qed

text \<open>C34: Whatever a call returns, errors of the disk in the middle of it included, the volume is well formed
  afterwards: the geometry is the same, a clean window holds the sector it names, a dirty one names a
  sector of the card; and every sector outside the tables reads as before.\<close>

theorem volume_kept:
  assumes "get_fat fs c s = Some (v, fs', t) \<or> put_fat fs c val s = Some (r, fs', t)
      \<or> remove_chain fs c p s = Some (r, fs', t) \<or> create_chain fs c s = Some (v, fs', t)"
    and "honest m t" and "mounted m fs s" and "3 \<le> n_fatent fs"
  shows "mounted m fs' t \<and> fs_type fs' = fs_type fs \<and> n_fatent fs' = n_fatent fs \<and> fsize fs' = fsize fs \<and> fatbase fs' = fatbase fs
    \<and> (\<forall>k i. sector s k \<and> k \<noteq> - 1 \<and> \<not> in_fat fs k \<and> \<not> in_copy fs k \<and> i < 512 \<longrightarrow> view m fs' t k i = view m fs s k i)"
proof -
  have "preserves m (in_tables fs) fs s fs' t"
    using assms get_fat_entry(1) [of fs c s v fs' t m] put_fat_law [of fs c val s r fs' t m] remove_chain_keeps [of fs c p s r fs' t m]
      create_chain_law [of fs c s v fs' t m] preserves_tables(1) by blast
  then show ?thesis by (simp add: preserves_def in_tables_def)
qed

theorem volume_kept_witness:
  "\<exists>f s. create_chain small_volume 3 (sd_bare []) = Some (4, f, s) \<and> mounted no_medium f s"
proof -
  obtain f s where r: "create_chain small_volume 3 (sd_bare []) = Some (4, f, s)" "honest no_medium s" using small_run by blast
  have "3 \<le> n_fatent small_volume" by (simp add: small_volume_def)
  from volume_kept [OF disjI2 [OF disjI2 [OF disjI2 [OF r(1)]]] r(2) small_mounted this] r(1) show ?thesis by blast
qed


lemma small_sync:
  "\<exists>f t. sync_window small_volume (sd_bare (one_block_inputs False)) = Some (FR_OK, f, t) \<and> honest m t"
proof -
  let ?s = "sd_bare (one_block_inputs False)"
  have "\<exists>b t. send_data_command CMD24 (adj_lba 5 ?s) R1 1 False small_table True ?s = Some (Success, Some (ucast (0x900 :: u64)), b, t)"
    by (rule send_data_ready [where v = "0x30" and vs = "map of_nat [0..<128]"]) (simp_all add: one_block_inputs_def sd_bare_def)
  then obtain b t where r: "sdio_write 5 1 small_table ?s = Some (True, b, t)"
    by (auto simp: sdio_write_def sdio_transfer_def sdio_check_card_status_def card_problem_def stored_def)
  have "sdio_transfer (ascii ''sdio_write'') CMD24 False 5 1 small_table ?s = Some (True, b, t)"
    using r by (simp add: sdio_write_def)
  from sdio_transfer_outcome [OF this] obtain bs where
    l: "sd_log t = sd_log ?s @ transfer_events False CMD24 (adj_lba 5 ?s) (ucast (1 :: u32)) bs" and b: "b = small_table"
    by (auto simp: transfer_outcome_def moves_def)
  have "truthful (card_step e c) = truthful c" if "\<forall>r w. e \<noteq> Rd32 r w" for e c
    using that by (auto simp: card_step_def card_takes_def split: event.splits data_phase.splits)
  then have "truthful (replay es c) = truthful c" if "\<forall>e \<in> set es. \<forall>r w. e \<noteq> Rd32 r w" for es c
    using that by (induction es arbitrary: c) auto
  moreover have "\<forall>e \<in> set (transfer_events False CMD24 (adj_lba 5 ?s) (ucast (1 :: u32)) bs). \<forall>r w. e \<noteq> Rd32 r w"
    by (auto simp: transfer_events_def data_command_events_def command_events_def blocks_log_def block_log_def ack_def access_def)
  moreover have "sd_log ?s = []" by (simp add: sd_log_def sd_bare_def)
  ultimately have "honest m t" by (simp add: honest_def card_of_def l fresh_card_def)
  moreover have "sync_window small_volume ?s = Some (FR_OK, small_volume\<lparr>wflag := 0\<rparr>, t)"
    using r b by (simp add: sync_window_def Let_def disk_write_def small_volume_def)
  ultimately show ?thesis by blast
qed


end
