(* ===== verification/Command_Line.thy ===== *)
theory Command_Line
  imports Newlib
begin

text \<open>
  The text functions of the shell (\<open>src/kernel/shell/shell.cpp\<close>, lines 55 to 144) that split a line in
  place and join arguments. A \<open>char\<close> array is the list of its bytes, a pointer into
  it an index. An access outside the array is the result \<open>None\<close>.
\<close>

section \<open>Character arrays\<close>

type_synonym chars = "u8 list"

definition char_at :: "chars \<Rightarrow> nat \<Rightarrow> u8 option" where
  "char_at s i = (if i < length s then Some (s ! i) else None)"

definition put_char :: "nat \<Rightarrow> u8 \<Rightarrow> chars \<Rightarrow> chars option" where
  "put_char i c s = (if i < length s then Some (s[i := c]) else None)"

text \<open>The text that an array holds, up to its first zero byte.\<close>

definition cstr :: "chars \<Rightarrow> chars" where
  "cstr s = takeWhile (\<lambda>c. c \<noteq> 0) s"

lemma char_at_simps [simp]:
  "char_at (us @ vs) (length us) = char_at vs 0" "char_at (c # vs) 0 = Some c" "char_at [] n = None"
  "char_at (c # vs) (Suc n) = char_at vs n"
  by (auto simp: char_at_def nth_append)

lemma char_at_SomeD: "char_at s i = Some c \<Longrightarrow> i < length s \<and> s ! i = c"
  by (simp add: char_at_def split: if_splits)

lemma cstr_simps [simp]:
  "cstr [] = []" "cstr (c # s) = (if c = 0 then [] else c # cstr s)"
  by (simp_all add: cstr_def)

lemma cstr_append: "0 \<notin> set w \<Longrightarrow> cstr (w @ 0 # rest) = w"
  by (induction w) auto

section \<open>String helpers\<close>

text \<open>The counters of the loops are their arguments.\<close>

function slen_from :: "chars \<Rightarrow> nat \<Rightarrow> nat option" where
  "slen_from s n = (case char_at s n of None \<Rightarrow> None
     | Some c \<Rightarrow> if c \<noteq> 0 then slen_from s (Suc n) else Some n)"
  by auto

termination
  by (relation "measure (\<lambda>(s, n). length s - n)") (auto dest: char_at_SomeD)

definition slen :: "chars \<Rightarrow> u64 option" where
  "slen s = do { n \<leftarrow> slen_from s 0; Some (of_nat n) }"

function seq_from :: "chars \<Rightarrow> chars \<Rightarrow> nat \<Rightarrow> bool option" where
  "seq_from a b i = (case char_at a i of None \<Rightarrow> None | Some c \<Rightarrow>
     case char_at b i of None \<Rightarrow> None | Some d \<Rightarrow>
       if c \<noteq> 0 \<and> d \<noteq> 0 \<and> c = d then seq_from a b (Suc i) else Some (c = d))"
  by auto

termination
  by (relation "measure (\<lambda>(a, b, i). length a - i)") (auto dest: char_at_SomeD)

definition seq :: "chars \<Rightarrow> chars \<Rightarrow> bool option" where
  "seq a b = seq_from a b 0"

text \<open>\<open>copy_from s j dst pos\<close> is the inner loop of \<open>join_args\<close>.\<close>

function copy_from :: "chars \<Rightarrow> nat \<Rightarrow> chars \<Rightarrow> nat \<Rightarrow> (chars \<times> nat) option" where
  "copy_from s j dst pos = (case char_at s j of None \<Rightarrow> None | Some c \<Rightarrow>
     if c \<noteq> 0 then (case put_char pos c dst of None \<Rightarrow> None | Some dst \<Rightarrow> copy_from s (Suc j) dst (Suc pos))
     else Some (dst, pos))"
  by auto

termination
  by (relation "measure (\<lambda>(s, j, dst, pos). length s - j)") (auto dest: char_at_SomeD)

declare slen_from.simps [simp del] seq_from.simps [simp del] copy_from.simps [simp del]

fun join_loop :: "chars list \<Rightarrow> bool \<Rightarrow> chars \<Rightarrow> nat \<Rightarrow> (chars \<times> nat) option" where
  "join_loop [] later dst pos = Some (dst, pos)"
| "join_loop (s # ss) later dst pos = do {
     (dst, pos) \<leftarrow> (if later then do { dst \<leftarrow> put_char pos 32 dst; Some (dst, Suc pos) } else Some (dst, pos));
     (dst, pos) \<leftarrow> copy_from s 0 dst pos;
     join_loop ss True dst pos }"

text \<open>An argument vector is the list of the strings that its pointers point to.\<close>

definition join_args :: "chars \<Rightarrow> chars list \<Rightarrow> nat \<Rightarrow> chars option" where
  "join_args dst argv start = do {
     (dst, pos) \<leftarrow> join_loop (drop start argv) False dst 0;
     put_char pos 0 dst }"

section \<open>Splitting a line\<close>

function skip_spaces :: "chars \<Rightarrow> nat \<Rightarrow> nat option" where
  "skip_spaces line p = (case char_at line p of None \<Rightarrow> None
     | Some c \<Rightarrow> if c = 32 then skip_spaces line (Suc p) else Some p)"
  by auto

termination
  by (relation "measure (\<lambda>(s, n). length s - n)") (auto dest: char_at_SomeD)

function skip_word :: "chars \<Rightarrow> nat \<Rightarrow> nat option" where
  "skip_word line p = (case char_at line p of None \<Rightarrow> None
     | Some c \<Rightarrow> if c \<noteq> 0 \<and> c \<noteq> 32 then skip_word line (Suc p) else Some p)"
  by auto

termination
  by (relation "measure (\<lambda>(s, n). length s - n)") (auto dest: char_at_SomeD)

declare skip_spaces.simps [simp del] skip_word.simps [simp del]

text \<open>The first argument is the number of free slots of \<open>argv\<close>.\<close>

fun parse_loop :: "nat \<Rightarrow> chars \<Rightarrow> nat list \<Rightarrow> nat \<Rightarrow> (chars \<times> nat list) option" where
  "parse_loop 0 line argv p = do { _ \<leftarrow> char_at line p; Some (line, argv) }"
| "parse_loop (Suc k) line argv p = do {
     c \<leftarrow> char_at line p;
     if c = 0 then Some (line, argv)
     else do {
     p \<leftarrow> skip_spaces line p;
     c \<leftarrow> char_at line p;
     if c = 0 then Some (line, argv)
     else do {
     let argv = argv @ [p];
     p \<leftarrow> skip_word line p;
     c \<leftarrow> char_at line p;
     if c \<noteq> 0 then do { line \<leftarrow> put_char p 0 line; parse_loop k line argv (Suc p) }
     else parse_loop k line argv p } } }"

definition parse_args :: "chars \<Rightarrow> nat \<Rightarrow> (chars \<times> nat list) option" where
  "parse_args line max_argc = parse_loop max_argc line [] 0"

text \<open>The strings that the pointers of \<open>argv\<close> point to.\<close>

definition strings :: "chars \<Rightarrow> nat list \<Rightarrow> chars list" where
  "strings line argv = map (\<lambda>p. drop p line) argv"

section \<open>What splitting and joining do\<close>

text \<open>The words of a text: its maximal runs of bytes other than the space.\<close>

function words :: "chars \<Rightarrow> chars list" where
  "words w = (let cs = dropWhile (\<lambda>c. c = 32) w in
     if cs = [] then [] else takeWhile (\<lambda>c. c \<noteq> 32) cs # words (dropWhile (\<lambda>c. c \<noteq> 32) cs))"
  by auto

termination
proof (relation "measure length")
  fix w cs :: chars
  assume cs: "cs = dropWhile (\<lambda>c. c = 32) w" "cs \<noteq> []"
  then have "hd cs \<noteq> 32" by (metis (full_types) hd_dropWhile)
  with cs(2) have "length (dropWhile (\<lambda>c. c \<noteq> 32) cs) < length cs"
    by (cases cs) (auto simp: le_imp_less_Suc length_dropWhile_le)
  also have "\<dots> \<le> length w" using cs by (simp add: length_dropWhile_le)
  finally show "(dropWhile (\<lambda>c. c \<noteq> 32) cs, w) \<in> measure length" by simp
qed simp

declare words.simps [simp del]

fun spaced :: "chars list \<Rightarrow> chars" where
  "spaced [] = []"
| "spaced [w] = w"
| "spaced (w # v # ws) = w @ 32 # spaced (v # ws)"

lemma char_at_end [simp]: "char_at us (length us) = None"
  by (simp add: char_at_def)

lemma skip_spaces_end:
  "skip_spaces (us @ vs) (length us) = (if dropWhile (\<lambda>c. c = 32) vs = [] then None
     else Some (length us + length (takeWhile (\<lambda>c. c = 32) vs)))"
proof (induction vs arbitrary: us)
  case Nil
  then show ?case by (simp add: skip_spaces.simps)
next
  case (Cons c vs)
  have "skip_spaces (us @ c # vs) (length us) =
      (if c = 32 then skip_spaces ((us @ [c]) @ vs) (length (us @ [c])) else Some (length us))"
    by (subst skip_spaces.simps) simp
  then show ?case unfolding Cons.IH by simp
qed

lemma skip_word_end:
  "0 \<in> set vs \<Longrightarrow> skip_word (us @ vs) (length us) =
     Some (length us + length (takeWhile (\<lambda>c. c \<noteq> 0 \<and> c \<noteq> 32) vs))"
proof (induction vs arbitrary: us)
  case (Cons c vs)
  have "skip_word (us @ c # vs) (length us) =
      (if c \<noteq> 0 \<and> c \<noteq> 32 then skip_word ((us @ [c]) @ vs) (length (us @ [c])) else Some (length us))"
    by (subst skip_word.simps) simp
  also have "\<dots> = Some (length us + length (takeWhile (\<lambda>c. c \<noteq> 0 \<and> c \<noteq> 32) (c # vs)))"
  proof (cases "c \<noteq> 0 \<and> c \<noteq> 32")
    case True
    then have "0 \<in> set vs" using Cons.prems by auto
    with True show ?thesis using Cons.IH [of "us @ [c]"] by simp
  qed auto
  finally show ?case .
qed simp

lemma char_at_append [simp]: "char_at (us @ vs) (length us + n) = char_at vs n"
  by (simp add: char_at_def nth_append)

lemma put_char_append [simp]: "put_char (length us) d (us @ c # vs) = Some (us @ d # vs)"
  by (simp add: put_char_def)

lemma words_Nil [simp]: "words [] = []"
  by (subst words.simps) simp

lemma words_space [simp]: "words (32 # w) = words w"
  by (subst (1 2) words.simps) simp

lemma words_cases:
  obtains "words w = []" "w = replicate (length w) 32"
  | n v where "v \<noteq> []" "32 \<notin> set v" "w = replicate n 32 @ v" "words w = [v]"
  | n v u where "v \<noteq> []" "32 \<notin> set v" "w = replicate n 32 @ v @ 32 # u" "words w = v # words u"
proof -
  define n where "n = length (takeWhile (\<lambda>c. c = 32) w)"
  define cs where "cs = dropWhile (\<lambda>c. c = 32) w"
  define v where "v = takeWhile (\<lambda>c. c \<noteq> 32) cs"
  have "takeWhile (\<lambda>c. c = 32) w = replicate n 32"
    unfolding n_def by (rule replicate_eqI [symmetric, THEN sym]) (auto dest: set_takeWhileD)
  then have w: "w = replicate n 32 @ cs"
    using takeWhile_dropWhile_id [of "\<lambda>c. c = 32" w] by (simp add: cs_def)
  have cs: "cs = v @ dropWhile (\<lambda>c. c \<noteq> 32) cs" by (simp add: v_def)
  have v: "32 \<notin> set v" by (auto simp: v_def dest: set_takeWhileD)
  have words: "words w = (if cs = [] then [] else v # words (dropWhile (\<lambda>c. c \<noteq> 32) cs))"
    unfolding cs_def v_def by (subst words.simps) (unfold Let_def, rule refl)
  have hd: "cs \<noteq> [] \<Longrightarrow> hd cs \<noteq> 32" unfolding cs_def by (metis (full_types) hd_dropWhile)
  then have ne: "cs \<noteq> [] \<Longrightarrow> v \<noteq> []" by (cases cs) (auto simp: v_def)
  show thesis
  proof (cases "cs = []")
    case True
    with w words show ?thesis using that(1) by simp
  next
    case False
    show ?thesis
    proof (cases "dropWhile (\<lambda>c. c \<noteq> 32) cs")
      case Nil
      then have "cs = v" "words w = [v]" using cs words False by (metis append_Nil2, metis words_Nil)
      then show ?thesis using that(2) [of v n] v w ne False by simp
    next
      case (Cons d u)
      then have "d = 32" using hd_dropWhile [of "\<lambda>c. c \<noteq> 32" cs] by auto
      with Cons have "words (dropWhile (\<lambda>c. c \<noteq> 32) cs) = words u" by simp
      then show ?thesis using that(3) [of v n u] v w cs words ne False Cons \<open>d = 32\<close> by metis
    qed
  qed
qed

lemma drop_spaces: "dropWhile P (replicate n x @ vs) = dropWhile P vs"
    "takeWhile P (replicate n x @ vs) = replicate n x @ takeWhile P vs" if "P x"
  using that by (induction n) auto

lemma parse_word:
  assumes v: "v \<noteq> []" "32 \<notin> set v" "0 \<notin> set v" and c: "c = 0 \<or> c = 32 \<and> 0 \<in> set u"
  shows "parse_loop (Suc k) (pre @ replicate n 32 @ v @ c # u) argv (length pre) =
    parse_loop k (pre @ replicate n 32 @ v @ 0 # u) (argv @ [length pre + n])
      (length pre + n + length v + (if c = 0 then 0 else 1))"
proof -
  obtain d v' where d: "v = d # v'" "d \<noteq> 32" "d \<noteq> 0" using v by (cases v) auto
  define us where "us = pre @ replicate n 32"
  have line: "pre @ replicate n 32 @ v @ e # u = us @ v @ e # u" "length pre + n = length us" for e
    by (simp_all add: us_def)
  have a: "skip_spaces (us @ v @ c # u) (length pre) = Some (length us)"
    using skip_spaces_end [of pre "replicate n 32 @ v @ c # u"] d
    by (simp add: us_def drop_spaces)
  have "takeWhile (\<lambda>c. c \<noteq> 0 \<and> c \<noteq> 32) (v @ c # u) = v"
    using v c by (subst takeWhile_append2) auto
  then have b: "skip_word (us @ v @ c # u) (length us) = Some (length (us @ v))"
    using skip_word_end [of "v @ c # u" us] c by auto
  have "char_at (us @ v @ c # u) (length (us @ v)) = Some c" "char_at (us @ v @ c # u) (length us) = Some d"
    using char_at_simps(1) [of "us @ v" "c # u"] by (simp_all add: d)
  moreover have "put_char (length (us @ v)) 0 (us @ v @ c # u) = Some (us @ v @ 0 # u)"
    using put_char_append [of "us @ v" 0 c u] by simp
  moreover obtain e where "char_at (us @ v @ c # u) (length pre) = Some e" "e \<noteq> 0"
  proof (cases n)
    case 0
    then show ?thesis using that [of d] d by (simp add: us_def)
  next
    case (Suc m)
    then show ?thesis using that [of 32] by (simp add: us_def)
  qed
  ultimately show ?thesis
    unfolding line using a b d(3) by (simp add: Let_def)
qed

definition holds_text :: "chars \<Rightarrow> chars \<Rightarrow> bool" where
  "holds_text s w \<longleftrightarrow> 0 \<notin> set w \<and> (\<exists>rest. s = w @ 0 # rest)"

lemma holds_cstr: "holds_text s w \<Longrightarrow> cstr s = w"
  by (auto simp: holds_text_def cstr_append)

lemma cstr_holds: "0 \<in> set s \<Longrightarrow> holds_text s (cstr s)"
  by (induction s) (auto simp: holds_text_def)

lemma parse_loop_words:
  assumes "0 \<notin> set w"
  shows "\<exists>post ps. parse_loop k (pre @ w @ 0 # rest) argv (length pre) = Some (pre @ post, argv @ ps)
    \<and> length post = length w + 1 + length rest
    \<and> list_all2 holds_text (map (\<lambda>p. drop p (pre @ post)) ps) (take k (words w))"
  using assms
proof (induction k arbitrary: pre w argv)
  case 0
  show ?case by (cases w) (auto intro!: exI [of _ "w @ 0 # rest"])
next
  case (Suc k)
  show ?case
  proof (cases w rule: words_cases)
    case 1
    have "skip_spaces (pre @ w @ 0 # rest) (length pre) = Some (length (pre @ w))"
      unfolding skip_spaces_end by (subst (1 2) 1(2)) (simp add: drop_spaces)
    moreover have "char_at (pre @ w @ 0 # rest) (length (pre @ w)) = Some 0"
      using char_at_simps(1) [of "pre @ w" "0 # rest"] by simp
    moreover have "\<exists>c. char_at (pre @ w @ 0 # rest) (length pre) = Some c" by (cases w) auto
    ultimately show ?thesis using 1(1) by (auto intro!: exI [of _ "w @ 0 # rest"])
  next
    case (2 n v)
    have "0 \<notin> set v" using Suc.prems 2 by auto
    define us where "us = pre @ replicate n 32 @ v"
    have p: "parse_loop (Suc k) (pre @ w @ 0 # rest) argv (length pre) =
        parse_loop k (us @ 0 # rest) (argv @ [length pre + n]) (length us)"
      using parse_word [OF 2(1,2) \<open>0 \<notin> set v\<close>, of 0 rest k pre n argv]
      by (simp add: us_def 2(3) add.assoc del: parse_loop.simps)
    also have "\<dots> = Some (us @ 0 # rest, argv @ [length pre + n])" by (cases k) simp_all
    finally have r: "parse_loop (Suc k) (pre @ w @ 0 # rest) argv (length pre) =
        Some (pre @ w @ 0 # rest, argv @ [length pre + n])" by (simp add: us_def 2(3))
    have "holds_text (drop (length pre + n) (pre @ w @ 0 # rest)) v"
      using \<open>0 \<notin> set v\<close> by (simp add: 2(3) holds_text_def)
    with r show ?thesis
      by (intro exI [of _ "w @ 0 # rest"] exI [of _ "[length pre + n]"]) (simp add: 2(4))
  next
    case (3 n v u)
    have z: "0 \<notin> set v" "0 \<notin> set u" using Suc.prems 3 by auto
    define us where "us = pre @ replicate n 32 @ v @ [0]"
    let ?av = "argv @ [length pre + n]"
    have p: "parse_loop (Suc k) (pre @ w @ 0 # rest) argv (length pre) =
        parse_loop k (us @ u @ 0 # rest) ?av (length us)"
      using parse_word [OF 3(1,2) z(1), of 32 "u @ 0 # rest" k pre n argv]
      by (simp add: us_def 3(3) add.assoc del: parse_loop.simps)
    obtain post ps where ih: "parse_loop k (us @ u @ 0 # rest) ?av (length us) = Some (us @ post, ?av @ ps)"
        "length post = length u + 1 + length rest" "list_all2 holds_text (map (\<lambda>p. drop p (us @ post)) ps) (take k (words u))"
      using Suc.IH [OF z(2), of us ?av] by auto
    have q: "holds_text (drop (length pre + n) (us @ post)) v" by (simp add: us_def holds_text_def z(1))
    show ?thesis unfolding p ih(1) 3(4)
      by (rule exI [of _ "replicate n 32 @ v @ 0 # post"], rule exI [of _ "(length pre + n) # ps"])
        (use ih(2,3) q in \<open>simp add: us_def 3(3)\<close>)
  qed
qed

lemma words_props:
  "v \<in> set (words w) \<Longrightarrow> v \<noteq> [] \<and> 32 \<notin> set v \<and> set v \<subseteq> set w"
proof (induction w rule: length_induct)
  case (1 w)
  show ?case
  proof (cases w rule: words_cases)
    case (3 n v' u)
    then have "length u < length w" by simp
    with 1(1) have "v \<in> set (words u) \<longrightarrow> v \<noteq> [] \<and> 32 \<notin> set v \<and> set v \<subseteq> set u" by blast
    with 1(2) 3 show ?thesis by auto
  qed (use 1 in auto)
qed

lemma words_length: "words w \<noteq> [] \<Longrightarrow> length (spaced (words w)) \<le> length w"
proof (induction w rule: length_induct)
  case (1 w)
  show ?case
  proof (cases w rule: words_cases)
    case (3 n v u)
    then have "length u < length w" by simp
    with 1 have "words u \<noteq> [] \<longrightarrow> length (spaced (words u)) \<le> length u" by blast
    with 3 show ?thesis by (cases "words u") auto
  qed (use 1 in auto)
qed

lemma copy_from_text:
  assumes "0 \<notin> set w" "length w \<le> length dst2"
  shows "copy_from (us @ w @ 0 # rest) (length us) (dst1 @ dst2) (length dst1) =
    Some (dst1 @ w @ drop (length w) dst2, length dst1 + length w)"
  using assms
proof (induction w arbitrary: us dst1 dst2)
  case Nil
  show ?case by (subst copy_from.simps) simp
next
  case (Cons c w)
  then obtain d dst3 where d: "dst2 = d # dst3" by (cases dst2) auto
  have "copy_from (us @ (c # w) @ 0 # rest) (length us) (dst1 @ dst2) (length dst1) =
      copy_from ((us @ [c]) @ w @ 0 # rest) (length (us @ [c])) ((dst1 @ [c]) @ dst3) (length (dst1 @ [c]))"
    using Cons.prems by (subst copy_from.simps) (simp add: d)
  also have "\<dots> = Some ((dst1 @ [c]) @ w @ drop (length w) dst3, length (dst1 @ [c]) + length w)"
    by (rule Cons.IH) (use Cons.prems d in auto)
  finally show ?case by (simp add: d)
qed

text \<open>What \<open>join_loop\<close> writes: a space first, if one word has been written.\<close>

definition spaced_after :: "bool \<Rightarrow> chars list \<Rightarrow> chars" where
  "spaced_after later ws = (if later \<and> ws \<noteq> [] then 32 # spaced ws else spaced ws)"

lemma spaced_after_Cons: "spaced_after later (w # ws) = (if later then [32] else []) @ w @ spaced_after True ws"
  by (cases ws) (auto simp: spaced_after_def)

lemma join_loop_text:
  assumes "list_all2 holds_text ss ws" "length (spaced_after later ws) \<le> length dst2"
  shows "join_loop ss later (dst1 @ dst2) (length dst1) =
    Some (dst1 @ spaced_after later ws @ drop (length (spaced_after later ws)) dst2, length (dst1 @ spaced_after later ws))"
  using assms
proof (induction ss ws arbitrary: later dst1 dst2 rule: list_all2_induct)
  case Nil
  then show ?case by (simp add: spaced_after_def)
next
  case (Cons s ss w ws)
  obtain rest where s: "s = w @ 0 # rest" "0 \<notin> set w" using Cons.hyps by (auto simp: holds_text_def)
  define sp where "sp = (if later then [32 :: u8] else [])"
  define dst3 where "dst3 = drop (length sp) dst2"
  have len: "length sp + length w + length (spaced_after True ws) \<le> length dst2"
    using Cons.prems by (simp add: spaced_after_Cons sp_def)
  have a: "(if later then put_char (length dst1) 32 (dst1 @ dst2) \<bind> (\<lambda>dst. Some (dst, Suc (length dst1)))
      else Some (dst1 @ dst2, length dst1)) = Some ((dst1 @ sp) @ dst3, length (dst1 @ sp))"
    using len by (cases dst2) (auto simp: sp_def dst3_def)
  have b: "copy_from s 0 ((dst1 @ sp) @ dst3) (length (dst1 @ sp)) =
      Some ((dst1 @ sp) @ w @ drop (length w) dst3, length (dst1 @ sp) + length w)"
    using copy_from_text [OF s(2), of dst3 "[]" rest "dst1 @ sp"] len by (simp add: s(1) dst3_def)
  have c: "join_loop ss True ((dst1 @ sp @ w) @ drop (length w) dst3) (length (dst1 @ sp @ w)) =
      Some ((dst1 @ sp @ w) @ spaced_after True ws @ drop (length (spaced_after True ws)) (drop (length w) dst3),
        length ((dst1 @ sp @ w) @ spaced_after True ws))"
    by (rule Cons.IH) (use len in \<open>simp add: dst3_def\<close>)
  show ?case
    using a b c by (simp add: spaced_after_Cons dst3_def ac_simps flip: sp_def)
qed

lemma join_args_text:
  assumes "list_all2 holds_text argv ws" "length (spaced (drop start ws)) < length dst"
  shows "\<exists>dst'. join_args dst argv start = Some dst' \<and> length dst' = length dst
    \<and> holds_text dst' (spaced (drop start ws))"
proof -
  let ?ws = "drop start ws"
  have l: "list_all2 holds_text (drop start argv) ?ws" using assms(1) by (rule list_all2_dropI)
  have "join_loop (drop start argv) False dst 0 =
      Some (spaced ?ws @ drop (length (spaced ?ws)) dst, length (spaced ?ws))"
    using join_loop_text [OF l, of False dst "[]"] assms(2) by (simp add: spaced_after_def)
  moreover obtain d rest where "drop (length (spaced ?ws)) dst = d # rest"
    using assms(2) by (metis Cons_nth_drop_Suc)
  moreover have "0 \<notin> set (spaced ?ws)"
  proof -
    have "0 \<notin> set (spaced vs)" if "\<forall>v\<in>set vs. 0 \<notin> set v" for vs :: "chars list"
      using that by (induction vs rule: spaced.induct) auto
    moreover have "\<forall>v\<in>set ws. 0 \<notin> set v"
      using assms(1) by (induction rule: list_all2_induct) (auto simp: holds_text_def)
    ultimately show ?thesis by (meson in_set_dropD)
  qed
  moreover have "length dst = length (spaced ?ws) + length (d # rest)" if "drop (length (spaced ?ws)) dst = d # rest" for d rest
    using that assms(2) by (metis append_take_drop_id length_append length_take min.absorb2 nat_less_le)
  ultimately show ?thesis
    by (auto simp: join_args_def holds_text_def intro!: exI [of _ "spaced ?ws @ 0 # rest"])
qed

lemma spaced_take: "length (spaced (take n ws)) \<le> length (spaced ws)"
proof (induction ws arbitrary: n rule: spaced.induct)
  case (2 w)
  then show ?case by (cases n) auto
next
  case (3 w v ws)
  show ?case
  proof (cases n)
    case (Suc m)
    then show ?thesis using 3 [of m] by (cases m) auto
  qed simp
qed simp

lemma spaced_drop: "length (spaced (drop n ws)) \<le> length (spaced ws)"
proof (induction ws arbitrary: n rule: spaced.induct)
  case (2 w)
  then show ?case by (cases n) auto
next
  case (3 w v ws)
  show ?case
  proof (cases n)
    case (Suc m)
    then show ?thesis using 3 [of m] by simp
  qed simp
qed simp

lemma spaced_words_le: "length (spaced (drop n (take m (words w)))) \<le> length w"
  using spaced_drop [of n "take m (words w)"] spaced_take [of m "words w"] words_length [of w]
  by (cases "words w = []") auto

lemma parse_args_text:
  assumes "holds_text line w"
  shows "\<exists>line' argv. parse_args line n = Some (line', argv) \<and> length line' = length line
    \<and> list_all2 holds_text (strings line' argv) (take n (words w))"
proof -
  obtain rest where line: "line = w @ 0 # rest" "0 \<notin> set w" using assms by (auto simp: holds_text_def)
  show ?thesis
    using parse_loop_words [OF line(2), of n "[]" rest "[]"]
    by (auto simp: parse_args_def line(1) strings_def)
qed

lemma all_cstr: "list_all2 holds_text ss ws \<Longrightarrow> map cstr ss = ws"
  by (induction rule: list_all2_induct) (auto simp: holds_cstr)

text \<open>C36: \<open>parse_args\<close> never leaves the array of a line that ends with a zero byte, and the strings that
  \<open>argv\<close> then points to are the first \<open>max_argc\<close> words of the line.\<close>

theorem parse_args_correct:
  assumes "0 \<in> set line"
  shows "\<exists>line' argv. parse_args line n = Some (line', argv) \<and> length line' = length line
    \<and> map cstr (strings line' argv) = take n (words (cstr line))"
  using parse_args_text [OF cstr_holds [OF assms], of n] by (auto dest: all_cstr)

theorem parse_args_correct_witness:
  "\<exists>line' argv. parse_args (ascii '' cat  a.txt'' @ [0, 33]) 16 = Some (line', argv)
    \<and> map cstr (strings line' argv) = [ascii ''cat'', ascii ''a.txt'']"
proof -
  have "take 16 (words (cstr (ascii '' cat  a.txt'' @ [0, 33]))) = [ascii ''cat'', ascii ''a.txt'']"
    by code_simp
  with parse_args_correct [of "ascii '' cat  a.txt'' @ [0, 33]" 16] show ?thesis
    by (auto simp: ascii_def)
qed

text \<open>Joining the words from \<open>start\<close> on again fits into any array as long as the line.\<close>

lemma join_parsed:
  assumes "holds_text line w" "length w < length dst" "parse_args line n = Some (line', argv)"
  shows "\<exists>dst'. join_args dst (strings line' argv) start = Some dst' \<and> length dst' = length dst
    \<and> holds_text dst' (spaced (drop start (take n (words w))))"
proof (rule join_args_text)
  show "list_all2 holds_text (strings line' argv) (take n (words w))"
    using parse_args_text [OF assms(1), of n] assms(3) by auto
  show "length (spaced (drop start (take n (words w)))) < length dst"
    using spaced_words_le [of start n w] assms(2) by linarith
qed

end
