(* ===== verification/Line_Reader.thy ===== *)
theory Line_Reader
  imports Command_Line
begin

text \<open>
  \<open>read_line\<close> of the shell (\<open>src/kernel/shell/shell.cpp\<close>): one line from the UART with echo on the UART and
  on the screen. The line that is stored and the echo are computed from the bytes received.
\<close>

section \<open>Reading a line\<close>

text \<open>Output of newlib's \<open>printf\<close> goes to \<open>_write\<close> on descriptor 1; the argument is the formatted text.\<close>

definition printf :: "chars \<Rightarrow> 'a newlib_scheme \<Rightarrow> 'a newlib_scheme option" where
  "printf txt s = do { (_, s) \<leftarrow> write_fd 1 txt s; Some s }"

partial_function (option) read_loop ::
    "nat \<Rightarrow> chars \<Rightarrow> nat \<Rightarrow> 'a newlib_scheme \<Rightarrow> (nat \<times> chars \<times> 'a newlib_scheme) option" where
  "read_loop maxi buf i s =
     (if i < maxi - 1 then do {
        (c, s) \<leftarrow> uart_getc s;
        if c = 13 \<or> c = 10 then do { s \<leftarrow> printf [13, 10] s; Some (i, buf, s) }
        else if (c = 127 \<or> c = 8) \<and> i > 0 then do { s \<leftarrow> printf [8, 32, 8] s; read_loop maxi buf (i - 1) s }
        else if c \<ge> 32 then do { s \<leftarrow> io_putc c s; read_loop maxi (buf[i := c]) (i + 1) s }
        else read_loop maxi buf i s }
      else Some (i, buf, s))"

declare read_loop.simps [code]

definition read_line :: "chars \<Rightarrow> nat \<Rightarrow> 'a newlib_scheme \<Rightarrow> (nat \<times> chars \<times> 'a newlib_scheme) option" where
  "read_line buf maxi s = do {
     (i, buf, s) \<leftarrow> read_loop maxi buf 0 s;
     Some (i, buf[i := 0], s) }"

section \<open>The line as a function of the keys\<close>

text \<open>
  What one key does to the line, what it echoes, and the same for a series of keys. \<open>complete m\<close>: the
  keys end with the first line end, or fill a buffer of \<open>m\<close> characters.
\<close>

definition line_end :: "u8 \<Rightarrow> bool" where "line_end c \<longleftrightarrow> c = 13 \<or> c = 10"

definition erases :: "u8 \<Rightarrow> chars \<Rightarrow> bool" where "erases c w \<longleftrightarrow> (c = 127 \<or> c = 8) \<and> w \<noteq> []"

definition edit :: "u8 \<Rightarrow> chars \<Rightarrow> chars" where
  "edit c w = (if erases c w then butlast w else if c \<ge> 32 then w @ [c] else w)"

definition echo :: "u8 \<Rightarrow> chars \<Rightarrow> chars" where
  "echo c w = (if erases c w then [8, 32, 8] else if c \<ge> 32 then [c] else [])"

fun typed :: "chars \<Rightarrow> chars \<Rightarrow> chars" where
  "typed w [] = w"
| "typed w (c # cs) = (if line_end c then w else typed (edit c w) cs)"

fun echoed :: "chars \<Rightarrow> chars \<Rightarrow> chars" where
  "echoed w [] = []"
| "echoed w (c # cs) = (if line_end c then [13, 10] else echo c w @ echoed (edit c w) cs)"

fun complete :: "nat \<Rightarrow> chars \<Rightarrow> chars \<Rightarrow> bool" where
  "complete m w [] \<longleftrightarrow> m \<le> length w"
| "complete m w (c # cs) \<longleftrightarrow> length w < m \<and> (if line_end c then cs = [] else complete m (edit c w) cs)"

section \<open>What the UART sees\<close>

fun rx :: "event list \<Rightarrow> u8 list" where
  "rx [] = []"
| "rx (Rd32 r v # es) = (if r = UART0_DR then ucast v # rx es else rx es)"
| "rx (_ # es) = rx es"

lemma rx_append [simp]: "rx (es @ es') = rx es @ rx es'"
  by (induction es rule: rx.induct) auto

definition console :: "chars \<Rightarrow> chars \<Rightarrow> 'a io_scheme \<Rightarrow> 'b io_scheme \<Rightarrow> bool" where
  "console i out s t \<longleftrightarrow> (\<exists>es. trace t = trace s @ es \<and> rx es = i \<and> tx es = map ucast out)"

lemma console_refl: "trace t = trace s \<Longrightarrow> console [] [] s t"
  by (simp add: console_def)

lemma console_trans: "console i out s t \<Longrightarrow> console i' out' t u \<Longrightarrow> console (i @ i') (out @ out') s u"
  unfolding console_def by (elim exE) (rule_tac x = "es @ esa" in exI, simp)

lemma polls_rx: "r \<noteq> UART0_DR \<Longrightarrow> rx (map (Rd32 r) vs) = []" "tx (map (Rd32 r) vs) = []"
  by (induction vs) auto

lemma uart_fr_dr: "UART0_FR \<noteq> UART0_DR"
  by (simp add: board)

lemma uart_putc_console:
  assumes "uart_putc c s = Some t"
  shows "console [] [c] s t"
proof -
  obtain flags s1 where lk: "spin_lock Uart_lock s = (flags, s1)" by fastforce
  obtain x s2 where p: "poll_until (mmio_read UART0_FR) (\<lambda>fr. fr AND push_bit 5 1 = 0) s1 = Some (x, s2)"
    and t: "t = spin_unlock Uart_lock flags (mmio_write UART0_DR (ucast c) s2)"
    using assms lk by (auto simp: uart_putc_def Let_def Option.bind_eq_Some_conv)
  from poll_mmio_read [OF p] show ?thesis
    using lk uart_fr_dr
    by (auto simp: console_def t spin_lock_def spin_unlock_def Let_def mmio_write_def polls_rx split: if_splits)
qed

lemma uart_getc_console:
  assumes "uart_getc s = Some (c, t)"
  shows "console [c] [] s t \<and> io.more t = io.more s"
proof -
  obtain flags s1 where lk: "spin_lock Uart_lock s = (flags, s1)" by fastforce
  obtain x s2 v s3 where p: "poll_until (mmio_read UART0_FR) (\<lambda>fr. fr AND push_bit 4 1 = 0) s1 = Some (x, s2)"
    and d: "mmio_read UART0_DR s2 = Some (v, s3)"
    and t: "c = ucast v" "t = spin_unlock Uart_lock flags s3"
    using assms lk by (auto simp: uart_getc_def Let_def Option.bind_eq_Some_conv)
  from poll_mmio_read [OF p] d show ?thesis
    using lk uart_fr_dr
    by (auto simp: console_def t spin_lock_def spin_unlock_def Let_def io_defs Option.bind_eq_Some_conv polls_rx
        split: if_splits list.splits)
qed

text \<open>Drawing leaves the machine alone.\<close>

lemma fold_keeps: "(\<And>x t. P (f x t) = P t) \<Longrightarrow> P (fold f xs s) = P s"
  by (induction xs arbitrary: s) auto

lemma put_pixel_io [simp]:
  "inp (put_pixel x y c s) = inp s" "trace (put_pixel x y c s) = trace s" "MMU_ACTIVE (put_pixel x y c s) = MMU_ACTIVE s"
  by (simp_all add: put_pixel_def)

lemma draw_char_io [simp]:
  "inp (draw_char x y c fg bg s) = inp s" "trace (draw_char x y c fg bg s) = trace s"
  "MMU_ACTIVE (draw_char x y c fg bg s) = MMU_ACTIVE s"
  unfolding draw_char_def Let_def by (intro fold_keeps put_pixel_io)+

lemma draw_line_io [simp]:
  "inp (draw_horizontal_line y c s) = inp s" "trace (draw_horizontal_line y c s) = trace s"
  "MMU_ACTIVE (draw_horizontal_line y c s) = MMU_ACTIVE s"
  unfolding draw_horizontal_line_def by (intro fold_keeps put_pixel_io)+

lemma term_scroll_io [simp]:
  "inp (term_scroll s) = inp s" "trace (term_scroll s) = trace s" "MMU_ACTIVE (term_scroll s) = MMU_ACTIVE s"
proof -
  note f = fold_keeps [where f = "\<lambda>y. draw_horizontal_line y background_color"]
  show "inp (term_scroll s) = inp s" by (simp add: term_scroll_def f [of inp] Let_def)
  show "trace (term_scroll s) = trace s" by (simp add: term_scroll_def f [of trace] Let_def)
  show "MMU_ACTIVE (term_scroll s) = MMU_ACTIVE s" by (simp add: term_scroll_def f [of MMU_ACTIVE] Let_def)
qed

lemma term_putc_io [simp]:
  "inp (term_putc c s) = inp s" "trace (term_putc c s) = trace s" "MMU_ACTIVE (term_putc c s) = MMU_ACTIVE s"
  by (simp_all add: term_putc_def term_next_row_def draw_at_cursor_def Let_def)

lemma io_putc_console: "io_putc c s = Some t \<Longrightarrow> console [] [c] s t"
  using uart_putc_console [of c "term_putc c s" t] by (simp add: io_putc_def console_def)

lemma write_bytes_console: "write_bytes bs s = Some t \<Longrightarrow> console [] bs s t"
proof (induction bs arbitrary: s)
  case (Cons b bs)
  then obtain u where "io_putc b s = Some u" "write_bytes bs u = Some t" by (auto simp: Option.bind_eq_Some_conv)
  with Cons.IH console_trans [OF io_putc_console] show ?case by fastforce
qed (simp add: console_refl)

lemma printf_eq: "printf bs s = write_bytes bs s"
  by (cases "write_bytes bs s") (simp_all add: printf_def write_fd_def)

lemma printf_console: "printf bs s = Some t \<Longrightarrow> console [] bs s t"
  by (simp add: printf_eq write_bytes_console)

text \<open>A UART with a key waiting and with room returns at once.\<close>

lemma uart_getc_ready:
  assumes "inp s = v # ucast c # vs" "ucast v AND (push_bit 4 1 :: u32) = 0"
  shows "\<exists>t. uart_getc s = Some (c, t) \<and> inp t = vs"
proof -
  obtain flags s1 where lk: "spin_lock Uart_lock s = (flags, s1)" by fastforce
  then have i: "inp s1 = v # ucast c # vs" using assms(1) by (auto simp: spin_lock_def Let_def split: if_splits)
  note p = poll_ready [where stop = "\<lambda>fr. fr AND push_bit 4 1 = 0", OF this assms(2), of UART0_FR]
  have "(ucast (ucast (ucast c :: u64) :: u32) :: u8) = c"
    by (rule bit_word_eqI) (simp add: bit_simps)
  show ?thesis
    unfolding uart_getc_def lk Let_def prod.case p
    using \<open>ucast (ucast (ucast c)) = c\<close>
    by (simp add: mmio_read_def env_read_def spin_unlock_def Let_def)
qed

lemma write_bytes_ready:
  assumes "inp s = replicate (length bs) 0 @ rest"
  shows "\<exists>t. write_bytes bs s = Some t \<and> inp t = rest"
  using assms
proof (induction bs arbitrary: s)
  case (Cons b bs)
  then obtain t where "uart_putc b (term_putc b s) = Some t" "inp t = replicate (length bs) 0 @ rest"
    using uart_putc_ready [of "term_putc b s" 0 "replicate (length bs) 0 @ rest" b] by auto
  with Cons.IH [of t] show ?case by (simp add: io_putc_def)
qed simp

section \<open>\<open>read_line\<close>\<close>

lemma read_loop_step:
  "read_loop maxi buf i s =
     (if i < maxi - 1 then do {
        (c, s) \<leftarrow> uart_getc s;
        if line_end c then do { s \<leftarrow> printf [13, 10] s; Some (i, buf, s) }
        else if (c = 127 \<or> c = 8) \<and> i > 0 then do { s \<leftarrow> printf [8, 32, 8] s; read_loop maxi buf (i - 1) s }
        else if c \<ge> 32 then do { s \<leftarrow> io_putc c s; read_loop maxi (buf[i := c]) (i + 1) s }
        else read_loop maxi buf i s }
      else Some (i, buf, s))"
  unfolding line_end_def by (subst read_loop.simps) (rule refl)

text \<open>The first \<open>i\<close> bytes of the buffer are the line typed so far.\<close>

definition line_so_far :: "nat \<Rightarrow> nat \<Rightarrow> chars \<Rightarrow> chars \<Rightarrow> bool" where
  "line_so_far m i buf w \<longleftrightarrow> length buf = m \<and> i \<le> m - 1 \<and> 0 < m \<and> take i buf = w \<and> 0 \<notin> set w"

lemma line_so_far_length: "line_so_far m i buf w \<Longrightarrow> length w = i"
  by (auto simp: line_so_far_def)

lemma line_edit:
  assumes "line_so_far m i buf w" "i < m - 1"
  shows "erases c w \<longleftrightarrow> (c = 127 \<or> c = 8) \<and> i > 0"
    and "erases c w \<Longrightarrow> line_so_far m (i - 1) buf (edit c w)"
    and "\<not> erases c w \<Longrightarrow> c \<ge> 32 \<Longrightarrow> line_so_far m (i + 1) (buf[i := c]) (edit c w)"
    and "\<not> erases c w \<Longrightarrow> \<not> c \<ge> 32 \<Longrightarrow> line_so_far m i buf (edit c w)"
proof -
  note l = assms(1) [unfolded line_so_far_def]
  show "erases c w \<longleftrightarrow> (c = 127 \<or> c = 8) \<and> i > 0"
    using line_so_far_length [OF assms(1)] by (auto simp: erases_def)
  show "line_so_far m (i - 1) buf (edit c w)" if "erases c w"
    using that l assms(2) by (auto simp: line_so_far_def edit_def butlast_take dest: in_set_butlastD)
  show "line_so_far m (i + 1) (buf[i := c]) (edit c w)" if "\<not> erases c w" "c \<ge> 32"
    using that l assms(2) by (auto simp: line_so_far_def edit_def take_Suc_conv_app_nth)
  show "line_so_far m i buf (edit c w)" if "\<not> erases c w" "\<not> c \<ge> 32"
    using that l by (simp add: line_so_far_def edit_def)
qed

definition line_outcome :: "nat \<Rightarrow> chars \<Rightarrow> 'a newlib_scheme \<Rightarrow> nat \<times> chars \<times> 'a newlib_scheme \<Rightarrow> bool" where
  "line_outcome m w s = (\<lambda>(i, buf, t). \<exists>cs. complete (m - 1) w cs \<and> line_so_far m i buf (typed w cs)
     \<and> console cs (echoed w cs) s t)"

lemma read_loop_outcome:
  assumes "read_loop maxi buf i s = Some r" "line_so_far maxi i buf w"
  shows "line_outcome maxi w s r"
proof -
  let ?Q = "\<lambda>maxi buf i s r. \<forall>w. line_so_far maxi i buf w \<longrightarrow> line_outcome maxi w s r"
  have "?Q maxi buf i s r"
  proof (rule read_loop.raw_induct [where P = ?Q, OF _ assms(1)], intro allI impI)
  fix f maxi buf i and s :: "'a newlib_scheme" and r w
  assume ih: "\<And>maxi buf i s r. f maxi buf i s = Some r \<Longrightarrow> ?Q maxi buf i s r"
    and body: "(if i < maxi - 1 then do {
        (c, s) \<leftarrow> uart_getc s;
        if c = 13 \<or> c = 10 then do { s \<leftarrow> printf [13, 10] s; Some (i, buf, s) }
        else if (c = 127 \<or> c = 8) \<and> 0 < i then do { s \<leftarrow> printf [8, 32, 8] s; f maxi buf (i - 1) s }
        else if 32 \<le> c then do { s \<leftarrow> io_putc c s; f maxi (buf[i := c]) (i + 1) s }
        else f maxi buf i s }
      else Some (i, buf, s)) = Some r"
    and l: "line_so_far maxi i buf w"
  show "line_outcome maxi w s r"
  proof (cases "i < maxi - 1")
    case False
    then show ?thesis using body l line_so_far_length [OF l]
      by (auto simp: line_outcome_def console_refl intro!: exI [of _ "[]"])
  next
    case True
    then obtain c u where g: "uart_getc s = Some (c, u)" using body by (auto simp: Option.bind_eq_Some_conv)
    note k = uart_getc_console [OF g, THEN conjunct1]
    have lw: "length w < maxi - 1" using line_so_far_length [OF l] True by simp
    note e = line_edit [OF l True, of c]
    have cont: "line_outcome maxi w s r"
      if o: "line_outcome maxi (edit c w) v r" "console [] (echo c w) u v" "\<not> line_end c" for v
    proof -
      obtain i' b t where r: "r = (i', b, t)" by (cases r)
      obtain cs where cs: "complete (maxi - 1) (edit c w) cs" "line_so_far maxi i' b (typed (edit c w) cs)"
        "console cs (echoed (edit c w) cs) v t" using o(1) unfolding line_outcome_def r prod.case by blast
      have "console (c # cs) (echo c w @ echoed (edit c w) cs) s t"
        using console_trans [OF console_trans [OF k o(2)] cs(3)] by simp
      with cs o(3) lw show ?thesis
        by (auto simp: line_outcome_def r intro!: exI [of _ "c # cs"])
    qed
    show ?thesis
    proof (cases "line_end c")
      case le: True
      with body g True obtain v where v: "printf [13, 10] u = Some v" "r = (i, buf, v)"
        by (auto simp: Option.bind_eq_Some_conv line_end_def)
      have "console [c] [13, 10] s v" using console_trans [OF k printf_console [OF v(1)]] by simp
      with le l lw show ?thesis by (auto simp: line_outcome_def v(2) intro!: exI [of _ "[c]"])
    next
      case more: False
      show ?thesis
      proof (cases "erases c w")
        case er: True
        with body g True more e(1) obtain v where v: "printf [8, 32, 8] u = Some v" "f maxi buf (i - 1) v = Some r"
          by (auto simp: Option.bind_eq_Some_conv line_end_def)
        have "console [] (echo c w) u v" using printf_console [OF v(1)] er by (simp add: echo_def)
        with cont [OF ih [rule_format, OF v(2) e(2) [OF er]]] more show ?thesis by blast
      next
        case ne: False
        show ?thesis
        proof (cases "c \<ge> 32")
          case pr: True
          with body g True more ne e(1) obtain v where v: "io_putc c u = Some v" "f maxi (buf[i := c]) (i + 1) v = Some r"
            by (auto simp: Option.bind_eq_Some_conv line_end_def)
          have "console [] (echo c w) u v" using io_putc_console [OF v(1)] ne pr by (simp add: echo_def)
          with cont [OF ih [rule_format, OF v(2) e(3) [OF ne pr]]] more show ?thesis by blast
        next
          case np: False
          with body g True more ne e(1) have v: "f maxi buf i u = Some r"
            by (auto simp: Option.bind_eq_Some_conv line_end_def)
          have "console [] (echo c w) u u" using ne np by (simp add: echo_def console_refl)
          with cont [OF ih [rule_format, OF v e(4) [OF ne np]]] more show ?thesis by blast
        qed
      qed
    qed
  qed
  qed
  with assms(2) show ?thesis by blast
qed

text \<open>The answers of a UART that has the keys \<open>cs\<close> waiting, each in time, and always has room.\<close>

fun key_inputs :: "chars \<Rightarrow> chars \<Rightarrow> u64 list" where
  "key_inputs w [] = []"
| "key_inputs w (c # cs) = 0 # ucast c # (if line_end c then [0, 0]
     else replicate (length (echo c w)) 0 @ key_inputs (edit c w) cs)"

lemma read_loop_ready:
  assumes "line_so_far maxi i buf w" "complete (maxi - 1) w cs" "inp s = key_inputs w cs @ rest"
  shows "\<exists>i' b t. read_loop maxi buf i s = Some (i', b, t) \<and> inp t = rest \<and> line_so_far maxi i' b (typed w cs)"
  using assms
proof (induction cs arbitrary: i buf w s)
  case Nil
  then show ?case using line_so_far_length [OF Nil(1)] by (subst read_loop.simps) auto
next
  case (Cons c cs)
  note l = Cons.prems(1)
  have i: "i < maxi - 1" using Cons.prems(2) line_so_far_length [OF l] by simp
  note e = line_edit [OF l i, of c]
  let ?rest = "(if line_end c then [0, 0] else replicate (length (echo c w)) 0 @ key_inputs (edit c w) cs) @ rest"
  obtain u where g: "uart_getc s = Some (c, u)" "inp u = ?rest"
    using uart_getc_ready [of s 0 c ?rest] Cons.prems(3) by auto
  show ?case
  proof (cases "line_end c")
    case True
    then obtain v where "printf [13, 10] u = Some v" "inp v = rest"
      using write_bytes_ready [of u "[13, 10]" rest] g(2) by (auto simp: printf_eq)
    with True l i g(1) show ?thesis by (subst read_loop_step) auto
  next
    case False
    then obtain v where v: "write_bytes (echo c w) u = Some v" "inp v = key_inputs (edit c w) cs @ rest"
      using write_bytes_ready [of u "echo c w"] g(2) by auto
    have co: "complete (maxi - 1) (edit c w) cs" using Cons.prems(2) False by simp
    consider "erases c w" | "\<not> erases c w" "c \<ge> 32" | "\<not> erases c w" "\<not> c \<ge> 32" by blast
    then show ?thesis
    proof cases
      case 1
      with v(1) have "printf [8, 32, 8] u = Some v" by (simp add: echo_def printf_eq)
      with Cons.IH [OF e(2) [OF 1] co v(2)] False i g(1) 1 e(1) show ?thesis by (subst read_loop_step) simp
    next
      case 2
      with v(1) have "io_putc c u = Some v" by (cases "io_putc c u") (simp_all add: echo_def)
      with Cons.IH [OF e(3) [OF 2] co v(2)] False i g(1) 2 e(1) show ?thesis by (subst read_loop_step) auto
    next
      case 3
      with v have "u = v" by (simp add: echo_def)
      with Cons.IH [OF e(4) [OF 3] co v(2)] False i g(1) 3 e(1) show ?thesis by (subst read_loop_step) auto
    qed
  qed
qed

lemma line_stored:
  assumes "line_so_far m i buf w"
  shows "i = length w \<and> i < m \<and> length (buf[i := 0]) = m \<and> holds_text (buf[i := 0]) w"
proof -
  note l = assms [unfolded line_so_far_def]
  then have i: "i < length buf" by linarith
  then have "buf[i := 0] = w @ 0 # drop (Suc i) buf" using l by (simp add: upd_conv_take_nth_drop)
  then have "holds_text (buf[i := 0]) w" using l by (auto simp: holds_text_def)
  with i l line_so_far_length [OF assms] show ?thesis by simp
qed


text \<open>C38: \<open>read_line\<close> returns as soon as the keys of a complete line have come in.\<close>

theorem read_line_returns:
  assumes "complete (length buf - 1) [] cs" "buf \<noteq> []" "inp s = key_inputs [] cs @ rest"
  shows "\<exists>n buf' t. read_line buf (length buf) s = Some (n, buf', t) \<and> inp t = rest \<and> holds_text buf' (typed [] cs)"
proof -
  have "line_so_far (length buf) 0 buf []" using assms(2) by (simp add: line_so_far_def)
  from read_loop_ready [OF this assms(1,3)] obtain i b t where
    "read_loop (length buf) buf 0 s = Some (i, b, t)" "inp t = rest" "line_so_far (length buf) i b (typed [] cs)"
    by blast
  with line_stored show ?thesis unfolding read_line_def by fastforce
qed

definition shell_keys :: chars where "shell_keys = ascii ''lx'' @ [127, 7] @ ascii ''s'' @ [13]"

lemma shell_keys: "typed [] shell_keys = ascii ''ls''" "complete 255 [] shell_keys"
    "echoed [] shell_keys = ascii ''lx'' @ [8, 32, 8] @ ascii ''s'' @ [13, 10]"
  by code_simp+

abbreviation typing_console :: newlib where
  "typing_console \<equiv> newlib_small (key_inputs [] shell_keys)"

theorem read_line_returns_witness:
  "\<exists>n buf' t. read_line (replicate 256 0) 256 typing_console = Some (n, buf', t) \<and> inp t = []
    \<and> holds_text buf' (ascii ''ls'')"
  using read_line_returns [of "replicate 256 0" shell_keys typing_console "[]"]
  by (simp add: shell_keys newlib_small(2))


end
