(* ===== verification/Shell.thy ===== *)
theory Shell
  imports Line_Reader File_Api
begin

text \<open>
  The commands and the main loop of the shell (\<open>src/kernel/shell/shell.cpp\<close>). The file functions are those of
  the record \<open>F\<close>; \<open>printf\<close> and \<open>atoi\<close> are the C library's. An argument vector is the list of the strings its
  pointers point to, and a command that does not come back is a result.
\<close>

section \<open>The C library\<close>

definition PRIu64 :: "u64 \<Rightarrow> chars" where "PRIu64 v = dec_text v"

definition PRIX64 :: "u64 \<Rightarrow> chars" where
  "PRIX64 v = (if v = 0 then ascii ''0'' else map digit_char (rev (digits 16 v)))"

definition isspace :: "u8 \<Rightarrow> bool" where "isspace c \<longleftrightarrow> c = 32 \<or> 9 \<le> c \<and> c \<le> 13"

definition isdigit :: "u8 \<Rightarrow> bool" where "isdigit c \<longleftrightarrow> 48 \<le> c \<and> c \<le> 57"

text \<open>\<open>strtol\<close> saturates at 64 bits, and \<open>atoi\<close> cuts its result to 32.\<close>

definition strtol :: "chars \<Rightarrow> int" where
  "strtol s =
     (let s = dropWhile isspace s;
          neg = (s \<noteq> [] \<and> hd s = 45);
          s = (if s \<noteq> [] \<and> (hd s = 45 \<or> hd s = 43) then drop 1 s else s);
          n = int (number_value 10 (takeWhile isdigit s))
      in max (- (2 ^ 63)) (min (2 ^ 63 - 1) (if neg then - n else n)))"

definition atoi :: "chars \<Rightarrow> u32" where "atoi s = word_of_int (strtol s)"

definition puts_line :: "string \<Rightarrow> 'a newlib_scheme \<Rightarrow> 'a newlib_scheme option" where
  "puts_line msg s = printf (ascii msg @ crlf) s"

fun puts_lines :: "string list \<Rightarrow> 'a newlib_scheme \<Rightarrow> 'a newlib_scheme option" where
  "puts_lines [] s = Some s"
| "puts_lines (m # ms) s = do { s \<leftarrow> puts_line m s; puts_lines ms s }"

section \<open>Housekeeping commands\<close>

datatype outcome = Continue | Halted | Breakpoint

definition print_banner :: "'a newlib_scheme \<Rightarrow> 'a newlib_scheme option" where
  "print_banner s = puts_lines
     [''kehinde-kernel v1.1.1'',
      ''Authored by Kehinde Adeoso'',
      ''Finished May 13, 2026. Updated June 2, 2026'',
      ''Type 'help' for a list of commands.''] s"

definition help_lines :: "string list" where
  "help_lines =
     [''Commands:'',
      ''  ls [path]              list directory'',
      ''  pwd                    print working directory'',
      ''  cd <path>              change directory'',
      ''  mkdir <name>           create directory'',
      ''  touch <name>           create empty file'',
      ''  write <file> <text>    write text to file'',
      ''  cat <file>             print file contents'',
      ''  rm <name>              remove file or empty directory'',
      ''  clear                  clear the screen'',
      ''  kernel                 show kernel info'',
      ''  uptime                 print the uptime of the kernel'',
      ''  meminfo                print PMM/heap capacity-planning figures'',
      ''  crash                  trigger a deliberate BRK exception (panic handler test)'',
      ''  resolution             print the display's current physical resolution'',
      ''  setres <w> <h>         request a new physical/virtual resolution'',
      ''  fill <r> <g> <b>       fill the whole framebuffer with a color'',
      ''  hline <row>            draw a white test line across the given row'',
      ''  shutdown               halt the system'',
      ''  help                   show this message'']"

definition cmd_help :: "'a newlib_scheme \<Rightarrow> 'a newlib_scheme option" where
  "cmd_help s = puts_lines help_lines s"

definition cmd_clear :: "'a newlib_scheme \<Rightarrow> 'a newlib_scheme option" where
  "cmd_clear s = term_clear s"

definition cmd_shutdown :: "'a newlib_scheme \<Rightarrow> (outcome \<times> 'a newlib_scheme) option" where
  "cmd_shutdown s = do {
     s \<leftarrow> puts_line ''Shutting down kehinde-kernel. Ciao!'' s;
     Some (Halted, s\<lparr>daif := daif s OR 0x3C0\<rparr>) }"

definition cmd_timer :: "'a newlib_scheme \<Rightarrow> 'a newlib_scheme option" where
  "cmd_timer s = do { s \<leftarrow> shell_print_time s; printf [10] s }"

definition put_mib :: "u64 \<Rightarrow> 'a newlib_scheme \<Rightarrow> 'a newlib_scheme option" where
  "put_mib bytes s = printf (PRIu64 (bytes div (1024 * 1024)) @ ascii '' MiB'') s"

definition popcountll :: "u64 \<Rightarrow> u64" where
  "popcountll w = of_nat (length (filter (bit w) [0..<64]))"

text \<open>\<open>used_frames\<close> and \<open>free_frames\<close> of \<open>cmd_meminfo\<close>.\<close>

definition frame_counts :: "'a pmm_scheme \<Rightarrow> u64 \<times> u64" where
  "frame_counts s =
     (let words = (total_frames s + 63) div 64;
          padding_bits = words * 64 - total_frames s;
          raw_set_bits = fold (\<lambda>i n. n + popcountll (load (bitmap s) i s)) [0..<unat words] 0;
          used_frames = raw_set_bits - padding_bits
      in (used_frames, total_frames s - used_frames))"

definition frames_line :: "string \<Rightarrow> u64 \<Rightarrow> 'a newlib_scheme \<Rightarrow> 'a newlib_scheme option" where
  "frames_line label n s = do {
     s \<leftarrow> printf (ascii label @ PRIu64 n @ ascii '' ('') s;
     s \<leftarrow> put_mib (n * PAGE_SIZE) s;
     printf (ascii '')'' @ crlf) s }"

definition hex_line :: "string \<Rightarrow> u64 \<Rightarrow> 'a newlib_scheme \<Rightarrow> 'a newlib_scheme option" where
  "hex_line label v s = printf (ascii label @ ascii ''0x'' @ PRIX64 v @ crlf) s"

definition size_line :: "string \<Rightarrow> u64 \<Rightarrow> 'a newlib_scheme \<Rightarrow> 'a newlib_scheme option" where
  "size_line label v s = do {
     s \<leftarrow> printf (ascii label @ ascii ''0x'' @ PRIX64 v @ ascii '' ('') s;
     s \<leftarrow> put_mib v s;
     printf (ascii '')'' @ crlf) s }"

definition cmd_meminfo :: "u64 \<Rightarrow> 'a newlib_scheme \<Rightarrow> 'a newlib_scheme option" where
  "cmd_meminfo kernel_end s = do {
     s \<leftarrow> puts_line ''--- Physical memory (kernel/pmm.h, board.h) ---'' s;
     s \<leftarrow> hex_line ''PHYS_MEM_END:    '' PHYS_MEM_END s;
     s \<leftarrow> hex_line ''phys_mem_start:  '' (phys_mem_start s) s;
     s \<leftarrow> hex_line ''__kernel_end:    '' kernel_end s;
     let (used_frames, free_frames) = frame_counts s;
     s \<leftarrow> frames_line ''total_frames:    '' (total_frames s) s;
     s \<leftarrow> frames_line ''used_frames:     '' used_frames s;
     s \<leftarrow> frames_line ''free_frames:     '' free_frames s;
     s \<leftarrow> puts_line ''--- kmalloc heap (kernel/heap_alloc.h) ---'' s;
     s \<leftarrow> hex_line ''HEAP_BASE:       '' HEAP_BASE s;
     s \<leftarrow> size_line ''HEAP_MAX_SIZE:   '' HEAP_MAX_SIZE s;
     s \<leftarrow> hex_line ''bump_ptr:        '' (bump_ptr s) s;
     s \<leftarrow> hex_line ''heap_end:        '' (heap_end s) s;
     s \<leftarrow> puts_line ''--- DMA arena (kernel/dma.h) ---'' s;
     s \<leftarrow> hex_line ''DMA_BASE:        '' DMA_BASE s;
     size_line ''DMA_MAX_SIZE:    '' DMA_MAX_SIZE s }"

text \<open>\<open>level_a\<close> to \<open>level_c\<close> end in a breakpoint, whose handler does not return.\<close>

definition level_c :: "'a newlib_scheme \<Rightarrow> outcome \<times> 'a newlib_scheme" where "level_c s = (Breakpoint, s)"
definition level_b :: "'a newlib_scheme \<Rightarrow> outcome \<times> 'a newlib_scheme" where "level_b s = level_c s"
definition level_a :: "'a newlib_scheme \<Rightarrow> outcome \<times> 'a newlib_scheme" where "level_a s = level_b s"

definition cmd_crash :: "'a newlib_scheme \<Rightarrow> (outcome \<times> 'a newlib_scheme) option" where
  "cmd_crash s = do {
     s \<leftarrow> puts_line ''Triggering deliberate BRK via level_a -> level_b -> level_c...'' s;
     Some (level_a s) }"

definition cmd_setres :: "chars list \<Rightarrow> 'a newlib_scheme \<Rightarrow> 'a newlib_scheme option" where
  "cmd_setres argv s =
     (if length argv < 3 then puts_line ''setres: usage: setres <width> <height>'' s
      else let width = atoi (cstr (argv ! 1)); height = atoi (cstr (argv ! 2))
           in if sint width \<le> 0 \<or> sint height \<le> 0
              then puts_line ''setres: width and height must be positive integers'' s
              else set_resolution width height s)"

section \<open>File commands\<close>

definition cmd_pwd :: "('d, 'f, 'a newlib_scheme) file_api \<Rightarrow> 'a newlib_scheme \<Rightarrow> 'a newlib_scheme option" where
  "cmd_pwd F s = do {
     (res, cwd, s) \<leftarrow> f_getcwd F 512 s;
     if res \<noteq> FR_OK then puts_line ''pwd: failed'' s else printf (cwd @ crlf) s }"

partial_function (option) ls_loop :: "('d, 'f, 'a newlib_scheme) file_api \<Rightarrow> 'd \<Rightarrow> bool \<Rightarrow> 'a newlib_scheme
    \<Rightarrow> ('d \<times> bool \<times> 'a newlib_scheme) option" where
  "ls_loop F dir any s = do {
     (res, info, dir, s) \<leftarrow> f_readdir F dir s;
     if res = FR_OK \<and> fname info \<noteq> []
     then do {
       s \<leftarrow> printf (fname info @ (if fattrib info AND AM_DIR \<noteq> 0 then ascii ''/'' else []) @ crlf) s;
       ls_loop F dir True s }
     else Some (dir, any, s) }"

declare ls_loop.simps [code]

definition cmd_ls :: "('d, 'f, 'a newlib_scheme) file_api \<Rightarrow> chars list \<Rightarrow> 'a newlib_scheme \<Rightarrow> 'a newlib_scheme option" where
  "cmd_ls F argv s = do {
     let path = (if length argv < 2 then ascii ''.'' else cstr (argv ! 1));
     (res, dir, s) \<leftarrow> f_opendir F path s;
     if res \<noteq> FR_OK then puts_line ''ls: not found'' s
     else do {
       (dir, any, s) \<leftarrow> ls_loop F dir False s;
       (_, s) \<leftarrow> f_closedir F dir s;
       if \<not> any then puts_line ''(empty)'' s else Some s } }"

definition cmd_cd :: "('d, 'f, 'a newlib_scheme) file_api \<Rightarrow> chars list \<Rightarrow> 'a newlib_scheme \<Rightarrow> 'a newlib_scheme option" where
  "cmd_cd F argv s =
     (if length argv < 2 then puts_line ''cd: missing path'' s
      else do {
        (res, s) \<leftarrow> f_chdir F (cstr (argv ! 1)) s;
        if res \<noteq> FR_OK then puts_line ''cd: not found or not a directory'' s else Some s })"

definition cmd_mkdir :: "('d, 'f, 'a newlib_scheme) file_api \<Rightarrow> chars list \<Rightarrow> 'a newlib_scheme \<Rightarrow> 'a newlib_scheme option" where
  "cmd_mkdir F argv s =
     (if length argv < 2 then puts_line ''mkdir: missing name'' s
      else do {
        (res, s) \<leftarrow> f_mkdir F (cstr (argv ! 1)) s;
        if res \<noteq> FR_OK then puts_line ''mkdir: failed (name exists or invalid)'' s else Some s })"

definition cmd_touch :: "('d, 'f, 'a newlib_scheme) file_api \<Rightarrow> chars list \<Rightarrow> 'a newlib_scheme \<Rightarrow> 'a newlib_scheme option" where
  "cmd_touch F argv s =
     (if length argv < 2 then puts_line ''touch: missing name'' s
      else do {
        (res, fil, s) \<leftarrow> f_open F (cstr (argv ! 1)) (FA_WRITE OR FA_CREATE_NEW) s;
        if res \<noteq> FR_OK then puts_line ''touch: failed (name exists or invalid)'' s
        else do { (_, s) \<leftarrow> f_close F fil s; Some s } })"

partial_function (option) cat_loop :: "('d, 'f, 'a newlib_scheme) file_api \<Rightarrow> 'f \<Rightarrow> 'a newlib_scheme
    \<Rightarrow> (FRESULT \<times> 'f \<times> 'a newlib_scheme) option" where
  "cat_loop F fil s = do {
     (res, bytes, fil, s) \<leftarrow> f_read F fil 127 s;
     if res = FR_OK \<and> bytes \<noteq> []
     then do { s \<leftarrow> printf (cstr (bytes @ [0])) s; cat_loop F fil s }
     else Some (res, fil, s) }"

declare cat_loop.simps [code]

definition cmd_cat :: "('d, 'f, 'a newlib_scheme) file_api \<Rightarrow> chars list \<Rightarrow> 'a newlib_scheme \<Rightarrow> 'a newlib_scheme option" where
  "cmd_cat F argv s =
     (if length argv < 2 then puts_line ''cat: missing file'' s
      else do {
        (res, fil, s) \<leftarrow> f_open F (cstr (argv ! 1)) FA_READ s;
        if res \<noteq> FR_OK then puts_line ''cat: not found'' s
        else do {
          (res, fil, s) \<leftarrow> cat_loop F fil s;
          (_, s) \<leftarrow> f_close F fil s;
          if res \<noteq> FR_OK then puts_line ''cat: read error'' s else printf crlf s } })"

text \<open>The array \<open>text\<close> of 256 bytes is not initialised; nothing of it is read but what \<open>join_args\<close> wrote.\<close>

definition MAX_LINE :: nat where "MAX_LINE = 256"
definition MAX_ARGS :: nat where "MAX_ARGS = 16"

definition cmd_write :: "('d, 'f, 'a newlib_scheme) file_api \<Rightarrow> chars list \<Rightarrow> 'a newlib_scheme \<Rightarrow> 'a newlib_scheme option" where
  "cmd_write F argv s =
     (if length argv < 3 then puts_line ''write: usage: write <file> <text>'' s
      else do {
        (res, fil, s) \<leftarrow> f_open F (cstr (argv ! 1)) FA_WRITE s;
        if res \<noteq> FR_OK then puts_line ''write: not found'' s
        else do {
          txt \<leftarrow> join_args (replicate MAX_LINE 0) argv 2;
          len \<leftarrow> slen txt;
          let len = (ucast len :: u32);
          (res, written, fil, s) \<leftarrow> f_write F fil (take (unat len) txt) s;
          (_, s) \<leftarrow> f_close F fil s;
          if res \<noteq> FR_OK \<or> written \<noteq> len then puts_line ''write: failed'' s else Some s } })"

definition cmd_rm :: "('d, 'f, 'a newlib_scheme) file_api \<Rightarrow> chars list \<Rightarrow> 'a newlib_scheme \<Rightarrow> 'a newlib_scheme option" where
  "cmd_rm F argv s =
     (if length argv < 2 then puts_line ''rm: missing name'' s
      else do {
        (res, s) \<leftarrow> f_unlink F (cstr (argv ! 1)) s;
        if res \<noteq> FR_OK then puts_line ''rm: failed (not found or non-empty directory)'' s else Some s })"

section \<open>The main loop\<close>

text \<open>The comparisons of \<open>argv[0]\<close> with the names of the commands, in their order.\<close>

fun select_command :: "chars \<Rightarrow> (string \<times> ('s \<Rightarrow> 'r option)) list \<Rightarrow> ('s \<Rightarrow> 'r option) \<Rightarrow> 's \<Rightarrow> 'r option" where
  "select_command name [] other s = other s"
| "select_command name ((verb, cmd) # cs) other s = do {
     same \<leftarrow> seq name (ascii verb @ [0]);
     if same then cmd s else select_command name cs other s }"

definition goes_on :: "('a newlib_scheme \<Rightarrow> 'a newlib_scheme option) \<Rightarrow> 'a newlib_scheme \<Rightarrow> (outcome \<times> 'a newlib_scheme) option" where
  "goes_on cmd s = do { s \<leftarrow> cmd s; Some (Continue, s) }"

definition commands :: "('d, 'f, 'a newlib_scheme) file_api \<Rightarrow> u64 \<Rightarrow> chars list
    \<Rightarrow> (string \<times> ('a newlib_scheme \<Rightarrow> (outcome \<times> 'a newlib_scheme) option)) list" where
  "commands F kernel_end argv =
     [(''help'', goes_on cmd_help),
      (''ls'', goes_on (cmd_ls F argv)),
      (''pwd'', goes_on (cmd_pwd F)),
      (''cd'', goes_on (cmd_cd F argv)),
      (''mkdir'', goes_on (cmd_mkdir F argv)),
      (''touch'', goes_on (cmd_touch F argv)),
      (''cat'', goes_on (cmd_cat F argv)),
      (''write'', goes_on (cmd_write F argv)),
      (''rm'', goes_on (cmd_rm F argv)),
      (''clear'', goes_on cmd_clear),
      (''kernel'', goes_on print_banner),
      (''shutdown'', cmd_shutdown),
      (''uptime'', goes_on cmd_timer),
      (''meminfo'', goes_on (cmd_meminfo kernel_end)),
      (''crash'', cmd_crash),
      (''resolution'', goes_on get_resolution),
      (''setres'', goes_on (cmd_setres argv))]"

definition not_found :: "chars list \<Rightarrow> 'a newlib_scheme \<Rightarrow> 'a newlib_scheme option" where
  "not_found argv s = printf (cstr (argv ! 0) @ ascii '': command not found'' @ crlf) s"

definition run_command :: "('d, 'f, 'a newlib_scheme) file_api \<Rightarrow> u64 \<Rightarrow> chars list \<Rightarrow> 'a newlib_scheme
    \<Rightarrow> (outcome \<times> 'a newlib_scheme) option" where
  "run_command F kernel_end argv s = select_command (argv ! 0) (commands F kernel_end argv) (goes_on (not_found argv)) s"

text \<open>One pass of the loop; the array \<open>line\<close> survives from pass to pass.\<close>

definition shell_pass :: "('d, 'f, 'a newlib_scheme) file_api \<Rightarrow> u64 \<Rightarrow> chars \<Rightarrow> 'a newlib_scheme
    \<Rightarrow> (outcome \<times> chars \<times> 'a newlib_scheme) option" where
  "shell_pass F kernel_end line s = do {
     (res, cwd, s) \<leftarrow> f_getcwd F 512 s;
     s \<leftarrow> (if res = FR_OK then printf cwd s else Some s);
     s \<leftarrow> printf (ascii ''$ '') s;
     (n, line, s) \<leftarrow> read_line line MAX_LINE s;
     if n = 0 then Some (Continue, line, s)
     else do {
     (line, argv) \<leftarrow> parse_args line MAX_ARGS;
     if argv = [] then Some (Continue, line, s)
     else do {
     (out, s) \<leftarrow> run_command F kernel_end (strings line argv) s;
     Some (out, line, s) } } }"

text \<open>The loop ends only with a command that does not come back.\<close>

partial_function (option) shell_loop :: "('d, 'f, 'a newlib_scheme) file_api \<Rightarrow> u64 \<Rightarrow> chars \<Rightarrow> 'a newlib_scheme
    \<Rightarrow> (outcome \<times> chars \<times> 'a newlib_scheme) option" where
  "shell_loop F kernel_end line s = do {
     (out, line, s) \<leftarrow> shell_pass F kernel_end line s;
     if out = Continue then shell_loop F kernel_end line s else Some (out, line, s) }"

definition shell_run :: "('d, 'f, 'a newlib_scheme) file_api \<Rightarrow> u64 \<Rightarrow> chars \<Rightarrow> 'a newlib_scheme
    \<Rightarrow> (outcome \<times> chars \<times> 'a newlib_scheme) option" where
  "shell_run F kernel_end line s = do {
     s \<leftarrow> printf crlf s;
     s \<leftarrow> print_banner s;
     shell_loop F kernel_end line s }"

section \<open>Choosing the command\<close>

lemma seq_from_text:
  assumes "0 \<notin> set w" "0 \<notin> set v"
  shows "seq_from (us @ w @ 0 # r) (us @ v @ 0 # r') (length us) = Some (w = v)"
  using assms
proof (induction w arbitrary: us v)
  case Nil
  show ?case by (cases v) (use Nil.prems in \<open>auto simp: seq_from.simps\<close>)
next
  case (Cons c w)
  show ?case
  proof (cases v)
    case Nil
    then show ?thesis using Cons.prems by (subst seq_from.simps) auto
  next
    case v: (Cons d v')
    have "seq_from (us @ (c # w) @ 0 # r) (us @ v @ 0 # r') (length us) =
        (if c = d then seq_from ((us @ [c]) @ w @ 0 # r) ((us @ [c]) @ v' @ 0 # r') (length (us @ [c])) else Some False)"
      using Cons.prems v by (subst seq_from.simps) simp
    then show ?thesis using Cons.IH [of v' "us @ [c]"] Cons.prems v by auto
  qed
qed

lemma seq_text: "holds_text a w \<Longrightarrow> holds_text b v \<Longrightarrow> seq a b = Some (w = v)"
  using seq_from_text [of w v "[]"] by (auto simp: seq_def holds_text_def)

lemma seq_verb: "holds_text a w \<Longrightarrow> 0 \<notin> set (ascii verb) \<Longrightarrow> seq a (ascii verb @ [0]) = Some (w = ascii verb)"
  by (rule seq_text) (auto simp: holds_text_def)

lemma slen_from_text: "0 \<notin> set w \<Longrightarrow> slen_from (us @ w @ 0 # r) (length us) = Some (length us + length w)"
proof (induction w arbitrary: us)
  case Nil
  show ?case by (subst slen_from.simps) simp
next
  case (Cons c w)
  then show ?case using Cons.IH [of "us @ [c]"] by (subst slen_from.simps) auto
qed

lemma slen_text: "holds_text s w \<Longrightarrow> slen s = Some (of_nat (length w))"
  using slen_from_text [of w "[]"] by (auto simp: slen_def holds_text_def)

lemma ascii_inject: "ascii a = ascii b \<longleftrightarrow> a = b"
proof -
  have "c = d" if "of_char c = (of_char d :: u8)" for c d
  proof -
    have "unat (of_char c :: u8) = (of_char c :: nat)" for c
    proof -
      have "(of_char c :: nat) < 2 ^ LENGTH(8)" using nat_of_char_less_256 [of c] by simp
      from unat_of_nat_small [OF this] show ?thesis by (simp add: of_nat_of_char)
    qed
    then have "(of_char c :: nat) = of_char d" using that by metis
    then show ?thesis by simp
  qed
  then have "inj (of_char :: char \<Rightarrow> u8)" by (rule injI)
  then show ?thesis by (simp add: ascii_def inj_map_eq_map)
qed

text \<open>A command runs exactly if the first word is its name.\<close>

fun command_named :: "(string \<times> 'c) list \<Rightarrow> string \<Rightarrow> 'c option" where
  "command_named [] v = None"
| "command_named ((verb, cmd) # cs) v = (if v = verb then Some cmd else command_named cs v)"

lemma select_command_text:
  assumes "holds_text name (ascii v)" "\<forall>c\<in>set cs. 0 \<notin> set (ascii (fst c))"
  shows "select_command name cs other s = (case command_named cs v of None \<Rightarrow> other s | Some cmd \<Rightarrow> cmd s)"
  using assms(2)
proof (induction cs)
  case (Cons c cs)
  then show ?case using seq_verb [OF assms(1), of "fst c"] by (cases c) (auto simp: ascii_inject)
qed simp

lemma run_command_text:
  assumes "holds_text (argv ! 0) (ascii verb)"
  shows "run_command F ke argv s =
    (case command_named (commands F ke argv) verb of None \<Rightarrow> goes_on (not_found argv) s | Some cmd \<Rightarrow> cmd s)"
proof -
  have "\<forall>c\<in>set (commands F ke argv). 0 \<notin> set (ascii (fst c))"
    by (simp add: commands_def ascii_def)
  from select_command_text [OF assms this] show ?thesis by (simp add: run_command_def)
qed

text \<open>\<open>help\<close> lists two commands that do not exist.\<close>

lemma help_lists_missing:
  assumes "holds_text (argv ! 0) (ascii verb)" "verb = ''fill'' \<or> verb = ''hline''"
  shows "run_command F ke argv s = goes_on (not_found argv) s"
proof -
  have "command_named (commands F ke argv) verb = None"
    using assms(2) by (elim disjE; hypsubst; unfold commands_def; simp)
  then show ?thesis by (simp add: run_command_text [OF assms(1)])
qed

section \<open>\<open>write\<close>\<close>

text \<open>The command as its text specifies it: the words from the third to the sixteenth, joined by single spaces,
  overwrite the start of the file that the second word names.\<close>

definition write_spec :: "('d, 'f, 'a newlib_scheme) file_api \<Rightarrow> chars \<Rightarrow> chars \<Rightarrow> 'a newlib_scheme \<Rightarrow> 'a newlib_scheme option" where
  "write_spec F path txt s = do {
     (res, fil, s) \<leftarrow> f_open F path FA_WRITE s;
     if res \<noteq> FR_OK then puts_line ''write: not found'' s
     else do {
       (res, written, fil, s) \<leftarrow> f_write F fil txt s;
       (_, s) \<leftarrow> f_close F fil s;
       if res \<noteq> FR_OK \<or> written \<noteq> of_nat (length txt) then puts_line ''write: failed'' s else Some s } }"

lemma cmd_write_text:
  assumes "list_all2 holds_text argv (verb # path # txt # rest)" "length (spaced (txt # rest)) < 256"
  shows "cmd_write F argv s = write_spec F path (spaced (txt # rest)) s"
proof -
  let ?w = "spaced (txt # rest)"
  from join_args_text [OF assms(1), of 2 "replicate MAX_LINE 0"] assms(2) obtain dst where
    j: "join_args (replicate MAX_LINE 0) argv 2 = Some dst" "holds_text dst ?w"
    by (auto simp: MAX_LINE_def)
  have small: "unat (of_nat (length ?w) :: u64) = length ?w" "unat (of_nat (length ?w) :: u32) = length ?w"
    using assms(2) by (auto intro!: unat_of_nat_small)
  have uc: "(ucast (of_nat (length ?w) :: u64) :: u32) = of_nat (length ?w)"
    using small(1) by (metis of_nat_unat ucast_eq uint_nat)
  have tk: "take (length ?w) dst = ?w" using j(2) by (auto simp: holds_text_def)
  have len: "\<not> length argv < 3" using list_all2_lengthD [OF assms(1)] by simp
  then have "cstr (argv ! 1) = path" using list_all2_nthD [OF assms(1), of 1] by (simp add: holds_cstr)
  then show ?thesis
    using len unfolding cmd_write_def write_spec_def j(1) slen_text [OF j(2)] Option.bind.simps Let_def uc small tk
    by simp
qed


text \<open>A file system of one file for the examples: its content is the state, its handle the position in it.\<close>

definition one_file :: "(unit, nat, chars newlib_scheme) file_api" where
  "one_file = \<lparr>
     f_mount = (\<lambda>_ _ s. Some (FR_OK, s)),
     f_getcwd = (\<lambda>_ s. Some (FR_OK, ascii ''/'', s)),
     f_chdir = (\<lambda>_ s. Some (FR_NO_PATH, s)),
     f_mkdir = (\<lambda>_ s. Some (FR_DENIED, s)),
     f_unlink = (\<lambda>_ s. Some (FR_DENIED, s)),
     f_opendir = (\<lambda>_ s. Some (FR_NO_PATH, (), s)),
     f_readdir = (\<lambda>_ s. Some (FR_INVALID_OBJECT, \<lparr>fattrib = 0, fname = []\<rparr>, (), s)),
     f_closedir = (\<lambda>_ s. Some (FR_OK, s)),
     f_open = (\<lambda>path _ s. Some (if path = ascii ''f'' then FR_OK else FR_NO_FILE, 0, s)),
     f_read = (\<lambda>p n s. let bytes = take (unat n) (drop p (newlib.more s)) in Some (FR_OK, bytes, p + length bytes, s)),
     f_write = (\<lambda>p txt s. let c = newlib.more s in
       Some (FR_OK, of_nat (length txt), p + length txt, s\<lparr>newlib.more := take p c @ txt @ drop (p + length txt) c\<rparr>)),
     f_close = (\<lambda>_ s. Some (FR_OK, s))\<rparr>"

definition with_file :: "chars \<Rightarrow> u64 list \<Rightarrow> chars newlib_scheme" where
  "with_file c vs = newlib.extend (newlib_small vs) c"

lemma with_file [simp]: "newlib.more (with_file c vs) = c" "inp (with_file c vs) = vs"
  using newlib_small(2) [of vs] by (simp_all add: with_file_def newlib.defs)


section \<open>\<open>cat\<close>\<close>

text \<open>
  \<open>cat\<close> hands each piece of 127 bytes to \<open>printf\<close> as a string, so it drops the rest of a piece from
  a zero byte on. \<open>read_pieces\<close> is the contract of \<open>f_read\<close> on a file that is read without errors.
\<close>

fun pieces :: "nat \<Rightarrow> chars \<Rightarrow> chars list" where
  "pieces 0 c = []"
| "pieces (Suc n) c = (if c = [] then [] else take 127 c # pieces n (drop 127 c))"

definition cat_text :: "chars \<Rightarrow> chars" where
  "cat_text c = concat (map cstr (pieces (length c) c))"

definition reads_file :: "('d, 'f, 'a newlib_scheme) file_api \<Rightarrow> (nat \<Rightarrow> 'f) \<Rightarrow> chars \<Rightarrow> bool" where
  "reads_file F h c \<longleftrightarrow> (\<forall>p s. f_read F (h p) 127 s = Some (FR_OK, take 127 (drop p c), h (p + length (take 127 (drop p c))), s))"

lemma cstr_terminated [simp]: "cstr (c @ [0]) = cstr c"
  by (induction c) auto

lemma pieces_more: "length c \<le> n \<Longrightarrow> pieces n c = pieces (length c) c"
proof (induction "length c" arbitrary: c n rule: less_induct)
  case less
  show ?case
  proof (cases "c = []")
    case False
    then obtain m k where n: "n = Suc m" "length c = Suc k" using less.prems by (cases n; cases "length c") auto
    have "pieces m (drop 127 c) = pieces (length (drop 127 c)) (drop 127 c)"
      "pieces k (drop 127 c) = pieces (length (drop 127 c)) (drop 127 c)"
      by (rule less.hyps; use n less.prems in simp)+
    then show ?thesis by (simp add: n)
  qed (cases n; simp)
qed

lemma cat_loop_prints:
  assumes "reads_file F h c" "cat_loop F (h p) s = Some (res, fil, t)" "length (drop p c) \<le> n"
  shows "res = FR_OK \<and> console [] (concat (map cstr (pieces n (drop p c)))) s t"
  using assms(2,3)
proof (induction n arbitrary: p s)
  case 0
  then show ?case using assms(1) by (subst (asm) cat_loop.simps) (auto simp: reads_file_def console_refl)
next
  case (Suc n)
  note r = assms(1) [unfolded reads_file_def, rule_format, of p s]
  show ?case
  proof (cases "drop p c = []")
    case True
    then show ?thesis using Suc.prems r by (subst (asm) cat_loop.simps) (auto simp: console_refl)
  next
    case False
    let ?b = "take 127 (drop p c)"
    from False have "?b \<noteq> []" by simp
    with Suc.prems(1) r obtain u where u: "printf (cstr ?b) s = Some u" "cat_loop F (h (p + length ?b)) u = Some (res, fil, t)"
      by (subst (asm) cat_loop.simps) (auto simp: Option.bind_eq_Some_conv)
    have d: "drop (p + length ?b) c = drop 127 (drop p c)" by (cases "length c - p \<le> 127") (auto simp: add.commute)
    have "length (drop (p + length ?b) c) \<le> n" using Suc.prems(2) False by (simp add: d)
    from Suc.IH [OF u(2) this] have "res = FR_OK" "console [] (concat (map cstr (pieces n (drop 127 (drop p c))))) u t"
      unfolding d by auto
    with console_trans [OF printf_console [OF u(1)]] False show ?thesis by fastforce
  qed
qed

lemma cat_prints:
  assumes "reads_file F h c" "f_open F (cstr (argv ! 1)) FA_READ s = Some (FR_OK, h 0, s)" "\<forall>fil s. f_close F fil s = Some (FR_OK, s)"
    "2 \<le> length argv" "cmd_cat F argv s = Some t"
  shows "console [] (cat_text c @ crlf) s t"
proof -
  from assms(2-5) obtain res fil u where u: "cat_loop F (h 0) s = Some (res, fil, u)"
    "(if res \<noteq> FR_OK then puts_line ''cat: read error'' u else printf crlf u) = Some t"
    by (auto simp: cmd_cat_def Option.bind_eq_Some_conv)
  from cat_loop_prints [OF assms(1) u(1), of "length c"] have "res = FR_OK" "console [] (cat_text c) s u"
    by (auto simp: cat_text_def)
  with u(2) console_trans [OF _ printf_console] show ?thesis by fastforce
qed

lemma cat_cuts_zero: "cat_text (ascii ''AB'' @ [0] @ ascii ''C'') = ascii ''AB''"
  by code_simp

section \<open>\<open>meminfo\<close>\<close>

lemma fold_add: "fold (\<lambda>i n. n + of_nat (f i)) xs a = a + of_nat (sum_list (map f xs))" for a :: "'b :: semiring_1"
  by (induction xs arbitrary: a) (simp_all add: ac_simps)

lemma count_word: "length (filter (bit (load (bitmap s) i s)) [0..<64]) = length (filter (\<lambda>j. frame_used j s) [64 * i..<64 * i + 64])"
proof -
  have "filter (\<lambda>j. frame_used j s) (map (\<lambda>j. 64 * i + j) [0..<64]) = map (\<lambda>j. 64 * i + j) (filter (bit (load (bitmap s) i s)) [0..<64])"
    unfolding filter_map by (rule arg_cong [of _ _ "map _"], rule filter_cong) (auto simp: frame_used_bit)
  then have "length (filter (\<lambda>j. frame_used j s) (map (\<lambda>j. 64 * i + j) [0..<64])) = length (filter (bit (load (bitmap s) i s)) [0..<64])"
    by simp
  moreover have "map (\<lambda>j. 64 * i + j) [0..<64] = [64 * i..<64 * i + 64]"
    using map_add_upt [of "64 * i" 64] by (simp add: add.commute)
  ultimately show ?thesis by metis
qed

lemma count_words:
  "sum_list (map (\<lambda>i. length (filter (bit (load (bitmap s) i s)) [0..<64])) [0..<n]) =
    length (filter (\<lambda>j. frame_used j s) [0..<64 * n])"
proof (induction n)
  case (Suc n)
  have "[0..<64 * Suc n] = [0..<64 * n] @ [64 * n..<64 * n + 64]"
    using upt_add_eq_append [of 0 "64 * n" 64] by (simp add: add.commute)
  then show ?case using Suc by (simp add: count_word)
qed simp

lemma count_free:
  "length (filter (\<lambda>j. frame_used j s) [0..<unat (total_frames s)]) + card (free_set s) = unat (total_frames s)"
proof -
  let ?xs = "[0..<unat (total_frames s)]"
  have "free_set s = set (filter (\<lambda>j. \<not> frame_used j s) ?xs)" by (auto simp: free_set_def)
  then have "card (free_set s) = length (filter (\<lambda>j. \<not> frame_used j s) ?xs)"
    by (metis distinct_card distinct_filter distinct_upt)
  then show ?thesis using sum_length_filter_compl [of "\<lambda>j. frame_used j s" ?xs] by simp
qed

text \<open>the two counts of \<open>meminfo\<close> are the numbers of used and free frames: the padding bits at the end of
  the bitmap, which the scan counts as used, are taken out again.\<close>

theorem meminfo_counts:
  assumes "pmm_inv s"
  shows "\<exists>used free. frame_counts s = (used, free) \<and> unat free = card (free_set s)
    \<and> unat used = unat (total_frames s) - card (free_set s)"
proof -
  let ?T = "unat (total_frames s)" and ?N = "nwords s"
  have g: "pmm_geom s" using assms by (simp add: pmm_inv_def)
  have w: "unat ((total_frames s + 63) div 64) = ?N" using bitmap_words_eq [OF g] by (simp add: bitmap_words_def)
  have TN: "?T \<le> 64 * ?N" by (simp add: nwords_def)
  define u where "u = length (filter (\<lambda>j. frame_used j s) [0..<?T])"
  have "filter (\<lambda>j. frame_used j s) [?T..<64 * ?N] = [?T..<64 * ?N]"
    using assms by (auto simp: pmm_inv_def intro!: filter_True)
  then have "length (filter (\<lambda>j. frame_used j s) [0..<64 * ?N]) = u + (64 * ?N - ?T)"
    using TN upt_add_eq_append [of 0 ?T "64 * ?N - ?T"] by (simp add: u_def)
  then have raw: "fold (\<lambda>i n. n + popcountll (load (bitmap s) i s)) [0..<?N] 0 = (of_nat (u + (64 * ?N - ?T)) :: u64)"
    unfolding popcountll_def fold_add count_words by simp
  have small: "u \<le> ?T" "64 * ?N - ?T < 64" "?T \<le> 260096"
    using pmm_geom_bounds(1) [OF g] length_filter_le [of "\<lambda>j. frame_used j s" "[0..<?T]"]
    by (auto simp: u_def nwords_def)
  have pad: "(total_frames s + 63) div 64 * 64 - total_frames s = of_nat (64 * ?N - ?T)"
  proof -
    have "(total_frames s + 63) div 64 = of_nat ?N" using w by (metis of_nat_unat ucast_id)
    then show ?thesis using TN by (simp add: of_nat_diff mult.commute)
  qed
  have "frame_counts s = (of_nat u, total_frames s - of_nat u)"
    unfolding frame_counts_def Let_def w raw pad by simp
  moreover have uu: "unat (of_nat u :: u64) = u" using small by (intro unat_of_nat_small) simp
  moreover have "of_nat u \<le> total_frames s" using small(1) uu by (simp add: word_le_nat_alt)
  then have "unat (total_frames s - of_nat u) = ?T - u" by (simp add: unat_sub uu)
  ultimately show ?thesis using count_free [of s] by (auto simp: u_def)
qed

theorem meminfo_counts_witness:
  "\<exists>used free. frame_counts pmm_small = (used, free) \<and> unat free = 15 \<and> unat used = 0"
proof -
  have "card (free_set pmm_small) = 15" by (simp add: pmm_small)
  with meminfo_counts [OF pmm_small(1)] show ?thesis by (simp add: pmm_small)
qed

end
