(* ===== verification/Kernel.thy ===== *)
theory Kernel
  imports Shell Mmu_Init
begin

text \<open>
  The start of the system: the C++ runtime (\<open>src/kernel/crt/crt.cpp\<close>) and \<open>kernel_main\<close>
  (\<open>src/kernel/kernel.cpp\<close>). The constructors that the linker collects are a list of functions, the
  allocator of newlib behind \<open>operator new\<close> is a parameter, and what the firmware answers to
  \<open>psci_cpu_on\<close> comes from the environment.
\<close>

section \<open>The C++ runtime\<close>

fun crt_init :: "('s \<Rightarrow> 's option) list \<Rightarrow> 's \<Rightarrow> 's option" where
  "crt_init [] s = Some s"
| "crt_init (ctor # ctors) s = do { s \<leftarrow> ctor s; crt_init ctors s }"

definition operator_new :: "(u64 \<Rightarrow> 's \<Rightarrow> (u64 \<times> 's) option) \<Rightarrow> u64 \<Rightarrow> 's \<Rightarrow> (u64 \<times> 's) option" where
  "operator_new malloc sz s = (if sz = 0 then malloc 1 s else malloc sz s)"

definition operator_new_array :: "(u64 \<Rightarrow> 's \<Rightarrow> (u64 \<times> 's) option) \<Rightarrow> u64 \<Rightarrow> 's \<Rightarrow> (u64 \<times> 's) option" where
  "operator_new_array malloc sz s = operator_new malloc sz s"

definition operator_delete :: "(u64 \<Rightarrow> 's \<Rightarrow> 's option) \<Rightarrow> u64 \<Rightarrow> 's \<Rightarrow> 's option" where
  "operator_delete free ptr s = (if ptr \<noteq> 0 then free ptr s else Some s)"

definition operator_delete_array :: "(u64 \<Rightarrow> 's \<Rightarrow> 's option) \<Rightarrow> u64 \<Rightarrow> 's \<Rightarrow> 's option" where
  "operator_delete_array free ptr s = operator_delete free ptr s"

text \<open>Sized delete ignores the size.\<close>

definition operator_delete_sized :: "(u64 \<Rightarrow> 's \<Rightarrow> 's option) \<Rightarrow> u64 \<Rightarrow> u64 \<Rightarrow> 's \<Rightarrow> 's option" where
  "operator_delete_sized free ptr sz s = operator_delete free ptr s"

section \<open>Starting the other cores\<close>

text \<open>The stub of \<open>boot.S\<close>: the number of the PSCI function and the three arguments in registers.\<close>

definition psci_cpu_on :: "u64 \<Rightarrow> u64 \<Rightarrow> u64 \<Rightarrow> 'a io_scheme \<Rightarrow> (u64 \<times> 'a io_scheme) option" where
  "psci_cpu_on mpidr entry context_id s = env_read (emit [Smc 0xC4000003 mpidr entry context_id] s)"

text \<open>What the started core does: its number, a message, and \<open>wfe\<close> for ever.\<close>

definition secondary_main :: "'a io_scheme \<Rightarrow> (outcome \<times> 'a io_scheme) option" where
  "secondary_main s = do {
     (core_id, s) \<leftarrow> mrs TPIDR_EL1 s;
     s \<leftarrow> uart_puts (ascii ''Core '') s;
     s \<leftarrow> uart_put_uint core_id s;
     s \<leftarrow> uart_puts (ascii '' has been turned on.'' @ crlf) s;
     Some (Halted, s) }"

text \<open>The loop over the cores; \<open>Inl\<close> is a panic of \<open>kmalloc\<close>.\<close>

fun start_cores :: "u64 \<Rightarrow> nat list \<Rightarrow> 'a heap_scheme \<Rightarrow> ((string + unit) \<times> 'a heap_scheme) option" where
  "start_cores entry [] s = Some (Inr (), s)"
| "start_cores entry (i # is) s = do {
     (p, s) \<leftarrow> kmalloc 4096 s;
     case p of Inl msg \<Rightarrow> Some (Inl msg, s)
     | Inr p \<Rightarrow> do {
         let stack_top = p + 4096;
         (_, s) \<leftarrow> psci_cpu_on (of_nat i) entry stack_top s;
         start_cores entry is s } }"

section \<open>The self-test of the file system\<close>

definition selftest_payload :: chars where
  "selftest_payload = ascii ''raspberry-pi-gaming-console SD self-test'' @ [10]"

definition uart_line :: "string \<Rightarrow> 'a io_scheme \<Rightarrow> 'a io_scheme option" where
  "uart_line msg s = uart_puts (ascii msg @ crlf) s"

definition sd_selftest :: "('d, 'f, 'a newlib_scheme) file_api \<Rightarrow> 'a newlib_scheme \<Rightarrow> 'a newlib_scheme option" where
  "sd_selftest F s = do {
     let path = ascii ''/knltest.txt'';
     let payload = selftest_payload;
     let payload_len = (of_nat (length payload) :: u32);
     (res, fil, s) \<leftarrow> f_open F path (FA_WRITE OR FA_CREATE_ALWAYS) s;
     if res \<noteq> FR_OK then uart_line ''[sd_selftest] FAIL: could not create test file.'' s
     else do {
     (write_res, written, fil, s) \<leftarrow> f_write F fil payload s;
     (_, s) \<leftarrow> f_close F fil s;
     if write_res \<noteq> FR_OK \<or> written \<noteq> payload_len
     then uart_line ''[sd_selftest] FAIL: write incomplete or errored.'' s
     else do {
     (res, fil, s) \<leftarrow> f_open F path FA_READ s;
     if res \<noteq> FR_OK then uart_line ''[sd_selftest] FAIL: could not reopen test file.'' s
     else do {
     (read_res, readback, fil, s) \<leftarrow> f_read F fil 63 s;
     (_, s) \<leftarrow> f_close F fil s;
     if read_res \<noteq> FR_OK \<or> of_nat (length readback) \<noteq> payload_len \<or> take (length payload) readback \<noteq> payload
     then uart_line ''[sd_selftest] FAIL: read-back mismatch.'' s
     else do {
     s \<leftarrow> uart_puts (ascii ''[sd_selftest] PASS: wrote, read back, and verified '') s;
     s \<leftarrow> uart_put_uint (ucast payload_len) s;
     uart_line '' bytes.'' s } } } } }"

section \<open>\<open>kernel_main\<close>\<close>

definition boot_memory :: "('a newlib_scheme \<Rightarrow> 'a newlib_scheme option) list \<Rightarrow> u64 \<Rightarrow> 'a newlib_scheme
    \<Rightarrow> 'a newlib_scheme option" where
  "boot_memory ctors kernel_end s = do {
     s \<leftarrow> crt_init ctors s;
     let s = uart_init s;
     s \<leftarrow> uart_line ''UART successfully initialized.'' s;
     s \<leftarrow> uart_line ''Global/static constructors executed (.init_array).'' s;
     s \<leftarrow> mmu_init kernel_end s;
     s \<leftarrow> uart_line ''Page Frame Allocator and MMU initialized.'' s;
     let s = kheap_init s;
     uart_line ''Heap allocator initialized.'' s }"

definition boot_files :: "('d, 'f, 'a newlib_scheme) file_api \<Rightarrow> 'a newlib_scheme \<Rightarrow> 'a newlib_scheme option" where
  "boot_files F s = do {
     (res, s) \<leftarrow> f_mount F [] 1 s;
     if res = FR_OK then do { s \<leftarrow> uart_line ''SD card mounted.'' s; sd_selftest F s }
     else uart_line ''SD card mount failed (no card, or init error).'' s }"

definition kernel_main :: "('d, 'f, 'a newlib_scheme) file_api \<Rightarrow> ('a newlib_scheme \<Rightarrow> 'a newlib_scheme option) list
    \<Rightarrow> u64 \<Rightarrow> u64 \<Rightarrow> chars \<Rightarrow> 'a newlib_scheme \<Rightarrow> ((string + outcome) \<times> 'a newlib_scheme) option" where
  "kernel_main F ctors kernel_end secondary_entry line s = do {
     s \<leftarrow> boot_memory ctors kernel_end s;
     s \<leftarrow> boot_files F s;
     s \<leftarrow> timer_init s;
     s \<leftarrow> interrupt_init s;
     (r, s) \<leftarrow> start_cores secondary_entry [1..<4] s;
     case r of Inl msg \<Rightarrow> Some (Inl msg, s)
     | Inr _ \<Rightarrow> do {
         s \<leftarrow> display_init s;
         s \<leftarrow> get_resolution s;
         s \<leftarrow> set_resolution 1920 1080 s;
         (out, _, s) \<leftarrow> shell_run F kernel_end line s;
         Some (Inr out, s) } }"

section \<open>The memory at the end of the start-up\<close>

lemma uart_line_ready:
  assumes "inp s = vs @ rest" "length vs = length (ascii msg @ crlf)" "list_all room vs"
  shows "\<exists>t. uart_line msg s = Some t \<and> inp t = rest \<and> io.more t = io.more s \<and> MMU_ACTIVE t = MMU_ACTIVE s"
proof -
  have "\<forall>v\<in>set vs. ucast v AND (push_bit 5 1 :: u32) = 0" using assms(3) by (simp add: list_all_iff room_def)
  from uart_puts_returns [OF assms(1,2) this] obtain t where "uart_line msg s = Some t" "inp t = rest"
    by (auto simp: uart_line_def)
  with uart_puts_step [of "ascii msg @ crlf" s t] show ?thesis by (auto simp: uart_line_def uart_step_def)
qed

text \<open>What the rest of the record holds does not depend on the machine part.\<close>

lemma more_tables:
  fixes s t :: "'a mmu_scheme"
  assumes "io.more t = io.more s"
  shows "pt_inv t = pt_inv s" "desc_at t = desc_at s"
proof -
  have "mem t = mem s" "bitmap t = bitmap s" "phys_mem_start t = phys_mem_start s" "total_frames t = total_frames s"
    "l1_table t = l1_table s" using assms by (cases s; cases t; simp)+
  from same_tables [OF this] show "pt_inv t = pt_inv s" "desc_at t = desc_at s" by simp_all
qed

lemma heap_inv_start: "pt_inv s \<Longrightarrow> heap_inv (kheap_init s)"
proof -
  assume "pt_inv s"
  then have p: "pt_inv (kheap_init s)" by (simp add: kheap_init_def same_tables [of "kheap_init s" s])
  have b: "bump_ptr (kheap_init s) = HEAP_BASE" "heap_end (kheap_init s) = HEAP_BASE" by (simp_all add: kheap_init_def)
  have "heap_geom (kheap_init s)" by (rule heap_geomI [where n = 0]) (simp_all add: b p unat_HEAP)
  then show ?thesis by (simp add: heap_inv_def b unat_HEAP)
qed

lemma more_heap:
  fixes s t :: "'a heap_scheme"
  assumes "io.more t = io.more s"
  shows "heap_inv t = heap_inv s" "bump_ptr t = bump_ptr s"
proof -
  have f: "mem t = mem s" "bitmap t = bitmap s" "phys_mem_start t = phys_mem_start s" "total_frames t = total_frames s"
    "l1_table t = l1_table s" "bump_ptr t = bump_ptr s" "heap_end t = heap_end s"
    using assms by (cases s; cases t; simp)+
  note e = same_tables [OF f(1-5)]
  show "heap_inv t = heap_inv s" "bump_ptr t = bump_ptr s"
    by (simp_all add: heap_inv_def heap_geom_def window_def backed_def page_frame_def e f)
qed

text \<open>C40: the first part of \<open>kernel_main\<close>, up to the heap, returns if the UART always has room and leaves what
  the rest builds on: the MMU on with RAM and devices mapped to themselves, page tables in order, and a
  heap that is empty and satisfies its invariant.\<close>

theorem boot_memory_ready:
  assumes "crt_init ctors s = Some s0" "0x80000 \<le> unat kernel_end" "unat kernel_end \<le> 0x3F000000"
    and "inp s0 = vs @ sctlr # ws @ rest" "length vs = 84" "length ws = 72" "list_all room vs" "list_all room ws"
  shows "\<exists>t. boot_memory ctors kernel_end s = Some t \<and> inp t = rest \<and> MMU_ACTIVE t \<and> heap_inv t
    \<and> bump_ptr t = HEAP_BASE
    \<and> (\<forall>a. unat a < 2 ^ 39 \<longrightarrow> fst (translate a t) = (if unat a < 0x3F800000 \<or> device_page a then a else NOT 0))"
proof -
  have len: "length (ascii ''UART successfully initialized.'' @ crlf) = 32"
    "length (ascii ''Global/static constructors executed (.init_array).'' @ crlf) = 52"
    "length (ascii ''Page Frame Allocator and MMU initialized.'' @ crlf) = 43"
    "length (ascii ''Heap allocator initialized.'' @ crlf) = 29"
    by (simp_all add: ascii_def crlf_def)
  then have lens: "length (take 32 vs) = length (ascii ''UART successfully initialized.'' @ crlf)"
    "length (drop 32 vs) = length (ascii ''Global/static constructors executed (.init_array).'' @ crlf)"
    "length (take 43 ws) = length (ascii ''Page Frame Allocator and MMU initialized.'' @ crlf)"
    "length (drop 43 ws) = length (ascii ''Heap allocator initialized.'' @ crlf)"
    using assms(5,6) by (simp_all del: length_append)
  have rm: "list_all room (take n vs)" "list_all room (drop n vs)" "list_all room (take n ws)" "list_all room (drop n ws)" for n
    using assms(7,8) by (auto simp: list_all_iff dest: in_set_takeD in_set_dropD)
  define s1 where "s1 = uart_init s0"
  have "inp s1 = take 32 vs @ (drop 32 vs @ sctlr # ws @ rest)"
    using assms(4) by (simp add: s1_def uart_init_def Let_def mmio_write_def)
  from uart_line_ready [OF this lens(1) rm(1)] obtain s2 where
    s2: "uart_line ''UART successfully initialized.'' s1 = Some s2" "inp s2 = drop 32 vs @ (sctlr # ws @ rest)"
    by blast
  from uart_line_ready [OF s2(2) lens(2) rm(2)] obtain s3 where
    s3: "uart_line ''Global/static constructors executed (.init_array).'' s2 = Some s3" "inp s3 = sctlr # ws @ rest"
    by blast
  from mmu_init_ready [OF assms(2,3) s3(2)] obtain s4 where s4: "mmu_init kernel_end s3 = Some s4" "pt_inv s4" "MMU_ACTIVE s4"
    "inp s4 = take 43 ws @ (drop 43 ws @ rest)"
    "\<And>a. unat a < 2 ^ 39 \<Longrightarrow> fst (translate a s4) = (if unat a < 0x3F800000 \<or> device_page a then a else NOT 0)"
    by auto
  from uart_line_ready [OF s4(4) lens(3) rm(3)] obtain s5 where
    s5: "uart_line ''Page Frame Allocator and MMU initialized.'' s4 = Some s5" "inp s5 = drop 43 ws @ rest"
      "io.more s5 = io.more s4" "MMU_ACTIVE s5"
    using s4(3) by blast
  define s6 where "s6 = kheap_init s5"
  have "inp s6 = drop 43 ws @ rest" using s5(2) by (simp add: s6_def kheap_init_def)
  from uart_line_ready [OF this lens(4) rm(4)] obtain t where
    t: "uart_line ''Heap allocator initialized.'' s6 = Some t" "inp t = rest" "io.more t = io.more s6" "MMU_ACTIVE t"
    using s5(4) by (auto simp: s6_def kheap_init_def)
  have p5: "pt_inv s5" "desc_at s5 = desc_at s4" using more_tables [OF s5(3)] s4(2) by simp_all
  have h: "heap_inv s6" "bump_ptr s6 = HEAP_BASE" using heap_inv_start [OF p5(1)] by (simp_all add: s6_def kheap_init_def)
  have "desc_at s6 = desc_at s5" by (simp add: s6_def kheap_init_def same_tables [of "kheap_init s5" s5])
  then have d: "desc_at t = desc_at s4" using more_tables(2) [OF t(3)] p5(2) by simp
  have it: "heap_inv t" "bump_ptr t = HEAP_BASE" using more_heap [OF t(3)] h by simp_all
  then have "pt_inv t" by (simp add: heap_inv_def heap_geom_def)
  then have "fst (translate a t) = fst (translate a s4)" for a
    using translate_eq [of t a] translate_eq [OF s4(2), of a] d by simp
  with s4(5) t it show ?thesis
    by (simp add: boot_memory_def assms(1) s2(1) s3(1) s4(1) s5(1) Let_def flip: s1_def s6_def)
qed

theorem boot_memory_ready_witness:
  "\<exists>t. boot_memory [] 0x200000 (newlib_small (replicate 84 0 @ 0x30D00800 # replicate 72 0)) = Some t
    \<and> heap_inv t \<and> fst (translate UART0_DR t) = UART0_DR"
proof -
  let ?s = "newlib_small (replicate 84 0 @ 0x30D00800 # replicate 72 0)"
  have "inp ?s = replicate 84 0 @ 0x30D00800 # replicate 72 0 @ []" by (simp add: newlib_small(2))
  from boot_memory_ready [OF _ _ _ this, of "[]" ?s "0x200000"] obtain t where
    "boot_memory [] 0x200000 ?s = Some t" "heap_inv t"
    "\<forall>a. unat a < 2 ^ 39 \<longrightarrow> fst (translate a t) = (if unat a < 0x3F800000 \<or> device_page a then a else NOT 0)"
    by (auto simp: list_all_iff room_def)
  moreover have "unat UART0_DR < 2 ^ 39" "device_page UART0_DR"
    by (simp_all add: board device_page_def in_region_def)
  ultimately show ?thesis by auto
qed

section \<open>The stacks of the other cores\<close>

text \<open>Core after core is started with the block \<open>[base, base + 4096)\<close>, the next 4 KiB of the heap, as its stack.\<close>

fun started :: "u64 \<Rightarrow> nat list \<Rightarrow> u64 \<Rightarrow> 'a heap_scheme \<Rightarrow> 'a heap_scheme \<Rightarrow> bool" where
  "started entry [] base s t \<longleftrightarrow> t = s"
| "started entry (i # is) base s t \<longleftrightarrow> (\<exists>u v r. kmalloc 4096 s = Some (Inr base, u)
     \<and> psci_cpu_on (of_nat i) entry (base + 4096) u = Some (r, v) \<and> started entry is (base + 4096) v t)"

lemma psci_ready: "inp s \<noteq> [] \<Longrightarrow> \<exists>r t. psci_cpu_on i entry c s = Some (r, t) \<and> inp t = tl (inp s) \<and> io.more t = io.more s"
  by (cases "inp s") (auto simp: psci_cpu_on_def env_read_def)

lemma more_geom:
  fixes s t :: "'a heap_scheme"
  assumes "io.more t = io.more s"
  shows "heap_geom t = heap_geom s"
proof -
  have f: "mem t = mem s" "bitmap t = bitmap s" "phys_mem_start t = phys_mem_start s" "total_frames t = total_frames s"
    "l1_table t = l1_table s" "bump_ptr t = bump_ptr s" "heap_end t = heap_end s"
    using assms by (cases s; cases t; simp)+
  show ?thesis by (simp add: heap_geom_def f same_tables [OF f(1-5)])
qed

text \<open>starting the cores ends, for every state of memory, with the heap in order; if \<open>kmalloc\<close> does not
  panic, each core has been given the top of a stack of its own, consecutive pages of the heap.\<close>

theorem start_cores_stacks:
  assumes "heap_geom s" "length is \<le> length (inp s)"
  shows "\<exists>r t. start_cores entry is s = Some (r, t) \<and> heap_geom t
    \<and> (r = Inr () \<longrightarrow> started entry is (bump_ptr s) s t \<and> unat (bump_ptr t) = unat (bump_ptr s) + 4096 * length is)"
  using assms
proof (induction "is" arbitrary: s)
  case (Cons i "is")
  obtain p u where k: "kmalloc 4096 s = Some (p, u)" "heap_geom u" "grown_by {Heap_lock, Mmu_lock, Pmm_lock} s u"
    "kmalloc_outcome 4096 s p u"
    using kmalloc_step [OF Cons.prems(1), of 4096] by fastforce
  show ?case
  proof (cases p)
    case (Inl msg)
    with k show ?thesis by simp
  next
    case (Inr base)
    then have b: "base = bump_ptr s" "unat (bump_ptr u) = unat base + 4096"
      using k(4) by (simp_all add: kmalloc_outcome_def heap_aligned_def)
    have i: "inp u \<noteq> []" using Cons.prems(2) grownD(5) [OF k(3)] by auto
    from psci_ready [OF i, of "of_nat i" entry "base + 4096"] obtain r v where
      v: "psci_cpu_on (of_nat i) entry (base + 4096) u = Some (r, v)" "inp v = tl (inp u)" "io.more v = io.more u" by blast
    have g: "heap_geom v" "bump_ptr v = bump_ptr u" using more_geom [OF v(3)] more_heap(2) [OF v(3)] k(2) by simp_all
    have "length is \<le> length (inp v)" using Cons.prems(2) grownD(5) [OF k(3)] v(2) by simp
    from Cons.IH [OF g(1) this] obtain r' t where
      t: "start_cores entry is v = Some (r', t)" "heap_geom t"
      "r' = Inr () \<longrightarrow> started entry is (bump_ptr v) v t \<and> unat (bump_ptr t) = unat (bump_ptr v) + 4096 * length is"
      by blast
    have "bump_ptr v = base + 4096"
    proof (rule word_unat_eq_iff [THEN iffD2])
      have "unat (bump_ptr u) < 2 ^ LENGTH(64)" by (rule unsigned_less)
      then have "unat base + 4096 < 2 ^ 64" using b(2) by simp
      then show "unat (bump_ptr v) = unat (base + 4096)" using b(2) g(2) by (subst unat_plus) simp_all
    qed
    with t v k(1) Inr b g(2) show ?thesis by (auto simp: Let_def)
  qed
qed simp

theorem start_cores_stacks_witness:
  "\<exists>r t. start_cores 0x80100 [1, 2, 3] (heap_small\<lparr>inp := [0, 0, 0]\<rparr>) = Some (r, t) \<and> heap_geom t"
proof -
  have g: "heap_geom (heap_small\<lparr>inp := [0, 0, 0]\<rparr>)"
    using heap_small(1) by (simp add: heap_inv_def heap_geom_def same_tables [of "heap_small\<lparr>inp := [0, 0, 0]\<rparr>" heap_small])
  have "length [1, 2, 3 :: nat] \<le> length (inp (heap_small\<lparr>inp := [0, 0, 0]\<rparr>))" by simp
  from start_cores_stacks [OF g this, of "0x80100"] show ?thesis by auto
qed

end
