(* ===== verification/Spec2Isabelle.thy ===== *)
theory Spec2Isabelle
  imports Board Mmu_Trace Spinlock Cache Refinement Fat_Volume Kernel
begin

text \<open>
  A verification library of the kernel of a game console for the Raspberry Pi 5 (BCM2712): a bare-metal
  program in C++ without an operating system below it, with the FatFs library in C on its SD card.

  \<^bold>\<open>The program.\<close> \<open>boot.S\<close> drops to EL1, clears BSS and calls \<open>kernel_main\<close> (\<open>src/kernel/kernel.cpp\<close>).
  It brings up the UART, the memory managers in the order frames, page tables, heap, DMA window, then the
  interrupt controller and the timer, the display with its terminal, the SD card and the file system,
  starts the three other cores through PSCI, and ends in the shell, which reads lines from the UART for
  ever. The layers call downwards only: the shell uses the FatFs calls, the terminal and the UART; FatFs
  uses the disk port, the disk port the SD driver, the SD driver the timer and the registers of the SDHCI
  controller; the display uses the DMA window for its mailbox buffers; DMA window, kernel heap and newlib
  heap all take frames from the frame allocator and map them with the MMU driver.

  \<^bold>\<open>The machine.\<close> What the code meets outside itself is in the record \<open>io\<close> of \<open>Machine\<close>: the list \<open>inp\<close>
  of the values that reads of devices and system registers will return, and the trace of what the code
  did to the outside (register accesses, barriers, cache and TLB operations, locks). Memory is a function from
  physical addresses in the record \<open>pmm\<close>, which extends \<open>io\<close>. A device is therefore whatever list of answers it gives; a theorem holds for
  every such list, or says which answers it assumes. Operations are in the option monad. \<open>None\<close> means that
  the run has not come back with the answers in \<open>inp\<close>: a polling loop that used them all up, or a halt. The
  loops are \<open>partial_function (option)\<close>, or recursive on the number that the C loop counts; there is no
  artificial fuel. Drivers extend the record by their static variables, so each function takes the part of
  the state that it knows and is polymorphic in the rest.

  \<^bold>\<open>Theories, and the code they model.\<close>
  \<^item> \<open>Prelude\<close>: C integer types as words (\<open>u8\<close> to \<open>u64\<close>), facts on words, lists and bits that several
    components share, the collection \<open>board\<close>. \<open>Board\<close>: the constants of \<open>include/kernel/board.h\<close>.
  \<^item> \<open>Machine\<close>: \<open>include/kernel/io.h\<close>, \<open>barrier.h\<close> and the view that single-core code has of \<open>spinlock.h\<close>.
    \<open>Spinlock\<close>: \<open>spinlock.cpp\<close> one instruction at a time on any number of cores, as an inductive step
    relation; mutual exclusion and the absence of a deadlock are invariants of its reachable states.
  \<^item> \<open>Pmm\<close>: \<open>src/kernel/pmm/pmm.cpp\<close>. The bitmap in memory against the set of free frames: first fit, the
    exact effect of each operation, the invariant.
  \<^item> \<open>Mmu\<close>, \<open>Mmu_Init\<close>, \<open>Mmu_Trace\<close>: \<open>src/kernel/mmu/mmu.cpp\<close>. Page tables in memory against the function from
    pages to descriptors: \<open>map\<close>, \<open>unmap\<close> and \<open>translate\<close> with the roll-back, isolation (only tables and
    the bitmap are written), success when frames are left, the mappings after \<open>mmu_init\<close>, and the order of
    writes, barriers and TLB invalidations.
  \<^item> \<open>Window\<close>: memory that is allocated and mapped page by page, shared by the three allocators below.
    \<open>Heap\<close>: \<open>heap_alloc.cpp\<close>. \<open>Dma\<close>: \<open>dma.h\<close>, \<open>dma.cpp\<close>. \<open>Newlib\<close>: \<open>libc_retarget.cpp\<close>. \<open>Bump\<close>: the contract they share.
  \<^item> \<open>Uart\<close>: the serial half of \<open>src/kernel/io/io.cpp\<close>. \<open>Timer\<close>: \<open>timer.cpp\<close>. \<open>Cache\<close>: \<open>cache.cpp\<close>.
    \<open>Interrupts\<close>: \<open>interrupts.cpp\<close>, the GIC and the reports of the fault handlers.
  \<^item> \<open>Render\<close>: \<open>src/display/render.cpp\<close> and the two fonts. \<open>Terminal\<close>: the terminal half of \<open>io.cpp\<close>, with
    the simulation of an abstract grid. \<open>Display\<close>: \<open>display.cpp\<close>, the mailbox and its three requests.
  \<^item> \<open>Sd\<close>, \<open>Sd_Log\<close>, \<open>Sd_Transfer\<close>, \<open>Sd_Init\<close>: \<open>src/sd/sd.cpp\<close>: the driver, what it does on the bus, the
    transfers of blocks and the identification of the card as a state machine.
    \<open>Diskio\<close>: \<open>src/kernel/fatfs_retarget/diskio.c\<close>.
  \<^item> \<open>Card\<close>: what a card stores, read off the log of the driver. \<open>Fat\<close>: the table layer of
    \<open>lib/src/fatfs/ff.c\<close> (word accesses, sector window, entries, chains). \<open>Fat_Window\<close>: a volume seen through
    the window. \<open>Fat_Table\<close>: the table as a packed array of entries. \<open>Fat_Chain\<close>: chains of clusters.
    \<open>Fat_Volume\<close>: the properties of this layer and a small volume to which they are applied.
  \<^item> \<open>Command_Line\<close>, \<open>Line_Reader\<close>, \<open>Shell\<close>: \<open>src/kernel/shell/shell.cpp\<close>, over the FatFs calls as they are
    declared in \<open>File_Api\<close>. \<open>Kernel\<close>: \<open>crt.cpp\<close> and \<open>kernel.cpp\<close>, where the components are put together.

  \<^bold>\<open>Interfaces.\<close> \<open>frame_allocator\<close> (in \<open>Pmm\<close>) is what the users of frames rely on; \<open>pmm_alloc\<close> interprets it.
  \<open>bump_allocator\<close> (in \<open>Bump\<close>) is the contract of an allocator with a moving break: blocks handed out
  one after the other do not overlap; \<open>kheap\<close>, \<open>dma_window\<close> and \<open>newlib_heap\<close> interpret it on \<open>kmalloc\<close>,
  \<open>dma_alloc\<close> and \<open>_sbrk\<close>. \<open>refinement\<close> (in \<open>Refinement\<close>) lifts a simulation from one operation to all sequences;
  \<open>terminal\<close> interprets it. \<open>block_device\<close> (in \<open>Card\<close>) says what FatFs needs of a disk: a read gives the
  bytes of the sector, a write changes that sector; \<open>sd_card\<close> interprets it on the disk port, the SD driver
  and an honest card, so the theorems on the allocation table go down to the words on the data port.

  \<^bold>\<open>Hypotheses on the environment.\<close> An honest card (\<open>honest\<close>): the words it delivers for a block are those it
  stores. A volume in order (\<open>mounted\<close>, \<open>geometry\<close>): the fields of the file system object describe one or two
  tables of \<open>fsize\<close> sectors that do not wrap around the end of the address space. The C library:
  \<open>printf\<close>, \<open>atoi\<close> and \<open>setvbuf\<close> are given by their documented results, \<open>malloc\<close> is a parameter of the
  operators \<open>new\<close> and \<open>delete\<close>. FatFs above its table layer is the record \<open>file_api\<close>, an argument of the
  shell and of the start-up; the properties about it are applied to a concrete instance.

  \<^bold>\<open>Bounds.\<close> The terminal stays inside its buffer for up to 135 rows and 240 columns, the size of that buffer,
  which the code does not check. A fault report follows at most 32 frames, so that a list of
  2300 answers ``ready'' is enough for it to end. \<open>read_line\<close> returns as soon as the answers contain a complete line.
  Sizes and addresses are words of the width that the code uses; where a sum can wrap, the theorem has the
  bound as a hypothesis and a lemma shows what happens beyond it (\<open>sbrk_wraps\<close>, for example).

  \<^bold>\<open>What is not modelled.\<close>
  \<^item> The USB stack under \<open>lib/src/circle\<close> is third-party code that nothing in the kernel calls at this commit.
  \<^item> The directory and file layer of \<open>ff.c\<close> (paths, long names, \<open>f_open\<close> and after), and the generated
    conversion tables of \<open>ffunicode.c\<close>, which are most of the lines of the repository. Of the table layer, the
    branches that \<open>ffconf.h\<close> switches off: exFAT, TRIM, sectors other than 512 bytes.
  \<^item> \<open>boot.S\<close> except its PSCI stub, \<open>vector_table.S\<close>, the linker script and the build: no C code. The table walk,
    the GIC, VideoCore and the SDHCI controller are hardware and answer from \<open>inp\<close>.
  \<^item> Two cores inside the kernel at once. Only \<open>spin_lock\<close> is treated concurrently; the other functions run
    to their end, as if each held its lock throughout.
\<close>

end
